(* ===== verification/Prelude.thy ===== *)
theory Prelude
  imports Main "HOL-Library.Word" "HOL-Library.AList" "HOL-Library.Char_ord"
    "HOL-Library.List_Lexorder" "HOL-Library.Sublist"
begin

text \<open>
  What every component shares: the error values of \<open>crates/nodal-core/src/error.rs\<close> that
  the modelled operations raise, the outcome of an effectful operation, and generic lemmas
  on lists and maps.

  An operation is a function from a state to an \<open>outcome\<close>. Rust's \<open>Result\<close> has two arms;
  an outcome has a third, \<open>Halt\<close>, for the process that stops where it stands: it was
  killed, or a statement against the registry failed and the question mark operator
  ended the function. Nothing the operation wrote after that point is run, and everything
  it wrote before is still on the disk.
\<close>

named_theorems act_simps \<open>equations of the sequencing operators and of the primitive effects\<close>

subsection \<open>Values the program shares\<close>

type_synonym path = "string list"   \<comment> \<open>the components of an absolute path\<close>
type_synonym oid = string           \<comment> \<open>a Git object id, in text form\<close>
type_synonym timestamp = int        \<comment> \<open>seconds since the epoch, as \<open>Timestamp::unix_seconds\<close>\<close>
type_synonym op_id = nat            \<comment> \<open>a ULID: its text order is the order of its 128 bits\<close>
type_synonym unit_id = nat

datatype error =
    Io path string
  | InvalidValue string string
  | Store string
  | StoreConflict string
  | StoreEncode string
  | Render string
  | OperationStep op_id string string error
  | OperationUndo op_id string string string
  | OperationVanished op_id string
  | NotARepository path
  | HomeUnmarked path
  | HomeMarkedFor path unit_id unit_id
  | HomeInUse string "nat list"
  | ProcessTableUnread string string
  | Git string
  | GitParse "string list" string
  | GitOid string
  | ExcludesTrackedPath path "path list"
  | MaterializeDestination path string
  | UnitLocked string string string string string
  | UnitNotMaterialized string
  | Panic string
  | OtherError string

datatype json =
    JNull
  | JBool bool
  | JNum int
  | JStr string
  | JArr "json list"
  | JObj "(string \<times> json) list"

subsection \<open>Outcomes\<close>

datatype ('s, 'a) outcome =
    Ret (val: 'a) (final: 's)
  | Err (raised: error) (final: 's)
  | Halt (final: 's)

type_synonym ('s, 'a) action = "'s \<Rightarrow> ('s, 'a) outcome"

definition bindA :: "('s, 'a) action \<Rightarrow> ('a \<Rightarrow> ('s, 'b) action) \<Rightarrow> ('s, 'b) action" where
  "bindA m f s = (case m s of Ret a t \<Rightarrow> f a t | Err e t \<Rightarrow> Err e t | Halt t \<Rightarrow> Halt t)"

definition retA :: "'a \<Rightarrow> ('s, 'a) action" where
  "retA a s = Ret a s"

definition raiseA :: "error \<Rightarrow> ('s, 'a) action" where
  "raiseA e s = Err e s"

text \<open>\<open>match m { Ok(a) => f a, Err(e) => h e }\<close>: a process that stopped runs neither arm.\<close>

definition matchA ::
    "('s, 'a) action \<Rightarrow> ('a \<Rightarrow> ('s, 'b) action) \<Rightarrow> (error \<Rightarrow> ('s, 'b) action) \<Rightarrow> ('s, 'b) action" where
  "matchA m f h s = (case m s of Ret a t \<Rightarrow> f a t | Err e t \<Rightarrow> h e t | Halt t \<Rightarrow> Halt t)"

lemma bindA_simps [act_simps]:
  "m s = Ret a t \<Longrightarrow> bindA m f s = f a t"
  "m s = Err e t \<Longrightarrow> bindA m f s = Err e t"
  "m s = Halt t \<Longrightarrow> bindA m f s = Halt t"
  by (simp_all add: bindA_def)

lemma matchA_simps [act_simps]:
  "m s = Ret a t \<Longrightarrow> matchA m f h s = f a t"
  "m s = Err e t \<Longrightarrow> matchA m f h s = h e t"
  "m s = Halt t \<Longrightarrow> matchA m f h s = Halt t"
  by (simp_all add: matchA_def)

lemma retA_simp [simp, act_simps]: "retA a s = Ret a s"
  by (simp add: retA_def)

lemma raiseA_simp [simp, act_simps]: "raiseA e s = Err e s"
  by (simp add: raiseA_def)

text \<open>
  The rule a proof about an operation uses: where the first part keeps \<open>P\<close> whichever way
  it ends, and the second part turns \<open>P\<close> into \<open>Q\<close>, so does the sequence.
\<close>

definition ends :: "('s, 'a) outcome \<Rightarrow> ('a \<Rightarrow> 's \<Rightarrow> bool) \<Rightarrow> (error \<Rightarrow> 's \<Rightarrow> bool) \<Rightarrow> ('s \<Rightarrow> bool) \<Rightarrow> bool" where
  "ends r Q E H \<longleftrightarrow> (case r of Ret a t \<Rightarrow> Q a t | Err e t \<Rightarrow> E e t | Halt t \<Rightarrow> H t)"

lemma ends_simps [simp]:
  "ends (Ret a t) Q E H = Q a t"
  "ends (Err e t) Q E H = E e t"
  "ends (Halt t) Q E H = H t"
  by (simp_all add: ends_def)

lemma ends_bindA:
  assumes "ends (m s) (\<lambda>a t. ends (f a t) Q E H) E H"
  shows "ends (bindA m f s) Q E H"
  using assms by (cases "m s") (simp_all add: bindA_def)

lemma ends_matchA:
  assumes "ends (m s) (\<lambda>a t. ends (f a t) Q E H) (\<lambda>e t. ends (h e t) Q E H) H"
  shows "ends (matchA m f h s) Q E H"
  using assms by (cases "m s") (simp_all add: matchA_def)

lemma ends_mono:
  assumes "ends r Q E H"
    and "\<And>a t. Q a t \<Longrightarrow> Q' a t" and "\<And>e t. E e t \<Longrightarrow> E' e t" and "\<And>t. H t \<Longrightarrow> H' t"
  shows "ends r Q' E' H'"
  using assms by (cases r) simp_all

lemma endsD:
  "ends r Q E H \<Longrightarrow> r = Ret a t \<Longrightarrow> Q a t"
  "ends r Q E H \<Longrightarrow> r = Err e t \<Longrightarrow> E e t"
  "ends r Q E H \<Longrightarrow> r = Halt t \<Longrightarrow> H t"
  by simp_all

subsection \<open>Lists\<close>

lemma find_None_filter: "List.find P xs = None \<longleftrightarrow> filter P xs = []"
  by (induction xs) auto

lemma find_Some_in: "List.find P xs = Some x \<Longrightarrow> x \<in> set xs \<and> P x"
  by (induction xs) (auto split: if_splits)

lemma find_append:
  "List.find P (xs @ ys) = (case List.find P xs of Some x \<Rightarrow> Some x | None \<Rightarrow> List.find P ys)"
  by (induction xs) auto

lemma Cons_drop_nth:
  "x # xs = drop k ys \<Longrightarrow> k < length ys \<and> x = ys ! k \<and> xs = drop (Suc k) ys"
proof -
  assume d: "x # xs = drop k ys"
  then have "k < length ys" by (metis drop_all leI list.distinct(1))
  with Cons_nth_drop_Suc [of k ys] have "x # xs = ys ! k # drop (Suc k) ys" unfolding d by simp
  with \<open>k < length ys\<close> show ?thesis by simp
qed

lemma sort_key_empty_iff [simp]: "sort_key f xs = [] \<longleftrightarrow> xs = []"
  by (metis length_0_conv length_sort)

text \<open>The first element of a list sorted by a key has the least key.\<close>

lemma sort_key_hd_least:
  "xs \<noteq> [] \<Longrightarrow> y \<in> set xs \<Longrightarrow> f (hd (sort_key f xs)) \<le> f y"
proof -
  assume "xs \<noteq> []" and y: "y \<in> set xs"
  then obtain z zs where s: "sort_key f xs = z # zs" by (cases "sort_key f xs") auto
  have "sorted (map f (z # zs))" using sorted_sort_key [of f xs] s by simp
  moreover have "y \<in> set (z # zs)" using y s by (metis set_sort)
  ultimately show ?thesis using s by auto
qed

subsection \<open>Text\<close>

text \<open>A machine number as the decimal text \<open>Display\<close> prints.\<close>

fun dec :: "nat \<Rightarrow> string" where
  "dec n = (if n < 10 then [char_of (48 + n)] else dec (n div 10) @ [char_of (48 + n mod 10)])"

declare dec.simps [simp del]

text \<open>\<open>items.join(sep)\<close>.\<close>

fun join :: "string \<Rightarrow> string list \<Rightarrow> string" where
  "join sep [] = []"
| "join sep [x] = x"
| "join sep (x # y # xs) = x @ sep @ join sep (y # xs)"

text \<open>The white space \<open>str::trim\<close> takes away, for the characters of one byte below 128.\<close>

definition is_space :: "char \<Rightarrow> bool" where
  "is_space c \<longleftrightarrow> c \<in> {CHR '' '', CHR 0x09, CHR 0x0A, CHR 0x0B, CHR 0x0C, CHR 0x0D}"

definition trim_start :: "string \<Rightarrow> string" where
  "trim_start s = dropWhile is_space s"

definition trim :: "string \<Rightarrow> string" where
  "trim s = rev (dropWhile is_space (rev (trim_start s)))"

fun split_once :: "char \<Rightarrow> string \<Rightarrow> (string \<times> string) option" where
  "split_once c [] = None"
| "split_once c (x # xs) =
     (if x = c then Some ([], xs) else map_option (\<lambda>(a, b). (x # a, b)) (split_once c xs))"

text \<open>\<open>splitn(n, c)\<close>: at most \<open>n\<close> parts, the last with whatever is left. \<open>split(c)\<close>: every part.\<close>

fun splitn :: "nat \<Rightarrow> char \<Rightarrow> string \<Rightarrow> string list" where
  "splitn 0 c s = []"
| "splitn (Suc 0) c s = [s]"
| "splitn (Suc (Suc n)) c s =
     (case split_once c s of None \<Rightarrow> [s] | Some (a, b) \<Rightarrow> a # splitn (Suc n) c b)"

fun split_char :: "char \<Rightarrow> string \<Rightarrow> string list" where
  "split_char c [] = [[]]"
| "split_char c (x # xs) =
     (if x = c then [] # split_char c xs
      else case split_char c xs of [] \<Rightarrow> [[x]] | p # ps \<Rightarrow> (x # p) # ps)"

lemma split_once_append [simp]: "c \<notin> set a \<Longrightarrow> split_once c (a @ c # b) = Some (a, b)"
  by (induction a) auto

lemma split_once_None [simp]: "c \<notin> set a \<Longrightarrow> split_once c a = None"
  by (induction a) auto

lemma split_char_none: "c \<notin> set a \<Longrightarrow> split_char c a = [a]"
  by (induction a) auto

lemma split_char_append: "c \<notin> set a \<Longrightarrow> split_char c (a @ c # b) = a # split_char c b"
  by (induction a) (auto split: list.split)

text \<open>\<open>u32::from_str\<close>: an optional plus sign, then digits, within the width.\<close>

definition is_digit :: "char \<Rightarrow> bool" where
  "is_digit c \<longleftrightarrow> 48 \<le> (of_char c :: nat) \<and> (of_char c :: nat) \<le> 57"

definition digits_value :: "string \<Rightarrow> nat" where
  "digits_value ds = fold (\<lambda>c n. 10 * n + (of_char c - 48)) ds 0"

definition parse_nat :: "nat \<Rightarrow> string \<Rightarrow> nat option" where
  "parse_nat bound s =
     (let ds = (case s of c # rest \<Rightarrow> if c = CHR ''+'' then rest else s | [] \<Rightarrow> s)
      in if ds \<noteq> [] \<and> list_all is_digit ds \<and> digits_value ds < bound then Some (digits_value ds) else None)"

lemma is_digit_dec [simp]: "n < 10 \<Longrightarrow> is_digit (char_of (48 + n :: nat))"
  by (simp add: is_digit_def)

lemma dec_digits: "dec n \<noteq> [] \<and> list_all is_digit (dec n) \<and> digits_value (dec n) = n"
proof (induction n rule: dec.induct)
  case (1 n)
  show ?case
  proof (cases "n < 10")
    case True
    then show ?thesis by (simp add: dec.simps [of n] digits_value_def)
  next
    case False
    have "n mod 10 < 10" by simp
    with False 1 show ?thesis
      by (simp add: dec.simps [of n] digits_value_def)
  qed
qed

lemma digit_not_plus: "is_digit c \<Longrightarrow> c \<noteq> CHR ''+'' \<and> c \<noteq> CHR '' ''"
  by (auto simp: is_digit_def)

lemma parse_dec [simp]: "n < bound \<Longrightarrow> parse_nat bound (dec n) = Some n"
  using dec_digits [of n] digit_not_plus by (cases "dec n") (auto simp: parse_nat_def)

lemma space_notin_dec [simp]: "CHR '' '' \<notin> set (dec n)"
  using dec_digits [of n] digit_not_plus by (auto simp: list_all_iff)

end
