(* ===== verification/Steps.thy ===== *)
theory Steps
  imports Prelude
begin

text \<open>
  \<open>lifecycle/step.rs\<close>: what an operation is made of. A \<open>Plan\<close> is a list of idempotent
  steps, each with the change that takes it back, and the registry write that ends the
  operation. The steps act on the disk, the containers and the processes of the machine,
  which is the world \<open>'w\<close>; the commit acts on the registry rows \<open>'r\<close>.

  A step that is interrupted part-way leaves a world of its own choosing, \<open>step_torn\<close> and
  \<open>undo_torn\<close>: the trait says that \<open>apply\<close> must accept a world it has already changed and
  \<open>undo\<close> a world it never changed, and says nothing of how far an interrupted one got.
\<close>

subsection \<open>Outputs\<close>

definition nothing :: json where
  "nothing = JNull"

fun is_null :: "json \<Rightarrow> bool" where
  "is_null JNull = True"
| "is_null _ = False"

type_synonym outputs = "string \<rightharpoonup> json"

definition outputs_record :: "outputs \<Rightarrow> string \<Rightarrow> json \<Rightarrow> outputs" where
  "outputs_record m key out = (if is_null out then m else m(key \<mapsto> out))"

text \<open>\<open>decode\<close> stands for \<open>serde_json::from_value\<close> at the type the commit asks for.\<close>

definition outputs_read ::
    "(json \<Rightarrow> 'a option) \<Rightarrow> outputs \<Rightarrow> string \<Rightarrow> error + 'a option" where
  "outputs_read decode m key =
     (case m key of
        None \<Rightarrow> Inr None
      | Some value \<Rightarrow>
          (case decode value of
             Some a \<Rightarrow> Inr (Some a)
           | None \<Rightarrow> Inl (InvalidValue ''step output'' key)))"

subsection \<open>Steps and plans\<close>

record 'w step =
  step_key :: string
  step_apply :: "'w \<Rightarrow> (error + json) \<times> 'w"
  step_undo :: "'w \<Rightarrow> error option \<times> 'w"
  step_torn :: "'w \<Rightarrow> 'w"
  undo_torn :: "'w \<Rightarrow> 'w"

datatype recovery = Resume | RollBack

record records =
  rec_unit :: unit_id
  rec_home :: path

record ('w, 'r) plan =
  plan_kind :: string
  plan_subject :: string
  plan_params :: json
  plan_recovery :: recovery
  plan_steps :: "'w step list"
  plan_commit :: "'r \<Rightarrow> outputs \<Rightarrow> error + (json \<times> 'r)"
  plan_records :: "records option"

definition new_plan ::
    "string \<Rightarrow> string \<Rightarrow> json \<Rightarrow> ('r \<Rightarrow> outputs \<Rightarrow> error + (json \<times> 'r)) \<Rightarrow> ('w, 'r) plan" where
  "new_plan kind subject params commit =
     \<lparr>plan_kind = kind, plan_subject = subject, plan_params = params,
      plan_recovery = RollBack, plan_steps = [], plan_commit = commit, plan_records = None\<rparr>"

definition then_step :: "('w, 'r) plan \<Rightarrow> 'w step \<Rightarrow> ('w, 'r) plan" where
  "then_step p s = p\<lparr>plan_steps := plan_steps p @ [s]\<rparr>"

definition recording :: "('w, 'r) plan \<Rightarrow> unit_id \<Rightarrow> path \<Rightarrow> ('w, 'r) plan" where
  "recording p u home = p\<lparr>plan_records := Some \<lparr>rec_unit = u, rec_home = home\<rparr>\<rparr>"

definition recovering :: "('w, 'r) plan \<Rightarrow> recovery \<Rightarrow> ('w, 'r) plan" where
  "recovering p r = p\<lparr>plan_recovery := r\<rparr>"

definition keys :: "('w, 'r) plan \<Rightarrow> string list" where
  "keys p = map step_key (plan_steps p)"

lemma keys_then_step [simp]: "keys (then_step p s) = keys p @ [step_key s]"
  by (simp add: keys_def then_step_def)

lemma outputs_record_null [simp]: "outputs_record m k nothing = m"
  by (simp add: outputs_record_def nothing_def)

lemma outputs_record_other [simp]: "k \<noteq> k' \<Longrightarrow> outputs_record m k v k' = m k'"
  by (simp add: outputs_record_def)

lemma outputs_read_record:
  "\<not> is_null out \<Longrightarrow> decode out = Some a
     \<Longrightarrow> outputs_read decode (outputs_record m key out) key = Inr (Some a)"
  by (simp add: outputs_read_def outputs_record_def)

subsection \<open>The contract of a step\<close>

text \<open>
  What the documentation of the trait requires of every implementation, as a contract the
  runner is proved against and the modelled steps are shown to keep.

  \<open>same\<close> says which worlds an observer cannot tell apart, and \<open>ready\<close> which worlds the
  operation builds its plan for. Beside a ready world stand the worlds an attempt at the
  step can leave: untouched, torn, or applied. \<open>undo\<close> takes each of those back, an
  interrupted \<open>undo\<close> leaves another of them, and \<open>apply\<close> gives the same answer from each.
\<close>

definition touched :: "('w \<Rightarrow> 'w \<Rightarrow> bool) \<Rightarrow> 'w step \<Rightarrow> 'w \<Rightarrow> 'w \<Rightarrow> bool" where
  "touched same s w v \<longleftrightarrow> same v w \<or> same v (step_torn s w) \<or> same v (snd (step_apply s w))"

locale step_contract =
  fixes same :: "'w \<Rightarrow> 'w \<Rightarrow> bool"
    and s :: "'w step"
    and ready :: "'w \<Rightarrow> bool"
  assumes same_refl: "same w w"
    and same_trans: "same u v \<Longrightarrow> same v w \<Longrightarrow> same u w"
    and undo_takes_back:
      "ready w \<Longrightarrow> touched same s w v \<Longrightarrow> step_undo s v = (None, v') \<Longrightarrow> same v' w"
    and undo_stays:
      "ready w \<Longrightarrow> touched same s w v \<Longrightarrow> step_undo s v = (Some e, v') \<Longrightarrow> touched same s w v'"
    and undo_torn_stays:
      "ready w \<Longrightarrow> touched same s w v \<Longrightarrow> touched same s w (undo_torn s v)"
begin

lemma touched_self: "touched same s w w"
  by (simp add: touched_def same_refl)

lemma touched_applied: "touched same s w (snd (step_apply s w))"
  by (simp add: touched_def same_refl)

lemma touched_torn: "touched same s w (step_torn s w)"
  by (simp add: touched_def same_refl)

lemma touched_back: "same v w \<Longrightarrow> touched same s w v"
  by (simp add: touched_def)

lemma undo_any:
  "ready w \<Longrightarrow> touched same s w v \<Longrightarrow> touched same s w (snd (step_undo s v))"
  by (cases "step_undo s v"; cases "fst (step_undo s v)")
    (auto dest: undo_takes_back undo_stays touched_back)

end

text \<open>
  A step that can also be applied again, which is what a resumed run rests on: from any
  world an attempt left, a successful \<open>apply\<close> gives the answer and the world it would have
  given the first time, and an \<open>apply\<close> that is killed leaves another of those worlds.
\<close>

locale repeatable_step = step_contract +
  assumes apply_again:
      "ready w \<Longrightarrow> touched same s w v \<Longrightarrow> step_apply s w = (Inr out, w')
         \<Longrightarrow> \<exists>v'. step_apply s v = (Inr out, v') \<and> same v' w'"
    and torn_stays: "ready w \<Longrightarrow> touched same s w v \<Longrightarrow> touched same s w (step_torn s v)"
begin

lemma apply_twice:
  assumes "ready w" and "step_apply s w = (Inr out, w')"
  shows "fst (step_apply s w') = Inr out"
proof -
  have "touched same s w w'" using assms(2) touched_applied [of w] by simp
  from apply_again [OF assms(1) this assms(2)] show ?thesis by auto
qed

end

text \<open>A contract kept wherever \<open>ready\<close> holds is kept at one world it holds of.\<close>

lemma step_contract_at:
  assumes c: "step_contract same s ready" and w: "ready w"
  shows "step_contract same s (\<lambda>v. v = w)"
proof (rule step_contract.intro)
  show "same v v" for v by (rule step_contract.same_refl [OF c])
  show "same u x" if "same u v" "same v x" for u v x using that by (rule step_contract.same_trans [OF c])
  show "same v' x" if "x = w" "touched same s x v" "step_undo s v = (None, v')" for x v v'
    using that w step_contract.undo_takes_back [OF c] by simp
  show "touched same s x v'" if "x = w" "touched same s x v" "step_undo s v = (Some e, v')" for x v v' e
    using that w step_contract.undo_stays [OF c] by simp
  show "touched same s x (undo_torn s v)" if "x = w" "touched same s x v" for x v
    using that w step_contract.undo_torn_stays [OF c] by simp
qed

lemma repeatable_step_at:
  assumes c: "repeatable_step same s ready" and w: "ready w"
  shows "repeatable_step same s (\<lambda>v. v = w)"
proof (rule repeatable_step.intro)
  have "step_contract same s ready" using c by (rule repeatable_step.axioms(1))
  then show "step_contract same s (\<lambda>v. v = w)" using w by (rule step_contract_at)
  show "repeatable_step_axioms same s (\<lambda>v. v = w)"
  proof (rule repeatable_step_axioms.intro)
    show "\<exists>v'. step_apply s v = (Inr out, v') \<and> same v' w'"
      if "x = w" "touched same s x v" "step_apply s x = (Inr out, w')" for x v out w'
      using that w repeatable_step.apply_again [OF c] by simp
    show "touched same s x (step_torn s v)" if "x = w" "touched same s x v" for x v
      using that w repeatable_step.torn_stays [OF c] by simp
  qed
qed

end
