(* ===== verification/Journal.thy ===== *)
theory Journal
  imports Steps
begin

text \<open>
  \<open>lifecycle/owner.rs\<close> and \<open>lifecycle/journal.rs\<close>: whose run an operation is, and the rows an
  operation writes about itself while it runs. The two tables of
  \<open>store/migrations/0002_journal.sql\<close> are lists of rows; every operation here is one
  statement, with the constraints of the tables (the primary keys, the reference from a
  step to its operation) as the errors they raise. A read states its order as the query
  does.
\<close>

subsection \<open>Whose run it is\<close>

record owner =
  own_host :: string
  own_pid :: nat

datatype liveness = Running | Elsewhere | Gone

datatype kill_answer = Delivered | Errno nat

definition EPERM :: nat where "EPERM = 1"

text \<open>\<open>kill\<close> is the host's answer to signal zero; the identifier is a \<open>u32\<close>.\<close>

definition is_running :: "(nat \<Rightarrow> kill_answer) \<Rightarrow> nat \<Rightarrow> bool" where
  "is_running kill pid =
     (if 2 ^ 31 \<le> pid then False
      else (case kill pid of Delivered \<Rightarrow> True | Errno e \<Rightarrow> e = EPERM))"

definition owner_state :: "(nat \<Rightarrow> kill_answer) \<Rightarrow> owner \<Rightarrow> owner \<Rightarrow> liveness" where
  "owner_state kill o1 asking =
     (if own_host o1 \<noteq> own_host asking then Elsewhere
      else if own_pid o1 = own_pid asking \<or> is_running kill (own_pid o1) then Running
      else Gone)"

lemma owner_state_self [simp]: "owner_state kill o1 o1 = Running"
  by (simp add: owner_state_def)

lemma owner_state_Gone_iff:
  "owner_state kill o1 asking = Gone \<longleftrightarrow>
     own_host o1 = own_host asking \<and> own_pid o1 \<noteq> own_pid asking \<and> \<not> is_running kill (own_pid o1)"
  by (auto simp: owner_state_def)

subsection \<open>The rows\<close>

datatype op_state = OpRunning | OpCommitted | OpRolledBack | OpFailed

datatype step_state = Applying | Applied | Undone

fun may_have_acted :: "step_state \<Rightarrow> bool" where
  "may_have_acted Applying = True"
| "may_have_acted Applied = True"
| "may_have_acted Undone = False"

record operation =
  op_ident :: op_id
  op_kind :: string
  op_subject :: string
  op_params :: json
  op_recovery :: recovery
  op_state :: op_state
  op_host :: string
  op_pid :: nat
  op_started :: timestamp
  op_ended :: "timestamp option"

definition op_owner :: "operation \<Rightarrow> owner" where
  "op_owner r = \<lparr>own_host = op_host r, own_pid = op_pid r\<rparr>"

record step_record =
  sr_position :: nat
  sr_key :: string
  sr_state :: step_state
  sr_output :: "json option"
  sr_updated :: timestamp

record journal =
  ops :: "operation list"
  step_rows :: "(op_id \<times> step_record) list"

subsection \<open>The statements\<close>

definition journal_get :: "journal \<Rightarrow> op_id \<Rightarrow> operation option" where
  "journal_get j i = List.find (\<lambda>r. op_ident r = i) (ops j)"

definition journal_start ::
    "journal \<Rightarrow> op_id \<Rightarrow> ('w, 'r) plan \<Rightarrow> owner \<Rightarrow> timestamp \<Rightarrow> error + journal" where
  "journal_start j i p o1 at =
     (if journal_get j i \<noteq> None then Inl (StoreConflict ''operation'')
      else Inr (j\<lparr>ops := ops j @ [\<lparr>op_ident = i, op_kind = plan_kind p, op_subject = plan_subject p,
             op_params = plan_params p, op_recovery = plan_recovery p, op_state = OpRunning,
             op_host = own_host o1, op_pid = own_pid o1, op_started = at, op_ended = None\<rparr>]\<rparr>))"

text \<open>\<open>COALESCE(excluded.output, operation_step.output)\<close>.\<close>

fun coalesce :: "'a option \<Rightarrow> 'a option \<Rightarrow> 'a option" where
  "coalesce (Some a) _ = Some a"
| "coalesce None b = b"

lemma coalesce_None [simp]: "coalesce a None = a"
  by (cases a) simp_all

text \<open>\<open>ON CONFLICT (operation_id, position) DO UPDATE\<close>: the row is replaced where it stands.\<close>

fun upsert_step :: "op_id \<Rightarrow> step_record \<Rightarrow> (op_id \<times> step_record) list \<Rightarrow> (op_id \<times> step_record) list" where
  "upsert_step i r [] = [(i, r)]"
| "upsert_step i r ((i', r') # rs) =
     (if i' = i \<and> sr_position r' = sr_position r
      then (i, r\<lparr>sr_output := coalesce (sr_output r) (sr_output r')\<rparr>) # rs
      else (i', r') # upsert_step i r rs)"

definition mark_step :: "journal \<Rightarrow> op_id \<Rightarrow> step_record \<Rightarrow> error + journal" where
  "mark_step j i r =
     (if journal_get j i = None then Inl (StoreConflict ''operation_step'')
      else Inr (j\<lparr>step_rows := upsert_step i r (step_rows j)\<rparr>))"

text \<open>\<open>UPDATE operation SET \<dots> WHERE id = ? AND state = 'running'\<close>, and whether it changed a row.\<close>

definition finish_row :: "op_id \<Rightarrow> op_state \<Rightarrow> timestamp \<Rightarrow> operation \<Rightarrow> operation" where
  "finish_row i st at r =
     (if op_ident r = i \<and> op_state r = OpRunning then r\<lparr>op_state := st, op_ended := Some at\<rparr> else r)"

definition journal_finish :: "journal \<Rightarrow> op_id \<Rightarrow> op_state \<Rightarrow> timestamp \<Rightarrow> journal \<times> bool" where
  "journal_finish j i st at =
     (j\<lparr>ops := map (finish_row i st at) (ops j)\<rparr>,
      length (filter (\<lambda>r. op_ident r = i \<and> op_state r = OpRunning) (ops j)) = 1)"

definition unfinished :: "journal \<Rightarrow> operation list" where
  "unfinished j = sort_key op_ident (filter (\<lambda>r. op_state r = OpRunning) (ops j))"

definition failed_runs :: "journal \<Rightarrow> string \<Rightarrow> operation list" where
  "failed_runs j kind =
     rev (sort_key op_ident (filter (\<lambda>r. op_kind r = kind \<and> op_state r = OpFailed) (ops j)))"

definition recent_runs :: "journal \<Rightarrow> nat \<Rightarrow> operation list" where
  "recent_runs j limit = take limit (rev (sort_key op_ident (filter (\<lambda>r. op_state r \<noteq> OpRunning) (ops j))))"

definition journal_steps :: "journal \<Rightarrow> op_id \<Rightarrow> step_record list" where
  "journal_steps j i = sort_key sr_position (map snd (filter (\<lambda>(i', r). i' = i) (step_rows j)))"

definition journal_outputs :: "journal \<Rightarrow> op_id \<Rightarrow> outputs" where
  "journal_outputs j i =
     fold (\<lambda>r m. case sr_output r of Some out \<Rightarrow> outputs_record m (sr_key r) out | None \<Rightarrow> m)
       (filter (\<lambda>r. sr_state r = Applied) (journal_steps j i)) Map.empty"

subsection \<open>The tables keep their keys\<close>

definition journal_wf :: "journal \<Rightarrow> bool" where
  "journal_wf j \<longleftrightarrow>
     distinct (map op_ident (ops j)) \<and>
     distinct (map (\<lambda>(i, r). (i, sr_position r)) (step_rows j)) \<and>
     (\<forall>x \<in> set (step_rows j). fst x \<in> op_ident ` set (ops j))"

text \<open>One row of the step table, by its primary key.\<close>

definition step_at :: "journal \<Rightarrow> op_id \<Rightarrow> nat \<Rightarrow> step_record option" where
  "step_at j i p = map_option snd (List.find (\<lambda>(i', r). i' = i \<and> sr_position r = p) (step_rows j))"

lemma journal_get_None: "journal_get j i = None \<longleftrightarrow> i \<notin> op_ident ` set (ops j)"
  by (auto simp: journal_get_def find_None_iff)

lemma journal_get_Some: "journal_get j i = Some r \<Longrightarrow> r \<in> set (ops j) \<and> op_ident r = i"
  unfolding journal_get_def by (rule find_Some_in)

lemma get_start:
  "journal_start j i p o1 at = Inr j' \<Longrightarrow>
     (\<exists>r. journal_get j' i = Some r \<and> op_state r = OpRunning \<and> op_ident r = i \<and> op_recovery r = plan_recovery p
        \<and> op_kind r = plan_kind p \<and> op_owner r = o1)
     \<and> (\<forall>i'. i' \<noteq> i \<longrightarrow> journal_get j' i' = journal_get j i') \<and> step_rows j' = step_rows j"
  by (auto simp: journal_start_def journal_get_def find_append op_owner_def split: if_splits option.splits)

lemma find_map_finish:
  "List.find (\<lambda>r. op_ident r = i) (map (finish_row i' st at) rs)
     = map_option (finish_row i' st at) (List.find (\<lambda>r. op_ident r = i) rs)"
  by (induction rs) (auto simp: finish_row_def)

lemma get_finish:
  "journal_get (fst (journal_finish j i st at)) i' = map_option (finish_row i st at) (journal_get j i')"
  by (simp add: journal_get_def journal_finish_def find_map_finish)

lemma finish_ident [simp]: "op_ident (finish_row i st at r) = op_ident r"
  by (simp add: finish_row_def)

lemma count_unique_ident:
  assumes "distinct (map op_ident rs)"
  shows "length (filter (\<lambda>r. op_ident r = i \<and> P r) rs) =
    (case List.find (\<lambda>r. op_ident r = i) rs of Some r \<Rightarrow> if P r then 1 else 0 | None \<Rightarrow> 0)"
  using assms
proof (induction rs)
  case Nil
  then show ?case by simp
next
  case (Cons r rs)
  show ?case
  proof (cases "op_ident r = i")
    case True
    with Cons.prems have "filter (\<lambda>r. op_ident r = i \<and> P r) rs = []"
      by (auto simp: filter_empty_conv image_iff)
    with True show ?thesis by simp
  next
    case False
    with Cons show ?thesis by simp
  qed
qed

lemma finish_changed_iff:
  assumes "journal_wf j"
  shows "snd (journal_finish j i st at) \<longleftrightarrow> (\<exists>r. journal_get j i = Some r \<and> op_state r = OpRunning)"
  using assms count_unique_ident [of "ops j" i "\<lambda>r. op_state r = OpRunning"]
  by (auto simp: journal_wf_def journal_finish_def journal_get_def split: option.splits)

lemma step_at_upsert:
  "List.find (\<lambda>(i', r'). i' = k \<and> sr_position r' = p) (upsert_step i r rs) =
     (if k = i \<and> p = sr_position r
      then Some (i, r\<lparr>sr_output := coalesce (sr_output r)
             (Option.bind (List.find (\<lambda>(i', r'). i' = k \<and> sr_position r' = p) rs) (\<lambda>x. sr_output (snd x)))\<rparr>)
      else List.find (\<lambda>(i', r'). i' = k \<and> sr_position r' = p) rs)"
  by (induction i r rs rule: upsert_step.induct) (auto simp: step_record.surjective)

lemma set_upsert_keys:
  "(\<lambda>(i, r). (i, sr_position r)) ` set (upsert_step i r rs) =
     insert (i, sr_position r) ((\<lambda>(i, r). (i, sr_position r)) ` set rs)"
  by (induction i r rs rule: upsert_step.induct) auto

lemma distinct_upsert:
  "distinct (map (\<lambda>(i, r). (i, sr_position r)) rs)
     \<Longrightarrow> distinct (map (\<lambda>(i, r). (i, sr_position r)) (upsert_step i r rs))"
proof (induction i r rs rule: upsert_step.induct)
  case (2 i r i' r' rs)
  then show ?case
    using set_upsert_keys [of i r rs] by (auto simp: image_iff)
qed simp

text \<open>
  The read of a run's steps, by what it holds and by its order: every row of the run, in
  the order of the positions, each position once.
\<close>

lemma step_at_Some_iff:
  assumes "distinct (map (\<lambda>(i, r). (i, sr_position r)) rs)"
  shows "List.find (\<lambda>(i', r). i' = i \<and> sr_position r = p) rs = Some (k, r)
    \<longleftrightarrow> (k, r) \<in> set rs \<and> k = i \<and> sr_position r = p"
  using assms
proof (induction rs)
  case Nil
  then show ?case by simp
next
  case (Cons x rs)
  then show ?case by (cases x) (force simp: image_iff)
qed

lemma set_journal_steps:
  assumes "journal_wf j"
  shows "r \<in> set (journal_steps j i) \<longleftrightarrow> step_at j i (sr_position r) = Some r"
  using assms step_at_Some_iff [of "step_rows j" i "sr_position r" i r]
  by (auto simp: journal_wf_def journal_steps_def step_at_def image_iff dest: find_Some_in)

lemma sorted_journal_steps: "sorted (map sr_position (journal_steps j i))"
  by (simp add: journal_steps_def)

lemma fst_upsert:
  "(\<forall>x \<in> set (upsert_step i r rs). fst x \<in> A) \<longleftrightarrow> i \<in> A \<and> (\<forall>x \<in> set rs. fst x \<in> A)"
  by (induction i r rs rule: upsert_step.induct) auto

lemma mark_keeps_ops: "mark_step j i r = Inr j' \<Longrightarrow> ops j' = ops j"
  by (auto simp: mark_step_def split: if_splits)

lemma get_mark: "mark_step j i r = Inr j' \<Longrightarrow> journal_get j' = journal_get j"
  by (auto simp: mark_keeps_ops journal_get_def fun_eq_iff)

lemma mark_step_Inr:
  "mark_step j i r = Inr j' \<Longrightarrow>
     j' = j\<lparr>step_rows := upsert_step i r (step_rows j)\<rparr> \<and> i \<in> op_ident ` set (ops j)"
  by (auto simp: mark_step_def journal_get_None split: if_splits)

lemma wf_start:
  assumes "journal_wf j" and "journal_start j i p o1 at = Inr j'"
  shows "journal_wf j'"
proof -
  obtain r where "j' = j\<lparr>ops := ops j @ [r]\<rparr>" and "op_ident r = i" and "i \<notin> op_ident ` set (ops j)"
    using assms(2) by (auto simp: journal_start_def journal_get_None split: if_splits)
  then show ?thesis using assms(1) by (simp add: journal_wf_def)
qed

lemma wf_mark: "journal_wf j \<Longrightarrow> mark_step j i r = Inr j' \<Longrightarrow> journal_wf j'"
  by (drule mark_step_Inr) (simp add: journal_wf_def distinct_upsert fst_upsert)

lemma wf_finish: "journal_wf j \<Longrightarrow> journal_wf (fst (journal_finish j i st at))"
  by (simp add: journal_wf_def journal_finish_def comp_def image_image)

subsection \<open>The contract the runner uses\<close>

text \<open>Which steps of a run the journal counts as acted, and which as done.\<close>

definition acting :: "(nat \<Rightarrow> step_record option) \<Rightarrow> nat set" where
  "acting f = {p. \<exists>r. f p = Some r \<and> may_have_acted (sr_state r)}"

definition completed :: "(nat \<Rightarrow> step_record option) \<Rightarrow> nat set" where
  "completed f = {p. \<exists>r. f p = Some r \<and> sr_state r = Applied}"

locale step_table =
  fixes mark :: "'j \<Rightarrow> op_id \<Rightarrow> step_record \<Rightarrow> error + 'j"
    and at :: "'j \<Rightarrow> op_id \<Rightarrow> nat \<Rightarrow> step_record option"
    and steps :: "'j \<Rightarrow> op_id \<Rightarrow> step_record list"
    and wf :: "'j \<Rightarrow> bool"
  assumes mark_at: "wf j \<Longrightarrow> mark j i r = Inr j' \<Longrightarrow>
      at j' k = (if k = i
        then (at j i)(sr_position r \<mapsto>
               r\<lparr>sr_output := coalesce (sr_output r) (Option.bind (at j i (sr_position r)) sr_output)\<rparr>)
        else at j k)"
    and mark_wf: "wf j \<Longrightarrow> mark j i r = Inr j' \<Longrightarrow> wf j'"
    and steps_at: "wf j \<Longrightarrow> r \<in> set (steps j i) \<longleftrightarrow> at j i (sr_position r) = Some r"
    and at_position: "at j i p = Some r \<Longrightarrow> sr_position r = p"
begin

lemma mark_other_run: "wf j \<Longrightarrow> mark j i r = Inr j' \<Longrightarrow> k \<noteq> i \<Longrightarrow> at j' k = at j k"
  by (simp add: mark_at)

lemma acting_mark:
  "wf j \<Longrightarrow> mark j i r = Inr j' \<Longrightarrow>
     acting (at j' i) = (if may_have_acted (sr_state r) then insert (sr_position r) (acting (at j i))
                         else acting (at j i) - {sr_position r})"
  by (auto simp: mark_at acting_def split: if_splits)

lemma completed_mark:
  "wf j \<Longrightarrow> mark j i r = Inr j' \<Longrightarrow>
     completed (at j' i) = (if sr_state r = Applied then insert (sr_position r) (completed (at j i))
                           else completed (at j i) - {sr_position r})"
  by (auto simp: mark_at completed_def split: if_splits)

lemma acted_rows:
  "wf j \<Longrightarrow> (\<exists>r \<in> set (filter (\<lambda>r. may_have_acted (sr_state r)) (steps j i)). sr_position r = p)
     \<longleftrightarrow> p \<in> acting (at j i)"
  by (auto simp: steps_at acting_def dest: at_position)

lemma applied_rows:
  assumes "wf j"
  shows "(p, k) \<in> set (map (\<lambda>r. (sr_position r, sr_key r)) (filter (\<lambda>r. sr_state r = Applied) (steps j i)))
     \<longleftrightarrow> (\<exists>r. at j i p = Some r \<and> sr_state r = Applied \<and> sr_key r = k)"
proof -
  have "(p, k) \<in> set (map (\<lambda>r. (sr_position r, sr_key r)) (filter (\<lambda>r. sr_state r = Applied) (steps j i)))
     \<longleftrightarrow> (\<exists>r \<in> set (steps j i). sr_state r = Applied \<and> sr_position r = p \<and> sr_key r = k)"
    by auto
  also have "\<dots> \<longleftrightarrow> (\<exists>r. at j i p = Some r \<and> sr_state r = Applied \<and> sr_key r = k)"
    using steps_at [OF assms] at_position by metis
  finally show ?thesis .
qed

end

lemma step_at_position: "step_at j i p = Some r \<Longrightarrow> sr_position r = p"
  by (auto simp: step_at_def dest!: find_Some_in)

lemma step_at_mark_row:
  assumes "mark_step j i r = Inr j'"
  shows "step_at j' k p = (if k = i \<and> p = sr_position r
      then Some (r\<lparr>sr_output := coalesce (sr_output r) (Option.bind (step_at j i p) sr_output)\<rparr>)
      else step_at j k p)"
proof -
  have "step_rows j' = upsert_step i r (step_rows j)"
    using mark_step_Inr [OF assms] by simp
  then show ?thesis
    by (cases "k = i \<and> p = sr_position r")
      (auto simp add: step_at_def step_at_upsert bind_map_option comp_def)
qed

lemma step_at_mark:
  "mark_step j i r = Inr j' \<Longrightarrow> step_at j' k = (if k = i
      then (step_at j i)(sr_position r \<mapsto>
             r\<lparr>sr_output := coalesce (sr_output r) (Option.bind (step_at j i (sr_position r)) sr_output)\<rparr>)
      else step_at j k)"
  by (rule ext) (simp add: step_at_mark_row)

interpretation jt: step_table mark_step step_at journal_steps journal_wf
  by unfold_locales (simp_all add: step_at_mark wf_mark set_journal_steps step_at_position)

end
