(* ===== verification/Runner.thy ===== *)
theory Runner
  imports Journal
begin

text \<open>
  \<open>lifecycle/mod.rs\<close>: run a plan, and clean up after one that never finished.

  The state is the machine's world, the registry rows, the journal, the clock, and how many
  more effects this process makes before it stops: \<open>life\<close>. Every durable effect (a journal
  statement, a step, a transaction) spends one; a step spends two, and a process whose last
  effect falls inside one leaves the step's torn world. So one definition describes the run
  that finishes and every run that is killed between or inside two effects.
\<close>

record ('w, 'r) sys =
  world :: 'w
  rows :: 'r
  jnl :: journal
  clock :: timestamp
  life :: nat

text \<open>
  What the host answers: the existence of a process, the repository reads a record needs,
  the text of an error, and the ref a record goes on. \<open>snapshot\<close> is \<open>Git::snapshot\<close>.
\<close>

record 'w host =
  h_owner :: owner
  h_kill :: "nat \<Rightarrow> kill_answer"
  h_is_dir :: "'w \<Rightarrow> path \<Rightarrow> bool"
  h_opens :: "'w \<Rightarrow> path \<Rightarrow> bool"
  h_snapshot :: "'w \<Rightarrow> path \<Rightarrow> string \<Rightarrow> string \<Rightarrow> (error + oid option) \<times> 'w"
  h_render :: "error \<Rightarrow> string"
  h_ulid :: "nat \<Rightarrow> string"

subsection \<open>Effects\<close>

definition spend :: "(('w, 'r) sys, unit) action" where
  "spend s = (if life s = 0 then Halt s else Ret () (s\<lparr>life := life s - 1\<rparr>))"

definition do_apply :: "'w step \<Rightarrow> (('w, 'r) sys, json) action" where
  "do_apply st s =
     (if life s = 0 then Halt s
      else if life s = 1 then Halt (s\<lparr>world := step_torn st (world s), life := 0\<rparr>)
      else (case step_apply st (world s) of
              (Inr out, w) \<Rightarrow> Ret out (s\<lparr>world := w, life := life s - 2\<rparr>)
            | (Inl e, w) \<Rightarrow> Err e (s\<lparr>world := w, life := life s - 2\<rparr>)))"

definition do_undo :: "'w step \<Rightarrow> (('w, 'r) sys, unit) action" where
  "do_undo st s =
     (if life s = 0 then Halt s
      else if life s = 1 then Halt (s\<lparr>world := undo_torn st (world s), life := 0\<rparr>)
      else (case step_undo st (world s) of
              (None, w) \<Rightarrow> Ret () (s\<lparr>world := w, life := life s - 2\<rparr>)
            | (Some e, w) \<Rightarrow> Err e (s\<lparr>world := w, life := life s - 2\<rparr>)))"

definition start_run :: "'w host \<Rightarrow> op_id \<Rightarrow> ('w, 'r) plan \<Rightarrow> (('w, 'r) sys, unit) action" where
  "start_run h i p = bindA spend (\<lambda>_ s.
     case journal_start (jnl s) i p (h_owner h) (clock s) of
       Inl e \<Rightarrow> Err e s
     | Inr j \<Rightarrow> Ret () (s\<lparr>jnl := j\<rparr>))"

definition position_of :: "nat \<Rightarrow> (('w, 'r) sys, nat) action" where
  "position_of index = (if index < 2 ^ 32 then retA index else raiseA (StoreEncode ''step position''))"

definition mark ::
    "op_id \<Rightarrow> nat \<Rightarrow> string \<Rightarrow> step_state \<Rightarrow> json option \<Rightarrow> (('w, 'r) sys, unit) action" where
  "mark i position key st out = bindA spend (\<lambda>_ s.
     case mark_step (jnl s) i
            \<lparr>sr_position = position, sr_key = key, sr_state = st,
             sr_output = (case out of Some v \<Rightarrow> if is_null v then None else Some v | None \<Rightarrow> None),
             sr_updated = clock s\<rparr> of
       Inl e \<Rightarrow> Err e s
     | Inr j \<Rightarrow> Ret () (s\<lparr>jnl := j\<rparr>))"

definition close_run :: "op_id \<Rightarrow> string \<Rightarrow> op_state \<Rightarrow> (('w, 'r) sys, unit) action" where
  "close_run i kind st = bindA spend (\<lambda>_ s.
     case journal_finish (jnl s) i st (clock s) of
       (j, True) \<Rightarrow> Ret () (s\<lparr>jnl := j\<rparr>)
     | (j, False) \<Rightarrow> Err (OperationVanished i kind) (s\<lparr>jnl := j\<rparr>))"

text \<open>One transaction: the commit's rows and the move to \<open>committed\<close> land together or not at all.\<close>

definition commit_run :: "op_id \<Rightarrow> ('w, 'r) plan \<Rightarrow> outputs \<Rightarrow> (('w, 'r) sys, json) action" where
  "commit_run i p outs = bindA spend (\<lambda>_ s.
     case plan_commit p (rows s) outs of
       Inl e \<Rightarrow> Err e s
     | Inr (committed, r) \<Rightarrow>
         (case journal_finish (jnl s) i OpCommitted (clock s) of
            (j, True) \<Rightarrow> Ret committed (s\<lparr>rows := r, jnl := j\<rparr>)
          | (j, False) \<Rightarrow> Err (OperationVanished i (plan_kind p)) s))"

subsection \<open>Taking steps back\<close>

datatype undone = AllUndone "string list" | StoppedAt string string

definition acted_positions :: "journal \<Rightarrow> op_id \<Rightarrow> step_record list" where
  "acted_positions j i = filter (\<lambda>r. may_have_acted (sr_state r)) (journal_steps j i)"

definition applied_keys :: "journal \<Rightarrow> op_id \<Rightarrow> (nat \<times> string) list" where
  "applied_keys j i =
     map (\<lambda>r. (sr_position r, sr_key r)) (filter (\<lambda>r. sr_state r = Applied) (journal_steps j i))"

fun undo_loop ::
    "'w host \<Rightarrow> op_id \<Rightarrow> step_record list \<Rightarrow> (nat \<times> 'w step) list \<Rightarrow> string list
       \<Rightarrow> (('w, 'r) sys, undone) action" where
  "undo_loop h i acted [] undone = retA (AllUndone undone)"
| "undo_loop h i acted ((index, st) # rest) undone = bindA (position_of index) (\<lambda>position.
     if \<not> list_ex (\<lambda>r. sr_position r = position) acted then undo_loop h i acted rest undone
     else matchA (do_undo st)
       (\<lambda>_. bindA (mark i position (step_key st) Undone None)
          (\<lambda>_. undo_loop h i acted rest (undone @ [step_key st])))
       (\<lambda>source. retA (StoppedAt (step_key st) (h_render h source))))"

definition undo_steps :: "'w host \<Rightarrow> op_id \<Rightarrow> ('w, 'r) plan \<Rightarrow> (('w, 'r) sys, undone) action" where
  "undo_steps h i p s =
     undo_loop h i (acted_positions (jnl s) i) (rev (enumerate 0 (plan_steps p))) [] s"

definition undo_applied :: "'w host \<Rightarrow> op_id \<Rightarrow> ('w, 'r) plan \<Rightarrow> (('w, 'r) sys, unit) action" where
  "undo_applied h i p = bindA (undo_steps h i p) (\<lambda>u.
     case u of
       AllUndone _ \<Rightarrow> close_run i (plan_kind p) OpRolledBack
     | StoppedAt key why \<Rightarrow>
         bindA (close_run i (plan_kind p) OpFailed)
           (\<lambda>_. raiseA (OperationUndo i (plan_kind p) key why)))"

subsection \<open>Running a plan\<close>

definition record_home ::
    "'w host \<Rightarrow> ('w, 'r) plan \<Rightarrow> op_id \<Rightarrow> (('w, 'r) sys, string option) action" where
  "record_home h p i s =
     (case plan_records p of
        None \<Rightarrow> Ret None s
      | Some r \<Rightarrow>
          if \<not> h_is_dir h (world s) (rec_home r) then Ret None s
          else if \<not> h_opens h (world s) (rec_home r) then Ret None s
          else
            let reference = ''refs/nodal/'' @ h_ulid h (rec_unit r) @ ''/pre/'' @ h_ulid h i;
                message = ''nodal: the home before '' @ plan_kind p
            in bindA spend (\<lambda>_ s.
                 case h_snapshot h (world s) (rec_home r) reference message of
                   (Inl e, w) \<Rightarrow> Err e (s\<lparr>world := w\<rparr>)
                 | (Inr oid, w) \<Rightarrow> Ret (map_option (\<lambda>_. reference) oid) (s\<lparr>world := w\<rparr>)) s)"

definition KEPT_KIND :: string where "KEPT_KIND = ''operation''"

definition keep ::
    "'w host \<Rightarrow> op_id \<Rightarrow> nat \<Rightarrow> string \<Rightarrow> error \<Rightarrow> (('w, 'r) sys, unit) action" where
  "keep h i position key why =
     bindA (mark i position key Applying (Some (JObj [(''failed'', JStr (h_render h why))])))
       (\<lambda>_. close_run i KEPT_KIND OpFailed)"

record run_done =
  done_id :: op_id
  done_record :: "string option"
  done_outputs :: outputs
  done_committed :: json

fun run_steps ::
    "'w host \<Rightarrow> op_id \<Rightarrow> ('w, 'r) plan \<Rightarrow> nat \<Rightarrow> 'w step list \<Rightarrow> outputs
       \<Rightarrow> (('w, 'r) sys, outputs) action" where
  "run_steps h i p index [] outs = retA outs"
| "run_steps h i p index (st # rest) outs = bindA (position_of index) (\<lambda>position.
     bindA (mark i position (step_key st) Applying None) (\<lambda>_.
     matchA (do_apply st)
       (\<lambda>out. bindA (mark i position (step_key st) Applied (Some out))
          (\<lambda>_. run_steps h i p (Suc index) rest (outputs_record outs (step_key st) out)))
       (\<lambda>source. let failure = OperationStep i (plan_kind p) (step_key st) source in
          if plan_recovery p = Resume
          then bindA (keep h i position (step_key st) failure) (\<lambda>_. raiseA failure)
          else bindA (undo_applied h i p) (\<lambda>_. raiseA failure))))"

definition run :: "'w host \<Rightarrow> op_id \<Rightarrow> ('w, 'r) plan \<Rightarrow> (('w, 'r) sys, run_done) action" where
  "run h i p = bindA (start_run h i p) (\<lambda>_.
     matchA (record_home h p i)
       (\<lambda>recorded. bindA (run_steps h i p 0 (plan_steps p) Map.empty) (\<lambda>outs.
          matchA (commit_run i p outs)
            (\<lambda>committed. retA \<lparr>done_id = i, done_record = recorded, done_outputs = outs,
                              done_committed = committed\<rparr>)
            (\<lambda>source. bindA (undo_applied h i p) (\<lambda>_. raiseA source))))
       (\<lambda>why. bindA (close_run i (plan_kind p) OpFailed) (\<lambda>_. raiseA why)))"

subsection \<open>Carrying on after a failure\<close>

definition reopen_row :: "owner \<Rightarrow> op_id \<Rightarrow> operation \<Rightarrow> operation" where
  "reopen_row o1 i r =
     (if op_ident r = i \<and> op_state r = OpFailed
      then r\<lparr>op_state := OpRunning, op_ended := None, op_host := own_host o1, op_pid := own_pid o1\<rparr>
      else r)"

definition reopen :: "'w host \<Rightarrow> op_id \<Rightarrow> string \<Rightarrow> (('w, 'r) sys, unit) action" where
  "reopen h i kind = bindA spend (\<lambda>_ s.
     if length (filter (\<lambda>r. op_ident r = i \<and> op_state r = OpFailed) (ops (jnl s))) = 1
     then Ret () (s\<lparr>jnl := (jnl s)\<lparr>ops := map (reopen_row (h_owner h) i) (ops (jnl s))\<rparr>\<rparr>)
     else Err (OperationVanished i kind) s)"

fun retry_steps ::
    "'w host \<Rightarrow> op_id \<Rightarrow> ('w, 'r) plan \<Rightarrow> (nat \<times> string) list \<Rightarrow> nat \<Rightarrow> 'w step list \<Rightarrow> outputs
       \<Rightarrow> (('w, 'r) sys, outputs) action" where
  "retry_steps h i p finished index [] outs = retA outs"
| "retry_steps h i p finished index (st # rest) outs = bindA (position_of index) (\<lambda>position.
     if (position, step_key st) \<in> set finished then retry_steps h i p finished (Suc index) rest outs
     else bindA (mark i position (step_key st) Applying None) (\<lambda>_.
       matchA (do_apply st)
         (\<lambda>out. bindA (mark i position (step_key st) Applied (Some out))
            (\<lambda>_. retry_steps h i p finished (Suc index) rest (outputs_record outs (step_key st) out)))
         (\<lambda>source. let failure = OperationStep i (plan_kind p) (step_key st) source in
            bindA (keep h i position (step_key st) failure) (\<lambda>_. raiseA failure))))"

definition retry :: "'w host \<Rightarrow> op_id \<Rightarrow> ('w, 'r) plan \<Rightarrow> (('w, 'r) sys, run_done) action" where
  "retry h i p = bindA (reopen h i (plan_kind p)) (\<lambda>_ s.
     bindA (retry_steps h i p (applied_keys (jnl s) i) 0 (plan_steps p) (journal_outputs (jnl s) i))
       (\<lambda>outs. bindA (commit_run i p outs)
          (\<lambda>committed. retA \<lparr>done_id = i, done_record = None, done_outputs = outs,
                            done_committed = committed\<rparr>)) s)"

subsection \<open>Cleaning up after a run that never finished\<close>

datatype act =
    InProgress
  | OnAnotherHost
  | RolledBack "string list"
  | Resumed "string list"
  | Unknown
  | Unresolved string
  | ActFailed string string

record resolution =
  res_id :: op_id
  res_kind :: string
  res_subject :: string
  res_action :: act

type_synonym ('w, 'r) rebuild = "string \<times> (operation \<Rightarrow> error + ('w, 'r) plan)"

definition roll_back :: "'w host \<Rightarrow> op_id \<Rightarrow> ('w, 'r) plan \<Rightarrow> (('w, 'r) sys, act) action" where
  "roll_back h i p = bindA (undo_steps h i p) (\<lambda>u.
     case u of
       AllUndone ks \<Rightarrow> bindA (close_run i (plan_kind p) OpRolledBack) (\<lambda>_. retA (RolledBack ks))
     | StoppedAt key why \<Rightarrow>
         bindA (close_run i (plan_kind p) OpFailed) (\<lambda>_. retA (ActFailed key why)))"

fun resume_steps ::
    "'w host \<Rightarrow> op_id \<Rightarrow> ('w, 'r) plan \<Rightarrow> (nat \<times> string) list \<Rightarrow> nat \<Rightarrow> 'w step list \<Rightarrow> outputs
       \<Rightarrow> string list \<Rightarrow> (('w, 'r) sys, outputs \<times> string list) action" where
  "resume_steps h i p finished index [] outs applied = retA (outs, applied)"
| "resume_steps h i p finished index (st # rest) outs applied = bindA (position_of index) (\<lambda>position.
     if (position, step_key st) \<in> set finished
     then resume_steps h i p finished (Suc index) rest outs applied
     else bindA (mark i position (step_key st) Applying None) (\<lambda>_.
       matchA (do_apply st)
         (\<lambda>out. bindA (mark i position (step_key st) Applied (Some out))
            (\<lambda>_. resume_steps h i p finished (Suc index) rest (outputs_record outs (step_key st) out)
                   (applied @ [step_key st])))
         (\<lambda>source. raiseA (OperationStep i (plan_kind p) (step_key st) source))))"

definition resume :: "'w host \<Rightarrow> op_id \<Rightarrow> ('w, 'r) plan \<Rightarrow> (('w, 'r) sys, act) action" where
  "resume h i p s =
     bindA (resume_steps h i p (applied_keys (jnl s) i) 0 (plan_steps p) (journal_outputs (jnl s) i) [])
       (\<lambda>(outs, applied). bindA (commit_run i p outs) (\<lambda>_. retA (Resumed applied))) s"

definition take_over ::
    "'w host \<Rightarrow> operation \<Rightarrow> ('w, 'r) rebuild list \<Rightarrow> (('w, 'r) sys, act) action" where
  "take_over h r rebuilders =
     (case List.find (\<lambda>entry. fst entry = op_kind r) rebuilders of
        None \<Rightarrow> retA Unknown
      | Some rebuilder \<Rightarrow>
          (case snd rebuilder r of
             Inl why \<Rightarrow> retA (Unresolved (h_render h why))
           | Inr p \<Rightarrow>
               (case op_recovery r of
                  RollBack \<Rightarrow> roll_back h (op_ident r) p
                | Resume \<Rightarrow> resume h (op_ident r) p)))"

definition resolve_one ::
    "'w host \<Rightarrow> ('w, 'r) rebuild list \<Rightarrow> operation \<Rightarrow> (('w, 'r) sys, act) action" where
  "resolve_one h rebuilders r =
     (case owner_state (h_kill h) (op_owner r) (h_owner h) of
        Running \<Rightarrow> retA InProgress
      | Elsewhere \<Rightarrow> retA OnAnotherHost
      | Gone \<Rightarrow> take_over h r rebuilders)"

fun resolve_loop ::
    "'w host \<Rightarrow> ('w, 'r) rebuild list \<Rightarrow> operation list \<Rightarrow> resolution list
       \<Rightarrow> (('w, 'r) sys, resolution list) action" where
  "resolve_loop h rebuilders [] resolutions = retA resolutions"
| "resolve_loop h rebuilders (r # rs) resolutions = bindA (resolve_one h rebuilders r) (\<lambda>a.
     resolve_loop h rebuilders rs
       (resolutions @ [\<lparr>res_id = op_ident r, res_kind = op_kind r, res_subject = op_subject r,
                        res_action = a\<rparr>]))"

definition resolve :: "'w host \<Rightarrow> ('w, 'r) rebuild list \<Rightarrow> (('w, 'r) sys, resolution list) action" where
  "resolve h rebuilders s = resolve_loop h rebuilders (unfinished (jnl s)) [] s"

fun verb :: "act \<Rightarrow> string" where
  "verb InProgress = ''in progress''"
| "verb OnAnotherHost = ''on another host''"
| "verb (RolledBack _) = ''rolled back''"
| "verb (Resumed _) = ''resumed''"
| "verb Unknown = ''unrecognised''"
| "verb (Unresolved _) = ''could not be rebuilt''"
| "verb (ActFailed _ _) = ''could not be undone''"

end
