(* ===== verification/Recovery.thy ===== *)
theory Recovery
  imports Runner
begin

text \<open>
  What a run leaves behind, whichever way it ends. The runner (\<open>lifecycle/mod.rs\<close>) is
  proved against the contract of a step (\<open>step_contract\<close>): while a run is open, the world
  is one an attempt at some prefix of the plan can leave, and the journal counts exactly
  that prefix as acted. Taking those steps back in reverse then restores the world.
\<close>

subsection \<open>The worlds of a plan\<close>

definition world_after :: "'w step list \<Rightarrow> 'w \<Rightarrow> 'w" where
  "world_after sts w = fold (\<lambda>st v. snd (step_apply st v)) sts w"

lemma world_after_snoc: "k < length sts \<Longrightarrow>
    world_after (take (Suc k) sts) w = snd (step_apply (sts ! k) (world_after (take k sts) w))"
  by (simp add: world_after_def take_Suc_conv_app_nth)

lemma world_after_Nil [simp]: "world_after [] w = w"
  by (simp add: world_after_def)

text \<open>
  Every step of the plan keeps the contract at the world the plan reaches it in, and the
  plan has no more steps than the journal can number.
\<close>

definition undoable :: "('w \<Rightarrow> 'w \<Rightarrow> bool) \<Rightarrow> 'w step list \<Rightarrow> 'w \<Rightarrow> bool" where
  "undoable same sts w0 \<longleftrightarrow> (\<forall>w. same w w) \<and> length sts \<le> 2 ^ 32 \<and>
     (\<forall>k < length sts. step_contract same (sts ! k) (\<lambda>w. w = world_after (take k sts) w0))"

definition at_step :: "('w \<Rightarrow> 'w \<Rightarrow> bool) \<Rightarrow> 'w step list \<Rightarrow> 'w \<Rightarrow> nat \<Rightarrow> 'w \<Rightarrow> bool" where
  "at_step same sts w0 m v \<longleftrightarrow>
     (case m of 0 \<Rightarrow> same v w0
      | Suc k \<Rightarrow> k < length sts \<and> touched same (sts ! k) (world_after (take k sts) w0) v)"

lemma at_step_0 [simp]: "at_step same sts w0 0 v = same v w0"
  by (simp add: at_step_def)

lemma at_step_le: "at_step same sts w0 m v \<Longrightarrow> m \<le> length sts"
  by (auto simp: at_step_def split: nat.splits)

lemma undoable_position:
  "undoable same sts w0 \<Longrightarrow> k < length sts \<Longrightarrow> position_of k = retA k"
  by (simp add: undoable_def position_of_def)

lemma undoable_contract:
  "undoable same sts w0 \<Longrightarrow> k < length sts
     \<Longrightarrow> step_contract same (sts ! k) (\<lambda>w. w = world_after (take k sts) w0)"
  by (simp add: undoable_def)

lemma at_step_same:
  assumes "undoable same sts w0" and "m \<le> length sts" and "same v (world_after (take m sts) w0)"
  shows "at_step same sts w0 m v"
proof (cases m)
  case 0
  with assms show ?thesis by simp
next
  case (Suc k)
  with assms have "same v (snd (step_apply (sts ! k) (world_after (take k sts) w0)))"
    using world_after_snoc [of k sts w0] by simp
  with assms(2) Suc show ?thesis by (simp add: at_step_def touched_def)
qed

lemma at_step_exact:
  "undoable same sts w0 \<Longrightarrow> m \<le> length sts \<Longrightarrow> at_step same sts w0 m (world_after (take m sts) w0)"
  by (rule at_step_same) (simp_all add: undoable_def)

lemma at_step_begun:
  assumes "undoable same sts w0" and "k < length sts"
    and "v = world_after (take k sts) w0 \<or> v = step_torn (sts ! k) (world_after (take k sts) w0)
         \<or> v = snd (step_apply (sts ! k) (world_after (take k sts) w0))"
  shows "at_step same sts w0 (Suc k) v"
  using assms by (auto simp: at_step_def touched_def undoable_def)

lemma at_step_undo:
  assumes "undoable same sts w0" and "at_step same sts w0 (Suc k) v"
  shows "step_undo (sts ! k) v = (None, v') \<Longrightarrow> at_step same sts w0 k v' \<and> at_step same sts w0 (Suc k) v'"
    and "step_undo (sts ! k) v = (Some e, v') \<Longrightarrow> at_step same sts w0 (Suc k) v'"
    and "at_step same sts w0 (Suc k) (undo_torn (sts ! k) v)"
proof -
  from assms(2) have k: "k < length sts" and t: "touched same (sts ! k) (world_after (take k sts) w0) v"
    by (simp_all add: at_step_def)
  note c = undoable_contract [OF assms(1) k]
  show "at_step same sts w0 k v' \<and> at_step same sts w0 (Suc k) v'"
    if "step_undo (sts ! k) v = (None, v')"
    using step_contract.undo_takes_back [OF c refl t that] k at_step_same [OF assms(1), of k v']
    by (simp add: at_step_def [of _ _ _ "Suc k"] touched_def)
  show "at_step same sts w0 (Suc k) v'" if "step_undo (sts ! k) v = (Some e, v')"
    using step_contract.undo_stays [OF c refl t that] k by (simp add: at_step_def)
  show "at_step same sts w0 (Suc k) (undo_torn (sts ! k) v)"
    using step_contract.undo_torn_stays [OF c refl t] k by (simp add: at_step_def)
qed

subsection \<open>What an open run looks like\<close>

definition open_run :: "op_id \<Rightarrow> 'r \<Rightarrow> nat set \<Rightarrow> 'w \<Rightarrow> ('w, 'r) sys \<Rightarrow> bool" where
  "open_run i r0 A w s \<longleftrightarrow>
     journal_wf (jnl s) \<and> rows s = r0 \<and> acting (step_at (jnl s) i) = A \<and> world s = w
     \<and> (\<exists>r. journal_get (jnl s) i = Some r \<and> op_state r = OpRunning)"

definition closed_run :: "op_id \<Rightarrow> op_state \<Rightarrow> 'r \<Rightarrow> nat set \<Rightarrow> 'w \<Rightarrow> ('w, 'r) sys \<Rightarrow> bool" where
  "closed_run i st r0 A w s \<longleftrightarrow>
     journal_wf (jnl s) \<and> rows s = r0 \<and> acting (step_at (jnl s) i) = A \<and> world s = w
     \<and> (\<exists>r. journal_get (jnl s) i = Some r \<and> op_state r = st)"

lemma open_run_world: "open_run i r0 A w s \<Longrightarrow> world s = w"
  by (simp add: open_run_def)

lemma open_run_life [simp]: "open_run i r0 A w (s\<lparr>life := n\<rparr>) = open_run i r0 A w s"
  by (simp add: open_run_def)

lemma open_run_set_world:
  "open_run i r0 A w s \<Longrightarrow> open_run i r0 A v (s\<lparr>world := v, life := n\<rparr>)"
  by (simp add: open_run_def)

text \<open>One lemma per effect: what it does to an open run, whichever way it ends.\<close>

lemma mark_open:
  assumes "open_run i r0 A w s"
  shows "ends (mark i pos key st out s)
    (\<lambda>_. open_run i r0 (if may_have_acted st then insert pos A else A - {pos}) w)
    (\<lambda>_ _. False) (\<lambda>t. t = s)"
proof (cases "life s")
  case 0
  then show ?thesis by (simp add: mark_def bindA_def spend_def)
next
  case (Suc n)
  let ?r = "\<lparr>sr_position = pos, sr_key = key, sr_state = st,
             sr_output = (case out of Some v \<Rightarrow> if is_null v then None else Some v | None \<Rightarrow> None),
             sr_updated = clock s\<rparr>"
  obtain r where r: "journal_get (jnl s) i = Some r" using assms by (auto simp: open_run_def)
  then obtain j where j: "mark_step (jnl s) i ?r = Inr j" by (simp add: mark_step_def)
  have wf: "journal_wf (jnl s)" using assms by (simp add: open_run_def)
  have "acting (step_at j i) = (if may_have_acted st then insert pos A else A - {pos})"
    using jt.acting_mark [OF wf j] assms by (simp add: open_run_def)
  moreover have "journal_wf j" using jt.mark_wf [OF wf j] .
  moreover have "journal_get j = journal_get (jnl s)" using get_mark [OF j] .
  ultimately show ?thesis
    using assms Suc j by (simp add: mark_def bindA_def spend_def open_run_def)
qed

lemma apply_open:
  assumes "open_run i r0 A w s"
  shows "ends (do_apply st s)
    (\<lambda>out t. step_apply st w = (Inr out, world t) \<and> open_run i r0 A (world t) t)
    (\<lambda>e t. step_apply st w = (Inl e, world t) \<and> open_run i r0 A (world t) t)
    (\<lambda>t. open_run i r0 A (world t) t \<and> (world t = w \<or> world t = step_torn st w))"
  using assms by (auto simp: do_apply_def open_run_def split: prod.splits sum.splits)

lemma undo_open:
  assumes "open_run i r0 A w s"
  shows "ends (do_undo st s)
    (\<lambda>_ t. step_undo st w = (None, world t) \<and> open_run i r0 A (world t) t)
    (\<lambda>e t. step_undo st w = (Some e, world t) \<and> open_run i r0 A (world t) t)
    (\<lambda>t. open_run i r0 A (world t) t \<and> (world t = w \<or> world t = undo_torn st w))"
  using assms by (auto simp: do_undo_def open_run_def split: prod.splits option.splits)

lemma acting_finish [simp]: "step_at (fst (journal_finish j i st at)) = step_at j"
  by (simp add: journal_finish_def step_at_def fun_eq_iff)

lemma close_open:
  assumes "open_run i r0 A w s"
  shows "ends (close_run i kind st s) (\<lambda>_. closed_run i st r0 A w) (\<lambda>_ _. False) (\<lambda>t. t = s)"
proof (cases "life s")
  case 0
  then show ?thesis by (simp add: close_run_def bindA_def spend_def)
next
  case (Suc n)
  let ?f = "journal_finish (jnl s) i st (clock s)"
  obtain r where r: "journal_get (jnl s) i = Some r" and run: "op_state r = OpRunning"
    and wf: "journal_wf (jnl s)" using assms by (auto simp: open_run_def)
  have "snd ?f" using finish_changed_iff [OF wf] r run by blast
  then obtain j where f: "?f = (j, True)" by (cases ?f) auto
  have "journal_get j i = Some (finish_row i st (clock s) r)"
    using get_finish [of "jnl s" i st "clock s" i] f r by simp
  moreover have "op_state (finish_row i st (clock s) r) = st"
    using journal_get_Some [OF r] run by (simp add: finish_row_def)
  moreover have "journal_wf j" using wf_finish [OF wf, of i st "clock s"] f by simp
  moreover have "step_at j = step_at (jnl s)" using acting_finish [of "jnl s" i st "clock s"] f by simp
  ultimately show ?thesis
    using assms Suc f by (simp add: close_run_def bindA_def spend_def open_run_def closed_run_def)
qed

lemma commit_open:
  assumes "open_run i r0 A w s"
  shows "ends (commit_run i p outs s)
    (\<lambda>out t. \<exists>r. plan_commit p r0 outs = Inr (out, r) \<and> closed_run i OpCommitted r A w t)
    (\<lambda>e t. plan_commit p r0 outs = Inl e \<and> open_run i r0 A w t) (\<lambda>t. t = s)"
proof (cases "life s")
  case 0
  then show ?thesis by (simp add: commit_run_def bindA_def spend_def)
next
  case (Suc n)
  have r0: "rows s = r0" using assms by (simp add: open_run_def)
  show ?thesis
  proof (cases "plan_commit p r0 outs")
    case (Inl e)
    then show ?thesis using assms r0 Suc by (simp add: commit_run_def bindA_def spend_def open_run_def)
  next
    case (Inr x)
    obtain out r where x: "x = (out, r)" by (cases x)
    have "ends (close_run i (plan_kind p) OpCommitted s)
        (\<lambda>_. closed_run i OpCommitted r0 A w) (\<lambda>_ _. False) (\<lambda>t. t = s)"
      by (rule close_open [OF assms])
    then show ?thesis using Inr x r0 Suc
      by (simp add: commit_run_def close_run_def bindA_def spend_def closed_run_def
            split: prod.splits bool.splits)
  qed
qed

subsection \<open>Taking an open run back\<close>

text \<open>
  An open run the runner can recover: the acted steps are a prefix of the plan, and the
  world is one the attempt at the last of them can leave.
\<close>

definition recoverable ::
    "('w \<Rightarrow> 'w \<Rightarrow> bool) \<Rightarrow> 'w step list \<Rightarrow> 'w \<Rightarrow> op_id \<Rightarrow> 'r \<Rightarrow> ('w, 'r) sys \<Rightarrow> bool" where
  "recoverable same sts w0 i r0 s \<longleftrightarrow>
     (\<exists>m. at_step same sts w0 m (world s) \<and> open_run i r0 {..<m} (world s) s)"

definition taken_back ::
    "('w \<Rightarrow> 'w \<Rightarrow> bool) \<Rightarrow> 'w \<Rightarrow> op_id \<Rightarrow> op_state \<Rightarrow> 'r \<Rightarrow> ('w, 'r) sys \<Rightarrow> bool" where
  "taken_back same w0 i st r0 s \<longleftrightarrow> same (world s) w0 \<and> closed_run i st r0 {} (world s) s"

lemma recoverableI:
  "at_step same sts w0 m w \<Longrightarrow> open_run i r0 {..<m} w s \<Longrightarrow> recoverable same sts w0 i r0 s"
  using open_run_world [of i r0 "{..<m}" w s] by (auto simp: recoverable_def)

definition undo_fails :: "('w \<Rightarrow> 'w \<Rightarrow> bool) \<Rightarrow> 'w step list \<Rightarrow> 'w \<Rightarrow> bool" where
  "undo_fails same sts w0 \<longleftrightarrow> (\<exists>k < length sts. \<exists>v e v'.
     touched same (sts ! k) (world_after (take k sts) w0) v \<and> step_undo (sts ! k) v = (Some e, v'))"

lemma undo_failsI:
  "at_step same sts w0 (Suc k) v \<Longrightarrow> step_undo (sts ! k) v = (Some e, v') \<Longrightarrow> undo_fails same sts w0"
  by (auto simp: undo_fails_def at_step_def)

lemma undo_loop_ends:
  assumes u: "undoable same sts w0"
    and "n \<le> length sts"
    and acted: "\<And>p. list_ex (\<lambda>r. sr_position r = p) acted \<longleftrightarrow> p < m0"
    and "at_step same sts w0 (min n m0) w" and "open_run i r0 {..<min n m0} w s"
  shows "ends (undo_loop h i acted (rev (enumerate 0 (take n sts))) ks s)
    (\<lambda>u t. case u of
        AllUndone _ \<Rightarrow> same (world t) w0 \<and> open_run i r0 {} (world t) t
      | StoppedAt _ _ \<Rightarrow> recoverable same sts w0 i r0 t \<and> undo_fails same sts w0)
    (\<lambda>_ _. False) (recoverable same sts w0 i r0)"
  using assms(2,4,5)
proof (induction n arbitrary: w s ks)
  case 0
  then show ?case using open_run_world [of i r0 "{}" w s] by simp
next
  case (Suc n)
  let ?E = "recoverable same sts w0 i r0"
  let ?Q = "\<lambda>u t. case u of
        AllUndone _ \<Rightarrow> same (world t) w0 \<and> open_run i r0 {} (world t) t
      | StoppedAt _ _ \<Rightarrow> ?E t \<and> undo_fails same sts w0"
  have n: "n < length sts" using Suc.prems by simp
  have split: "rev (enumerate 0 (take (Suc n) sts)) = (n, sts ! n) # rev (enumerate 0 (take n sts))"
    using n by (simp add: take_Suc_conv_app_nth enumerate_append_eq)
  have rec: "?E s" using Suc.prems(2,3) by (rule recoverableI)
  show ?case
  proof (cases "n < m0")
    case False
    then have "min (Suc n) m0 = min n m0" by simp
    then have IH: "ends (undo_loop h i acted (rev (enumerate 0 (take n sts))) ks s) ?Q (\<lambda>_ _. False) ?E"
      using Suc.IH [of w s ks] Suc.prems by simp
    show ?thesis
      unfolding split using IH rec False acted by (simp add: bindA_def undoable_position [OF u n])
  next
    case True
    then have min: "min (Suc n) m0 = Suc n" and min': "min n m0 = n" by simp_all
    have a: "at_step same sts w0 (Suc n) w" and o1: "open_run i r0 {..<Suc n} w s"
      using Suc.prems(2,3) min by simp_all
    have undo: "ends (do_undo (sts ! n) s)
        (\<lambda>_ t. ends (bindA (mark i n (step_key (sts ! n)) Undone None)
                 (\<lambda>_. undo_loop h i acted (rev (enumerate 0 (take n sts))) (ks @ [step_key (sts ! n)])) t)
               ?Q (\<lambda>_ _. False) ?E)
        (\<lambda>e t. ?E t \<and> undo_fails same sts w0) ?E"
    proof (rule ends_mono [OF undo_open [OF o1, of "sts ! n"]])
      fix t :: "('a, 'b) sys" and x :: unit
      assume t: "step_undo (sts ! n) w = (None, world t) \<and> open_run i r0 {..<Suc n} (world t) t"
      have took: "at_step same sts w0 n (world t)"
        and took2: "at_step same sts w0 (Suc n) (world t)"
        using at_step_undo(1) [OF u a] t by blast+
      have ot: "open_run i r0 {..<Suc n} (world t) t" using t by simp
      show "ends (bindA (mark i n (step_key (sts ! n)) Undone None)
                 (\<lambda>_. undo_loop h i acted (rev (enumerate 0 (take n sts))) (ks @ [step_key (sts ! n)])) t)
               ?Q (\<lambda>_ _. False) ?E"
      proof (rule ends_bindA, rule ends_mono [OF mark_open [OF ot, of n _ Undone]])
        fix t' :: "('a, 'b) sys" and x :: unit
        assume "open_run i r0 (if may_have_acted Undone then insert n {..<Suc n} else {..<Suc n} - {n})
                  (world t) t'"
        then have "open_run i r0 {..<n} (world t) t'"
          by (simp add: lessThan_Suc)
        then show "ends (undo_loop h i acted (rev (enumerate 0 (take n sts))) (ks @ [step_key (sts ! n)]) t')
               ?Q (\<lambda>_ _. False) ?E"
          using Suc.IH [of "world t" t'] took min' n by simp
      next
        show "?E u" if "u = t" for u
          using that recoverableI [OF took2 ot] by simp
      qed simp_all
    next
      show "?E t \<and> undo_fails same sts w0"
        if "step_undo (sts ! n) w = (Some e, world t) \<and> open_run i r0 {..<Suc n} (world t) t" for e t
        using that at_step_undo(2) [OF u a, of e "world t"] undo_failsI [OF a]
        by (blast intro: recoverableI)
    next
      show "?E t" if "open_run i r0 {..<Suc n} (world t) t \<and> (world t = w \<or> world t = undo_torn (sts ! n) w)" for t
        using that a at_step_undo(3) [OF u a] by (auto intro: recoverableI)
    qed
    have "ends (matchA (do_undo (sts ! n))
       (\<lambda>_. bindA (mark i n (step_key (sts ! n)) Undone None)
          (\<lambda>_. undo_loop h i acted (rev (enumerate 0 (take n sts))) (ks @ [step_key (sts ! n)])))
       (\<lambda>source. retA (StoppedAt (step_key (sts ! n)) (h_render h source))) s) ?Q (\<lambda>_ _. False) ?E"
      by (rule ends_matchA, rule ends_mono [OF undo]) simp_all
    then show ?thesis
      unfolding split using True acted rec by (simp add: bindA_def undoable_position [OF u n])
  qed
qed

lemma acted_positions_iff:
  assumes "journal_wf j"
  shows "list_ex (\<lambda>r. sr_position r = p) (acted_positions j i) \<longleftrightarrow> p \<in> acting (step_at j i)"
  using jt.acted_rows [OF assms, of i p] by (auto simp: acted_positions_def list_ex_iff)

text \<open>
  \<open>undo_steps\<close> on a run the journal left open: it takes the world back, or it stops with a
  run that can still be taken back.
\<close>

lemma undo_steps_ends:
  assumes u: "undoable same (plan_steps p) w0"
    and r: "recoverable same (plan_steps p) w0 i r0 s"
  shows "ends (undo_steps h i p s)
    (\<lambda>u t. case u of
        AllUndone _ \<Rightarrow> same (world t) w0 \<and> open_run i r0 {} (world t) t
      | StoppedAt _ _ \<Rightarrow> recoverable same (plan_steps p) w0 i r0 t
           \<and> undo_fails same (plan_steps p) w0)
    (\<lambda>_ _. False) (recoverable same (plan_steps p) w0 i r0)"
proof -
  let ?sts = "plan_steps p"
  from r obtain m where a: "at_step same ?sts w0 m (world s)" and o1: "open_run i r0 {..<m} (world s) s"
    by (auto simp: recoverable_def)
  have m: "min (length ?sts) m = m" using at_step_le [OF a] by simp
  have "journal_wf (jnl s)" and "acting (step_at (jnl s) i) = {..<m}" using o1 by (simp_all add: open_run_def)
  then have "list_ex (\<lambda>r. sr_position r = q) (acted_positions (jnl s) i) \<longleftrightarrow> q < m" for q
    by (simp add: acted_positions_iff)
  from undo_loop_ends [OF u order_refl this] a o1 m show ?thesis
    by (simp add: undo_steps_def)
qed

text \<open>How closing a run ends, from the two ways \<open>undo_steps\<close> can answer.\<close>

lemma close_taken_back:
  assumes "same (world s) w0" and "open_run i r0 {} (world s) s" and "at_step same sts w0 0 (world s)"
  shows "ends (close_run i k OpRolledBack s) (\<lambda>_. taken_back same w0 i OpRolledBack r0) (\<lambda>_ _. False)
           (recoverable same sts w0 i r0)"
proof (rule ends_mono [OF close_open [OF assms(2)]])
  fix t
  show "taken_back same w0 i OpRolledBack r0 t" if "closed_run i OpRolledBack r0 {} (world s) t"
    using that assms(1) by (auto simp: taken_back_def closed_run_def)
  show "recoverable same sts w0 i r0 t" if "t = s"
    using that assms(2,3) recoverableI [of same sts w0 0 "world s" i r0 s] by simp
qed simp

definition left_failed ::
    "('w \<Rightarrow> 'w \<Rightarrow> bool) \<Rightarrow> 'w step list \<Rightarrow> 'w \<Rightarrow> op_id \<Rightarrow> 'r \<Rightarrow> ('w, 'r) sys \<Rightarrow> bool" where
  "left_failed same sts w0 i r0 t \<longleftrightarrow>
     (\<exists>m. at_step same sts w0 m (world t) \<and> closed_run i OpFailed r0 {..<m} (world t) t)"

lemma close_failed:
  assumes "recoverable same sts w0 i r0 s"
  shows "ends (close_run i k OpFailed s)
           (\<lambda>_. left_failed same sts w0 i r0) (\<lambda>_ _. False) (recoverable same sts w0 i r0)"
proof -
  from assms obtain m where a: "at_step same sts w0 m (world s)" and o1: "open_run i r0 {..<m} (world s) s"
    by (auto simp: recoverable_def)
  show ?thesis
    by (rule ends_mono [OF close_open [OF o1]]) (use a assms in \<open>auto simp: closed_run_def left_failed_def\<close>)
qed

lemma undo_applied_ends:
  assumes "undoable same (plan_steps p) w0" and "recoverable same (plan_steps p) w0 i r0 s"
  shows "ends (undo_applied h i p s) (\<lambda>_. taken_back same w0 i OpRolledBack r0)
    (\<lambda>e t. (\<exists>k key why. e = OperationUndo i k key why) \<and> left_failed same (plan_steps p) w0 i r0 t
           \<and> undo_fails same (plan_steps p) w0)
    (recoverable same (plan_steps p) w0 i r0)"
  unfolding undo_applied_def
proof (rule ends_bindA, rule ends_mono [OF undo_steps_ends [OF assms]], goal_cases)
  case (1 a t)
  show ?case
  proof (cases a)
    case (AllUndone ks)
    with 1 show ?thesis
      using close_taken_back [of same t w0 i r0 "plan_steps p" "plan_kind p"]
      by (auto elim!: ends_mono)
  next
    case (StoppedAt key why)
    have uf: "undo_fails same (plan_steps p) w0" using 1 StoppedAt by simp
    from 1 StoppedAt have "ends (close_run i (plan_kind p) OpFailed t) (\<lambda>_. left_failed same (plan_steps p) w0 i r0)
       (\<lambda>_ _. False) (recoverable same (plan_steps p) w0 i r0)"
      by (simp add: close_failed)
    then have "ends (bindA (close_run i (plan_kind p) OpFailed)
        (\<lambda>_. raiseA (OperationUndo i (plan_kind p) key why)) t) (\<lambda>_. taken_back same w0 i OpRolledBack r0)
       (\<lambda>e t. (\<exists>k key why. e = OperationUndo i k key why) \<and> left_failed same (plan_steps p) w0 i r0 t
           \<and> undo_fails same (plan_steps p) w0)
       (recoverable same (plan_steps p) w0 i r0)"
      using uf by (auto intro!: ends_bindA elim!: ends_mono)
    with StoppedAt show ?thesis by simp
  qed
qed auto

lemma roll_back_ends:
  assumes "undoable same (plan_steps p) w0" and "recoverable same (plan_steps p) w0 i r0 s"
  shows "ends (roll_back h i p s)
    (\<lambda>a t. case a of
        RolledBack _ \<Rightarrow> taken_back same w0 i OpRolledBack r0 t
      | ActFailed _ _ \<Rightarrow> left_failed same (plan_steps p) w0 i r0 t \<and> undo_fails same (plan_steps p) w0
      | _ \<Rightarrow> False)
    (\<lambda>_ _. False) (recoverable same (plan_steps p) w0 i r0)"
  unfolding roll_back_def
proof (rule ends_bindA, rule ends_mono [OF undo_steps_ends [OF assms]], goal_cases)
  case (1 a t)
  show ?case
  proof (cases a)
    case (AllUndone ks)
    with 1 show ?thesis
      using close_taken_back [of same t w0 i r0 "plan_steps p" "plan_kind p"]
      by (auto intro!: ends_bindA elim!: ends_mono)
  next
    case (StoppedAt key why)
    have uf: "undo_fails same (plan_steps p) w0" using 1 StoppedAt by simp
    from 1 StoppedAt have "ends (close_run i (plan_kind p) OpFailed t) (\<lambda>_. left_failed same (plan_steps p) w0 i r0)
       (\<lambda>_ _. False) (recoverable same (plan_steps p) w0 i r0)"
      by (simp add: close_failed)
    with StoppedAt uf show ?thesis by (auto intro!: ends_bindA elim!: ends_mono)
  qed
qed auto

subsection \<open>Running a plan\<close>

text \<open>What a run that stops with an error has done about the steps it applied.\<close>

definition stopped_with ::
    "('w \<Rightarrow> 'w \<Rightarrow> bool) \<Rightarrow> ('w, 'r) plan \<Rightarrow> 'w \<Rightarrow> op_id \<Rightarrow> 'r \<Rightarrow> error \<Rightarrow> ('w, 'r) sys \<Rightarrow> bool" where
  "stopped_with same p w0 i r0 e t \<longleftrightarrow>
     (\<exists>key source. e = OperationStep i (plan_kind p) key source) \<and>
       (if plan_recovery p = Resume then left_failed same (plan_steps p) w0 i r0 t
        else taken_back same w0 i OpRolledBack r0 t)
     \<or> (\<exists>k key why. e = OperationUndo i k key why) \<and> left_failed same (plan_steps p) w0 i r0 t
       \<and> undo_fails same (plan_steps p) w0"

lemma keep_ends:
  assumes "open_run i r0 {..<Suc k} w s" and "at_step same sts w0 (Suc k) w"
  shows "ends (keep h i k key why s) (\<lambda>_. left_failed same sts w0 i r0) (\<lambda>_ _. False)
           (recoverable same sts w0 i r0)"
  unfolding keep_def
proof (rule ends_bindA, rule ends_mono [OF mark_open [OF assms(1)]], goal_cases)
  case (1 a t)
  then have "recoverable same sts w0 i r0 t"
    using assms(2) by (auto intro: recoverableI simp: insert_absorb)
  then show ?case by (rule close_failed)
qed (use assms in \<open>auto intro: recoverableI\<close>)

lemma run_steps_ends:
  assumes u: "undoable same (plan_steps p) w0" and "rest = drop k (plan_steps p)"
    and "k \<le> length (plan_steps p)"
    and "open_run i r0 {..<k} (world_after (take k (plan_steps p)) w0) s"
  shows "ends (run_steps h i p k rest outs s)
    (\<lambda>_. open_run i r0 {..<length (plan_steps p)} (world_after (plan_steps p) w0))
    (stopped_with same p w0 i r0) (recoverable same (plan_steps p) w0 i r0)"
  using assms(2-)
proof (induction rest arbitrary: k outs s)
  case Nil
  then show ?case by simp
next
  case (Cons st rest)
  let ?sts = "plan_steps p" and ?w = "world_after (take k (plan_steps p)) w0"
  let ?E = "recoverable same ?sts w0 i r0" and ?S = "stopped_with same p w0 i r0"
  let ?Q = "\<lambda>_. open_run i r0 {..<length ?sts} (world_after ?sts w0)"
  have k: "k < length ?sts" and st: "st = ?sts ! k" and rest: "rest = drop (Suc k) ?sts"
    using Cons_drop_nth [OF Cons.prems(1)] by simp_all
  have next_world: "world_after (take (Suc k) ?sts) w0 = snd (step_apply st ?w)"
    using world_after_snoc [OF k] st by simp
  have start: "?E s" using at_step_exact [OF u, of k] k Cons.prems(3) by (auto intro: recoverableI)
  have after_apply: "ends (do_apply st t)
      (\<lambda>out t. ends (bindA (mark i k (step_key st) Applied (Some out))
          (\<lambda>_. run_steps h i p (Suc k) rest (outputs_record outs (step_key st) out)) t) ?Q ?S ?E)
      (\<lambda>e t. ends ((let failure = OperationStep i (plan_kind p) (step_key st) e in
          if plan_recovery p = Resume
          then bindA (keep h i k (step_key st) failure) (\<lambda>_. raiseA failure)
          else bindA (undo_applied h i p) (\<lambda>_. raiseA failure)) t) ?Q ?S ?E) ?E"
    if t: "open_run i r0 {..<Suc k} ?w t" for t
  proof (rule ends_mono [OF apply_open [OF t, of st]], goal_cases)
    case (1 out t)
    then have w: "world t = world_after (take (Suc k) ?sts) w0" using next_world by simp
    show ?case
    proof (rule ends_bindA, rule ends_mono [OF mark_open [of i r0 "{..<Suc k}" "world t" t]], goal_cases)
      case (2 a t')
      then have "open_run i r0 {..<Suc k} (world_after (take (Suc k) ?sts) w0) t'"
        using w by (simp add: insert_absorb)
      then show ?case using Cons.IH [OF rest] k by simp
    next
      case (4 t')
      then show ?case using 1 w at_step_exact [OF u, of "Suc k"] k by (auto intro: recoverableI)
    qed (use 1 in simp_all)
  next
    case (2 e t)
    then have a: "at_step same ?sts w0 (Suc k) (world t)"
      using at_step_begun [OF u k, of "world t"] st by simp
    show ?case
    proof (cases "plan_recovery p = Resume")
      case True
      have "ends (keep h i k (step_key st) (OperationStep i (plan_kind p) (step_key st) e) t)
          (\<lambda>_. left_failed same ?sts w0 i r0) (\<lambda>_ _. False) ?E"
        by (rule keep_ends [OF conjunct2 [OF 2] a])
      with True show ?thesis
        by (auto simp: stopped_with_def Let_def intro!: ends_bindA elim!: ends_mono)
    next
      case False
      have "?E t" using 2 a by (auto intro: recoverableI)
      then have "ends (bindA (undo_applied h i p)
          (\<lambda>_. raiseA (OperationStep i (plan_kind p) (step_key st) e)) t) ?Q ?S ?E"
        using False
        by (intro ends_bindA [OF ends_mono [OF undo_applied_ends [OF u]]]) (auto simp: stopped_with_def)
      with False show ?thesis by (simp add: Let_def)
    qed
  next
    case (3 t)
    then show ?case using at_step_begun [OF u k, of "world t"] st by (auto intro: recoverableI)
  qed
  have "ends (bindA (mark i k (step_key st) Applying None) (\<lambda>_.
     matchA (do_apply st)
       (\<lambda>out. bindA (mark i k (step_key st) Applied (Some out))
          (\<lambda>_. run_steps h i p (Suc k) rest (outputs_record outs (step_key st) out)))
       (\<lambda>source. let failure = OperationStep i (plan_kind p) (step_key st) source in
          if plan_recovery p = Resume
          then bindA (keep h i k (step_key st) failure) (\<lambda>_. raiseA failure)
          else bindA (undo_applied h i p) (\<lambda>_. raiseA failure))) s) ?Q ?S ?E"
    by (rule ends_bindA, rule ends_mono [OF mark_open [OF Cons.prems(3)]])
      (auto intro!: ends_matchA after_apply start simp: lessThan_Suc)
  then show ?case by (simp add: bindA_def undoable_position [OF u k])
qed

text \<open>The world the run starts its steps from: the record of the home has been taken by then.\<close>

definition recorded_world :: "'w host \<Rightarrow> ('w, 'r) plan \<Rightarrow> op_id \<Rightarrow> 'w \<Rightarrow> 'w" where
  "recorded_world h p i w =
     (case plan_records p of
        None \<Rightarrow> w
      | Some r \<Rightarrow>
          if h_is_dir h w (rec_home r) \<and> h_opens h w (rec_home r)
          then snd (h_snapshot h w (rec_home r)
                 (''refs/nodal/'' @ h_ulid h (rec_unit r) @ ''/pre/'' @ h_ulid h i)
                 (''nodal: the home before '' @ plan_kind p))
          else w)"

lemma record_open:
  assumes "open_run i r0 A w s"
  shows "ends (record_home h p i s) (\<lambda>_. open_run i r0 A (recorded_world h p i w))
    (\<lambda>_. open_run i r0 A (recorded_world h p i w)) (\<lambda>t. t = s)"
proof -
  have w: "world s = w" using open_run_world [OF assms] .
  show ?thesis
    using assms
    by (auto simp: record_home_def recorded_world_def w Let_def bindA_def spend_def open_run_def
        split: option.splits prod.splits sum.splits)
qed

lemma acting_fresh:
  assumes "journal_wf j" and "journal_get j i = None"
  shows "acting (step_at j i) = {}"
proof -
  have "\<forall>x \<in> set (step_rows j). fst x \<noteq> i"
    using assms by (auto simp: journal_wf_def journal_get_None)
  then have "step_at j i p = None" for p by (auto simp: step_at_def find_None_iff)
  then show ?thesis by (simp add: acting_def)
qed

lemma start_open:
  assumes wf: "journal_wf (jnl s)" and fresh: "journal_get (jnl s) i = None"
  shows "ends (start_run h i p s) (\<lambda>_. open_run i (rows s) {} (world s)) (\<lambda>_ _. False) (\<lambda>t. t = s)"
proof (cases "life s")
  case 0
  then show ?thesis by (simp add: start_run_def bindA_def spend_def)
next
  case (Suc n)
  from fresh obtain j where j: "journal_start (jnl s) i p (h_owner h) (clock s) = Inr j"
    by (simp add: journal_start_def)
  have "step_at j = step_at (jnl s)" using get_start [OF j] by (simp add: step_at_def fun_eq_iff)
  then have "open_run i (rows s) {} (world s) (s\<lparr>jnl := j, life := n\<rparr>)"
    using get_start [OF j] wf_start [OF wf j] acting_fresh [OF wf fresh] by (auto simp: open_run_def)
  then show ?thesis using Suc j by (simp add: start_run_def bindA_def spend_def open_run_def)
qed

text \<open>
  The whole of \<open>run\<close>. It returns only with the registry rows its commit wrote and the run
  \<open>committed\<close>; an error leaves the rows and, for a plan that rolls back, the world; and a
  process that stops inside it leaves a run the next process can take back.
\<close>

definition ran_whole ::
    "('w, 'r) plan \<Rightarrow> 'w \<Rightarrow> op_id \<Rightarrow> 'r \<Rightarrow> run_done \<Rightarrow> ('w, 'r) sys \<Rightarrow> bool" where
  "ran_whole p w0 i r0 d t \<longleftrightarrow>
     (\<exists>r. plan_commit p r0 (done_outputs d) = Inr (done_committed d, r)
        \<and> closed_run i OpCommitted r {..<length (plan_steps p)} (world_after (plan_steps p) w0) t)"

definition refused_before ::
    "op_id \<Rightarrow> 'r \<Rightarrow> 'w \<Rightarrow> ('w, 'r) sys \<Rightarrow> bool" where
  "refused_before i r0 w0 t \<longleftrightarrow> closed_run i OpFailed r0 {} w0 t"

definition never_opened :: "('w, 'r) sys \<Rightarrow> op_id \<Rightarrow> ('w, 'r) sys \<Rightarrow> bool" where
  "never_opened s i t \<longleftrightarrow> t = s"

lemma run_ends:
  assumes wf: "journal_wf (jnl s)" and fresh: "journal_get (jnl s) i = None"
    and w0: "w0 = recorded_world h p i (world s)" and u: "undoable same (plan_steps p) w0"
  shows "ends (run h i p s) (ran_whole p w0 i (rows s))
    (\<lambda>e t. stopped_with same p w0 i (rows s) e t
        \<or> refused_before i (rows s) w0 t
        \<or> taken_back same w0 i OpRolledBack (rows s) t)
    (\<lambda>t. t = s \<or> open_run i (rows s) {} (world s) t \<or> recoverable same (plan_steps p) w0 i (rows s) t)"
  (is "ends _ ?Q ?F ?H")
proof -
  have rec0: "recoverable same (plan_steps p) w0 i (rows s) t" if "open_run i (rows s) {} w0 t" for t
    using that at_step_exact [OF u, of 0] recoverableI [of same "plan_steps p" w0 0] by auto
  have commit: "ends (matchA (commit_run i p outs)
            (\<lambda>committed. retA \<lparr>done_id = i, done_record = recorded, done_outputs = outs,
                              done_committed = committed\<rparr>)
            (\<lambda>source. bindA (undo_applied h i p) (\<lambda>_. raiseA source)) t) ?Q ?F ?H"
    if o1: "open_run i (rows s) {..<length (plan_steps p)} (world_after (plan_steps p) w0) t"
    for outs recorded t
  proof (rule ends_matchA, rule ends_mono [OF commit_open [OF o1]], goal_cases)
    case (1 out t')
    then show ?case by (auto simp: ran_whole_def)
  next
    case (2 e t')
    then have "recoverable same (plan_steps p) w0 i (rows s) t'"
      using at_step_exact [OF u order_refl] by (auto intro: recoverableI)
    from undo_applied_ends [OF u this] show ?case
      by (rule ends_bindA [OF ends_mono]) (auto simp: stopped_with_def)
  next
    case (3 t')
    then show ?case using o1 at_step_exact [OF u order_refl] by (auto intro: recoverableI)
  qed
  have steps: "ends (bindA (run_steps h i p 0 (plan_steps p) Map.empty) (\<lambda>outs.
          matchA (commit_run i p outs)
            (\<lambda>committed. retA \<lparr>done_id = i, done_record = recorded, done_outputs = outs,
                              done_committed = committed\<rparr>)
            (\<lambda>source. bindA (undo_applied h i p) (\<lambda>_. raiseA source))) t) ?Q ?F ?H"
    if "open_run i (rows s) {} w0 t" for recorded t
  proof -
    have "ends (run_steps h i p 0 (plan_steps p) Map.empty t)
      (\<lambda>_. open_run i (rows s) {..<length (plan_steps p)} (world_after (plan_steps p) w0))
      (stopped_with same p w0 i (rows s)) (recoverable same (plan_steps p) w0 i (rows s))"
      by (rule run_steps_ends [OF u]) (use that in simp_all)
    then show ?thesis by (rule ends_bindA [OF ends_mono]) (use commit in auto)
  qed
  have refuse: "ends (bindA (close_run i (plan_kind p) OpFailed) (\<lambda>_. raiseA why) t) ?Q ?F ?H"
    if o1: "open_run i (rows s) {} w0 t" for why t
    by (rule ends_bindA, rule ends_mono [OF close_open [OF o1]])
      (use rec0 [OF o1] in \<open>auto simp: refused_before_def\<close>)
  show ?thesis
    unfolding run_def
  proof (rule ends_bindA, rule ends_mono [OF start_open [OF wf fresh]], goal_cases)
    case (1 a t)
    show ?case
      by (rule ends_matchA, rule ends_mono [OF record_open [OF 1]])
        (use 1 steps refuse w0 in auto)
  qed auto
qed

subsection \<open>A process that is not killed finishes\<close>

text \<open>
  How much of a process's life a recovery costs: each step at most three effects (two for
  the undo, one for the journal), and one for closing the run.
\<close>

definition costs :: "nat \<Rightarrow> (('w, 'r) sys, 'a) action \<Rightarrow> bool" where
  "costs n m \<longleftrightarrow> (\<forall>s. ends (m s) (\<lambda>_ t. life s \<le> life t + n) (\<lambda>_ t. life s \<le> life t + n)
     (\<lambda>_. life s < n))"

lemma costsD:
  "costs n m \<Longrightarrow> ends (m s) (\<lambda>_ t. life s \<le> life t + n) (\<lambda>_ t. life s \<le> life t + n) (\<lambda>_. life s < n)"
  by (simp add: costs_def)

lemma costs_bindA:
  assumes "costs n m" and "\<And>a. costs k (f a)"
  shows "costs (n + k) (bindA m f)"
  unfolding costs_def
proof
  fix s
  show "ends (bindA m f s) (\<lambda>_ t. life s \<le> life t + (n + k)) (\<lambda>_ t. life s \<le> life t + (n + k))
      (\<lambda>_. life s < n + k)"
  proof (cases "m s")
    case (Ret a t)
    have "life s \<le> life t + n" using assms(1) Ret by (auto simp: costs_def dest!: spec [of _ s])
    with Ret assms(2) [of a] show ?thesis
      by (cases "f a t") (auto simp: costs_def bindA_def dest!: spec [of _ t])
  qed (use assms(1) in \<open>auto simp: costs_def bindA_def dest!: spec [of _ s]\<close>)
qed

lemma costs_matchA:
  assumes "costs n m" and "\<And>a. costs k (f a)" and "\<And>e. costs k (g e)"
  shows "costs (n + k) (matchA m f g)"
  unfolding costs_def
proof
  fix s
  show "ends (matchA m f g s) (\<lambda>_ t. life s \<le> life t + (n + k)) (\<lambda>_ t. life s \<le> life t + (n + k))
      (\<lambda>_. life s < n + k)"
  proof (cases "m s")
    case (Ret a t)
    have "life s \<le> life t + n" using assms(1) Ret by (auto simp: costs_def dest!: spec [of _ s])
    with Ret assms(2) [of a] show ?thesis
      by (cases "f a t") (auto simp: costs_def matchA_def dest!: spec [of _ t])
  next
    case (Err e t)
    have "life s \<le> life t + n" using assms(1) Err by (auto simp: costs_def dest!: spec [of _ s])
    with Err assms(3) [of e] show ?thesis
      by (cases "g e t") (auto simp: costs_def matchA_def dest!: spec [of _ t])
  qed (use assms(1) in \<open>auto simp: costs_def matchA_def dest!: spec [of _ s]\<close>)
qed

lemma costs_mono: "costs n m \<Longrightarrow> n \<le> k \<Longrightarrow> costs k m"
  unfolding costs_def by (blast intro: ends_mono order_trans add_left_mono less_le_trans)

lemma costs_ret [simp]: "costs n (Ret a)" and costs_raise [simp]: "costs n (Err e)"
  by (simp_all add: costs_def)

lemma costs_spend: "costs 1 spend"
  by (simp add: costs_def spend_def)

lemma costs_statement:
  assumes "\<And>s. ends (f s) (\<lambda>_ t. life t = life s) (\<lambda>_ t. life t = life s) (\<lambda>_. False)"
  shows "costs 1 (bindA spend (\<lambda>_. f))"
proof -
  have "costs 0 f"
    unfolding costs_def by (rule allI, rule ends_mono [OF assms]) simp_all
  then have "costs (1 + 0) (bindA spend (\<lambda>_. f))" by (intro costs_bindA [OF costs_spend])
  then show ?thesis by simp
qed

lemma costs_mark: "costs 1 (mark i pos key st out)"
  unfolding mark_def by (rule costs_statement) (simp split: sum.splits)

lemma costs_close: "costs 1 (close_run i k st)"
  unfolding close_run_def by (rule costs_statement) (simp split: prod.splits bool.splits)

lemma costs_close_ret: "costs 1 (bindA (close_run i k st) (\<lambda>_. retA a))"
proof -
  have "costs (1 + 0) (bindA (close_run i k st) (\<lambda>_. retA a))"
    by (rule costs_bindA [OF costs_close]) (simp add: costs_def)
  then show ?thesis by simp
qed

lemma costs_undo: "costs 2 (do_undo st)"
  by (auto simp: costs_def do_undo_def split: prod.splits option.splits)

lemma costs_position: "costs 0 (position_of n)"
  by (simp add: costs_def position_of_def)

lemma costs_undo_loop:
  "costs (3 * length xs) (undo_loop h i acted xs ks :: (('w, 'r) sys, undone) action)"
proof (induction xs arbitrary: ks)
  case Nil
  then show ?case by simp
next
  case (Cons x xs)
  obtain n st where x: "x = (n, st)" by (cases x)
  have rest: "costs (1 + 3 * length xs) (bindA (mark i pos (step_key st) Undone None)
          (\<lambda>_. undo_loop h i acted xs (ks @ [step_key st])) :: (('w, 'r) sys, undone) action)" for pos
    by (rule costs_bindA [OF costs_mark]) (rule Cons.IH)
  have take: "costs (2 + (1 + 3 * length xs)) (matchA (do_undo st)
       (\<lambda>_. bindA (mark i pos (step_key st) Undone None)
          (\<lambda>_. undo_loop h i acted xs (ks @ [step_key st])))
       (\<lambda>source. retA (StoppedAt (step_key st) (h_render h source)))
       :: (('w, 'r) sys, undone) action)" for pos
    by (rule costs_matchA [OF costs_undo rest]) (simp add: costs_def)
  have skip: "costs (2 + (1 + 3 * length xs)) (undo_loop h i acted xs ks :: (('w, 'r) sys, undone) action)"
    by (rule costs_mono [OF Cons.IH]) simp
  have "costs (0 + (2 + (1 + 3 * length xs)))
      (undo_loop h i acted (x # xs) ks :: (('w, 'r) sys, undone) action)"
    unfolding x undo_loop.simps by (rule costs_bindA [OF costs_position]) (use take skip in simp)
  then show ?case by (rule costs_mono) simp
qed

lemma costs_roll_back: "costs (3 * length (plan_steps p) + 1) (roll_back h i p)"
  unfolding roll_back_def
proof (rule costs_bindA)
  show "costs (3 * length (plan_steps p)) (undo_steps h i p)"
    unfolding costs_def undo_steps_def
  proof
    fix s
    show "ends (undo_loop h i (acted_positions (jnl s) i) (rev (enumerate 0 (plan_steps p))) [] s)
        (\<lambda>_ t. life s \<le> life t + 3 * length (plan_steps p))
        (\<lambda>_ t. life s \<le> life t + 3 * length (plan_steps p)) (\<lambda>_. life s < 3 * length (plan_steps p))"
      by (rule costsD, rule costs_mono [OF costs_undo_loop]) simp
  qed
  show "costs 1 (case u of
       AllUndone ks \<Rightarrow> bindA (close_run i (plan_kind p) OpRolledBack) (\<lambda>_. retA (RolledBack ks))
     | StoppedAt key why \<Rightarrow>
         bindA (close_run i (plan_kind p) OpFailed) (\<lambda>_. retA (ActFailed key why)))" for u
    by (cases u) (simp_all add: costs_close_ret [simplified])
qed

subsection \<open>What a person and the next command can rely on\<close>

text \<open>
  The resolver of process \<open>h\<close> takes the row \<open>r\<close> over: the process that started the run is
  gone, and the table of rebuilders gives the run's plan back.
\<close>

definition recovers ::
    "'w host \<Rightarrow> ('w, 'r) rebuild list \<Rightarrow> operation \<Rightarrow> ('w, 'r) plan \<Rightarrow> bool" where
  "recovers h rebuilders r p \<longleftrightarrow>
     owner_state (h_kill h) (op_owner r) (h_owner h) = Gone \<and>
     (case List.find (\<lambda>entry. fst entry = op_kind r) rebuilders of
        Some rebuilder \<Rightarrow> snd rebuilder r = Inr p
      | None \<Rightarrow> False)"

lemma resolve_one_recovers:
  "recovers h rebuilders r p \<Longrightarrow> resolve_one h rebuilders r =
     (if op_recovery r = RollBack then roll_back h (op_ident r) p else resume h (op_ident r) p)"
  by (cases "op_recovery r") (auto simp: recovers_def resolve_one_def take_over_def split: option.splits)

text \<open>
  The states a killed run passes through: the run itself was killed, in the process \<open>h0\<close>, or a
  process that was taking it back was, any number of times.
\<close>

inductive interrupted ::
    "'w host \<Rightarrow> ('w, 'r) plan \<Rightarrow> op_id \<Rightarrow> ('w, 'r) sys \<Rightarrow> ('w, 'r) sys \<Rightarrow> bool" for h0 p i s where
  run_killed: "run h0 i p s = Halt t \<Longrightarrow> interrupted h0 p i s t"
| recovery_killed:
    "interrupted h0 p i s t \<Longrightarrow> r \<in> set (unfinished (jnl t)) \<Longrightarrow> op_ident r = i \<Longrightarrow> op_recovery r = RollBack
     \<Longrightarrow> recovers h rebuilders r p \<Longrightarrow> resolve_one h rebuilders r (t\<lparr>life := n\<rparr>) = Halt t'
     \<Longrightarrow> interrupted h0 p i s t'"

text \<open>The worlds such a run begins in: the one it found, and that with the record of the home in it.\<close>

definition begun_in :: "'w host \<Rightarrow> ('w, 'r) plan \<Rightarrow> op_id \<Rightarrow> 'w \<Rightarrow> 'w set" where
  "begun_in h0 p i w = {w, recorded_world h0 p i w}"

lemma begun_in_unrecorded: "plan_records p = None \<Longrightarrow> begun_in h0 p i w = {w}"
  by (simp add: begun_in_def recorded_world_def)

lemma recoverable_life [simp]:
  "recoverable same sts w0 i r0 (s\<lparr>life := n\<rparr>) = recoverable same sts w0 i r0 s"
  by (simp add: recoverable_def)

lemma unfinished_open:
  "r \<in> set (unfinished j) \<Longrightarrow> journal_wf j \<Longrightarrow> journal_get j (op_ident r) \<noteq> None"
  by (auto simp: unfinished_def journal_get_None)

lemma interrupted_state:
  assumes "interrupted h0 p i s t"
    and wf: "journal_wf (jnl s)" and fresh: "journal_get (jnl s) i = None"
    and u: "\<And>w0. w0 \<in> begun_in h0 p i (world s) \<Longrightarrow> undoable same (plan_steps p) w0"
  shows "t = s \<or> (\<exists>w0 \<in> begun_in h0 p i (world s). recoverable same (plan_steps p) w0 i (rows s) t)"
  using assms(1)
proof (induction rule: interrupted.induct)
  case (run_killed t)
  let ?w = "recorded_world h0 p i (world s)"
  have w: "?w \<in> begun_in h0 p i (world s)" "world s \<in> begun_in h0 p i (world s)" by (simp_all add: begun_in_def)
  have "t = s \<or> open_run i (rows s) {} (world s) t \<or> recoverable same (plan_steps p) ?w i (rows s) t"
    using endsD(3) [OF run_ends [OF wf fresh refl u [OF w(1)]] run_killed] by blast
  moreover have "recoverable same (plan_steps p) (world s) i (rows s) t"
    if "open_run i (rows s) {} (world s) t"
    using that at_step_exact [OF u [OF w(2)], of 0] recoverableI [of same "plan_steps p" "world s" 0] by auto
  ultimately show ?case using w by blast
next
  case (recovery_killed t r h rebuilders n t')
  have "t \<noteq> s"
    using unfinished_open [OF recovery_killed(2)] recovery_killed(3) wf fresh by auto
  then obtain w0 where w0: "w0 \<in> begun_in h0 p i (world s)"
    and "recoverable same (plan_steps p) w0 i (rows s) (t\<lparr>life := n\<rparr>)"
    using recovery_killed.IH by auto
  from roll_back_ends [OF u [OF w0] this(2)] w0 show ?case
    using recovery_killed(3,4,6) resolve_one_recovers [OF recovery_killed(5)] endsD(3) by fastforce
qed

lemma taken_back_row:
  "taken_back same w0 i st r0 t \<Longrightarrow> same (world t) w0 \<and> rows t = r0
     \<and> (\<exists>r. journal_get (jnl t) i = Some r \<and> op_state r = st)"
  by (simp add: taken_back_def closed_run_def)

text \<open>
  C2. A run that was killed is taken back. Whichever effect the process stopped at, and however
  many processes were killed while taking the run back, the next one that lives long enough
  ends it with no registry row changed. Either it took the run back: the world is the one before
  the run, with the record of the home where the plan takes one, and the run is
  recorded as rolled back. Or an undo of one of the steps fails, from a world an attempt at the step
  can leave, and the run is recorded as failed.
\<close>

theorem killed_run_is_taken_back:
  assumes "interrupted h0 p i s t"
    and "journal_wf (jnl s)" and "journal_get (jnl s) i = None"
    and u: "\<And>w0. w0 \<in> begun_in h0 p i (world s) \<Longrightarrow> undoable same (plan_steps p) w0"
    and r: "r \<in> set (unfinished (jnl t))" "op_ident r = i" "op_recovery r = RollBack"
    and rec: "recovers h rebuilders r p" and enough: "3 * length (plan_steps p) + 1 \<le> n"
  shows "\<exists>a t' r'. resolve_one h rebuilders r (t\<lparr>life := n\<rparr>) = Ret a t' \<and> rows t' = rows s
    \<and> journal_get (jnl t') i = Some r'
    \<and> (case a of
         RolledBack ks \<Rightarrow> op_state r' = OpRolledBack \<and> (\<exists>w0 \<in> begun_in h0 p i (world s). same (world t') w0)
       | ActFailed key why \<Rightarrow> op_state r' = OpFailed
           \<and> (\<exists>w0 \<in> begun_in h0 p i (world s). undo_fails same (plan_steps p) w0)
       | _ \<Rightarrow> False)"
proof -
  have "t \<noteq> s" using unfinished_open [OF r(1)] r(2) assms(2,3) by auto
  then obtain w0 where w0: "w0 \<in> begun_in h0 p i (world s)"
    and rc: "recoverable same (plan_steps p) w0 i (rows s) (t\<lparr>life := n\<rparr>)"
    using interrupted_state [OF assms(1-3) u] by auto
  note e = roll_back_ends [OF u [OF w0] rc, of h]
  have c: "ends (roll_back h i p (t\<lparr>life := n\<rparr>)) (\<lambda>_ _. True) (\<lambda>_ _. True) (\<lambda>_. False)"
    by (rule ends_mono [OF costsD [OF costs_roll_back]]) (use enough in simp_all)
  obtain a t' where a: "roll_back h i p (t\<lparr>life := n\<rparr>) = Ret a t'"
    using e c by (cases "roll_back h i p (t\<lparr>life := n\<rparr>)") simp_all
  then have one: "resolve_one h rebuilders r (t\<lparr>life := n\<rparr>) = Ret a t'"
    using resolve_one_recovers [OF rec] r by simp
  show ?thesis
  proof (cases "\<exists>ks. a = RolledBack ks")
    case True
    with e a have "taken_back same w0 i OpRolledBack (rows s) t'" by auto
    with True one w0 show ?thesis using taken_back_row by fastforce
  next
    case False
    with e a obtain key why where f: "a = ActFailed key why" "left_failed same (plan_steps p) w0 i (rows s) t'"
      "undo_fails same (plan_steps p) w0" by (cases a) auto
    with one w0 show ?thesis by (auto simp: left_failed_def closed_run_def)
  qed
qed

end
