(* ===== verification/Resumption.thy ===== *)
theory Resumption
  imports Recovery
begin

text \<open>
  A run that is resumed is the run it resumes (\<open>lifecycle/mod.rs\<close>, \<open>resume\<close>): the rows the
  journal kept of a killed run give back the outputs its steps produced, the steps left are
  applied to a world an attempt at them may already have changed, and the commit is handed
  what the first run's commit would have been.
\<close>

subsection \<open>The outputs of a plan\<close>

definition said :: "json \<Rightarrow> json option" where
  "said v = (if is_null v then None else Some v)"

fun outputs_upto :: "'w step list \<Rightarrow> (nat \<Rightarrow> json) \<Rightarrow> nat \<Rightarrow> outputs" where
  "outputs_upto sts out 0 = Map.empty"
| "outputs_upto sts out (Suc n) = outputs_record (outputs_upto sts out n) (step_key (sts ! n)) (out n)"

text \<open>The rows of a run whose first \<open>m\<close> steps are done and which has kept nothing else.\<close>

definition progress :: "(nat \<Rightarrow> step_record option) \<Rightarrow> 'w step list \<Rightarrow> (nat \<Rightarrow> json) \<Rightarrow> nat \<Rightarrow> bool" where
  "progress f sts out m \<longleftrightarrow>
     (\<forall>p < m. \<exists>r. f p = Some r \<and> sr_state r = Applied \<and> sr_position r = p
        \<and> sr_key r = step_key (sts ! p) \<and> sr_output r = said (out p))
     \<and> (\<forall>p r. m \<le> p \<longrightarrow> f p = Some r \<longrightarrow> sr_state r \<noteq> Applied \<and> sr_output r = None)"

lemma progressD:
  "progress f sts out m \<Longrightarrow> p < m \<Longrightarrow> \<exists>r. f p = Some r \<and> sr_state r = Applied \<and> sr_position r = p
        \<and> sr_key r = step_key (sts ! p) \<and> sr_output r = said (out p)"
  by (simp add: progress_def)

text \<open>The done steps, in plan order, are exactly the first \<open>m\<close> rows.\<close>

lemma journal_steps_distinct:
  assumes "journal_wf j"
  shows "distinct (map sr_position (journal_steps j i))"
proof -
  have "distinct (map (\<lambda>(i, r). (i, sr_position r)) xs) \<Longrightarrow>
      distinct (map sr_position (map snd (filter (\<lambda>(i', r). i' = i) xs)))" for xs :: "(op_id \<times> step_record) list"
    by (induction xs) (auto simp: image_iff)
  then have "distinct (map sr_position (map snd (filter (\<lambda>(i', r). i' = i) (step_rows j))))"
    using assms by (simp add: journal_wf_def)
  from distinct_card [OF this] show ?thesis
    by (intro card_distinct) (simp add: journal_steps_def image_image)
qed

lemma applied_in_order:
  assumes wf: "journal_wf j" and pr: "progress (step_at j i) sts out m"
  shows "filter (\<lambda>r. sr_state r = Applied) (journal_steps j i) = map (\<lambda>p. the (step_at j i p)) [0..<m]"
    (is "?xs = ?ys")
proof (rule map_sorted_distinct_set_unique [where f = sr_position])
  have d: "distinct (map sr_position (journal_steps j i))" using journal_steps_distinct [OF wf] .
  have pos: "p < m \<Longrightarrow> sr_position (the (step_at j i p)) = p" for p using progressD [OF pr] by fastforce
  show "inj_on sr_position (set ?xs \<union> set ?ys)"
  proof (rule inj_onI)
    fix x y
    assume "x \<in> set ?xs \<union> set ?ys" and "y \<in> set ?xs \<union> set ?ys" and eq: "sr_position x = sr_position y"
    moreover have "step_at j i (sr_position z) = Some z" if "z \<in> set ?xs \<union> set ?ys" for z
      using that set_journal_steps [OF wf] progressD [OF pr] by fastforce
    ultimately show "x = y" by (metis option.inject)
  qed
  show "sorted (map sr_position ?xs)"
    using sorted_journal_steps by (rule sorted_filter)
  show "distinct (map sr_position ?xs)" using d by (rule distinct_map_filter)
  show "sorted (map sr_position ?ys)" and "distinct (map sr_position ?ys)"
    using map_idI [of "[0..<m]" "\<lambda>p. sr_position (the (step_at j i p))"] pos by (simp_all add: comp_def)
  show "set ?xs = set ?ys"
  proof (rule set_eqI)
    fix r
    have "r \<in> set ?xs \<longleftrightarrow> step_at j i (sr_position r) = Some r \<and> sr_state r = Applied"
      using set_journal_steps [OF wf] by auto
    also have "\<dots> \<longleftrightarrow> sr_position r < m \<and> step_at j i (sr_position r) = Some r"
    proof
      show "sr_position r < m \<and> step_at j i (sr_position r) = Some r"
        if a: "step_at j i (sr_position r) = Some r \<and> sr_state r = Applied"
        using pr a by (meson not_le_imp_less progress_def)
    qed (use progressD [OF pr, of "sr_position r"] in auto)
    also have "\<dots> \<longleftrightarrow> r \<in> set ?ys"
    proof
      show "sr_position r < m \<and> step_at j i (sr_position r) = Some r" if a: "r \<in> set ?ys"
      proof -
        from a obtain p where "p < m" and "r = the (step_at j i p)" by auto
        with progressD [OF pr, of p] show ?thesis by auto
      qed
    qed (force intro: rev_image_eqI)
    finally show "r \<in> set ?xs \<longleftrightarrow> r \<in> set ?ys" .
  qed
qed

lemma outputs_of_progress:
  assumes wf: "journal_wf j" and pr: "progress (step_at j i) sts out m"
  shows "journal_outputs j i = outputs_upto sts out m"
proof -
  let ?g = "\<lambda>r m. case sr_output r of Some out \<Rightarrow> outputs_record m (sr_key r) out | None \<Rightarrow> m"
  have "fold ?g (map (\<lambda>p. the (step_at j i p)) [0..<n]) Map.empty = outputs_upto sts out n" if "n \<le> m" for n
    using that
  proof (induction n)
    case (Suc n)
    then show ?case
      using progressD [OF pr, of n] by (auto simp: said_def outputs_record_def)
  qed simp
  then show ?thesis by (simp add: journal_outputs_def applied_in_order [OF wf pr])
qed

lemma applied_keys_of_progress:
  assumes wf: "journal_wf j" and pr: "progress (step_at j i) sts out m"
  shows "(p, step_key (sts ! p)) \<in> set (applied_keys j i) \<longleftrightarrow> p < m"
proof -
  have "set (applied_keys j i) = (\<lambda>p. (sr_position (the (step_at j i p)), sr_key (the (step_at j i p)))) ` {0..<m}"
    by (simp add: applied_keys_def applied_in_order [OF wf pr] image_image)
  also have "\<dots> = (\<lambda>p. (p, step_key (sts ! p))) ` {0..<m}"
    using progressD [OF pr] by (force intro!: image_cong)
  finally show ?thesis by auto
qed

subsection \<open>A run every step of which succeeds\<close>

text \<open>
  The plan does what it says from \<open>w0\<close>: step \<open>k\<close> answers \<open>out k\<close>, and the contract of a
  step that can be applied again holds where the plan reaches it.
\<close>

definition succeeds ::
    "('w \<Rightarrow> 'w \<Rightarrow> bool) \<Rightarrow> 'w step list \<Rightarrow> 'w \<Rightarrow> (nat \<Rightarrow> json) \<Rightarrow> bool" where
  "succeeds same sts w0 out \<longleftrightarrow> (\<forall>w. same w w) \<and> length sts \<le> 2 ^ 32
     \<and> (\<forall>k < length sts. repeatable_step same (sts ! k) (\<lambda>w. w = world_after (take k sts) w0)
          \<and> fst (step_apply (sts ! k) (world_after (take k sts) w0)) = Inr (out k))"

lemma succeeds_step:
  "succeeds same sts w0 out \<Longrightarrow> k < length sts
     \<Longrightarrow> repeatable_step same (sts ! k) (\<lambda>w. w = world_after (take k sts) w0)"
  by (simp add: succeeds_def)

lemma succeeds_apply:
  assumes "succeeds same sts w0 out" and "k < length sts"
    and "touched same (sts ! k) (world_after (take k sts) w0) v"
  shows "\<exists>v'. step_apply (sts ! k) v = (Inr (out k), v') \<and> same v' (world_after (take (Suc k) sts) w0)
    \<and> touched same (sts ! k) (world_after (take k sts) w0) v'"
proof -
  let ?w = "world_after (take k sts) w0"
  have r: "repeatable_step same (sts ! k) (\<lambda>w. w = ?w)" and f: "fst (step_apply (sts ! k) ?w) = Inr (out k)"
    using assms(1,2) by (simp_all add: succeeds_def)
  have "step_apply (sts ! k) ?w = (Inr (out k), world_after (take (Suc k) sts) w0)"
    using f world_after_snoc [OF assms(2), of w0] by (metis prod.collapse)
  from repeatable_step.apply_again [OF r refl assms(3) this] show ?thesis
    using world_after_snoc [OF assms(2), of w0] by (auto simp: touched_def)
qed

definition left_at ::
    "('w \<Rightarrow> 'w \<Rightarrow> bool) \<Rightarrow> 'w step list \<Rightarrow> 'w \<Rightarrow> nat \<Rightarrow> 'w \<Rightarrow> bool" where
  "left_at same sts w0 m v \<longleftrightarrow> m \<le> length sts \<and>
     (if m = length sts then same v (world_after sts w0)
      else touched same (sts ! m) (world_after (take m sts) w0) v)"

lemma left_at_same:
  "m \<le> length sts \<Longrightarrow> same v (world_after (take m sts) w0) \<Longrightarrow> left_at same sts w0 m v"
  by (auto simp: left_at_def touched_def)

definition resumable ::
    "('w \<Rightarrow> 'w \<Rightarrow> bool) \<Rightarrow> 'w step list \<Rightarrow> 'w \<Rightarrow> (nat \<Rightarrow> json) \<Rightarrow> op_id \<Rightarrow> 'r \<Rightarrow> nat \<Rightarrow> ('w, 'r) sys \<Rightarrow> bool" where
  "resumable same sts w0 out i r0 m s \<longleftrightarrow>
     journal_wf (jnl s) \<and> rows s = r0 \<and> progress (step_at (jnl s) i) sts out m
     \<and> left_at same sts w0 m (world s)
     \<and> (\<exists>r. journal_get (jnl s) i = Some r \<and> op_state r = OpRunning)"

lemma mark_row:
  assumes "journal_wf (jnl s)" and "\<exists>r. journal_get (jnl s) i = Some r \<and> op_state r = OpRunning"
  shows "ends (mark i pos key st out s)
    (\<lambda>_ t. world t = world s \<and> rows t = rows s \<and> journal_wf (jnl t)
       \<and> journal_get (jnl t) = journal_get (jnl s)
       \<and> (\<exists>at. step_at (jnl t) i = (step_at (jnl s) i)(pos \<mapsto> \<lparr>sr_position = pos, sr_key = key, sr_state = st,
             sr_output = coalesce (Option.bind out said) (Option.bind (step_at (jnl s) i pos) sr_output),
             sr_updated = at\<rparr>)))
    (\<lambda>_ _. False) (\<lambda>t. t = s)"
proof (cases "life s")
  case 0
  then show ?thesis by (simp add: mark_def bindA_def spend_def)
next
  case (Suc n)
  let ?r = "\<lparr>sr_position = pos, sr_key = key, sr_state = st,
             sr_output = (case out of Some v \<Rightarrow> if is_null v then None else Some v | None \<Rightarrow> None),
             sr_updated = clock s\<rparr>"
  have out: "(case out of Some v \<Rightarrow> if is_null v then None else Some v | None \<Rightarrow> None) = Option.bind out said"
    by (simp add: said_def split: option.split)
  from assms(2) obtain j where j: "mark_step (jnl s) i ?r = Inr j" by (auto simp: mark_step_def)
  have "step_at j i = (step_at (jnl s) i)(pos \<mapsto> ?r\<lparr>sr_output := coalesce (sr_output ?r)
         (Option.bind (step_at (jnl s) i pos) sr_output)\<rparr>)"
    using jt.mark_at [OF assms(1) j, of i] by simp
  then show ?thesis
    using jt.mark_wf [OF assms(1) j] get_mark [OF j] j Suc
    by (auto simp: mark_def bindA_def spend_def out)
qed

lemma progress_begin:
  assumes "progress f sts out m" and "sr_output r = Option.bind (f m) sr_output" and "sr_state r = Applying"
  shows "progress (f(m \<mapsto> r)) sts out m"
  using assms by (cases "f m") (auto simp: progress_def)

lemma progress_done:
  assumes "progress f sts out m" and "sr_state r = Applied" and "sr_position r = m"
    and "sr_key r = step_key (sts ! m)"
    and "sr_output r = coalesce (said (out m)) (Option.bind (f m) sr_output)"
  shows "progress (f(m \<mapsto> r)) sts out (Suc m)"
  using assms by (cases "f m") (auto simp: progress_def less_Suc_eq dest: Suc_leD)

text \<open>Applying one step of a run that every step of succeeds.\<close>

lemma apply_resumable:
  assumes s: "succeeds same sts w0 out" and m: "m < length sts"
    and r: "resumable same sts w0 out i r0 m s"
  shows "ends (bindA (mark i m (step_key (sts ! m)) Applying None) (\<lambda>_.
       matchA (do_apply (sts ! m))
         (\<lambda>v. bindA (mark i m (step_key (sts ! m)) Applied (Some v)) (\<lambda>_. f v)) g) s)
    (\<lambda>a t. \<exists>t'. resumable same sts w0 out i r0 (Suc m) t' \<and> f (out m) t' = Ret a t)
    (\<lambda>e t. \<exists>t'. resumable same sts w0 out i r0 (Suc m) t' \<and> f (out m) t' = Err e t)
    (\<lambda>t. resumable same sts w0 out i r0 m t
       \<or> (\<exists>t'. resumable same sts w0 out i r0 (Suc m) t' \<and> f (out m) t' = Halt t))"
    (is "ends _ ?Q ?F ?H")
proof -
  let ?w = "world_after (take m sts) w0" and ?st = "sts ! m"
  have at: "touched same ?st ?w (world s)" using r m by (simp add: resumable_def left_at_def)
  have fin: "ends (bindA (mark i m (step_key ?st) Applied (Some (out m))) (\<lambda>_. f (out m)) t) ?Q ?F ?H"
    if t: "resumable same sts w0 out i r0 m t" and w: "same (world t) (world_after (take (Suc m) sts) w0)" for t
  proof (rule ends_bindA, rule ends_mono [OF mark_row], goal_cases)
    case (3 a t')
    then obtain row where row: "step_at (jnl t') i = (step_at (jnl t) i)(m \<mapsto> row)"
      "sr_state row = Applied" "sr_position row = m" "sr_key row = step_key ?st"
      "sr_output row = coalesce (said (out m)) (Option.bind (step_at (jnl t) i m) sr_output)"
      by fastforce
    have "progress (step_at (jnl t) i) sts out m" using t by (simp add: resumable_def)
    from progress_done [OF this row(2,3,4,5)]
    have "resumable same sts w0 out i r0 (Suc m) t'"
      using 3 t w m row(1) left_at_same [of "Suc m" sts same "world t" w0] by (simp add: resumable_def)
    then show ?case by (cases "f (out m) t'") auto
  qed (use t in \<open>auto simp: resumable_def\<close>)
  have app: "ends (matchA (do_apply ?st)
         (\<lambda>v. bindA (mark i m (step_key ?st) Applied (Some v)) (\<lambda>_. f v)) g t) ?Q ?F ?H"
    if t: "resumable same sts w0 out i r0 m t" for t
  proof -
    have tt: "touched same ?st ?w (world t)" using t m by (simp add: resumable_def left_at_def)
    from succeeds_apply [OF s m tt] obtain v' where v': "step_apply ?st (world t) = (Inr (out m), v')"
      and sm: "same v' (world_after (take (Suc m) sts) w0)" and tv: "touched same ?st ?w v'" by blast
    have torn: "touched same ?st ?w (step_torn ?st (world t))"
      by (rule repeatable_step.torn_stays [OF succeeds_step [OF s m] refl tt])
    have put: "resumable same sts w0 out i r0 m (t\<lparr>world := v, life := n\<rparr>)" if "touched same ?st ?w v" for v n
      using t that m by (simp add: resumable_def left_at_def)
    show ?thesis
      using t v' put [OF torn] fin [OF put [OF tv]] sm by (simp add: matchA_def do_apply_def)
  qed
  show ?thesis
  proof (rule ends_bindA, rule ends_mono [OF mark_row], goal_cases)
    case (3 a t)
    then obtain row where row: "step_at (jnl t) i = (step_at (jnl s) i)(m \<mapsto> row)"
      "sr_state row = Applying" "sr_output row = Option.bind (step_at (jnl s) i m) sr_output"
      by fastforce
    have "progress (step_at (jnl s) i) sts out m" using r by (simp add: resumable_def)
    from progress_begin [OF this row(3,2)]
    have "resumable same sts w0 out i r0 m t" using 3 r row(1) by (simp add: resumable_def)
    then show ?case by (rule app)
  qed (use r in \<open>auto simp: resumable_def\<close>)
qed

lemma succeeds_position: "succeeds same sts w0 out \<Longrightarrow> k < length sts \<Longrightarrow> position_of k = retA k"
  by (simp add: succeeds_def position_of_def)

text \<open>
  The two loops over the steps of such a run, from a state where the first \<open>m\<close> are done: the
  first run's, and the resumed run's, which skips what the journal says is done.
\<close>

lemma run_steps_resumable:
  assumes s: "succeeds same (plan_steps p) w0 out" and "rest = drop m (plan_steps p)"
    and "resumable same (plan_steps p) w0 out i r0 m s"
  shows "ends (run_steps h i p m rest (outputs_upto (plan_steps p) out m) s)
    (\<lambda>outs t. outs = outputs_upto (plan_steps p) out (length (plan_steps p))
       \<and> resumable same (plan_steps p) w0 out i r0 (length (plan_steps p)) t)
    (\<lambda>_ _. False) (\<lambda>t. \<exists>m. resumable same (plan_steps p) w0 out i r0 m t)"
  using assms(2,3)
proof (induction rest arbitrary: m s)
  case Nil
  then have "m = length (plan_steps p)" by (auto simp: resumable_def left_at_def)
  with Nil show ?case by simp
next
  case (Cons st rest)
  let ?sts = "plan_steps p"
  have m: "m < length ?sts" and st: "st = ?sts ! m" and rest: "rest = drop (Suc m) ?sts"
    using Cons_drop_nth [OF Cons.prems(1)] by simp_all
  have IH: "resumable same ?sts w0 out i r0 (Suc m) t' \<Longrightarrow>
      ends (run_steps h i p (Suc m) rest (outputs_record (outputs_upto ?sts out m) (step_key (?sts ! m)) (out m)) t')
        (\<lambda>outs t. outs = outputs_upto ?sts out (length ?sts) \<and> resumable same ?sts w0 out i r0 (length ?sts) t)
        (\<lambda>_ _. False) (\<lambda>t. \<exists>m. resumable same ?sts w0 out i r0 m t)" for t'
    using Cons.IH [OF rest] by simp
  have "ends (bindA (mark i m (step_key (?sts ! m)) Applying None) (\<lambda>_.
       matchA (do_apply (?sts ! m))
         (\<lambda>v. bindA (mark i m (step_key (?sts ! m)) Applied (Some v))
           (\<lambda>_. run_steps h i p (Suc m) rest (outputs_record (outputs_upto ?sts out m) (step_key (?sts ! m)) v)))
         (\<lambda>source. let failure = OperationStep i (plan_kind p) (step_key (?sts ! m)) source in
          if plan_recovery p = Resume
          then bindA (keep h i m (step_key (?sts ! m)) failure) (\<lambda>_. raiseA failure)
          else bindA (undo_applied h i p) (\<lambda>_. raiseA failure))) s)
     (\<lambda>outs t. outs = outputs_upto ?sts out (length ?sts) \<and> resumable same ?sts w0 out i r0 (length ?sts) t)
     (\<lambda>_ _. False) (\<lambda>t. \<exists>m. resumable same ?sts w0 out i r0 m t)"
    by (rule ends_mono [OF apply_resumable [OF s m Cons.prems(2)]]) (use IH in \<open>fastforce dest: endsD\<close>)+
  then show ?case by (simp add: st bindA_def succeeds_position [OF s m])
qed

lemma resume_steps_resumable:
  assumes s: "succeeds same (plan_steps p) w0 out" and "rest = drop k (plan_steps p)" and "k \<le> m"
    and f: "\<And>q. (q, step_key (plan_steps p ! q)) \<in> set finished \<longleftrightarrow> q < m0" and "m0 \<le> m"
    and "k < m \<longrightarrow> m = m0"
    and "resumable same (plan_steps p) w0 out i r0 m s"
  shows "ends (resume_steps h i p finished k rest (outputs_upto (plan_steps p) out m) ks s)
    (\<lambda>(outs, _) t. outs = outputs_upto (plan_steps p) out (length (plan_steps p))
       \<and> resumable same (plan_steps p) w0 out i r0 (length (plan_steps p)) t)
    (\<lambda>_ _. False) (\<lambda>t. \<exists>m. resumable same (plan_steps p) w0 out i r0 m t)"
  using assms(2,3,5-)
proof (induction rest arbitrary: k m s ks)
  case Nil
  then have "m = length (plan_steps p)" by (auto simp: resumable_def left_at_def)
  with Nil show ?case by simp
next
  case (Cons st rest)
  let ?sts = "plan_steps p"
  let ?Q = "\<lambda>(outs, _) t. outs = outputs_upto ?sts out (length ?sts)
       \<and> resumable same ?sts w0 out i r0 (length ?sts) t"
  let ?H = "\<lambda>t. \<exists>m. resumable same ?sts w0 out i r0 m t"
  have k: "k < length ?sts" and st: "st = ?sts ! k" and rest: "rest = drop (Suc k) ?sts"
    using Cons_drop_nth [OF Cons.prems(1)] by simp_all
  show ?case
  proof (cases "k < m0")
    case True
    with Cons.prems have mm: "m = m0" by auto
    have "ends (resume_steps h i p finished (Suc k) rest (outputs_upto ?sts out m) ks s) ?Q (\<lambda>_ _. False) ?H"
      by (rule Cons.IH [OF rest]) (use True Cons.prems(5) in \<open>simp_all add: mm\<close>)
    with True show ?thesis using f [of k] by (simp add: st bindA_def succeeds_position [OF s k])
  next
    case False
    with Cons.prems have km: "k = m" by auto
    have IH: "resumable same ?sts w0 out i r0 (Suc m) t' \<Longrightarrow>
        ends (resume_steps h i p finished (Suc m) rest
             (outputs_record (outputs_upto ?sts out m) (step_key (?sts ! m)) (out m)) (ks @ [step_key (?sts ! m)]) t')
          ?Q (\<lambda>_ _. False) ?H" for t'
      using Cons.IH [OF rest, of "Suc m" t'] Cons.prems False km by simp
    have "ends (bindA (mark i m (step_key (?sts ! m)) Applying None) (\<lambda>_.
       matchA (do_apply (?sts ! m))
         (\<lambda>v. bindA (mark i m (step_key (?sts ! m)) Applied (Some v))
           (\<lambda>_. resume_steps h i p finished (Suc m) rest
              (outputs_record (outputs_upto ?sts out m) (step_key (?sts ! m)) v) (ks @ [step_key (?sts ! m)])))
         (\<lambda>source. raiseA (OperationStep i (plan_kind p) (step_key (?sts ! m)) source))) s) ?Q (\<lambda>_ _. False) ?H"
    proof (rule ends_mono [OF apply_resumable [OF s _ Cons.prems(5)]], goal_cases)
      case 1
      show ?case using k km by simp
    next
      case (2 a t)
      then show ?case using endsD(1) [OF IH] by blast
    next
      case (3 e t)
      then show ?case using endsD(2) [OF IH] by blast
    next
      case (4 t)
      then show ?case using endsD(3) [OF IH] by blast
    qed
    with False show ?thesis using f [of k] km
      by (simp add: st bindA_def succeeds_position [OF s k [unfolded km]])
  qed
qed

lemma resumable_life [simp]:
  "resumable same sts w0 out i r0 m (s\<lparr>life := n\<rparr>) = resumable same sts w0 out i r0 m s"
  by (simp add: resumable_def)

lemma resumable_open:
  "resumable same sts w0 out i r0 m s \<Longrightarrow> \<exists>A. open_run i r0 A (world s) s"
  by (auto simp: resumable_def open_run_def)

lemma commit_resumable:
  assumes r: "resumable same (plan_steps p) w0 out i r0 (length (plan_steps p)) s"
    and c: "plan_commit p r0 outs = Inr (c, r1)"
  shows "ends (commit_run i p outs s)
    (\<lambda>c' t. c' = c \<and> rows t = r1 \<and> same (world t) (world_after (plan_steps p) w0)
       \<and> (\<exists>r. journal_get (jnl t) i = Some r \<and> op_state r = OpCommitted))
    (\<lambda>_ _. False) (\<lambda>t. t = s)"
proof -
  obtain A where o1: "open_run i r0 A (world s) s" using resumable_open [OF r] by blast
  show ?thesis
    by (rule ends_mono [OF commit_open [OF o1]])
      (use c r in \<open>auto simp: closed_run_def resumable_def left_at_def\<close>)
qed

lemma resume_ends:
  assumes s: "succeeds same (plan_steps p) w0 out" and r: "resumable same (plan_steps p) w0 out i r0 m s"
    and c: "plan_commit p r0 (outputs_upto (plan_steps p) out (length (plan_steps p))) = Inr (c, r1)"
  shows "ends (resume h i p s)
    (\<lambda>a t. (\<exists>ks. a = Resumed ks) \<and> rows t = r1 \<and> same (world t) (world_after (plan_steps p) w0)
       \<and> (\<exists>r. journal_get (jnl t) i = Some r \<and> op_state r = OpCommitted))
    (\<lambda>_ _. False) (\<lambda>t. \<exists>m. resumable same (plan_steps p) w0 out i r0 m t)"
    (is "ends _ ?Q ?F ?H")
proof -
  have wf: "journal_wf (jnl s)" and pr: "progress (step_at (jnl s) i) (plan_steps p) out m"
    using r by (simp_all add: resumable_def)
  note keys = applied_keys_of_progress [OF wf pr]
  have outs: "journal_outputs (jnl s) i = outputs_upto (plan_steps p) out m"
    by (rule outputs_of_progress [OF wf pr])
  have "ends (resume_steps h i p (applied_keys (jnl s) i) 0 (plan_steps p) (journal_outputs (jnl s) i) [] s)
    (\<lambda>(outs, _) t. outs = outputs_upto (plan_steps p) out (length (plan_steps p))
       \<and> resumable same (plan_steps p) w0 out i r0 (length (plan_steps p)) t) ?F ?H"
    unfolding outs by (rule resume_steps_resumable [OF s _ _ keys]) (use r in auto)
  then show ?thesis
    unfolding resume_def
  proof (intro ends_bindA, elim ends_mono, goal_cases)
    case (1 a t)
    obtain os ks where a: "a = (os, ks)" by (cases a)
    with 1 have os: "os = outputs_upto (plan_steps p) out (length (plan_steps p))"
      and rt: "resumable same (plan_steps p) w0 out i r0 (length (plan_steps p)) t" by simp_all
    have "ends (bindA (commit_run i p os) (\<lambda>_. retA (Resumed ks)) t) ?Q ?F ?H"
      by (rule ends_bindA, rule ends_mono [OF commit_resumable [OF rt c [folded os]]])
        (use rt in auto)
    with a show ?case by simp
  qed auto
qed

end
