(* ===== verification/Effects.thy ===== *)
theory Effects
  imports Runner
begin

text \<open>
  What no operation of the runner touches. The client side of the journal contract: a
  property of the state that each primitive effect keeps is kept by every loop of
  \<open>lifecycle/mod.rs\<close>, whichever way it ends. Two such properties are used: the registry
  rows of a run that has not committed, and the recovery a run declared when it started.
\<close>

definition keeps :: "('s \<Rightarrow> bool) \<Rightarrow> ('s, 'a) action \<Rightarrow> bool" where
  "keeps I m \<longleftrightarrow> (\<forall>s. I s \<longrightarrow> I (final (m s)))"

lemma keepsD: "keeps I m \<Longrightarrow> I s \<Longrightarrow> I (final (m s))"
  by (simp add: keeps_def)

lemma keepsI: "(\<And>s. I s \<Longrightarrow> I (final (m s))) \<Longrightarrow> keeps I m"
  by (simp add: keeps_def)

lemma keeps_bindA:
  assumes "keeps I m" and "\<And>a. keeps I (f a)"
  shows "keeps I (bindA m f)"
proof (rule keepsI)
  fix s assume "I s"
  then have "I (final (m s))" by (rule keepsD [OF assms(1)])
  then show "I (final (bindA m f s))"
    using keepsD [OF assms(2)] by (cases "m s") (simp_all add: bindA_def)
qed

lemma keeps_matchA:
  assumes "keeps I m" and "\<And>a. keeps I (f a)" and "\<And>e. keeps I (g e)"
  shows "keeps I (matchA m f g)"
proof (rule keepsI)
  fix s assume "I s"
  then have "I (final (m s))" by (rule keepsD [OF assms(1)])
  then show "I (final (matchA m f g s))"
    using keepsD [OF assms(2)] keepsD [OF assms(3)] by (cases "m s") (simp_all add: matchA_def)
qed

lemma keeps_ret: "keeps I (retA a)" and keeps_raise: "keeps I (raiseA e)"
  by (simp_all add: keeps_def)

lemma keeps_position: "keeps I (position_of n)"
  by (simp add: keeps_def position_of_def)

lemmas keeps_intros = keeps_bindA keeps_matchA keeps_ret keeps_raise keeps_position

locale effect_invariant =
  fixes I :: "op_id \<Rightarrow> ('w, 'r) sys \<Rightarrow> bool"
  assumes keeps_world: "\<And>i s w n. I i s \<Longrightarrow> I i (s\<lparr>world := w, life := n\<rparr>)"
    and keeps_mark: "keeps (I i) (mark i pos key st out)"
    and keeps_close: "os \<noteq> OpCommitted \<Longrightarrow> keeps (I i) (close_run i k os)"
begin

lemma keeps_life: "I i s \<Longrightarrow> I i (s\<lparr>life := n\<rparr>)"
  using keeps_world [where s = s and w = "world s" and n = n] by simp

lemma keeps_world': "I i s \<Longrightarrow> I i (s\<lparr>life := n, world := w\<rparr>)"
  using keeps_world [where s = s and n = n and w = w] by (cases s) simp

lemma keeps_apply: "keeps (I i) (do_apply st)"
  by (rule keepsI) (auto simp: do_apply_def keeps_world split: prod.splits sum.splits)

lemma keeps_undo: "keeps (I i) (do_undo st)"
  by (rule keepsI) (auto simp: do_undo_def keeps_world split: prod.splits option.splits)

lemma keeps_record: "keeps (I i) (record_home h p i)"
proof (rule keepsI)
  fix s assume "I i s"
  then show "I i (final (record_home h p i s))"
    by (auto simp: record_home_def Let_def bindA_def spend_def keeps_world'
        split: option.splits prod.splits sum.splits)
qed

lemma keeps_undo_loop: "keeps (I i) (undo_loop h i acted xs ks)"
proof (induction xs arbitrary: ks)
  case (Cons x xs)
  then show ?case
    by (cases x) (auto intro!: keeps_intros keeps_undo keeps_mark)
qed (simp add: keeps_def)

lemma keeps_undo_steps: "keeps (I i) (undo_steps h i p)"
  by (rule keepsI) (simp add: undo_steps_def keepsD [OF keeps_undo_loop])

lemma keeps_undo_applied: "keeps (I i) (undo_applied h i p)"
  unfolding undo_applied_def
  by (auto intro!: keeps_intros keeps_undo_steps keeps_close split: undone.split)

lemma keeps_roll_back: "keeps (I i) (roll_back h i p)"
  unfolding roll_back_def
  by (auto intro!: keeps_intros keeps_undo_steps keeps_close split: undone.split)

lemma keeps_keep: "keeps (I i) (keep h i pos key why)"
  unfolding keep_def by (auto intro!: keeps_intros keeps_mark keeps_close)

lemma keeps_run_steps: "keeps (I i) (run_steps h i p k xs outs)"
proof (induction xs arbitrary: k outs)
  case (Cons st xs)
  then show ?case
    by (auto simp: Let_def intro!: keeps_intros keeps_mark keeps_apply keeps_keep keeps_undo_applied)
qed (simp add: keeps_def)

lemma keeps_retry_steps: "keeps (I i) (retry_steps h i p done_keys k xs outs)"
proof (induction xs arbitrary: k outs)
  case (Cons st xs)
  then show ?case by (auto simp: Let_def intro!: keeps_intros keeps_mark keeps_apply keeps_keep)
qed (simp add: keeps_def)

lemma keeps_resume_steps: "keeps (I i) (resume_steps h i p done_keys k xs outs ks)"
proof (induction xs arbitrary: k outs ks)
  case (Cons st xs)
  then show ?case by (auto intro!: keeps_intros keeps_mark keeps_apply)
qed (simp add: keeps_def)

end

subsection \<open>The rows of a run that has not committed\<close>

definition unwritten :: "'r \<Rightarrow> op_id \<Rightarrow> ('w, 'r) sys \<Rightarrow> bool" where
  "unwritten r0 i s \<longleftrightarrow>
     rows s = r0 \<and> (\<forall>r. journal_get (jnl s) i = Some r \<longrightarrow> op_state r \<noteq> OpCommitted)"

text \<open>The recovery the run's row declares.\<close>

definition declared :: "recovery \<Rightarrow> op_id \<Rightarrow> ('w, 'r) sys \<Rightarrow> bool" where
  "declared rc i s \<longleftrightarrow> (\<forall>r. journal_get (jnl s) i = Some r \<longrightarrow> op_recovery r = rc)"

lemma final_mark:
  "rows (final (mark i pos key st out s)) = rows s"
  "journal_get (jnl (final (mark i pos key st out s))) = journal_get (jnl s)"
  using get_mark by (force simp: mark_def bindA_def spend_def split: sum.splits)+

lemma final_close:
  "rows (final (close_run i k st s)) = rows s"
  "journal_get (jnl (final (close_run i k st s))) i' =
     (if life s = 0 then journal_get (jnl s) i'
      else map_option (finish_row i st (clock s)) (journal_get (jnl s) i'))"
  using get_finish [of "jnl s" i st "clock s" i']
  by (auto simp: close_run_def bindA_def spend_def split: prod.splits bool.splits)

interpretation unw: effect_invariant "unwritten r0" for r0
  by unfold_locales
    (auto simp: unwritten_def final_mark final_close finish_row_def intro!: keepsI split: if_splits)

interpretation dec: effect_invariant "declared rc" for rc
  by unfold_locales
    (auto simp: declared_def final_mark final_close finish_row_def intro!: keepsI split: if_splits)

lemma start_unwritten:
  assumes "journal_get (jnl s) i = None"
  shows "unwritten (rows s) i (final (start_run h i p s))"
    and "declared (plan_recovery p) i (final (start_run h i p s))"
  using assms get_start [of "jnl s" i p "h_owner h" "clock s"]
  by (auto simp: start_run_def bindA_def spend_def unwritten_def declared_def split: sum.splits)

lemma commit_unwritten:
  assumes "unwritten r0 i s"
  shows "ends (commit_run i p outs s)
    (\<lambda>c t. \<exists>r. plan_commit p r0 outs = Inr (c, r) \<and> rows t = r) (\<lambda>_. unwritten r0 i) (unwritten r0 i)"
  using assms
  by (auto simp: commit_run_def bindA_def spend_def unwritten_def split: sum.splits prod.splits bool.splits)

lemma commit_declared: "keeps (declared rc i) (commit_run i p outs :: (('w, 'r) sys, json) action)"
proof (rule keepsI)
  fix s :: "('w, 'r) sys" assume a: "declared rc i s"
  show "declared rc i (final (commit_run i p outs s))"
    using a get_finish [of "jnl s" i OpCommitted "clock s" i]
    by (cases "journal_get (jnl s) i")
      (auto simp: commit_run_def bindA_def spend_def declared_def finish_row_def
        split: sum.splits prod.splits bool.splits if_splits)
qed

lemma run_declared:
  assumes "journal_get (jnl s) i = None"
  shows "declared (plan_recovery p) i (final (run h i p s))"
proof -
  let ?m = "matchA (record_home h p i)
       (\<lambda>recorded. bindA (run_steps h i p 0 (plan_steps p) Map.empty) (\<lambda>outs.
          matchA (commit_run i p outs)
            (\<lambda>committed. retA \<lparr>done_id = i, done_record = recorded, done_outputs = outs,
                              done_committed = committed\<rparr>)
            (\<lambda>source. bindA (undo_applied h i p) (\<lambda>_. raiseA source))))
       (\<lambda>why. bindA (close_run i (plan_kind p) OpFailed) (\<lambda>_. raiseA why))"
  have "keeps (declared (plan_recovery p) i) ?m"
    by (auto intro!: keeps_intros dec.keeps_record dec.keeps_run_steps commit_declared
        dec.keeps_undo_applied dec.keeps_close)
  from keepsD [OF this] start_unwritten(2) [OF assms, of p h] show ?thesis
    by (cases "start_run h i p s") (auto simp: run_def bindA_def)
qed

lemma resolve_declared:
  assumes "declared rc i s" and "op_ident r = i"
  shows "declared rc i (final (resolve_one h rebuilders r s))"
proof -
  have "keeps (declared rc i) (resume h i p)" for p :: "('a, 'b) plan"
    by (rule keepsI, simp add: resume_def)
      (auto intro!: keepsD [OF keeps_bindA [OF dec.keeps_resume_steps]] keeps_intros commit_declared
        split: prod.split)
  then show ?thesis
    using assms keepsD [OF dec.keeps_roll_back] keepsD
    by (fastforce simp: resolve_one_def take_over_def split: liveness.splits option.splits sum.splits recovery.splits)
qed

end
