(* ===== verification/Needs.thy ===== *)
theory Needs
  imports Prelude
begin

text \<open>
  \<open>model/needs.rs\<close>: why a unit of work needs a person, ranked. The order of the variants is
  the ranking and the Rust type derives \<open>Ord\<close> from it, so the model gives the type the
  library's linear order and everything that sorts by it uses the library's sort.
\<close>

datatype needs = UniqueLoss | BlockingRuntime | UnknownEvidence | Diverged | Review | NothingNeeded

fun needs_rank :: "needs \<Rightarrow> nat" where
  "needs_rank UniqueLoss = 0"
| "needs_rank BlockingRuntime = 1"
| "needs_rank UnknownEvidence = 2"
| "needs_rank Diverged = 3"
| "needs_rank Review = 4"
| "needs_rank NothingNeeded = 5"

lemma needs_rank_inj: "needs_rank a = needs_rank b \<longleftrightarrow> a = b"
  by (cases a; cases b) simp_all

instantiation needs :: linorder
begin

definition less_eq_needs :: "needs \<Rightarrow> needs \<Rightarrow> bool" where
  "less_eq_needs a b \<longleftrightarrow> needs_rank a \<le> needs_rank b"

definition less_needs :: "needs \<Rightarrow> needs \<Rightarrow> bool" where
  "less_needs a b \<longleftrightarrow> needs_rank a < needs_rank b"

instance
  by standard (auto simp: less_eq_needs_def less_needs_def needs_rank_inj)

end

lemmas needs_order = less_eq_needs_def less_needs_def

fun needs_label :: "needs \<Rightarrow> string" where
  "needs_label UniqueLoss = ''unique loss''"
| "needs_label BlockingRuntime = ''blocked''"
| "needs_label UnknownEvidence = ''unknown''"
| "needs_label Diverged = ''diverged''"
| "needs_label Review = ''review''"
| "needs_label NothingNeeded = ''nothing''"

fun needs_refuses :: "needs \<Rightarrow> bool" where
  "needs_refuses UniqueLoss = True"
| "needs_refuses BlockingRuntime = True"
| "needs_refuses UnknownEvidence = True"
| "needs_refuses _ = False"

text \<open>What refuses comes before everything that does not, and the words are distinct.\<close>

lemma refusing_first: "needs_refuses a \<Longrightarrow> \<not> needs_refuses b \<Longrightarrow> a < b"
  by (cases a; cases b) (simp_all add: needs_order)

lemma needs_refuses_iff: "needs_refuses a \<longleftrightarrow> a \<le> UnknownEvidence"
  by (cases a) (simp_all add: needs_order)

lemma needs_label_inj: "needs_label a = needs_label b \<longleftrightarrow> a = b"
  by (cases a; cases b) simp_all

lemma needs_top: "a \<le> NothingNeeded"
  by (cases a) (simp_all add: needs_order)

lemma needs_bot: "UniqueLoss \<le> a"
  by (simp add: needs_order)

end
