(* ===== verification/Occupancy.thy ===== *)
theory Occupancy
  imports Prelude
begin

text \<open>
  Who stands in a home. The process table as \<open>runtime/processes.rs\<close> reads it, the rows and
  notes of \<open>runtime/attribute/mod.rs\<close>, and the sorting of the table into the unit's own
  processes and the strangers (\<open>lifecycle/assess.rs\<close>: \<open>Table\<close>, \<open>owns\<close>, \<open>bystander\<close>,
  \<open>descends_from\<close>, \<open>unmovable\<close>). What a host answers about one process at the moment it is
  asked (its group, its parent, when it started, whether it is still there) is a parameter.
\<close>

subsection \<open>The process table\<close>

datatype how = Descriptor | Mapping | Root

fun how_label :: "how \<Rightarrow> string" where
  "how_label Descriptor = ''writing''"
| "how_label Mapping = ''mapping''"
| "how_label Root = ''rooted at''"

record hold =
  hold_path :: path
  hold_how :: how

definition display_path :: "path \<Rightarrow> string" where
  "display_path p = ''/'' @ join ''/'' p"

definition hold_describe :: "hold \<Rightarrow> string" where
  "hold_describe h = how_label (hold_how h) @ '' '' @ display_path (hold_path h)"

record lineage =
  lin_parent :: "nat option"
  lin_group :: "nat option"

datatype kept_back = AnotherAccount | Restricted

record running =
  run_pid :: nat
  run_vars :: "(string \<times> string) list"
  run_cwd :: "path option"
  run_command :: "string option"
  run_held :: "hold list"
  run_lineage :: lineage
  run_withheld :: "kept_back option"

definition run_var :: "running \<Rightarrow> string \<Rightarrow> string option" where
  "run_var r name = map_of (run_vars r) name"

subsection \<open>Rows and notes\<close>

record standing =
  st_pid :: nat
  st_command :: "string option"
  st_holding :: "string option"

definition new_standing :: "nat \<Rightarrow> string option \<Rightarrow> standing" where
  "new_standing pid command = \<lparr>st_pid = pid, st_command = command, st_holding = None\<rparr>"

definition standing_label :: "standing \<Rightarrow> string" where
  "standing_label s =
     (let what = (case st_command s of Some c \<Rightarrow> c | None \<Rightarrow> ''unnamed command'');
          who = what @ '' (pid '' @ dec (st_pid s) @ '')''
      in case st_holding s of Some held \<Rightarrow> who @ '' '' @ held | None \<Rightarrow> who)"

definition standing_summarise :: "standing list \<Rightarrow> string" where
  "standing_summarise xs = join '', '' (map standing_label xs)"

datatype signal_source = FromEnvironment | FromCwd | FromDocker | FromListener

datatype reach = ReachUnread | ReachPart

record signal_note =
  note_signal :: signal_source
  note_why :: string
  note_reach :: reach

definition new_note :: "signal_source \<Rightarrow> string \<Rightarrow> signal_note" where
  "new_note signal why = \<lparr>note_signal = signal, note_why = why, note_reach = ReachUnread\<rparr>"

definition part_note :: "signal_source \<Rightarrow> string \<Rightarrow> signal_note" where
  "part_note signal why = \<lparr>note_signal = signal, note_why = why, note_reach = ReachPart\<rparr>"

definition note_unread :: "signal_source \<Rightarrow> signal_note \<Rightarrow> bool" where
  "note_unread signal n \<longleftrightarrow> note_signal n = signal \<and> note_reach n = ReachUnread"

definition ANOTHER_ACCOUNT :: string where
  "ANOTHER_ACCOUNT =
     ''this account may not read the variables, the directory or the open files of every process''"

definition RESTRICTED :: string where
  "RESTRICTED = ''macos does not show the variables of a process that runs a restricted binary''"

definition withheld_notes :: "running list \<Rightarrow> signal_note list" where
  "withheld_notes table =
     (if list_ex (\<lambda>r. run_withheld r = Some AnotherAccount) table
      then [part_note FromEnvironment ANOTHER_ACCOUNT, part_note FromCwd ANOTHER_ACCOUNT] else [])
     @ (if list_ex (\<lambda>r. run_withheld r = Some Restricted) table
        then [part_note FromEnvironment RESTRICTED] else [])"

text \<open>A refusal over part of the table is never a refusal over all of it.\<close>

lemma withheld_never_unread: "n \<in> set (withheld_notes table) \<Longrightarrow> \<not> note_unread s n"
  by (auto simp: withheld_notes_def note_unread_def part_note_def split: if_splits)

subsection \<open>Whose a process is\<close>

record holding =
  hg_pid :: nat
  hg_started :: "timestamp option"

record own =
  own_unit :: string
  own_groups :: "nat list"
  own_wrappers :: "holding list"

text \<open>What the host answers when it is asked again about one process.\<close>

record asked_host =
  ah_group :: "nat \<Rightarrow> nat option"
  ah_parent :: "nat \<Rightarrow> nat option"
  ah_started :: "nat \<Rightarrow> timestamp option"

definition NODAL_ID :: string where "NODAL_ID = ''NODAL_ID''"

definition owns :: "running \<Rightarrow> own \<Rightarrow> bool" where
  "owns r o1 \<longleftrightarrow> run_var r NODAL_ID = Some (own_unit o1)"

definition in_one_of :: "running \<Rightarrow> path list \<Rightarrow> bool" where
  "in_one_of r homes =
     (case run_cwd r of None \<Rightarrow> False | Some cwd \<Rightarrow> list_ex (\<lambda>home. prefix home cwd) homes)"

definition held_inside :: "running \<Rightarrow> path list \<Rightarrow> hold option" where
  "held_inside r placed = List.find (\<lambda>h. list_ex (\<lambda>home. prefix home (hold_path h)) placed) (run_held r)"

definition is_still :: "asked_host \<Rightarrow> nat \<Rightarrow> holding \<Rightarrow> bool" where
  "is_still h pid w \<longleftrightarrow> pid = hg_pid w \<and> hg_started w \<noteq> None \<and> ah_started h pid = hg_started w"

definition vouched_for_by_a_group :: "asked_host \<Rightarrow> running \<Rightarrow> own \<Rightarrow> bool" where
  "vouched_for_by_a_group h r o1 =
     (if (case ah_group h (run_pid r) of Some g \<Rightarrow> g \<in> set (own_groups o1) | None \<Rightarrow> False) then True
      else if list_ex (\<lambda>leader. ah_parent h leader = Some (run_pid r)) (own_groups o1) then True
      else list_ex (\<lambda>w. is_still h (run_pid r) w
             \<or> (case ah_parent h (run_pid r) of Some p \<Rightarrow> is_still h p w | None \<Rightarrow> False)) (own_wrappers o1))"

definition bystander :: "asked_host \<Rightarrow> running \<Rightarrow> own \<Rightarrow> path list \<Rightarrow> nat list \<Rightarrow> bool" where
  "bystander h r o1 placed spared \<longleftrightarrow>
     \<not> owns r o1 \<and> run_pid r \<notin> set spared
     \<and> (in_one_of r placed \<or> held_inside r placed \<noteq> None)
     \<and> \<not> vouched_for_by_a_group h r o1"

text \<open>\<open>wrappers_of\<close>: the \<open>nodal run\<close> each group hangs off, dated while the groups are alive.\<close>

definition wrappers_of :: "asked_host \<Rightarrow> nat list \<Rightarrow> holding list" where
  "wrappers_of h groups =
     map (\<lambda>pid. \<lparr>hg_pid = pid, hg_started = ah_started h pid\<rparr>)
       (filter (\<lambda>pid. 1 < pid) (List.map_filter (ah_parent h) groups))"

subsection \<open>Descent\<close>

definition LINEAGE :: nat where "LINEAGE = 16"

definition WITHHELD :: string where
  "WITHHELD = ''started from inside the home; this account may not read it''"

text \<open>The parent the table read of a process; the table is a map, so its last row of a pid counts.\<close>

definition parent_in :: "running list \<Rightarrow> nat \<Rightarrow> nat option" where
  "parent_in table pid =
     Option.bind (map_of (rev (map (\<lambda>r. (run_pid r, run_lineage r)) table)) pid) lin_parent"

text \<open>One turn of the bounded walk from a parent upwards, with the pids walked so far.\<close>

fun climb ::
    "nat \<Rightarrow> (nat \<Rightarrow> nat option) \<Rightarrow> nat set \<Rightarrow> nat set \<Rightarrow> nat option \<Rightarrow> bool" where
  "climb 0 parent inside walked at = False"
| "climb (Suc n) parent inside walked at =
     (case at of
        None \<Rightarrow> False
      | Some pid \<Rightarrow>
          if pid \<le> 1 then False
          else if pid \<in> inside then True
          else if pid \<in> walked then False
          else climb n parent inside (insert pid walked) (parent pid))"

definition descends_from ::
    "running \<Rightarrow> nat set \<Rightarrow> nat set \<Rightarrow> (nat \<Rightarrow> nat option) \<Rightarrow> bool" where
  "descends_from r inside by_cwd parent =
     (if (case lin_group (run_lineage r) of Some g \<Rightarrow> g \<in> by_cwd | None \<Rightarrow> False) then True
      else climb LINEAGE parent inside {run_pid r} (lin_parent (run_lineage r)))"

subsection \<open>Sorting the table\<close>

record sorted_table =
  so_certain :: "nat list"
  so_standing :: "standing list"

text \<open>One process of the loop: the certain ones, the standing ones, and those found by directory.\<close>

definition sort_one ::
    "asked_host \<Rightarrow> own \<Rightarrow> path list \<Rightarrow> nat list \<Rightarrow> (nat \<Rightarrow> bool)
       \<Rightarrow> running \<Rightarrow> nat list \<times> standing list \<times> nat set \<Rightarrow> nat list \<times> standing list \<times> nat set" where
  "sort_one h o1 placed spared ended r acc =
     (case acc of (certain, rows, by_cwd) \<Rightarrow>
        if owns r o1 then (certain @ [run_pid r], rows, by_cwd)
        else if \<not> bystander h r o1 placed spared \<or> ended (run_pid r) then (certain, rows, by_cwd)
        else
          let by_cwd = (if in_one_of r placed then insert (run_pid r) by_cwd else by_cwd);
              row = new_standing (run_pid r) (run_command r);
              row = (case held_inside r placed of
                       Some held \<Rightarrow> row\<lparr>st_holding := Some (hold_describe held)\<rparr>
                     | None \<Rightarrow> row)
          in (certain, rows @ [row], by_cwd))"

definition withheld_in ::
    "running list \<Rightarrow> standing list \<Rightarrow> nat set \<Rightarrow> nat list \<Rightarrow> (nat \<Rightarrow> bool) \<Rightarrow> standing list" where
  "withheld_in table rows by_cwd spared ended =
     (if rows = [] then []
      else map (\<lambda>r. (new_standing (run_pid r) (run_command r))\<lparr>st_holding := Some WITHHELD\<rparr>)
        (filter (\<lambda>r. run_withheld r = Some AnotherAccount \<and> run_pid r \<notin> set spared \<and> \<not> ended (run_pid r)
             \<and> descends_from r (st_pid ` set rows) by_cwd (parent_in table)) table))"

definition sort_table ::
    "asked_host \<Rightarrow> running list \<Rightarrow> own \<Rightarrow> path list \<Rightarrow> nat list \<Rightarrow> (nat \<Rightarrow> bool) \<Rightarrow> sorted_table" where
  "sort_table h table o1 placed spared ended =
     (case fold (sort_one h o1 placed spared ended) table ([], [], {}) of
        (certain, rows, by_cwd) \<Rightarrow>
          \<lparr>so_certain = certain, so_standing = rows @ withheld_in table rows by_cwd spared ended\<rparr>)"

subsection \<open>A reading of one home\<close>

record runtime =
  rt_groups :: "nat list"
  rt_processes :: "nat list"
  rt_containers :: "string list"
  rt_bystanders :: "standing list"
  rt_notes :: "signal_note list"
  rt_read :: nat
  rt_withheld :: nat
  rt_occupancy :: "string list"
  rt_at :: "string option"

definition no_runtime :: runtime where
  "no_runtime = \<lparr>rt_groups = [], rt_processes = [], rt_containers = [], rt_bystanders = [],
     rt_notes = [], rt_read = 0, rt_withheld = 0, rt_occupancy = [], rt_at = None\<rparr>"

definition rt_unread :: "runtime \<Rightarrow> bool" where
  "rt_unread r \<longleftrightarrow> list_ex (note_unread FromEnvironment) (rt_notes r)"

definition how_far :: "runtime \<Rightarrow> string" where
  "how_far r = (if rt_unread r then ''unread'' else if 0 < rt_withheld r then ''read in part'' else ''read in full'')"

definition rt_taken :: "string \<Rightarrow> runtime \<Rightarrow> runtime" where
  "rt_taken at r = (let r = r\<lparr>rt_at := Some at\<rparr> in if rt_unread r then r\<lparr>rt_occupancy := []\<rparr> else r)"

definition OCCUPANCY :: "string list" where
  "OCCUPANCY = [''cwd'', ''fd_write'', ''mmap_write'', ''root'']"

text \<open>\<open>scan\<close> and \<open>processes_of\<close>: \<open>table\<close> is what \<open>Processes::scan\<close> answered.\<close>

definition processes_of ::
    "asked_host \<Rightarrow> (path \<Rightarrow> path) \<Rightarrow> (error \<Rightarrow> string) \<Rightarrow> (nat \<Rightarrow> bool) \<Rightarrow> nat list
       \<Rightarrow> error + running list \<Rightarrow> own \<Rightarrow> path list \<Rightarrow> runtime" where
  "processes_of h canonical render ended spared scanned o1 homes =
     (case scanned of
        Inl e \<Rightarrow> no_runtime\<lparr>rt_notes := [new_note FromEnvironment (render e)]\<rparr>
      | Inr table \<Rightarrow>
          let so = sort_table h table o1 (map canonical homes) spared ended
          in no_runtime\<lparr>rt_processes := so_certain so, rt_bystanders := so_standing so,
               rt_notes := withheld_notes table, rt_read := length table,
               rt_withheld := length (filter (\<lambda>r. run_withheld r \<noteq> None) table),
               rt_occupancy := OCCUPANCY\<rparr>)"

datatype unmovable_why = UnmovableStanding "standing list" | UnmovableUnread signal_note

definition unmovable :: "runtime \<Rightarrow> unmovable_why option" where
  "unmovable r =
     (case List.find (note_unread FromEnvironment) (rt_notes r) of
        Some note \<Rightarrow> Some (UnmovableUnread note)
      | None \<Rightarrow> if rt_bystanders r \<noteq> [] then Some (UnmovableStanding (rt_bystanders r)) else None)"

lemma unmovable_None_iff:
  "unmovable r = None \<longleftrightarrow> \<not> rt_unread r \<and> rt_bystanders r = []"
  by (auto simp: unmovable_def rt_unread_def find_None_iff list_ex_iff dest: find_Some_in split: option.splits)

subsection \<open>What the sort answers\<close>

definition stands :: "asked_host \<Rightarrow> own \<Rightarrow> path list \<Rightarrow> nat list \<Rightarrow> (nat \<Rightarrow> bool) \<Rightarrow> running \<Rightarrow> bool" where
  "stands h o1 placed spared ended r \<longleftrightarrow> bystander h r o1 placed spared \<and> \<not> ended (run_pid r)"

definition standing_row :: "path list \<Rightarrow> running \<Rightarrow> standing" where
  "standing_row placed r = (new_standing (run_pid r) (run_command r))
     \<lparr>st_holding := map_option hold_describe (held_inside r placed)\<rparr>"

lemma st_pid_row [simp]: "st_pid (standing_row placed r) = run_pid r"
  by (simp add: standing_row_def new_standing_def)

lemma sort_one_eq:
  "sort_one h o1 placed spared ended r (certain, rows, by_cwd) =
     (if owns r o1 then (certain @ [run_pid r], rows, by_cwd)
      else if stands h o1 placed spared ended r
      then (certain, rows @ [standing_row placed r],
            if in_one_of r placed then insert (run_pid r) by_cwd else by_cwd)
      else (certain, rows, by_cwd))"
  by (auto simp: sort_one_def stands_def standing_row_def new_standing_def Let_def split: option.split)

lemma stands_not_owned: "stands h o1 placed spared ended r \<Longrightarrow> \<not> owns r o1"
  by (simp add: stands_def bystander_def)

lemma sort_fold:
  "fold (sort_one h o1 placed spared ended) table (certain, rows, by_cwd) =
     (certain @ map run_pid (filter (\<lambda>r. owns r o1) table),
      rows @ map (standing_row placed) (filter (stands h o1 placed spared ended) table),
      by_cwd \<union> run_pid ` {r \<in> set table. stands h o1 placed spared ended r \<and> in_one_of r placed})"
proof (induction table arbitrary: certain rows by_cwd)
  case (Cons r table)
  have "{x \<in> set (r # table). stands h o1 placed spared ended x \<and> in_one_of x placed} =
      (if stands h o1 placed spared ended r \<and> in_one_of r placed then {r} else {})
      \<union> {x \<in> set table. stands h o1 placed spared ended x \<and> in_one_of x placed}"
    by auto
  then show ?case
    using stands_not_owned [of h o1 placed spared ended r]
    by (simp del: fold_simps add: fold_simps(2) sort_one_eq Cons.IH image_Un Un_assoc)
qed simp

lemma so_certain_sort:
  "so_certain (sort_table h table o1 placed spared ended) = map run_pid (filter (\<lambda>r. owns r o1) table)"
  by (simp add: sort_table_def sort_fold)

definition shadow ::
    "asked_host \<Rightarrow> running list \<Rightarrow> own \<Rightarrow> path list \<Rightarrow> nat list \<Rightarrow> (nat \<Rightarrow> bool) \<Rightarrow> running \<Rightarrow> bool" where
  "shadow h table o1 placed spared ended r \<longleftrightarrow>
     run_withheld r = Some AnotherAccount \<and> run_pid r \<notin> set spared \<and> \<not> ended (run_pid r)
     \<and> descends_from r (run_pid ` {r \<in> set table. stands h o1 placed spared ended r})
         (run_pid ` {r \<in> set table. stands h o1 placed spared ended r \<and> in_one_of r placed}) (parent_in table)"

lemma set_so_standing:
  "set (map st_pid (so_standing (sort_table h table o1 placed spared ended))) =
     run_pid ` {r \<in> set table. stands h o1 placed spared ended r
        \<or> (\<exists>q \<in> set table. stands h o1 placed spared ended q) \<and> shadow h table o1 placed spared ended r}"
proof -
  let ?P = "stands h o1 placed spared ended"
  have e: "filter ?P table = [] \<longleftrightarrow> \<not> (\<exists>q \<in> set table. ?P q)" by (auto simp: filter_empty_conv)
  have i: "st_pid ` standing_row placed ` {r \<in> set table. ?P r} = run_pid ` {r \<in> set table. ?P r}"
    by (simp add: image_image)
  have n: "st_pid (new_standing a b \<lparr>st_holding := c\<rparr>) = a" for a b c by (simp add: new_standing_def)
  show ?thesis
    by (auto simp: sort_table_def sort_fold withheld_in_def e i image_image n shadow_def)
qed

text \<open>The bounded walk finds what the whole chain of parents finds, if it is near enough.\<close>

fun ancestor :: "(nat \<Rightarrow> nat option) \<Rightarrow> nat option \<Rightarrow> nat \<Rightarrow> nat option" where
  "ancestor parent at 0 = at"
| "ancestor parent at (Suc k) = Option.bind (ancestor parent at k) parent"

lemma ancestor_step: "ancestor parent (parent p) k = ancestor parent (Some p) (Suc k)"
  by (induction k) simp_all

definition climbs_to :: "(nat \<Rightarrow> nat option) \<Rightarrow> nat set \<Rightarrow> nat option \<Rightarrow> nat \<Rightarrow> bool" where
  "climbs_to parent inside at n \<longleftrightarrow>
     (\<exists>k < n. (\<exists>p \<in> inside. ancestor parent at k = Some p)
        \<and> (\<forall>j \<le> k. \<exists>q > 1. ancestor parent at j = Some q))"

lemma climbs_to_0 [simp]: "\<not> climbs_to parent inside at 0"
  by (simp add: climbs_to_def)

lemma climbs_to_None [simp]: "\<not> climbs_to parent inside None n"
  by (force simp: climbs_to_def)

lemma climbs_to_Suc:
  "climbs_to parent inside (Some p) (Suc n) \<longleftrightarrow> 1 < p \<and> (p \<in> inside \<or> climbs_to parent inside (parent p) n)"
  (is "?L \<longleftrightarrow> ?R")
proof
  assume ?L
  then obtain k q where k: "k < Suc n" "q \<in> inside" "ancestor parent (Some p) k = Some q"
    and j: "\<forall>j \<le> k. \<exists>q > 1. ancestor parent (Some p) j = Some q" by (auto simp: climbs_to_def)
  have "1 < p" using j by (auto dest: spec [of _ 0])
  show ?R
  proof (cases k)
    case 0
    with k \<open>1 < p\<close> show ?thesis by simp
  next
    case (Suc m)
    have "\<exists>q > 1. ancestor parent (parent p) i = Some q" if "i \<le> m" for i
      using j Suc that ancestor_step [of parent p i] by (auto dest: spec [of _ "Suc i"])
    with k Suc \<open>1 < p\<close> ancestor_step [of parent p m] show ?thesis by (auto simp: climbs_to_def)
  qed
next
  assume r: ?R
  show ?L
  proof (cases "p \<in> inside")
    case True
    with r have "\<exists>q \<in> inside. ancestor parent (Some p) 0 = Some q" and "1 < p" by simp_all
    then show ?thesis unfolding climbs_to_def by (metis ancestor.simps(1) le_zero_eq zero_less_Suc)
  next
    case False
    with r obtain k q where k: "k < n" "q \<in> inside" "ancestor parent (parent p) k = Some q"
      and j: "\<forall>j \<le> k. \<exists>q > 1. ancestor parent (parent p) j = Some q" by (auto simp: climbs_to_def)
    have "\<exists>q > 1. ancestor parent (Some p) i = Some q" if "i \<le> Suc k" for i
      using j r that ancestor_step [of parent p] by (cases i) auto
    moreover have "\<exists>q \<in> inside. ancestor parent (Some p) (Suc k) = Some q"
      using k ancestor_step [of parent p k] by auto
    ultimately show ?thesis
      using k(1) unfolding climbs_to_def by (intro exI [of _ "Suc k"]) blast
  qed
qed

lemma closed_never_climbs_to:
  assumes "\<And>x. x \<in> A \<Longrightarrow> x \<notin> inside" and "\<And>x y. x \<in> A \<Longrightarrow> parent x = Some y \<Longrightarrow> y \<in> A"
    and "at = Some x" and "x \<in> A"
  shows "\<not> climbs_to parent inside at n"
proof -
  have "ancestor parent at k = Some q \<Longrightarrow> q \<in> A" for k q
    using assms(2-4) by (induction k arbitrary: q) (auto simp: bind_eq_Some_conv)
  with assms(1) show ?thesis by (auto simp: climbs_to_def)
qed

text \<open>
  The walk stops at a pid it has seen. That loses nothing: the pids seen so far, the start
  \<open>w\<close> apart, are closed under the parent relation up to where the walk stands.
\<close>

lemma climb_climbs_to:
  assumes "w \<in> W" and "\<And>x. x \<in> W - {w} \<Longrightarrow> x \<notin> inside"
    and "\<And>x. x \<in> W - {w} \<Longrightarrow> parent x = at \<or> parent x \<in> Some ` (W - {w})"
    and "parent w = at \<or> parent w \<in> Some ` (W - {w})"
  shows "climb n parent inside W at \<longleftrightarrow> climbs_to parent inside at n"
  using assms
proof (induction n arbitrary: W at)
  case 0
  then show ?case by simp
next
  case (Suc n)
  show ?case
  proof (cases at)
    case None
    then show ?thesis by simp
  next
    case (Some p)
    consider "p \<le> 1" | "1 < p" "p \<in> inside" | "1 < p" "p \<notin> inside" "p \<in> W" | "1 < p" "p \<notin> inside" "p \<notin> W"
      by fastforce
    then show ?thesis
    proof cases
      case 3
      let ?A = "if p = w then W else W - {w}"
      have "\<not> climbs_to parent inside at (Suc n)"
      proof (rule closed_never_climbs_to [of ?A])
        show "x \<notin> inside" if "x \<in> ?A" for x
          using that 3 Suc.prems(2) [of x] by (auto split: if_splits)
        show "y \<in> ?A" if "x \<in> ?A" and "parent x = Some y" for x y
          using that 3 Some Suc.prems(1,4) Suc.prems(3) [of x]
          by (cases "x = w"; cases "p = w") auto
      qed (use Some 3 in auto)
      with 3 Some show ?thesis by simp
    next
      case 4
      have "climb n parent inside (insert p W) (parent p) \<longleftrightarrow> climbs_to parent inside (parent p) n"
      proof (rule Suc.IH)
        show "parent x = parent p \<or> parent x \<in> Some ` (insert p W - {w})" if "x \<in> insert p W - {w}" for x
          using that Suc.prems(3) [of x] Some 4 Suc.prems(1) by (cases "x = p") auto
        show "parent w = parent p \<or> parent w \<in> Some ` (insert p W - {w})"
          using Suc.prems(1,4) Some 4 by auto
      qed (use Suc.prems 4 in auto)
      with 4 Some show ?thesis by (simp add: climbs_to_Suc)
    qed (use Some in \<open>simp_all add: climbs_to_Suc\<close>)
  qed
qed

lemma descends_climbs_to:
  assumes "parent (run_pid r) = lin_parent (run_lineage r)"
  shows "descends_from r inside by_cwd parent \<longleftrightarrow>
    (\<exists>g \<in> by_cwd. lin_group (run_lineage r) = Some g)
    \<or> climbs_to parent inside (lin_parent (run_lineage r)) LINEAGE"
  using climb_climbs_to [of "run_pid r" "{run_pid r}" inside parent "lin_parent (run_lineage r)" LINEAGE] assms
  by (auto simp: descends_from_def split: option.splits)

subsection \<open>What a teardown and a refusal may rely on\<close>

lemma parent_in_lineage:
  assumes "distinct (map run_pid table)" and "r \<in> set table"
  shows "parent_in table (run_pid r) = lin_parent (run_lineage r)"
proof -
  have "distinct (map fst (rev (map (\<lambda>r. (run_pid r, run_lineage r)) table)))"
    using assms(1) by (simp add: rev_map [symmetric] comp_def)
  then have "map_of (rev (map (\<lambda>r. (run_pid r, run_lineage r)) table)) (run_pid r) = Some (run_lineage r)"
    using assms(2) by (intro map_of_is_SomeI) auto
  then show ?thesis by (simp add: parent_in_def)
qed

lemma owns_needs_vars: "owns r o1 \<Longrightarrow> run_vars r \<noteq> []"
  by (auto simp: owns_def run_var_def)

text \<open>
  No process is both stopped and refused over. A teardown signals the processes that
  carry the unit's identifier and no others, a refusal names only processes that do not,
  and neither this command's own processes nor one that has ended is ever refused over.
\<close>

theorem teardown_and_refusal_apart:
  assumes "distinct (map run_pid table)"
    and "\<And>r. r \<in> set table \<Longrightarrow> run_withheld r = Some AnotherAccount \<Longrightarrow> run_vars r = []"
  shows "set (so_certain (sort_table h table o1 placed spared ended))
           = run_pid ` {r \<in> set table. owns r o1}
    \<and> set (so_certain (sort_table h table o1 placed spared ended))
        \<inter> set (map st_pid (so_standing (sort_table h table o1 placed spared ended))) = {}
    \<and> (\<forall>pid \<in> set (map st_pid (so_standing (sort_table h table o1 placed spared ended))).
         pid \<notin> set spared \<and> \<not> ended pid)"
proof -
  have inj: "r = q" if "r \<in> set table" "q \<in> set table" "run_pid r = run_pid q" for r q
    using assms(1) that by (auto simp: distinct_map inj_on_def)
  have no: "\<not> owns r o1" if "r \<in> set table" "shadow h table o1 placed spared ended r" for r
    using that assms(2) [of r] owns_needs_vars [of r o1] by (auto simp: shadow_def)
  show ?thesis
    unfolding set_so_standing so_certain_sort
    using no inj stands_not_owned [of h o1 placed spared ended]
    by (auto simp: shadow_def stands_def bystander_def dest: inj)
qed

text \<open>
  C11. The refusal is complete. A home is refused over exactly the live processes that stand
  in it or hold a file open inside it without the unit vouching for them, and the processes
  of another account that descend, within \<open>LINEAGE\<close> parents, from one of those.
\<close>

theorem refused_over_exactly:
  assumes "distinct (map run_pid table)"
  shows "pid \<in> set (map st_pid (so_standing (sort_table h table o1 placed spared ended))) \<longleftrightarrow>
    (\<exists>r \<in> set table. run_pid r = pid \<and> pid \<notin> set spared \<and> \<not> ended pid \<and>
       (bystander h r o1 placed spared
        \<or> run_withheld r = Some AnotherAccount
          \<and> (\<exists>q \<in> set table. stands h o1 placed spared ended q
               \<and> (in_one_of q placed \<and> lin_group (run_lineage r) = Some (run_pid q)
                  \<or> climbs_to (parent_in table) (run_pid ` {q \<in> set table. stands h o1 placed spared ended q})
                      (lin_parent (run_lineage r)) LINEAGE))))"
proof -
  have d: "descends_from r A B (parent_in table) \<longleftrightarrow>
      (\<exists>g \<in> B. lin_group (run_lineage r) = Some g) \<or> climbs_to (parent_in table) A (lin_parent (run_lineage r)) LINEAGE"
    if "r \<in> set table" for r A B
    using parent_in_lineage [OF assms that] by (rule descends_climbs_to)
  let ?P = "stands h o1 placed spared ended"
  let ?R = "\<lambda>r. climbs_to (parent_in table) (run_pid ` {q \<in> set table. ?P q}) (lin_parent (run_lineage r)) LINEAGE"
  have sh: "shadow h table o1 placed spared ended r \<longleftrightarrow>
      run_withheld r = Some AnotherAccount \<and> run_pid r \<notin> set spared \<and> \<not> ended (run_pid r)
      \<and> ((\<exists>q \<in> set table. ?P q \<and> in_one_of q placed \<and> lin_group (run_lineage r) = Some (run_pid q)) \<or> ?R r)"
    if "r \<in> set table" for r
    by (auto simp: shadow_def d [OF that])
  have st: "?P r \<longleftrightarrow> bystander h r o1 placed spared \<and> run_pid r \<notin> set spared \<and> \<not> ended (run_pid r)" for r
    by (auto simp: stands_def bystander_def)
  have "?P r \<or> (\<exists>q \<in> set table. ?P q) \<and> shadow h table o1 placed spared ended r \<longleftrightarrow>
      run_pid r \<notin> set spared \<and> \<not> ended (run_pid r) \<and>
       (bystander h r o1 placed spared
        \<or> run_withheld r = Some AnotherAccount
          \<and> (\<exists>q \<in> set table. ?P q \<and> (in_one_of q placed \<and> lin_group (run_lineage r) = Some (run_pid q) \<or> ?R r)))"
    if "r \<in> set table" for r
    unfolding sh [OF that] st [of r] by blast
  then show ?thesis unfolding set_so_standing by blast
qed

subsection \<open>The properties at one table\<close>

text \<open>
  A server the unit started, a shell standing in the home, and a process of another account
  that the shell started. No group was recorded and nothing is asked twice.
\<close>

definition ex_process :: "nat \<Rightarrow> (string \<times> string) list \<Rightarrow> path option \<Rightarrow> nat option \<Rightarrow> kept_back option \<Rightarrow> running" where
  "ex_process pid vars cwd parent kept = \<lparr>run_pid = pid, run_vars = vars, run_cwd = cwd, run_command = None,
     run_held = [], run_lineage = \<lparr>lin_parent = parent, lin_group = None\<rparr>, run_withheld = kept\<rparr>"

definition ex_processes :: "running list" where
  "ex_processes = [ex_process 10 [(''NODAL_ID'', ''u'')] (Some [''h'']) None None,
     ex_process 20 [] (Some [''h'', ''src'']) None None,
     ex_process 30 [] None (Some 20) (Some AnotherAccount)]"

abbreviation ex_asked :: asked_host where
  "ex_asked \<equiv> \<lparr>ah_group = \<lambda>_. None, ah_parent = \<lambda>_. None, ah_started = \<lambda>_. None\<rparr>"

abbreviation ex_unit :: own where
  "ex_unit \<equiv> \<lparr>own_unit = ''u'', own_groups = [], own_wrappers = []\<rparr>"

lemma ex_owns: "{r \<in> set ex_processes. owns r ex_unit} = {ex_process 10 [(''NODAL_ID'', ''u'')] (Some [''h'']) None None}"
  by (auto simp: ex_processes_def ex_process_def owns_def run_var_def NODAL_ID_def)

theorem teardown_and_refusal_apart_witness:
  "set (so_certain (sort_table ex_asked ex_processes ex_unit [[''h'']] [1] (\<lambda>_. False))) = {10}"
proof -
  have "distinct (map run_pid ex_processes)" by (simp add: ex_processes_def ex_process_def)
  moreover have "run_vars r = []" if "r \<in> set ex_processes" "run_withheld r = Some AnotherAccount" for r
    using that by (auto simp: ex_processes_def ex_process_def)
  ultimately have "set (so_certain (sort_table ex_asked ex_processes ex_unit [[''h'']] [1] (\<lambda>_. False)))
      = run_pid ` {r \<in> set ex_processes. owns r ex_unit}"
    by (rule teardown_and_refusal_apart [THEN conjunct1])
  then show ?thesis unfolding ex_owns by (simp add: ex_process_def)
qed

theorem refused_over_exactly_witness:
  "20 \<in> set (map st_pid (so_standing (sort_table ex_asked ex_processes ex_unit [[''h'']] [1] (\<lambda>_. False))))
   \<and> 10 \<notin> set (map st_pid (so_standing (sort_table ex_asked ex_processes ex_unit [[''h'']] [1] (\<lambda>_. False))))"
proof -
  have d: "distinct (map run_pid ex_processes)" by (simp add: ex_processes_def ex_process_def)
  note e = refused_over_exactly [OF d, where h = ex_asked and ?o1.0 = ex_unit and placed = "[[''h'']]"
      and spared = "[1]" and ended = "\<lambda>_. False"]
  show ?thesis
    unfolding e
    by (auto simp: ex_processes_def ex_process_def bystander_def owns_def run_var_def NODAL_ID_def in_one_of_def
        vouched_for_by_a_group_def)
qed

end
