(* ===== verification/Loss.thy ===== *)
theory Loss
  imports Needs Occupancy
begin

text \<open>
  What a removal of one home would take away: the groups of paths and of commits the
  assessment hands to the kernel (\<open>lifecycle/assess.rs\<close>: \<open>Copies\<close>, \<open>CommitGroup\<close>, \<open>Held\<close>,
  \<open>PathGroup\<close>, \<open>Fate\<close>), what they rest on (\<open>lifecycle/uniqueness.rs\<close>: \<open>Witness\<close>;
  \<open>lifecycle/complete.rs\<close>: \<open>Lacking\<close>), and the findings a refusal prints.
\<close>

definition SAMPLE :: nat where "SAMPLE = 10"

subsection \<open>What a reading of the remote rests on\<close>

datatype branch_reading = Older | Unnamed

record unobserved =
  uo_branch :: string
  uo_reading :: branch_reading

datatype witness =
    Unchecked
  | Checked "path list" "unobserved list"
  | Direct "path list"
  | NoRemote

definition witness_default :: witness where "witness_default = Unchecked"

fun reading_about :: "branch_reading \<Rightarrow> string \<Rightarrow> string" where
  "reading_about Older branches =
     ''that reading was taken before this home wrote its own record of '' @ branches
     @ '', so for those branches it is the older one; fetch in the checkout and read again''"
| "reading_about Unnamed branches =
     ''that reading is the later one and does not name '' @ branches
     @ '' at all, while this checkout still tracks the branch, so what the remote has now is not ''
     @ ''known: the remote may have dropped it, or the fetch may have asked about ''
     @ ''one branch by name. Fetch with --prune in the checkout and read again''"

definition UNREAD :: string where
  "UNREAD = ''this home's own remote-tracking refs record its own pushes, and ''
     @ ''nothing here read the remote to check them. Fetch in the project checkout and ''
     @ ''reclaim again.''"

fun witness_because :: "witness \<Rightarrow> string option" where
  "witness_because NoRemote = None"
| "witness_because (Direct _) = None"
| "witness_because (Checked by unobs) =
     Some (fold (\<lambda>reading clause.
         let branches = join '', '' (map uo_branch (filter (\<lambda>u. uo_reading u = reading) unobs))
         in if branches = [] then clause else clause @ ''; '' @ reading_about reading branches)
       [Older, Unnamed]
       (''the newest reading of the remote here is '' @ join '', '' (map display_path by)
         @ '', and it does not reach them''))"
| "witness_because Unchecked = Some UNREAD"

fun witness_unchecked :: "witness \<Rightarrow> bool" where
  "witness_unchecked Unchecked = True"
| "witness_unchecked (Checked _ unobs) = (unobs \<noteq> [])"
| "witness_unchecked _ = False"

fun witness_settled :: "witness \<Rightarrow> bool" where
  "witness_settled NoRemote = True"
| "witness_settled (Direct _) = True"
| "witness_settled _ = False"

fun witness_by :: "witness \<Rightarrow> path list" where
  "witness_by (Checked by _) = by"
| "witness_by (Direct by) = by"
| "witness_by _ = []"

text \<open>\<open>witness::Elsewhere\<close>: the stores whose reading of the remote was believed, and what they hold.\<close>

record elsewhere =
  else_own :: "oid list"
  else_copies :: "oid list"
  else_remote :: "oid list"
  else_witnesses :: "path list"
  else_unobserved :: "unobserved list"
  else_direct :: bool

definition witness_of :: "string list \<Rightarrow> elsewhere \<Rightarrow> witness" where
  "witness_of remotes found =
     (if remotes = [] then NoRemote
      else if else_witnesses found = [] then Unchecked
      else if else_direct found then Direct (else_witnesses found)
      else Checked (else_witnesses found) (else_unobserved found))"

lemma settled_not_unchecked: "witness_settled w \<Longrightarrow> \<not> witness_unchecked w"
  by (cases w) simp_all

lemma because_None_iff: "witness_because w = None \<longleftrightarrow> witness_settled w"
  by (cases w) simp_all

subsection \<open>A store that may not stand for a copy\<close>

datatype lacking =
    SameRepository
  | Borrowed
  | Partial
  | Shallow
  | Missing nat
  | Unreadable

fun lacking_because :: "lacking \<Rightarrow> string" where
  "lacking_because SameRepository = ''holds them and is a worktree of this home, so its objects go with the home''"
| "lacking_because Borrowed = ''holds them and borrows its objects from another store, which this removal ''
     @ ''or a collection elsewhere may take''"
| "lacking_because Partial = ''holds them and is a partial clone, so it holds the commits and not the work''"
| "lacking_because Shallow = ''holds them and is shallow, so it promises no history behind a tip''"
| "lacking_because (Missing _) = ''holds them and does not hold every object behind them''"
| "lacking_because Unreadable = ''holds them and could not be read''"

record incomplete =
  inc_store :: path
  inc_lacking :: lacking

definition incomplete_because :: "incomplete \<Rightarrow> string" where
  "incomplete_because i = display_path (inc_store i) @ '' '' @ lacking_because (inc_lacking i)"

subsection \<open>Commits\<close>

datatype copies =
    OnlyHere witness
  | SecondLocalCopy path
  | RemoteProved witness
  | NotChecked witness "incomplete list"

fun copies_label :: "copies \<Rightarrow> string" where
  "copies_label (OnlyHere w) = (if witness_settled w then ''only here'' else ''only here by the newest reading'')"
| "copies_label (SecondLocalCopy _) = ''second local copy''"
| "copies_label (RemoteProved _) = ''proved on the remote''"
| "copies_label (NotChecked _ _) = ''not checked''"

fun copies_witness :: "copies \<Rightarrow> witness option" where
  "copies_witness (OnlyHere w) = Some w"
| "copies_witness (RemoteProved w) = Some w"
| "copies_witness (NotChecked w _) = Some w"
| "copies_witness (SecondLocalCopy _) = None"

fun copies_needs :: "copies \<Rightarrow> needs option" where
  "copies_needs (OnlyHere _) = Some UniqueLoss"
| "copies_needs (NotChecked _ _) = Some UnknownEvidence"
| "copies_needs (SecondLocalCopy _) = None"
| "copies_needs (RemoteProved _) = None"

definition copies_survives :: "copies \<Rightarrow> bool" where
  "copies_survives c \<longleftrightarrow> copies_needs c = None"

definition copies_detail :: "copies \<Rightarrow> nat \<Rightarrow> string" where
  "copies_detail c count =
     (let said = copies_label c @ '' ('' @ dec count @ '')''
      in case c of
           NotChecked _ stores \<Rightarrow> fold (\<lambda>st said. said @ ''; '' @ incomplete_because st) stores said
         | _ \<Rightarrow> said)"

record commit_group =
  cg_copies :: copies
  cg_count :: nat
  cg_sample :: "oid list"

subsection \<open>Paths\<close>

datatype survival = MustSurvive | Reconstructable

datatype fate = Trashed | LeftInPlace

definition fate_of :: "bool \<Rightarrow> fate" where
  "fate_of managed = (if managed then Trashed else LeftInPlace)"

datatype held = Uncommitted | Untracked | UntrackedDeclared | LocalState | Generated

fun held_survival :: "held \<Rightarrow> survival" where
  "held_survival Generated = Reconstructable"
| "held_survival _ = MustSurvive"

fun held_label :: "held \<Rightarrow> string" where
  "held_label Uncommitted = ''uncommitted changes''"
| "held_label Untracked = ''untracked files''"
| "held_label UntrackedDeclared = ''untracked files the project calls regenerable''"
| "held_label LocalState = ''local state no tool writes again''"
| "held_label Generated = ''build output and installed dependencies''"

fun held_refuses :: "held \<Rightarrow> bool" where
  "held_refuses Uncommitted = True"
| "held_refuses Untracked = True"
| "held_refuses UntrackedDeclared = True"
| "held_refuses _ = False"

record path_group =
  pg_held :: held
  pg_fate :: fate
  pg_count :: nat
  pg_sample :: "string list"
  pg_bytes :: "nat option"

subsection \<open>The reasons and the findings a report prints\<close>

record reason =
  rs_needs :: needs
  rs_detail :: string

datatype finding =
    FUncommitted nat "string list"
  | FUntracked nat "string list"
  | FUnpushed nat "oid list" "string list" witness

fun finding_label :: "finding \<Rightarrow> string" where
  "finding_label (FUncommitted _ _) = ''uncommitted changes''"
| "finding_label (FUntracked _ _) = ''untracked files''"
| "finding_label (FUnpushed _ _ _ w) =
     (if witness_settled w then ''commits on no remote'' else ''commits no current reading proves a remote has'')"

fun finding_count :: "finding \<Rightarrow> nat" where
  "finding_count (FUncommitted n _) = n"
| "finding_count (FUntracked n _) = n"
| "finding_count (FUnpushed n _ _ _) = n"

fun finding_commits :: "finding \<Rightarrow> oid list" where
  "finding_commits (FUnpushed _ sample _ _) = sample"
| "finding_commits _ = []"

definition finding_describe :: "finding \<Rightarrow> string" where
  "finding_describe f =
     (let listed = (case f of
            FUncommitted _ sample \<Rightarrow> join '', '' sample
          | FUntracked _ sample \<Rightarrow> join '', '' sample
          | FUnpushed _ sample _ _ \<Rightarrow> join '', '' (map (take 8) sample));
          more = finding_count f - SAMPLE;
          tail = (if more = 0 then [] else '' and '' @ dec more @ '' more'');
          why = (case f of
            FUnpushed _ _ _ w \<Rightarrow> (case witness_because w of Some clause \<Rightarrow> ''; '' @ clause | None \<Rightarrow> [])
          | _ \<Rightarrow> [])
      in finding_label f @ '' ('' @ dec (finding_count f) @ ''): '' @ listed @ tail @ why)"

text \<open>The words "on no remote" are earned exactly by the two readings that settle it.\<close>

lemma on_no_remote_iff:
  "finding_label (FUnpushed n sample remotes w) = ''commits on no remote'' \<longleftrightarrow> witness_because w = None"
  by (simp add: because_None_iff)

end
