(* ===== verification/Paths.thy ===== *)
theory Paths
  imports Prelude
begin

text \<open>
  \<open>paths.rs\<close>: the one name a path is compared by. \<open>canonical\<close> is the file system's own
  answer (\<open>Path::canonicalize\<close>): the real path of what is there, and nothing for what is not.
  Modelled paths are absolute and hold no \<open>..\<close>, so only the root has no last component.
\<close>

fun resolve_from :: "(path \<Rightarrow> path option) \<Rightarrow> path \<Rightarrow> string list \<Rightarrow> string list \<Rightarrow> path" where
  "resolve_from canonical whole rest [] =
     (case canonical [] of Some real \<Rightarrow> real @ rest | None \<Rightarrow> whole)"
| "resolve_from canonical whole rest (part # tail) =
     (case canonical (rev (part # tail)) of
        Some real \<Rightarrow> real @ rest
      | None \<Rightarrow> resolve_from canonical whole (part # rest) tail)"

definition resolve_path :: "(path \<Rightarrow> path option) \<Rightarrow> path \<Rightarrow> path" where
  "resolve_path canonical p = resolve_from canonical p [] (rev p)"

lemma resolve_from_longest:
  assumes "canonical here = Some real" and "\<And>q. q \<noteq> [] \<Longrightarrow> prefix q tail \<Longrightarrow> canonical (here @ q) = None"
  shows "resolve_from canonical whole rest (rev (here @ tail)) = real @ tail @ rest"
  using assms(2)
proof (induction tail arbitrary: rest rule: rev_induct)
  case Nil
  then show ?case using assms(1) by (cases "rev here") auto
next
  case (snoc x tail)
  have "canonical (here @ tail @ [x]) = None" using snoc.prems [of "tail @ [x]"] by simp
  moreover have "canonical (here @ q) = None" if "q \<noteq> []" "prefix q tail" for q
    using snoc.prems [of q] that by (simp add: prefix_prefix)
  ultimately show ?case using snoc.IH [of "x # rest"] by simp
qed

text \<open>What is there is named as the file system names it; the rest of the path is put back on.\<close>

lemma resolve_longest:
  "canonical here = Some real \<Longrightarrow> (\<And>q. q \<noteq> [] \<Longrightarrow> prefix q tail \<Longrightarrow> canonical (here @ q) = None)
     \<Longrightarrow> resolve_path canonical (here @ tail) = real @ tail"
  using resolve_from_longest [of canonical here real tail "here @ tail" "[]"] by (simp add: resolve_path_def)

lemma resolve_there: "canonical p = Some real \<Longrightarrow> resolve_path canonical p = real"
  using resolve_longest [of canonical p real "[]"] by simp

text \<open>The longest part of a path that is there.\<close>

fun there_upto :: "(path \<Rightarrow> path option) \<Rightarrow> path \<Rightarrow> string list \<Rightarrow> path \<times> path" where
  "there_upto canonical here [] = (here, [])"
| "there_upto canonical here (part # tail) =
     (if canonical (here @ [part]) = None then (here, part # tail)
      else there_upto canonical (here @ [part]) tail)"

lemma there_upto_split:
  assumes "canonical here \<noteq> None"
    and "\<forall>p q. prefix q p \<longrightarrow> canonical p \<noteq> None \<longrightarrow> canonical q \<noteq> None"
    and "there_upto canonical here tail = (h, a)"
  shows "here @ tail = h @ a \<and> canonical h \<noteq> None \<and> (\<forall>q. q \<noteq> [] \<longrightarrow> prefix q a \<longrightarrow> canonical (h @ q) = None)"
  using assms(1,3)
proof (induction tail arbitrary: here)
  case Nil
  then show ?case by simp
next
  case (Cons part tail)
  show ?case
  proof (cases "canonical (here @ [part]) = None")
    case True
    with Cons.prems have ha: "h = here" "a = part # tail" by auto
    have "canonical (here @ q) = None" if "q \<noteq> []" "prefix q (part # tail)" for q
    proof -
      from that obtain q' where "q = part # q'" by (cases q) auto
      then have "prefix (here @ [part]) (here @ q)" by simp
      with True assms(2) show ?thesis by blast
    qed
    with ha Cons.prems show ?thesis by simp
  next
    case False
    with Cons.IH [of "here @ [part]"] Cons.prems show ?thesis by simp
  qed
qed

text \<open>
  One directory has one name. Where \<open>canonicalize\<close> answers as the platform documents it
  (an ancestor of what is there is there, the answer is its own answer, and a path through a
  name is the path through the name's answer), resolving is idempotent, and two paths through
  two names of one directory resolve to one path, whether or not the end of them exists yet.
\<close>

theorem resolve_names_once:
  assumes root: "canonical [] \<noteq> None"
    and up: "\<And>p q. prefix q p \<Longrightarrow> canonical p \<noteq> None \<Longrightarrow> canonical q \<noteq> None"
    and through: "\<And>p real q. canonical p = Some real \<Longrightarrow> canonical (p @ q) = canonical (real @ q)"
    and two: "canonical a = Some real" "canonical b = Some real"
  shows "resolve_path canonical (a @ rest) = resolve_path canonical (b @ rest)
    \<and> resolve_path canonical (resolve_path canonical p) = resolve_path canonical p"
proof -
  have up': "\<forall>p q. prefix q p \<longrightarrow> canonical p \<noteq> None \<longrightarrow> canonical q \<noteq> None" using up by blast
  have fixed: "canonical r = Some r" if "canonical q = Some r" for q r
    using through [OF that, of "[]"] that by simp
  have normal: "\<exists>h r q. there_upto canonical [] p = (h, q) \<and> p = h @ q \<and> canonical h = Some r
      \<and> resolve_path canonical p = r @ q \<and> (\<forall>x. x \<noteq> [] \<longrightarrow> prefix x q \<longrightarrow> canonical (h @ x) = None)" for p
  proof -
    obtain h q where hq: "there_upto canonical [] p = (h, q)" by (cases "there_upto canonical [] p")
    with there_upto_split [OF root up', of p h q] obtain r where "p = h @ q" "canonical h = Some r"
      "\<forall>x. x \<noteq> [] \<longrightarrow> prefix x q \<longrightarrow> canonical (h @ x) = None" by auto
    with hq resolve_longest [of canonical h r q] show ?thesis by blast
  qed
  have same: "resolve_path canonical (a @ rest) = resolve_path canonical (real @ rest)"
    if a: "canonical a = Some real" for a
  proof -
    obtain h q where hq: "there_upto canonical a rest = (h, q)" by (cases "there_upto canonical a rest")
    have "canonical a \<noteq> None" using a by simp
    from there_upto_split [OF this up' hq] obtain r where h: "a @ rest = h @ q" "canonical h = Some r"
      and n: "\<forall>x. x \<noteq> [] \<longrightarrow> prefix x q \<longrightarrow> canonical (h @ x) = None" by auto
    have "prefix a h"
    proof (rule ccontr)
      assume "\<not> prefix a h"
      with h(1) have "prefix h a" by (metis prefixI prefix_same_cases)
      with \<open>\<not> prefix a h\<close> obtain x where x: "a = h @ x" "x \<noteq> []" by (auto simp: prefix_def)
      with h(1) have "prefix x q" by (simp add: prefix_def) (metis append_assoc same_append_eq)
      with n x a show False by force
    qed
    then obtain y where y: "h = a @ y" by (auto simp: prefix_def)
    with h(1) have rest: "rest = y @ q" by simp
    have "canonical (real @ y) = Some r" using through [OF a, of y] h(2) y by simp
    moreover have "canonical ((real @ y) @ x) = None" if "x \<noteq> []" "prefix x q" for x
      using through [OF a, of "y @ x"] n that y by simp
    ultimately have "resolve_path canonical ((real @ y) @ q) = r @ q" by (intro resolve_longest) auto
    moreover have "resolve_path canonical (h @ q) = r @ q" using h(2) n by (intro resolve_longest) auto
    ultimately have "resolve_path canonical (h @ q) = resolve_path canonical (real @ rest)" using rest by simp
    then show ?thesis unfolding h(1) .
  qed
  obtain h r q where p: "p = h @ q" "canonical h = Some r" "resolve_path canonical p = r @ q"
    and n: "\<forall>x. x \<noteq> [] \<longrightarrow> prefix x q \<longrightarrow> canonical (h @ x) = None" using normal [of p] by blast
  have "resolve_path canonical (r @ q) = r @ q"
    using through [OF p(2)] n by (intro resolve_longest fixed [OF p(2)]) auto
  with p(3) same [OF two(1)] same [OF two(2)] show ?thesis by simp
qed

text \<open>One directory, \<open>/r\<close>, under two names; nothing is below it yet.\<close>

definition ex_canonical :: "path \<Rightarrow> path option" where
  "ex_canonical p = (if p = [] then Some [] else if p = [''r''] \<or> p = [''l''] then Some [''r''] else None)"

theorem resolve_names_once_witness:
  "resolve_path ex_canonical ([''l''] @ [''new'']) = resolve_path ex_canonical ([''r''] @ [''new''])"
proof -
  have up: "ex_canonical q \<noteq> None" if "prefix q p" "ex_canonical p \<noteq> None" for p q
    using that by (auto simp: ex_canonical_def prefix_Cons split: if_splits)
  have through: "ex_canonical (p @ q) = ex_canonical (real @ q)" if "ex_canonical p = Some real" for p real q
    using that by (auto simp: ex_canonical_def split: if_splits)
  show ?thesis
    using resolve_names_once [where canonical = ex_canonical and a = "[''l'']" and b = "[''r'']" and real = "[''r'']",
        OF _ up through] by (simp add: ex_canonical_def)
qed

end
