(* ===== verification/Kernel.thy ===== *)
theory Kernel
  imports Loss Paths
begin

text \<open>
  \<open>lifecycle/kernel.rs\<close>: the one place a safe verdict is made. \<open>judge\<close> takes what removing a
  home would lose and what was read beside it, and answers with a proof, with what would be
  lost, or with what could not be read. \<open>canonical\<close> is the file system's answer about a path,
  the one thing outside its arguments the judgement touches.
\<close>

record loss_set =
  ls_home :: path
  ls_paths :: "path_group list"
  ls_commits :: "commit_group list"

record evidence =
  ev_runtime :: "runtime option"
  ev_set :: "path list"
  ev_at :: timestamp

definition of_work :: "timestamp \<Rightarrow> evidence" where
  "of_work at = \<lparr>ev_runtime = None, ev_set = [], ev_at = at\<rparr>"

record loss =
  lo_needs :: needs
  lo_detail :: string

record unread =
  un_why :: string

record rest =
  re_repository :: path
  re_commits :: nat
  re_sample :: "oid list"

record safe_proof =
  pr_rests :: "rest list"
  pr_at :: timestamp

datatype verdict =
    Safe safe_proof
  | Unsafe "loss list" "unread list"
  | NotKnown "unread list"

fun safe :: "verdict \<Rightarrow> bool" where
  "safe (Safe _) = True"
| "safe _ = False"

fun verdict_proof :: "verdict \<Rightarrow> safe_proof option" where
  "verdict_proof (Safe pr) = Some pr"
| "verdict_proof _ = None"

definition new_reason :: "needs \<Rightarrow> string \<Rightarrow> reason" where
  "new_reason n detail = \<lparr>rs_needs = n, rs_detail = detail\<rparr>"

definition unknown :: "unread \<Rightarrow> reason" where
  "unknown u = new_reason UnknownEvidence (un_why u)"

definition reasons :: "verdict \<Rightarrow> reason list" where
  "reasons v = sort_key rs_needs
     (case v of
        Safe _ \<Rightarrow> []
      | Unsafe lost unr \<Rightarrow> map (\<lambda>l. new_reason (lo_needs l) (lo_detail l)) lost @ map unknown unr
      | NotKnown unr \<Rightarrow> map unknown unr)"

definition top :: "verdict \<Rightarrow> needs" where
  "top v = (case reasons v of [] \<Rightarrow> NothingNeeded | r # _ \<Rightarrow> rs_needs r)"

subsection \<open>The judgement\<close>

definition counted :: "copies \<Rightarrow> nat \<Rightarrow> string" where
  "counted c count = copies_detail c count"

definition survives :: "(path \<Rightarrow> path option) \<Rightarrow> path \<Rightarrow> path list \<Rightarrow> bool" where
  "survives canonical store homes \<longleftrightarrow>
     \<not> list_ex (\<lambda>home. resolve_path canonical home = resolve_path canonical store) homes"

definition joint_one :: "(path \<Rightarrow> path option) \<Rightarrow> path list \<Rightarrow> commit_group \<Rightarrow> loss option" where
  "joint_one canonical homes g =
     (case cg_copies g of
        SecondLocalCopy held_by \<Rightarrow>
          if survives canonical held_by homes then None
          else Some \<lparr>lo_needs = UniqueLoss,
            lo_detail = dec (cg_count g) @ '' '' @ (if cg_count g = 1 then ''commit'' else ''commits'')
              @ '' whose only other copy is in '' @ display_path held_by @ '', which the same removal takes''\<rparr>
      | _ \<Rightarrow> None)"

definition joint :: "(path \<Rightarrow> path option) \<Rightarrow> loss_set \<Rightarrow> path list \<Rightarrow> loss list" where
  "joint canonical ls homes = List.map_filter (joint_one canonical homes) (ls_commits ls)"

datatype blocking = BlockedStanding string | BlockedUnread string

definition blocked :: "evidence \<Rightarrow> blocking option" where
  "blocked ev =
     (case ev_runtime ev of
        None \<Rightarrow> None
      | Some r \<Rightarrow>
          (case unmovable r of
             None \<Rightarrow> None
           | Some (UnmovableStanding standing) \<Rightarrow>
               Some (BlockedStanding (join '', '' (map standing_label (take SAMPLE standing))))
           | Some (UnmovableUnread n) \<Rightarrow>
               Some (BlockedUnread (''the process table could not be read: '' @ note_why n))))"

text \<open>\<open>found.entry(repository).or_insert((0, [])) += \<dots>\<close> of a map in path order.\<close>

fun credit :: "path \<Rightarrow> nat \<Rightarrow> oid list \<Rightarrow> rest list \<Rightarrow> rest list" where
  "credit repo n sample [] = [\<lparr>re_repository = repo, re_commits = n, re_sample = sample\<rparr>]"
| "credit repo n sample (r # rs) =
     (if repo < re_repository r then \<lparr>re_repository = repo, re_commits = n, re_sample = sample\<rparr> # r # rs
      else if repo = re_repository r
      then r\<lparr>re_commits := re_commits r + n, re_sample := re_sample r @ sample\<rparr> # rs
      else r # credit repo n sample rs)"

fun holders :: "copies \<Rightarrow> path list" where
  "holders (SecondLocalCopy held_by) = [held_by]"
| "holders (RemoteProved w) = witness_by w"
| "holders (OnlyHere _) = []"
| "holders (NotChecked _ _) = []"

definition credit_group :: "commit_group \<Rightarrow> rest list \<Rightarrow> rest list" where
  "credit_group g = fold (\<lambda>repo. credit repo (cg_count g) (cg_sample g)) (holders (cg_copies g))"

definition make_proof :: "loss_set \<Rightarrow> timestamp \<Rightarrow> safe_proof" where
  "make_proof ls at =
     \<lparr>pr_rests = fold credit_group (filter (\<lambda>g. copies_survives (cg_copies g)) (ls_commits ls)) [],
      pr_at = at\<rparr>"

definition judge_path :: "path_group \<Rightarrow> loss" where
  "judge_path g = \<lparr>lo_needs = UniqueLoss, lo_detail = held_label (pg_held g) @ '' ('' @ dec (pg_count g) @ '')''\<rparr>"

definition judge_commit :: "commit_group \<Rightarrow> loss list \<times> unread list \<Rightarrow> loss list \<times> unread list" where
  "judge_commit g acc =
     (case acc of (refusals, unr) \<Rightarrow>
        (case copies_needs (cg_copies g) of
           Some UnknownEvidence \<Rightarrow> (refusals, unr @ [\<lparr>un_why = counted (cg_copies g) (cg_count g)\<rparr>])
         | Some n \<Rightarrow> (refusals @ [\<lparr>lo_needs = n, lo_detail = counted (cg_copies g) (cg_count g)\<rparr>], unr)
         | None \<Rightarrow> (refusals, unr)))"

definition judge :: "(path \<Rightarrow> path option) \<Rightarrow> loss_set \<Rightarrow> evidence \<Rightarrow> verdict" where
  "judge canonical ls ev =
     (let refusals = map judge_path (filter (\<lambda>g. held_refuses (pg_held g)) (ls_paths ls));
          (refusals, unr) = fold judge_commit (ls_commits ls) (refusals, []);
          refusals = refusals @ joint canonical ls (ev_set ev);
          (refusals, unr) =
            (case blocked ev of
               Some (BlockedStanding detail) \<Rightarrow>
                 (refusals @ [\<lparr>lo_needs = BlockingRuntime, lo_detail = detail\<rparr>], unr)
             | Some (BlockedUnread why) \<Rightarrow> (refusals, unr @ [\<lparr>un_why = why\<rparr>])
             | None \<Rightarrow> (refusals, unr));
          refusals = sort_key lo_needs refusals
      in if refusals \<noteq> [] then Unsafe refusals unr
         else if unr \<noteq> [] then NotKnown unr
         else Safe (make_proof ls (ev_at ev)))"

text \<open>The record a row keeps of a proof; \<open>reaching\<close> is one \<open>for-each-ref\<close> in a store.\<close>

record outside =
  out_repository :: path
  out_references :: "string list"
  out_commits :: nat

definition proof_record :: "(path \<Rightarrow> oid list \<Rightarrow> nat \<Rightarrow> string list) \<Rightarrow> safe_proof \<Rightarrow> outside list" where
  "proof_record reaching pr =
     map (\<lambda>r. \<lparr>out_repository = re_repository r,
               out_references = reaching (re_repository r) (re_sample r) SAMPLE,
               out_commits = re_commits r\<rparr>) (pr_rests pr)"

subsection \<open>What the judgement collects\<close>

lemma joint_Nil [simp]: "joint canonical ls [] = []"
  by (auto simp: joint_def joint_one_def survives_def map_filter_def filter_empty_conv split: copies.split)

definition commit_losses :: "commit_group list \<Rightarrow> loss list" where
  "commit_losses gs = map (\<lambda>g. \<lparr>lo_needs = UniqueLoss, lo_detail = counted (cg_copies g) (cg_count g)\<rparr>)
     (filter (\<lambda>g. copies_needs (cg_copies g) = Some UniqueLoss) gs)"

definition commit_unread :: "commit_group list \<Rightarrow> unread list" where
  "commit_unread gs = map (\<lambda>g. \<lparr>un_why = counted (cg_copies g) (cg_count g)\<rparr>)
     (filter (\<lambda>g. copies_needs (cg_copies g) = Some UnknownEvidence) gs)"

lemma judge_commit_eq:
  "judge_commit g (refusals, unr) = (refusals @ commit_losses [g], unr @ commit_unread [g])"
  by (cases "cg_copies g") (simp_all add: judge_commit_def commit_losses_def commit_unread_def)

lemma commit_losses_Cons: "commit_losses (g # gs) = commit_losses [g] @ commit_losses gs"
  and commit_unread_Cons: "commit_unread (g # gs) = commit_unread [g] @ commit_unread gs"
  by (simp_all add: commit_losses_def commit_unread_def)

lemma judge_commits:
  "fold judge_commit gs (refusals, unr) = (refusals @ commit_losses gs, unr @ commit_unread gs)"
proof (induction gs arbitrary: refusals unr)
  case Nil
  then show ?case by (simp add: commit_losses_def commit_unread_def)
next
  case (Cons g gs)
  then show ?case
    by (simp only: fold_simps(2) judge_commit_eq commit_losses_Cons [of g gs] commit_unread_Cons [of g gs]
        append_assoc)
qed

definition standing_losses :: "evidence \<Rightarrow> loss list" where
  "standing_losses ev = (case blocked ev of
     Some (BlockedStanding detail) \<Rightarrow> [\<lparr>lo_needs = BlockingRuntime, lo_detail = detail\<rparr>] | _ \<Rightarrow> [])"

definition standing_unread :: "evidence \<Rightarrow> unread list" where
  "standing_unread ev = (case blocked ev of Some (BlockedUnread why) \<Rightarrow> [\<lparr>un_why = why\<rparr>] | _ \<Rightarrow> [])"

definition all_losses :: "(path \<Rightarrow> path option) \<Rightarrow> loss_set \<Rightarrow> evidence \<Rightarrow> loss list" where
  "all_losses canonical ls ev =
     map judge_path (filter (\<lambda>g. held_refuses (pg_held g)) (ls_paths ls))
     @ commit_losses (ls_commits ls) @ joint canonical ls (ev_set ev) @ standing_losses ev"

definition all_unread :: "loss_set \<Rightarrow> evidence \<Rightarrow> unread list" where
  "all_unread ls ev = commit_unread (ls_commits ls) @ standing_unread ev"

lemma judge_eq:
  "judge canonical ls ev =
     (if all_losses canonical ls ev \<noteq> []
      then Unsafe (sort_key lo_needs (all_losses canonical ls ev)) (all_unread ls ev)
      else if all_unread ls ev \<noteq> [] then NotKnown (all_unread ls ev)
      else Safe (make_proof ls (ev_at ev)))"
proof (cases "blocked ev")
  case None
  then show ?thesis
    by (simp add: judge_def judge_commits all_losses_def all_unread_def standing_losses_def standing_unread_def)
next
  case (Some b)
  then show ?thesis
    by (cases b)
      (simp_all add: judge_def judge_commits all_losses_def all_unread_def standing_losses_def standing_unread_def)
qed

lemma losses_needs: "l \<in> set (all_losses canonical ls ev) \<Longrightarrow> lo_needs l \<in> {UniqueLoss, BlockingRuntime}"
  by (auto simp: all_losses_def judge_path_def commit_losses_def joint_def joint_one_def standing_losses_def
      map_filter_def split: copies.splits option.splits blocking.splits if_splits)

lemma safe_judge_eq:
  "safe (judge canonical ls ev) \<longleftrightarrow> all_losses canonical ls ev = [] \<and> all_unread ls ev = []"
  by (simp add: judge_eq)

definition occupied :: "evidence \<Rightarrow> bool" where
  "occupied ev \<longleftrightarrow> (\<exists>r. ev_runtime ev = Some r \<and> unmovable r \<noteq> None)"

lemma standing_Nil: "standing_losses ev = [] \<and> standing_unread ev = [] \<longleftrightarrow> \<not> occupied ev"
  by (auto simp: standing_losses_def standing_unread_def occupied_def blocked_def
      split: option.splits unmovable_why.splits blocking.splits)

lemma joint_Nil_iff:
  "joint canonical ls homes = [] \<longleftrightarrow>
     (\<forall>g \<in> set (ls_commits ls). \<forall>h. cg_copies g = SecondLocalCopy h \<longrightarrow> survives canonical h homes)"
  by (auto simp: joint_def joint_one_def map_filter_def filter_empty_conv split: copies.splits if_splits)

lemma survives_mono: "set homes' \<subseteq> set homes \<Longrightarrow> survives canonical h homes \<Longrightarrow> survives canonical h homes'"
  by (auto simp: survives_def list_ex_iff)

definition group_clear :: "(path \<Rightarrow> path option) \<Rightarrow> path list \<Rightarrow> copies \<Rightarrow> bool" where
  "group_clear canonical homes c =
     (case c of
        RemoteProved _ \<Rightarrow> True
      | SecondLocalCopy h \<Rightarrow> \<forall>home \<in> set homes. resolve_path canonical home \<noteq> resolve_path canonical h
      | _ \<Rightarrow> False)"

lemma group_clear_iff:
  "group_clear canonical homes c \<longleftrightarrow>
     copies_needs c = None \<and> (\<forall>h. c = SecondLocalCopy h \<longrightarrow> survives canonical h homes)"
  by (cases c) (auto simp: group_clear_def survives_def list_ex_iff)

lemma commits_kept_iff:
  "commit_losses gs = [] \<and> commit_unread gs = [] \<longleftrightarrow> (\<forall>g \<in> set gs. copies_needs (cg_copies g) = None)"
proof -
  have "copies_needs c \<noteq> Some UniqueLoss \<and> copies_needs c \<noteq> Some UnknownEvidence \<longleftrightarrow> copies_needs c = None" for c
    by (cases c) simp_all
  then show ?thesis by (auto simp: commit_losses_def commit_unread_def filter_empty_conv)
qed

lemma commits_clear_iff:
  "commit_losses (ls_commits ls) = [] \<and> commit_unread (ls_commits ls) = [] \<and> joint canonical ls homes = []
     \<longleftrightarrow> (\<forall>g \<in> set (ls_commits ls). group_clear canonical homes (cg_copies g))"
  using commits_kept_iff [of "ls_commits ls"] by (auto simp: joint_Nil_iff group_clear_iff)

lemma occupied_iff: "occupied ev \<longleftrightarrow>
    (case ev_runtime ev of None \<Rightarrow> False | Some r \<Rightarrow> rt_unread r \<or> rt_bystanders r \<noteq> [])"
  by (auto simp: occupied_def unmovable_None_iff split: option.splits)

lemma safe_clear:
  "safe (judge canonical ls ev) \<longleftrightarrow>
     (\<forall>g \<in> set (ls_paths ls). \<not> held_refuses (pg_held g))
     \<and> (\<forall>g \<in> set (ls_commits ls). group_clear canonical (ev_set ev) (cg_copies g)) \<and> \<not> occupied ev"
  unfolding safe_judge_eq all_losses_def all_unread_def
  using commits_clear_iff [of ls canonical "ev_set ev"] standing_Nil [of ev]
  by (auto simp: filter_empty_conv)

text \<open>
  C4. What safe means. The kernel answers safe exactly where no tracked or uncovered path
  differs, every group of commits has a copy proved outside the home, no such copy is in a
  home the same removal takes, and the home's occupancy was either not asked for or read and
  found empty.
\<close>

theorem judge_safe_iff:
  "safe (judge canonical ls ev) \<longleftrightarrow>
     (\<forall>g \<in> set (ls_paths ls). \<not> held_refuses (pg_held g))
     \<and> (\<forall>g \<in> set (ls_commits ls).
          case cg_copies g of
            RemoteProved _ \<Rightarrow> True
          | SecondLocalCopy h \<Rightarrow>
              \<forall>home \<in> set (ev_set ev). resolve_path canonical home \<noteq> resolve_path canonical h
          | _ \<Rightarrow> False)
     \<and> (case ev_runtime ev of None \<Rightarrow> True | Some r \<Rightarrow> \<not> rt_unread r \<and> rt_bystanders r = [])"
  unfolding safe_clear group_clear_def occupied_iff by (auto split: option.splits)

subsection \<open>What a refusal says\<close>

lemma reasons_judge:
  "set (reasons (judge canonical ls ev)) =
     (\<lambda>l. new_reason (lo_needs l) (lo_detail l)) ` set (all_losses canonical ls ev)
     \<union> unknown ` set (all_unread ls ev)"
  by (auto simp: judge_eq reasons_def)

lemma reasons_Nil_iff: "reasons (judge canonical ls ev) = [] \<longleftrightarrow> safe (judge canonical ls ev)"
  by (auto simp: judge_eq reasons_def)

lemma top_hd: "reasons v \<noteq> [] \<Longrightarrow> top v = rs_needs (hd (reasons v))"
  by (cases "reasons v") (simp_all add: top_def)

lemma reason_refuses: "r \<in> set (reasons (judge canonical ls ev)) \<Longrightarrow> needs_refuses (rs_needs r)"
  using losses_needs [of _ canonical ls ev] by (force simp: reasons_judge new_reason_def unknown_def)

text \<open>
  A refusal is ranked and whole. The reasons stand in the order of the ranking, every
  one of them refuses, the top is the first of them and no reason outranks it, and a home is
  safe exactly when there is none and the top is \<open>Nothing\<close>.
\<close>

theorem reasons_ranked:
  "sorted (map rs_needs (reasons (judge canonical ls ev)))
   \<and> (\<forall>r \<in> set (reasons (judge canonical ls ev)).
        needs_refuses (rs_needs r) \<and> top (judge canonical ls ev) \<le> rs_needs r)
   \<and> (safe (judge canonical ls ev) \<longleftrightarrow> reasons (judge canonical ls ev) = [])
   \<and> (safe (judge canonical ls ev) \<longleftrightarrow> top (judge canonical ls ev) = NothingNeeded)
   \<and> length (reasons (judge canonical ls ev))
       = length (all_losses canonical ls ev) + length (all_unread ls ev)"
proof -
  let ?v = "judge canonical ls ev"
  have s: "sorted (map rs_needs (reasons ?v))" by (simp add: reasons_def)
  have r: "needs_refuses (rs_needs r)" if "r \<in> set (reasons ?v)" for r
    using that by (rule reason_refuses)
  have t: "top ?v \<le> rs_needs r" if "r \<in> set (reasons ?v)" for r
    using that s by (cases "reasons ?v") (auto simp: top_def)
  have "top ?v \<noteq> NothingNeeded" if ne: "reasons ?v \<noteq> []"
    using r [of "hd (reasons ?v)"] top_hd [OF ne] ne by auto
  moreover have "top ?v = NothingNeeded" if "reasons ?v = []" using that by (simp add: top_def)
  ultimately have e: "top ?v = NothingNeeded \<longleftrightarrow> reasons ?v = []" by blast
  have "length (reasons ?v) = length (all_losses canonical ls ev) + length (all_unread ls ev)"
    by (simp add: judge_eq reasons_def)
  with s r t e show ?thesis by (simp add: reasons_Nil_iff)
qed

subsection \<open>What a proof rests on\<close>

definition credits :: "loss_set \<Rightarrow> (path \<times> commit_group) list" where
  "credits ls = concat (map (\<lambda>g. map (\<lambda>repo. (repo, g)) (holders (cg_copies g)))
     (filter (\<lambda>g. copies_survives (cg_copies g)) (ls_commits ls)))"

lemma find_credit:
  "sorted_wrt (<) (map re_repository rs) \<Longrightarrow>
     List.find (\<lambda>r. re_repository r = q) (credit repo n sample rs) =
       (if q = repo
        then Some (case List.find (\<lambda>r. re_repository r = q) rs of
             None \<Rightarrow> \<lparr>re_repository = repo, re_commits = n, re_sample = sample\<rparr>
           | Some r \<Rightarrow> r\<lparr>re_commits := re_commits r + n, re_sample := re_sample r @ sample\<rparr>)
        else List.find (\<lambda>r. re_repository r = q) rs)"
proof (induction rs)
  case (Cons r rs)
  have "List.find (\<lambda>r. re_repository r = repo) rs = None" if "repo < re_repository r"
    using that Cons.prems by (auto simp: find_None_iff)
  with Cons show ?case by auto
qed simp

lemma set_credit: "re_repository ` set (credit repo n sample rs) = insert repo (re_repository ` set rs)"
  by (induction rs) auto

lemma sorted_credit:
  "sorted_wrt (<) (map re_repository rs) \<Longrightarrow> sorted_wrt (<) (map re_repository (credit repo n sample rs))"
proof (induction rs)
  case (Cons r rs)
  have "\<forall>x \<in> set (credit repo n sample rs). re_repository x = repo \<or> re_repository x \<in> re_repository ` set rs"
    using set_credit [of repo n sample rs] by blast
  with Cons show ?case by (auto dest: order.strict_trans)
qed simp

lemma make_proof_credits:
  "pr_rests (make_proof ls at) = fold (\<lambda>(repo, g). credit repo (cg_count g) (cg_sample g)) (credits ls) []"
proof -
  have "fold credit_group gs rs = fold (\<lambda>(repo, g). credit repo (cg_count g) (cg_sample g))
      (concat (map (\<lambda>g. map (\<lambda>repo. (repo, g)) (holders (cg_copies g))) gs)) rs" for gs rs
    by (induction gs arbitrary: rs) (simp_all add: credit_group_def fold_map comp_def)
  then show ?thesis by (simp add: make_proof_def credits_def)
qed

lemma fold_credits:
  defines "f \<equiv> \<lambda>(repo, g). credit repo (cg_count g) (cg_sample g)"
  shows "sorted_wrt (<) (map re_repository (fold f ps []))
    \<and> List.find (\<lambda>r. re_repository r = q) (fold f ps []) =
       (let gs = map snd (filter (\<lambda>(repo, g). repo = q) ps)
        in if gs = [] then None
           else Some \<lparr>re_repository = q, re_commits = sum_list (map cg_count gs), re_sample = concat (map cg_sample gs)\<rparr>)"
proof (induction ps rule: rev_induct)
  case Nil
  then show ?case by simp
next
  case (snoc x ps)
  obtain repo g where x: "x = (repo, g)" by (cases x)
  from snoc show ?case
    by (auto simp: x f_def sorted_credit find_credit Let_def)
qed

text \<open>
  A proof names each store once, in path order, and credits it with exactly the groups
  of commits it holds: the number is the sum of the groups' numbers, and a store no group
  names is not in it. A proof is made by a safe verdict and by nothing else.
\<close>

theorem proof_rests_exactly:
  "sorted_wrt (<) (map re_repository (pr_rests (make_proof ls at)))
   \<and> List.find (\<lambda>r. re_repository r = q) (pr_rests (make_proof ls at)) =
       (let gs = map snd (filter (\<lambda>(repo, g). repo = q) (credits ls))
        in if gs = [] then None
           else Some \<lparr>re_repository = q, re_commits = sum_list (map cg_count gs),
                      re_sample = concat (map cg_sample gs)\<rparr>)
   \<and> (verdict_proof (judge canonical ls ev) =
        (if safe (judge canonical ls ev) then Some (make_proof ls (ev_at ev)) else None))"
  using fold_credits [of "credits ls" q] make_proof_credits [of ls at]
  by (auto simp: judge_eq)

text \<open>
  The sample of a store two groups credit is both groups' samples, so it can hold more than
  \<open>SAMPLE\<close> commits, and its order is the groups' and not the commits'.
\<close>

lemma rest_sample_over_sample:
  "\<exists>ls. (\<forall>g \<in> set (ls_commits ls). length (cg_sample g) \<le> SAMPLE)
     \<and> (\<exists>r \<in> set (pr_rests (make_proof ls 0)). SAMPLE < length (re_sample r))"
proof -
  let ?g = "\<lambda>c. \<lparr>cg_copies = c, cg_count = 10, cg_sample = replicate 10 ''ab''\<rparr>"
  let ?ls = "\<lparr>ls_home = [''h''], ls_paths = [],
     ls_commits = [?g (RemoteProved (Checked [[''p'']] [])), ?g (SecondLocalCopy [''p''])]\<rparr>"
  have "pr_rests (make_proof ?ls 0) = [\<lparr>re_repository = [''p''], re_commits = 20, re_sample = replicate 20 ''ab''\<rparr>]"
    by (simp add: make_proof_def credit_group_def copies_survives_def eval_nat_numeral)
  then show ?thesis by (intro exI [of _ ?ls]) (simp add: SAMPLE_def)
qed

subsection \<open>Several homes, and less than the whole reading\<close>

text \<open>
  Each home safe is not all of them safe. A home judged with the others it goes with is
  safe exactly when it is safe alone and no commit of it rests on a copy in one of the
  others; so two homes that hold each other's only copy are each safe and are not both.
\<close>

theorem joint_safe_iff:
  "safe (judge canonical ls (ev\<lparr>ev_set := homes\<rparr>)) \<longleftrightarrow>
     safe (judge canonical ls (ev\<lparr>ev_set := []\<rparr>))
     \<and> (\<forall>g \<in> set (ls_commits ls). \<forall>h. cg_copies g = SecondLocalCopy h \<longrightarrow>
          resolve_path canonical h \<notin> resolve_path canonical ` set homes)"
proof -
  have b: "blocked (ev\<lparr>ev_set := s\<rparr>) = blocked ev" for s by (simp add: blocked_def)
  have "survives canonical h homes \<longleftrightarrow> resolve_path canonical h \<notin> resolve_path canonical ` set homes" for h
    unfolding survives_def list_ex_iff image_iff by metis
  then show ?thesis
    unfolding safe_judge_eq all_losses_def all_unread_def standing_losses_def standing_unread_def b
    by (auto simp: joint_Nil_iff)
qed

text \<open>
  The reading of the work alone is the weaker reading: it calls safe every home the whole
  reading calls safe, and it calls safe a home the whole reading refuses over the process
  standing in it.
\<close>

theorem of_work_is_weaker:
  "(safe (judge canonical ls ev) \<longrightarrow> safe (judge canonical ls (of_work at)))
   \<and> (\<exists>ls ev. safe (judge canonical ls (of_work at)) \<and> \<not> safe (judge canonical ls ev))"
proof
  have none: "standing_losses (of_work at) = [] \<and> standing_unread (of_work at) = []"
    unfolding standing_Nil by (simp add: of_work_def occupied_def)
  show "safe (judge canonical ls ev) \<longrightarrow> safe (judge canonical ls (of_work at))"
    unfolding safe_judge_eq all_losses_def all_unread_def
    by (auto simp: none, simp add: of_work_def)
  let ?ls = "\<lparr>ls_home = [], ls_paths = [], ls_commits = []\<rparr>"
  let ?ev = "(of_work at)\<lparr>ev_runtime := Some (no_runtime\<lparr>rt_bystanders := [new_standing 7 None]\<rparr>)\<rparr>"
  have "safe (judge canonical ?ls (of_work at))" by (simp add: safe_clear occupied_iff of_work_def)
  moreover have "\<not> safe (judge canonical ?ls ?ev)" by (simp add: safe_clear occupied_iff of_work_def no_runtime_def)
  ultimately show "\<exists>ls ev. safe (judge canonical ls (of_work at)) \<and> \<not> safe (judge canonical ls ev)" by blast
qed

subsection \<open>The properties at one home\<close>

text \<open>A home with three commits a checkout beside it also holds, and one changed file.\<close>

definition ex_commits :: loss_set where
  "ex_commits = \<lparr>ls_home = [''h''], ls_paths = [],
     ls_commits = [\<lparr>cg_copies = SecondLocalCopy [''r''], cg_count = 3, cg_sample = [''a'', ''b'', ''c'']\<rparr>]\<rparr>"

definition ex_changed :: loss_set where
  "ex_changed = ex_commits\<lparr>ls_paths := [\<lparr>pg_held = Uncommitted, pg_fate = Trashed, pg_count = 1,
     pg_sample = [''f''], pg_bytes = None\<rparr>]\<rparr>"

lemma ex_verdicts:
  "safe (judge (\<lambda>_. None) ex_commits ((of_work t)\<lparr>ev_runtime := rt\<rparr>)) \<longleftrightarrow> \<not> occupied ((of_work t)\<lparr>ev_runtime := rt\<rparr>)"
  "\<not> safe (judge (\<lambda>_. None) ex_changed ev)"
  by (simp_all add: safe_clear ex_commits_def ex_changed_def of_work_def group_clear_def)

theorem judge_safe_iff_witness:
  "safe (judge (\<lambda>_. None) ex_commits (of_work 0)) \<and> \<not> safe (judge (\<lambda>_. None) ex_changed (of_work 0))"
  unfolding judge_safe_iff by (simp add: ex_commits_def ex_changed_def of_work_def)

theorem reasons_ranked_witness:
  "needs_refuses (rs_needs (hd (reasons (judge (\<lambda>_. None) ex_changed (of_work 0)))))"
  using reasons_ranked [of "\<lambda>_. None" ex_changed "of_work 0"] ex_verdicts(2) hd_in_set by blast

theorem proof_rests_exactly_witness:
  "List.find (\<lambda>r. re_repository r = [''r'']) (pr_rests (make_proof ex_commits 0))
     = Some \<lparr>re_repository = [''r''], re_commits = 3, re_sample = [''a'', ''b'', ''c'']\<rparr>"
  using proof_rests_exactly [of ex_commits 0 "[''r'']" "\<lambda>_. None" "of_work 0"]
  by (simp add: credits_def ex_commits_def copies_survives_def)

theorem joint_safe_iff_witness:
  "safe (judge (\<lambda>_. None) ex_commits ((of_work 0)\<lparr>ev_set := [[''q'']]\<rparr>))
   \<and> \<not> safe (judge (\<lambda>_. None) ex_commits ((of_work 0)\<lparr>ev_set := [[''r'']]\<rparr>))"
proof -
  note j = joint_safe_iff [where canonical = "\<lambda>_. None" and ls = ex_commits and ev = "of_work 0"]
  have "safe (judge (\<lambda>_. None) ex_commits ((of_work 0)\<lparr>ev_set := []\<rparr>))"
    using ex_verdicts(1) [where t = 0 and rt = None] by (simp add: of_work_def occupied_iff)
  then show ?thesis
    using j [where homes = "[[''q'']]"] j [where homes = "[[''r'']]"] by (simp add: ex_commits_def resolve_path_def)
qed

theorem of_work_is_weaker_witness:
  "safe (judge (\<lambda>_. None) ex_commits ((of_work 5)\<lparr>ev_runtime := Some no_runtime\<rparr>))
   \<and> safe (judge (\<lambda>_. None) ex_commits (of_work 9))"
proof
  show s: "safe (judge (\<lambda>_. None) ex_commits ((of_work 5)\<lparr>ev_runtime := Some no_runtime\<rparr>))"
    by (simp add: ex_verdicts occupied_iff no_runtime_def rt_unread_def)
  show "safe (judge (\<lambda>_. None) ex_commits (of_work 9))"
    using of_work_is_weaker s by blast
qed

end
