(* ===== verification/Complete.thy ===== *)
theory Complete
  imports Loss Paths
begin

text \<open>
  \<open>lifecycle/complete.rs\<close>: whether another store may stand for a copy of a home's commits.
  Where a repository keeps its files, which files are there, and the answers of \<open>git\<close> about
  one store are what this machine is asked, so they are parameters.
\<close>

record store_reads =
  sr_canonical :: "path \<Rightarrow> path option"
  sr_common_dir :: "path \<Rightarrow> path option"
  sr_exists :: "path \<Rightarrow> bool"
  sr_partial :: "path \<Rightarrow> error + bool"
  sr_boundary :: "path \<Rightarrow> oid list \<Rightarrow> error + oid list"
  sr_missing :: "path \<Rightarrow> oid list \<Rightarrow> oid list \<Rightarrow> error + nat"
  sr_stores :: "path \<Rightarrow> oid list \<Rightarrow> error + oid list"
  sr_not_reached :: "path \<Rightarrow> oid list \<Rightarrow> error + oid list"
  sr_opens :: "path \<Rightarrow> bool"

definition ALTERNATES :: "string list" where "ALTERNATES = [''objects'', ''info'', ''alternates'']"

definition SHALLOW :: "string list" where "SHALLOW = [''shallow'']"

definition admits :: "store_reads \<Rightarrow> path \<Rightarrow> path \<Rightarrow> lacking option" where
  "admits h store home =
     (case sr_common_dir h store of
        None \<Rightarrow> None
      | Some common \<Rightarrow>
          if (case sr_common_dir h home of
                Some theirs \<Rightarrow> resolve_path (sr_canonical h) common = resolve_path (sr_canonical h) theirs
              | None \<Rightarrow> False) then Some SameRepository
          else if sr_exists h (common @ ALTERNATES) then Some Borrowed
          else if sr_exists h (common @ SHALLOW) then Some Shallow
          else if sr_partial h store = Inr True then Some Partial
          else None)"

definition missing :: "store_reads \<Rightarrow> path \<Rightarrow> oid list \<Rightarrow> oid list \<Rightarrow> nat option" where
  "missing h store commits boundary =
     (case sr_missing h store commits boundary of Inr n \<Rightarrow> Some n | Inl _ \<Rightarrow> None)"

definition incomplete_of :: "store_reads \<Rightarrow> path \<Rightarrow> path \<Rightarrow> oid list \<Rightarrow> lacking option" where
  "incomplete_of h store home claimed =
     (case sr_boundary h home claimed of
        Inl _ \<Rightarrow> Some Unreadable
      | Inr boundary \<Rightarrow>
          (case missing h store claimed boundary of
             Some n \<Rightarrow> if n = 0 then None else Some (Missing n)
           | None \<Rightarrow> Some Unreadable))"

text \<open>
  \<open>git/outside.rs\<close>: which of the commits asked about a store keeps, and which of those a ref
  of its own reaches (\<open>owned\<close>, which leaves the store's remote-tracking refs out).
\<close>

record reached =
  rc_stored :: "oid list"
  rc_reached :: "oid list"

definition owned :: "store_reads \<Rightarrow> path \<Rightarrow> oid list \<Rightarrow> error + reached" where
  "owned h store wanted =
     (case (if wanted = [] then Inr [] else sr_stores h store wanted) of
        Inl e \<Rightarrow> Inl e
      | Inr stored \<Rightarrow>
          if stored = [] then Inr \<lparr>rc_stored = [], rc_reached = []\<rparr>
          else (case sr_not_reached h store stored of
                  Inl e \<Rightarrow> Inl e
                | Inr away \<Rightarrow> Inr \<lparr>rc_stored = stored, rc_reached = filter (\<lambda>o1. o1 \<notin> set away) stored\<rparr>))"

definition holds_of :: "store_reads \<Rightarrow> path \<Rightarrow> oid list \<Rightarrow> reached option" where
  "holds_of h store commits =
     (if \<not> sr_opens h store then None
      else case owned h store commits of Inl _ \<Rightarrow> None | Inr r \<Rightarrow> Some r)"

definition stores_of :: "store_reads \<Rightarrow> path \<Rightarrow> oid list \<Rightarrow> oid list" where
  "stores_of h store left =
     (case (if left = [] then Inr [] else sr_stores h store left) of Inr os \<Rightarrow> os | Inl _ \<Rightarrow> [])"

text \<open>A store that may stand for a copy: nothing it says of itself forbids it, and it lacks nothing.\<close>

definition whole :: "store_reads \<Rightarrow> path \<Rightarrow> path \<Rightarrow> oid list \<Rightarrow> bool" where
  "whole h store home claimed \<longleftrightarrow> admits h store home = None \<and> incomplete_of h store home claimed = None"

lemma whole_iff:
  "whole h store home claimed \<longleftrightarrow>
     (case sr_common_dir h store of None \<Rightarrow> True
      | Some common \<Rightarrow>
          (case sr_common_dir h home of
             Some theirs \<Rightarrow> resolve_path (sr_canonical h) common \<noteq> resolve_path (sr_canonical h) theirs
           | None \<Rightarrow> True)
          \<and> \<not> sr_exists h (common @ ALTERNATES) \<and> \<not> sr_exists h (common @ SHALLOW)
          \<and> sr_partial h store \<noteq> Inr True)
     \<and> (\<exists>boundary. sr_boundary h home claimed = Inr boundary \<and> sr_missing h store claimed boundary = Inr 0)"
  by (auto simp: whole_def admits_def incomplete_of_def missing_def
      split: option.splits sum.splits if_splits)

lemma reached_stored: "holds_of h store commits = Some r \<Longrightarrow> set (rc_reached r) \<subseteq> set (rc_stored r)"
  by (auto simp: holds_of_def owned_def split: sum.splits if_splits)

end
