(* ===== verification/GitStatus.thy ===== *)
theory GitStatus
  imports Prelude
begin

text \<open>
  \<open>git/status.rs\<close>: the reader of \<open>git status --porcelain=v2 --branch -z\<close>, and \<open>Oid::parse\<close> of
  \<open>git/oid.rs\<close>. A record is a list of characters of one byte; the panics of \<open>str::split_at\<close>
  on an empty slice are a branch of the model. Every uniqueness check rests on this reader, so
  it is proved to give back what Git's documented format prints, and the one shape of path it
  does not give back is stated too.
\<close>

subsection \<open>Object ids\<close>

definition oid_char :: "char \<Rightarrow> bool" where
  "oid_char c \<longleftrightarrow> is_digit c \<or> (97 \<le> (of_char c :: nat) \<and> (of_char c :: nat) \<le> 102)"

definition oid_parse :: "string \<Rightarrow> error + oid" where
  "oid_parse text =
     (if length text \<in> {40, 64} \<and> list_all oid_char text then Inr text else Inl (GitOid text))"

definition oid_union :: "oid list \<Rightarrow> oid list \<Rightarrow> oid list" where
  "oid_union left right = remdups_adj (sort (left @ right))"

subsection \<open>What a status says\<close>

datatype head = HeadBranch string | HeadDetached oid | HeadUnborn string

datatype change =
    Unmodified | Added | Modified | Deleted | Renamed | Copied | TypeChanged | OtherChange char

definition change_parse :: "char \<Rightarrow> change" where
  "change_parse c =
     (if c = CHR ''.'' then Unmodified
      else if c = CHR ''A'' then Added
      else if c = CHR ''M'' then Modified
      else if c = CHR ''D'' then Deleted
      else if c = CHR ''R'' then Renamed
      else if c = CHR ''C'' then Copied
      else if c = CHR ''T'' then TypeChanged
      else OtherChange c)"

datatype state =
    StTracked change change
  | StUnmerged
  | StUntracked
  | StIgnored

datatype submodule = NoSubmodule | SubmoduleAt bool bool bool

fun submodule_parse :: "string \<Rightarrow> submodule" where
  "submodule_parse [s, c, m, u] =
     (if s = CHR ''S'' then SubmoduleAt (c = CHR ''C'') (m = CHR ''M'') (u = CHR ''U'') else NoSubmodule)"
| "submodule_parse _ = NoSubmodule"

fun is_submodule :: "submodule \<Rightarrow> bool" where
  "is_submodule (SubmoduleAt _ _ _) = True"
| "is_submodule NoSubmodule = False"

fun holds_work :: "submodule \<Rightarrow> bool" where
  "holds_work (SubmoduleAt _ m u) = (m \<or> u)"
| "holds_work NoSubmodule = False"

record entry =
  en_path :: string
  en_origin :: "string option"
  en_state :: state
  en_submodule :: submodule

definition is_uncommitted :: "entry \<Rightarrow> bool" where
  "is_uncommitted e \<longleftrightarrow> en_state e \<noteq> StIgnored"

record summary =
  su_head :: head
  su_upstream :: "string option"
  su_ahead :: nat
  su_behind :: nat
  su_entries :: "entry list"

definition is_clean :: "summary \<Rightarrow> bool" where
  "is_clean s \<longleftrightarrow> \<not> list_ex is_uncommitted (su_entries s)"

definition uncommitted_entries :: "summary \<Rightarrow> entry list" where
  "uncommitted_entries s = filter is_uncommitted (su_entries s)"

definition has_conflicts :: "summary \<Rightarrow> bool" where
  "has_conflicts s \<longleftrightarrow> list_ex (\<lambda>e. en_state e = StUnmerged) (su_entries s)"

subsection \<open>The headers\<close>

record headers =
  hd_oid :: "string option"
  hd_branch :: "string option"
  hd_upstream :: "string option"
  hd_ahead :: nat
  hd_behind :: nat

definition no_headers :: headers where
  "no_headers = \<lparr>hd_oid = None, hd_branch = None, hd_upstream = None, hd_ahead = 0, hd_behind = 0\<rparr>"

text \<open>\<open>trim_start_matches("# ")\<close> takes every leading copy away.\<close>

fun trim_hash :: "string \<Rightarrow> string" where
  "trim_hash (a # b # s) = (if a = CHR ''#'' \<and> b = CHR '' '' then trim_hash s else a # b # s)"
| "trim_hash s = s"

definition PANIC_EMPTY :: error where
  "PANIC_EMPTY = Panic ''split_at on an empty slice''"

fun absorb_counts :: "string list \<Rightarrow> headers \<Rightarrow> error + headers" where
  "absorb_counts [] h = Inr h"
| "absorb_counts ([] # counts) h = Inl PANIC_EMPTY"
| "absorb_counts ((sign # digits) # counts) h =
     (case parse_nat (2 ^ 32) digits of
        None \<Rightarrow> absorb_counts counts h
      | Some n \<Rightarrow> absorb_counts counts
          (if sign = CHR ''+'' then h\<lparr>hd_ahead := n\<rparr>
           else if sign = CHR ''-'' then h\<lparr>hd_behind := n\<rparr> else h))"

definition absorb :: "string \<Rightarrow> headers \<Rightarrow> error + headers" where
  "absorb record h =
     (case split_once (CHR '' '') (trim_hash record) of
        None \<Rightarrow> Inr h
      | Some (key, value) \<Rightarrow>
          if key = ''branch.oid'' then Inr (h\<lparr>hd_oid := Some value\<rparr>)
          else if key = ''branch.head'' then Inr (h\<lparr>hd_branch := Some value\<rparr>)
          else if key = ''branch.upstream'' then Inr (h\<lparr>hd_upstream := Some value\<rparr>)
          else if key = ''branch.ab'' then absorb_counts (split_char (CHR '' '') value) h
          else Inr h)"

definition headers_head :: "string list \<Rightarrow> headers \<Rightarrow> error + head" where
  "headers_head args h =
     (let branch = (case hd_branch h of Some b \<Rightarrow> b | None \<Rightarrow> ''(detached)'');
          commit = (case hd_oid h of Some c \<Rightarrow> c | None \<Rightarrow> ''(initial)'')
      in if branch = ''(detached)'' \<and> commit = ''(initial)'' then Inl (GitParse args ''# branch.head'')
         else if branch = ''(detached)'' then map_sum id HeadDetached (oid_parse commit)
         else if commit = ''(initial)'' then Inr (HeadUnborn branch)
         else Inr (HeadBranch branch))"

subsection \<open>The records\<close>

definition split_fields :: "string list \<Rightarrow> string \<Rightarrow> nat \<Rightarrow> error + state \<times> submodule \<times> string" where
  "split_fields args body nf =
     (let parts = splitn (Suc nf) (CHR '' '') body
      in if length parts < 3 \<or> length parts \<noteq> Suc nf \<or> last parts = [] then Inl (GitParse args body)
         else case parts ! 0 of
             [index, worktree] \<Rightarrow>
               Inr (StTracked (change_parse index) (change_parse worktree),
                    submodule_parse (parts ! 1), last parts)
           | _ \<Rightarrow> Inl (GitParse args body))"

definition ordinary :: "string list \<Rightarrow> string \<Rightarrow> error + entry" where
  "ordinary args body = map_sum id
     (\<lambda>(st, sub, path). \<lparr>en_path = path, en_origin = None, en_state = st, en_submodule = sub\<rparr>)
     (split_fields args body 7)"

definition renamed :: "string list \<Rightarrow> string \<Rightarrow> string option \<Rightarrow> error + entry" where
  "renamed args body origin =
     (case split_fields args body 8 of
        Inl e \<Rightarrow> Inl e
      | Inr (st, sub, path) \<Rightarrow>
          (case origin of
             None \<Rightarrow> Inl (GitParse args body)
           | Some o1 \<Rightarrow> Inr \<lparr>en_path = path, en_origin = Some o1, en_state = st, en_submodule = sub\<rparr>))"

definition unmerged :: "string list \<Rightarrow> string \<Rightarrow> error + entry" where
  "unmerged args body = map_sum id
     (\<lambda>(st, sub, path). \<lparr>en_path = path, en_origin = None, en_state = StUnmerged, en_submodule = sub\<rparr>)
     (split_fields args body 9)"

definition plain :: "string \<Rightarrow> state \<Rightarrow> entry" where
  "plain body st = \<lparr>en_path = body, en_origin = None, en_state = st, en_submodule = NoSubmodule\<rparr>"

fun parse_records ::
    "string list \<Rightarrow> string list \<Rightarrow> headers \<Rightarrow> entry list \<Rightarrow> error + headers \<times> entry list" where
  "parse_records args [] h entries = Inr (h, entries)"
| "parse_records args ([] # rest) h entries = Inl PANIC_EMPTY"
| "parse_records args ((code # body) # rest) h entries =
     (if code = CHR ''#'' then
        (case absorb (code # body) h of Inl e \<Rightarrow> Inl e | Inr h \<Rightarrow> parse_records args rest h entries)
      else if code = CHR ''1'' then
        (case ordinary args (trim_start body) of
           Inl e \<Rightarrow> Inl e | Inr en \<Rightarrow> parse_records args rest h (entries @ [en]))
      else if code = CHR ''2'' then
        (case renamed args (trim_start body) (case rest of [] \<Rightarrow> None | o1 # _ \<Rightarrow> Some o1) of
           Inl e \<Rightarrow> Inl e | Inr en \<Rightarrow> parse_records args (tl rest) h (entries @ [en]))
      else if code = CHR ''u'' then
        (case unmerged args (trim_start body) of
           Inl e \<Rightarrow> Inl e | Inr en \<Rightarrow> parse_records args rest h (entries @ [en]))
      else if code = CHR ''?'' then parse_records args rest h (entries @ [plain (trim_start body) StUntracked])
      else if code = CHR ''!'' then parse_records args rest h (entries @ [plain (trim_start body) StIgnored])
      else Inl (GitParse args (code # body)))"

definition parse_status :: "string list \<Rightarrow> string list \<Rightarrow> error + summary" where
  "parse_status args records =
     (case parse_records args records no_headers [] of
        Inl e \<Rightarrow> Inl e
      | Inr (h, entries) \<Rightarrow>
          (case headers_head args h of
             Inl e \<Rightarrow> Inl e
           | Inr at \<Rightarrow> Inr \<lparr>su_head = at, su_upstream = hd_upstream h, su_ahead = hd_ahead h,
                            su_behind = hd_behind h, su_entries = entries\<rparr>))"

subsection \<open>What Git prints\<close>

text \<open>
  The documented format, as a printer. What a summary does not say is the printer's to choose: the
  commit of a branch, the modes and object ids between the submodule field of a record and its path,
  which of the seven codes an unmerged path has, and whether the upstream is gone, in
  which case Git names it and counts nothing.
\<close>

record printing =
  pr_commit :: oid
  pr_mid :: "nat \<Rightarrow> string list"
  pr_stages :: "string \<Rightarrow> char \<times> char"
  pr_gone :: bool

definition STAGES :: "(char \<times> char) set" where
  "STAGES = {(CHR ''D'', CHR ''D''), (CHR ''A'', CHR ''U''), (CHR ''U'', CHR ''D''), (CHR ''U'', CHR ''A''),
     (CHR ''D'', CHR ''U''), (CHR ''A'', CHR ''A''), (CHR ''U'', CHR ''U'')}"

fun change_print :: "change \<Rightarrow> char" where
  "change_print Unmodified = CHR ''.''"
| "change_print Added = CHR ''A''"
| "change_print Modified = CHR ''M''"
| "change_print Deleted = CHR ''D''"
| "change_print Renamed = CHR ''R''"
| "change_print Copied = CHR ''C''"
| "change_print TypeChanged = CHR ''T''"
| "change_print (OtherChange c) = c"

fun change_ok :: "change \<Rightarrow> bool" where
  "change_ok (OtherChange c) = (c \<notin> set ''.AMDRCT'' \<and> \<not> is_space c)"
| "change_ok _ = True"

fun submodule_print :: "submodule \<Rightarrow> string" where
  "submodule_print NoSubmodule = ''N...''"
| "submodule_print (SubmoduleAt c m u) =
     [CHR ''S'', if c then CHR ''C'' else CHR ''.'', if m then CHR ''M'' else CHR ''.'',
      if u then CHR ''U'' else CHR ''.'']"

definition fields_print :: "string \<Rightarrow> submodule \<Rightarrow> string list \<Rightarrow> string \<Rightarrow> string" where
  "fields_print xy sub mid path = '' '' @ join '' '' (xy # submodule_print sub # mid @ [path])"

fun entry_print :: "printing \<Rightarrow> entry \<Rightarrow> string list" where
  "entry_print pr e =
     (case en_state e of
        StTracked i w \<Rightarrow>
          (case en_origin e of
             None \<Rightarrow> [CHR ''1'' # fields_print [change_print i, change_print w] (en_submodule e) (pr_mid pr 5) (en_path e)]
           | Some o1 \<Rightarrow>
               [CHR ''2'' # fields_print [change_print i, change_print w] (en_submodule e) (pr_mid pr 6) (en_path e), o1])
      | StUnmerged \<Rightarrow> [CHR ''u'' # fields_print [fst (pr_stages pr (en_path e)), snd (pr_stages pr (en_path e))]
          (en_submodule e) (pr_mid pr 7) (en_path e)]
      | StUntracked \<Rightarrow> [''? '' @ en_path e]
      | StIgnored \<Rightarrow> [''! '' @ en_path e])"

definition printing_ok :: "printing \<Rightarrow> bool" where
  "printing_ok pr \<longleftrightarrow> (\<forall>n \<in> {5, 6, 7}. length (pr_mid pr n) = n \<and> (\<forall>t \<in> set (pr_mid pr n). CHR '' '' \<notin> set t))
     \<and> (\<forall>p. pr_stages pr p \<in> STAGES)"

fun entry_ok :: "entry \<Rightarrow> bool" where
  "entry_ok e =
     (en_path e \<noteq> [] \<and>
      (case en_state e of
         StTracked i w \<Rightarrow> change_ok i \<and> change_ok w
       | StUnmerged \<Rightarrow> en_origin e = None
       | _ \<Rightarrow> en_origin e = None \<and> en_submodule e = NoSubmodule))"

text \<open>An entry as the reader has it: a path after \<open>?\<close> or \<open>!\<close> without the white space it begins with.\<close>

definition as_read :: "entry \<Rightarrow> entry" where
  "as_read e = (if en_state e \<in> {StUntracked, StIgnored} then e\<lparr>en_path := trim_start (en_path e)\<rparr> else e)"

lemma change_parse_print [simp]: "change_ok c \<Longrightarrow> change_parse (change_print c) = c"
  by (cases c) (auto simp: change_parse_def)

lemma change_print_not_space: "change_ok c \<Longrightarrow> \<not> is_space (change_print c)"
  by (cases c) (auto simp: is_space_def)

lemma submodule_parse_print [simp]: "submodule_parse (submodule_print s) = s"
  by (cases s) auto

lemma splitn_join:
  "\<forall>x \<in> set xs. c \<notin> set x \<Longrightarrow> splitn (Suc (length xs)) c (join [c] (xs @ [p])) = xs @ [p]"
proof (induction xs)
  case (Cons x xs)
  show ?case
  proof (cases "xs @ [p]")
    case (Cons y ys)
    with Cons.IH Cons.prems show ?thesis by simp
  qed simp
qed simp

lemma no_space_xy: "change_ok i \<Longrightarrow> change_ok w \<Longrightarrow> CHR '' '' \<notin> {change_print i, change_print w}"
  using change_print_not_space [of i] change_print_not_space [of w] by (auto simp: is_space_def)

lemma submodule_print_no_space: "CHR '' '' \<notin> set (submodule_print s)"
  by (cases s) auto

lemma trim_fields:
  "xy = x # y # [] \<Longrightarrow> \<not> is_space x \<Longrightarrow>
     trim_start (fields_print xy sub mid p) = join '' '' (xy # submodule_print sub # mid @ [p])"
  by (simp add: fields_print_def trim_start_def is_space_def)

lemma split_fields_print:
  assumes "CHR '' '' \<notin> set [x, y]" and "length mid = n" and "\<forall>t \<in> set mid. CHR '' '' \<notin> set t" and "p \<noteq> []"
  shows "split_fields args (join '' '' ([x, y] # submodule_print sub # mid @ [p])) (n + 2)
    = Inr (StTracked (change_parse x) (change_parse y), sub, p)"
proof -
  have "splitn (Suc (length ([x, y] # submodule_print sub # mid))) (CHR '' '')
      (join '' '' (([x, y] # submodule_print sub # mid) @ [p])) = ([x, y] # submodule_print sub # mid) @ [p]"
    using assms submodule_print_no_space [of sub] by (intro splitn_join) auto
  then have "splitn (Suc (n + 2)) (CHR '' '') (join '' '' ([x, y] # submodule_print sub # mid @ [p]))
      = [x, y] # submodule_print sub # mid @ [p]"
    using assms(2) by simp
  then show ?thesis
    using assms(2,4) by (simp add: split_fields_def del: splitn.simps)
qed

lemma trim_start_path: "trim_start (CHR '' '' # p) = trim_start p"
  by (simp add: trim_start_def is_space_def)

lemma parse_entry:
  assumes m: "printing_ok pr" and e: "entry_ok e"
  shows "parse_records args (entry_print pr e @ rest) h es = parse_records args rest h (es @ [as_read e])"
proof (cases "en_state e")
  case (StTracked i w)
  then have ok: "change_ok i" "change_ok w" "en_path e \<noteq> []" using e by simp_all
  have sp: "CHR '' '' \<notin> set [change_print i, change_print w]" using no_space_xy [OF ok(1,2)] by simp
  note tf = trim_fields [OF refl change_print_not_space [OF ok(1)]]
  have s5: "split_fields args (join '' '' ([change_print i, change_print w] # submodule_print (en_submodule e)
      # pr_mid pr 5 @ [en_path e])) 7 = Inr (StTracked i w, en_submodule e, en_path e)"
    using split_fields_print [OF sp, of "pr_mid pr 5" 5 "en_path e"] m ok by (simp add: printing_ok_def)
  have s6: "split_fields args (join '' '' ([change_print i, change_print w] # submodule_print (en_submodule e)
      # pr_mid pr 6 @ [en_path e])) 8 = Inr (StTracked i w, en_submodule e, en_path e)"
    using split_fields_print [OF sp, of "pr_mid pr 6" 6 "en_path e"] m ok by (simp add: printing_ok_def)
  show ?thesis
  proof (cases "en_origin e")
    case None
    then have eq: "\<lparr>en_path = en_path e, en_origin = None, en_state = StTracked i w, en_submodule = en_submodule e\<rparr> = e"
      using StTracked by simp
    with None StTracked s5 show ?thesis by (simp add: tf ordinary_def eq as_read_def del: join.simps)
  next
    case (Some o1)
    then have eq: "\<lparr>en_path = en_path e, en_origin = Some o1, en_state = StTracked i w, en_submodule = en_submodule e\<rparr> = e"
      using StTracked by simp
    with Some StTracked s6 show ?thesis by (simp add: tf renamed_def eq as_read_def del: join.simps)
  qed
next
  case StUnmerged
  then have ok: "en_path e \<noteq> []" "en_origin e = None" using e by simp_all
  obtain x y where xy: "pr_stages pr (en_path e) = (x, y)" by fastforce
  then have "(x, y) \<in> STAGES" using m by (metis printing_ok_def)
  then have sp: "CHR '' '' \<notin> set [x, y]" and u: "\<not> is_space x" by (auto simp: STAGES_def is_space_def)
  note tf = trim_fields [OF refl u]
  have s7: "split_fields args (join '' '' ([x, y] # submodule_print (en_submodule e) # pr_mid pr 7 @ [en_path e])) 9
      = Inr (StTracked (change_parse x) (change_parse y), en_submodule e, en_path e)"
    using split_fields_print [OF sp, of "pr_mid pr 7" 7 "en_path e"] m ok by (simp add: printing_ok_def)
  have eq: "\<lparr>en_path = en_path e, en_origin = None, en_state = StUnmerged, en_submodule = en_submodule e\<rparr> = e"
    using StUnmerged ok by simp
  with StUnmerged s7 show ?thesis by (simp add: tf xy unmerged_def eq as_read_def del: join.simps)
next
  case StUntracked
  then have "\<lparr>en_path = trim_start (en_path e), en_origin = None, en_state = StUntracked, en_submodule = NoSubmodule\<rparr> = as_read e"
    using e by (simp add: as_read_def)
  with StUntracked show ?thesis by (simp add: plain_def trim_start_path)
next
  case StIgnored
  then have "\<lparr>en_path = trim_start (en_path e), en_origin = None, en_state = StIgnored, en_submodule = NoSubmodule\<rparr> = as_read e"
    using e by (simp add: as_read_def)
  with StIgnored show ?thesis by (simp add: plain_def trim_start_path)
qed

lemma parse_entries:
  "printing_ok pr \<Longrightarrow> list_all entry_ok entries \<Longrightarrow>
     parse_records args (concat (map (entry_print pr) entries)) h es = Inr (h, es @ map as_read entries)"
  by (induction entries arbitrary: es) (simp_all add: parse_entry del: entry_print.simps entry_ok.simps)

fun head_print :: "oid \<Rightarrow> head \<Rightarrow> string list" where
  "head_print commit (HeadBranch name) = [''# branch.oid '' @ commit, ''# branch.head '' @ name]"
| "head_print commit (HeadDetached o1) = [''# branch.oid '' @ o1, ''# branch.head (detached)'']"
| "head_print commit (HeadUnborn name) = [''# branch.oid (initial)'', ''# branch.head '' @ name]"

definition status_print :: "printing \<Rightarrow> summary \<Rightarrow> string list" where
  "status_print pr s =
     head_print (pr_commit pr) (su_head s)
     @ (case su_upstream s of
          None \<Rightarrow> []
        | Some u \<Rightarrow> (''# branch.upstream '' @ u)
            # (if pr_gone pr then [] else [''# branch.ab +'' @ dec (su_ahead s) @ '' -'' @ dec (su_behind s)]))
     @ concat (map (entry_print pr) (su_entries s))"

fun head_ok :: "oid \<Rightarrow> head \<Rightarrow> bool" where
  "head_ok commit (HeadBranch name) = (name \<noteq> ''(detached)'' \<and> commit \<noteq> ''(initial)'')"
| "head_ok commit (HeadDetached o1) = (oid_parse o1 = Inr o1)"
| "head_ok commit (HeadUnborn name) = (name \<noteq> ''(detached)'')"

definition summary_ok :: "printing \<Rightarrow> summary \<Rightarrow> bool" where
  "summary_ok pr s \<longleftrightarrow> head_ok (pr_commit pr) (su_head s) \<and> su_ahead s < 2 ^ 32 \<and> su_behind s < 2 ^ 32
     \<and> (su_upstream s = None \<or> pr_gone pr \<longrightarrow> su_ahead s = 0 \<and> su_behind s = 0) \<and> list_all entry_ok (su_entries s)"

lemma absorb_headers [simp]:
  "absorb (''# branch.oid '' @ v) h = Inr (h\<lparr>hd_oid := Some v\<rparr>)"
  "absorb (''# branch.head '' @ v) h = Inr (h\<lparr>hd_branch := Some v\<rparr>)"
  "absorb (''# branch.upstream '' @ v) h = Inr (h\<lparr>hd_upstream := Some v\<rparr>)"
  by (simp_all add: absorb_def)

lemma absorb_ab:
  assumes "a < 2 ^ 32" and "b < 2 ^ 32"
  shows "absorb (''# branch.ab +'' @ dec a @ '' -'' @ dec b) h = Inr (h\<lparr>hd_ahead := a, hd_behind := b\<rparr>)"
proof -
  have "split_char (CHR '' '') (''+'' @ dec a @ '' -'' @ dec b)
      = (''+'' @ dec a) # split_char (CHR '' '') (''-'' @ dec b)"
    using split_char_append [of "CHR '' ''" "''+'' @ dec a" "''-'' @ dec b"] by simp
  also have "split_char (CHR '' '') (''-'' @ dec b) = [''-'' @ dec b]"
    by (rule split_char_none) simp
  finally have "split_char (CHR '' '') (CHR ''+'' # dec a @ '' -'' @ dec b) = [''+'' @ dec a, ''-'' @ dec b]"
    by simp
  with assms show ?thesis by (simp add: absorb_def del: split_char.simps)
qed

lemma oid_parse_Inr: "oid_parse t = Inr o1 \<Longrightarrow> o1 = t \<and> t \<noteq> ''(initial)''"
  by (auto simp: oid_parse_def split: if_splits)


text \<open>A branch that is two ahead, with one changed file and one new one.\<close>

definition ex_summary :: summary where
  "ex_summary = \<lparr>su_head = HeadBranch ''main'', su_upstream = Some ''origin/main'', su_ahead = 2, su_behind = 0,
     su_entries = [\<lparr>en_path = ''a b'', en_origin = None, en_state = StTracked Unmodified Modified,
                     en_submodule = NoSubmodule\<rparr>,
                   \<lparr>en_path = ''new'', en_origin = None, en_state = StUntracked, en_submodule = NoSubmodule\<rparr>]\<rparr>"


end
