(* ===== verification/Assess.thy ===== *)
theory Assess
  imports Kernel Complete GitStatus "HOL-Library.Multiset"
begin

text \<open>
  \<open>lifecycle/assess.rs\<close>: the reading of one home that the kernel judges. The paths come from
  one \<open>git status\<close>, the commits from one or two \<open>rev-list\<close> runs split by where else on this
  machine they live. What Git answers about the home is a parameter.
\<close>

subsection \<open>The record of the reading (\<open>model/reading.rs\<close>)\<close>

datatype role = Checkout | Sibling

datatype answered = AnsweredYes | AnsweredNo | NotAsked

record store_row =
  sw_path :: path
  sw_role :: role
  sw_answered :: answered
  sw_why :: "string option"

record unchecked_row =
  uc_what :: string
  uc_why :: string

record reading =
  rd_stores :: "store_row list"
  rd_walked :: "string list"
  rd_commits :: nat
  rd_not_walked :: "string list"
  rd_not_checked :: "unchecked_row list"

definition no_reading :: reading where
  "no_reading = \<lparr>rd_stores = [], rd_walked = [], rd_commits = 0, rd_not_walked = [], rd_not_checked = []\<rparr>"

definition reading_summary :: "reading \<Rightarrow> string" where
  "reading_summary r =
     dec (length (filter (\<lambda>s. sw_answered s = AnsweredYes) (rd_stores r))) @ ''/''
     @ dec (length (rd_stores r)) @ '' stores answered, '' @ dec (length (rd_walked r)) @ '' refs walked''"

subsection \<open>The working tree\<close>

text \<open>The components of a relative path, as \<open>PathBuf\<close> compares them.\<close>

definition comps :: "string \<Rightarrow> string list" where
  "comps p = (case split_char (CHR ''/'') p of
     [] \<Rightarrow> []
   | c # cs \<Rightarrow> (if c = [] then [] else [c]) @ filter (\<lambda>c. c \<noteq> [] \<and> c \<noteq> ''.'') cs)"

text \<open>The rows of \<open>env::files::WRITTEN\<close> that are Nodal's own.\<close>

definition OWN_FILES :: "string list" where
  "OWN_FILES = [''.nodal/env'', ''.envrc'', ''.nodal/manifest.toml'', ''.nodal/id'', ''WORKUNIT.md'',
     ''.claude/settings.json'']"

definition is_own :: "string \<Rightarrow> bool" where
  "is_own p \<longleftrightarrow> list_ex (\<lambda>f. comps f = comps p) OWN_FILES"

definition is_nodals_own :: "entry \<Rightarrow> bool" where
  "is_nodals_own e \<longleftrightarrow> en_state e = StUntracked \<and> is_own (en_path e)"

definition paths_where :: "summary \<Rightarrow> (entry \<Rightarrow> bool) \<Rightarrow> string list" where
  "paths_where status wanted = map en_path (filter (\<lambda>e. wanted e \<and> \<not> is_nodals_own e) (su_entries status))"

definition regenerable :: "string \<Rightarrow> string list \<Rightarrow> bool" where
  "regenerable p declared \<longleftrightarrow>
     list_ex (\<lambda>n. list_ex (\<lambda>k. suffix (comps n) (take k (comps p))) [0..<Suc (length (comps p))]) declared"

definition group :: "held \<Rightarrow> fate \<Rightarrow> string list \<Rightarrow> path_group option" where
  "group h f ps =
     (if ps = [] then None
      else Some \<lparr>pg_held = h, pg_fate = f, pg_count = length ps, pg_sample = take SAMPLE ps, pg_bytes = None\<rparr>)"

fun is_change :: "state \<Rightarrow> bool" where
  "is_change (StTracked _ _) = True"
| "is_change StUnmerged = True"
| "is_change _ = False"

definition working :: "summary \<Rightarrow> fate \<Rightarrow> string list \<Rightarrow> path_group list" where
  "working status f declared =
     (let tracked = paths_where status (\<lambda>e. is_change (en_state e));
          (named, untracked) = partition (\<lambda>p. regenerable p declared)
             (paths_where status (\<lambda>e. en_state e = StUntracked))
      in List.map_filter id
           [group Uncommitted f tracked, group Untracked f untracked, group UntrackedDeclared f named])"

text \<open>\<open>kernel::loss_set\<close>: the loss set of a caller with no checkout to read commits against.\<close>

definition loss_set_of :: "path \<Rightarrow> summary \<Rightarrow> fate \<Rightarrow> loss_set" where
  "loss_set_of home status f = \<lparr>ls_home = home, ls_paths = working status f [], ls_commits = []\<rparr>"

text \<open>What an ignore rule covers (\<open>prune::survey\<close> is asked for the candidates and their sizes).\<close>

record candidate =
  ca_path :: string
  ca_bytes :: nat
  ca_reason :: "string option"

definition measured :: "held \<Rightarrow> fate \<Rightarrow> candidate list \<Rightarrow> path_group option" where
  "measured h f cs =
     (if cs = [] then None
      else Some \<lparr>pg_held = h, pg_fate = f, pg_count = length cs, pg_sample = map ca_path (take SAMPLE cs),
                 pg_bytes = Some (sum_list (map ca_bytes cs))\<rparr>)"

definition ignored :: "candidate list \<Rightarrow> fate \<Rightarrow> path_group list" where
  "ignored cs f =
     (let (generated, local) = partition (\<lambda>c. ca_reason c \<noteq> None) cs
      in List.map_filter id [measured Generated f generated, measured LocalState f local])"

subsection \<open>The commits\<close>

definition ACCOUNTED_FOR :: string where "ACCOUNTED_FOR = ''every commit was already accounted for''"
definition ITSELF :: string where "ITSELF = ''this is the home being read''"
definition UNREADABLE :: string where "UNREADABLE = ''not a readable repository, or its own reading failed''"
definition NOTHING_TO_LOOK_FOR :: string where
  "NOTHING_TO_LOOK_FOR = ''the home holds no commit the project does not already reach''"

definition asked :: "path \<Rightarrow> role \<Rightarrow> answered \<Rightarrow> string \<Rightarrow> store_row" where
  "asked p r a why = \<lparr>sw_path = p, sw_role = r, sw_answered = a, sw_why = (if why = [] then None else Some why)\<rparr>"

definition stores :: "path option \<Rightarrow> path list \<Rightarrow> (path \<times> role) list" where
  "stores checkout siblings =
     (case checkout of Some p \<Rightarrow> [(p, Checkout)] | None \<Rightarrow> []) @ map (\<lambda>p. (p, Sibling)) siblings"

definition unasked :: "path option \<Rightarrow> path list \<Rightarrow> string \<Rightarrow> store_row list" where
  "unasked checkout siblings why = map (\<lambda>(p, r). asked p r NotAsked why) (stores checkout siblings)"

record search =
  se_left :: "oid list"
  se_held :: "(path \<times> oid list) list"
  se_doubtful :: "(incomplete \<times> oid list) list"
  se_rows :: "store_row list"

definition doubted :: "path \<Rightarrow> lacking \<Rightarrow> oid list \<Rightarrow> role \<Rightarrow> search \<Rightarrow> search" where
  "doubted store lacks has r se =
     se\<lparr>se_rows := se_rows se @ [asked store r AnsweredNo (lacking_because lacks)],
        se_doubtful := se_doubtful se
          @ (if has = [] then [] else [(\<lparr>inc_store = store, inc_lacking = lacks\<rparr>, has)])\<rparr>"

definition search_one :: "store_reads \<Rightarrow> path \<Rightarrow> path \<times> role \<Rightarrow> search \<Rightarrow> search" where
  "search_one h home st se =
     (case st of (store, r) \<Rightarrow>
        if se_left se = [] then se\<lparr>se_rows := se_rows se @ [asked store r NotAsked ACCOUNTED_FOR]\<rparr>
        else if resolve_path (sr_canonical h) store = resolve_path (sr_canonical h) home
        then se\<lparr>se_rows := se_rows se @ [asked store r NotAsked ITSELF]\<rparr>
        else case admits h store home of
          Some lacks \<Rightarrow> doubted store lacks (stores_of h store (se_left se)) r se
        | None \<Rightarrow>
            (case holds_of h store (se_left se) of
               None \<Rightarrow> se\<lparr>se_rows := se_rows se @ [asked store r AnsweredNo UNREADABLE]\<rparr>
             | Some reaches \<Rightarrow>
                 if rc_reached reaches = []
                 then se\<lparr>se_rows := se_rows se @ [asked store r AnsweredYes []]\<rparr>
                 else case incomplete_of h store home (rc_reached reaches) of
                   Some lacks \<Rightarrow> doubted store lacks (rc_stored reaches) r se
                 | None \<Rightarrow>
                     se\<lparr>se_rows := se_rows se @ [asked store r AnsweredYes []],
                        se_held := se_held se
                          @ [(store, filter (\<lambda>o1. o1 \<in> set (rc_reached reaches)) (se_left se))],
                        se_left := filter (\<lambda>o1. o1 \<notin> set (rc_reached reaches)) (se_left se)\<rparr>))"

record found =
  fo_held :: "(path \<times> oid list) list"
  fo_unread :: "incomplete list"
  fo_unchecked :: "oid list"
  fo_only :: "oid list"

definition local_copies ::
    "store_reads \<Rightarrow> path \<Rightarrow> path option \<Rightarrow> path list \<Rightarrow> oid list \<Rightarrow> store_row list \<Rightarrow> found \<times> store_row list" where
  "local_copies h home checkout siblings unproved rows =
     (let se = fold (search_one h home) (stores checkout siblings)
            \<lparr>se_left = unproved, se_held = [], se_doubtful = [], se_rows = rows\<rparr>;
          doubt = concat (map snd (se_doubtful se))
      in (\<lparr>fo_held = se_held se,
           fo_unread = map fst (filter (\<lambda>(_, commits). list_ex (\<lambda>o1. o1 \<in> set commits) (se_left se)) (se_doubtful se)),
           fo_unchecked = filter (\<lambda>o1. o1 \<in> set doubt) (se_left se),
           fo_only = filter (\<lambda>o1. o1 \<notin> set doubt) (se_left se)\<rparr>, se_rows se))"

definition difference :: "oid list \<Rightarrow> oid list \<Rightarrow> oid list" where
  "difference whole_list fewer = filter (\<lambda>o1. o1 \<notin> set fewer) whole_list"

definition commit_group :: "copies \<Rightarrow> oid list \<Rightarrow> commit_group option" where
  "commit_group c os =
     (if os = [] then None
      else Some \<lparr>cg_copies = c, cg_count = length os, cg_sample = take SAMPLE os\<rparr>)"

definition held_groups :: "(path \<times> oid list) list \<Rightarrow> commit_group list" where
  "held_groups hs = List.map_filter (\<lambda>(held_by, os). commit_group (SecondLocalCopy held_by) os) hs"

definition unreached :: "witness \<Rightarrow> copies" where
  "unreached w = (if witness_unchecked w then NotChecked w [] else OnlyHere w)"

definition unchecked_copies :: "witness \<Rightarrow> incomplete list \<Rightarrow> copies" where
  "unchecked_copies w incs = NotChecked w incs"

definition else_tips :: "elsewhere \<Rightarrow> oid list" where
  "else_tips found = oid_union (else_own found) (else_remote found)"

text \<open>The refs of the home and the scope of its work.\<close>

record git_ref =
  ref_name :: string
  ref_oid :: oid

record home_git =
  hg_remotes :: "error + string list"
  hg_refs :: "error + git_ref list"
  hg_among :: "oid list \<Rightarrow> oid list \<Rightarrow> error + oid list"
  hg_head_text :: "string option"
  hg_head :: "error + oid"

definition NOT_ITS_OWN :: "string list" where "NOT_ITS_OWN = [''refs/remotes/'', ''refs/nodal/'']"

definition checked_out :: "string option \<Rightarrow> string list \<Rightarrow> bool" where
  "checked_out head_text named =
     (case head_text of
        None \<Rightarrow> False
      | Some text \<Rightarrow>
          if prefix ''ref: '' (trim text) then drop 5 (trim text) \<in> set named else False)"

definition own_refs :: "git_ref list \<Rightarrow> git_ref list" where
  "own_refs refs = filter (\<lambda>r. \<not> list_ex (\<lambda>kind. prefix kind (ref_name r)) NOT_ITS_OWN) refs"

record scope =
  sc_tips :: "oid list"
  sc_walked :: "string list"
  sc_not_walked :: "string list"

definition work_resolve :: "string option \<Rightarrow> home_git \<Rightarrow> git_ref list \<Rightarrow> scope" where
  "work_resolve recorded g refs =
     (let mine = own_refs refs;
          tips = map ref_oid mine;
          tips = tips @ (if checked_out (hg_head_text g) (map ref_name mine) then []
                         else case hg_head g of Inr o1 \<Rightarrow> [o1] | Inl _ \<Rightarrow> []);
          walked = [''HEAD'', ''refs/heads/*'', ''refs/tags/*'', ''refs/stash''];
          (tips, walked) = (case recorded of
             None \<Rightarrow> (tips, walked)
           | Some name \<Rightarrow>
               (tips @ (case List.find (\<lambda>r. ref_name r = name) refs of Some r \<Rightarrow> [ref_oid r] | None \<Rightarrow> []),
                walked @ [name]))
      in \<lparr>sc_tips = remdups_adj (sort tips), sc_walked = walked,
          sc_not_walked = map (\<lambda>kind. kind @ ''* (a record of somewhere else, not this home's own work)'') NOT_ITS_OWN\<rparr>)"

record input =
  in_home :: path
  in_checkout :: "path option"
  in_siblings :: "path list"
  in_work :: "string option"
  in_fate :: fate
  in_state :: bool
  in_declared :: "string list"
  in_dispositions :: bool

definition refusing ::
    "store_reads \<Rightarrow> input \<Rightarrow> oid list \<Rightarrow> elsewhere \<Rightarrow> string list \<Rightarrow> reading \<Rightarrow> commit_group list \<times> reading" where
  "refusing h inp unproved found remotes rd =
     (let (read, rows) = local_copies h (in_home inp) (in_checkout inp) (in_siblings inp) unproved (rd_stores rd);
          w = witness_of remotes found
      in (held_groups (fo_held read)
          @ List.map_filter id [commit_group (unchecked_copies w (fo_unread read)) (fo_unchecked read),
                                commit_group (unreached w) (fo_only read)],
          rd\<lparr>rd_stores := rows\<rparr>))"

text \<open>
  \<open>elsewhere\<close> of the home is handed in: it is \<open>lifecycle/witness.rs\<close>'s, and the same value in
  both modes. The rows of \<open>same_content\<close> are a report beside the verdict and are left out.
\<close>

definition history ::
    "store_reads \<Rightarrow> home_git \<Rightarrow> input \<Rightarrow> (git_ref list \<Rightarrow> elsewhere) \<Rightarrow> reading
       \<Rightarrow> error + (commit_group list \<times> string list \<times> reading)" where
  "history h g inp elsewhere_of rd =
     (case hg_remotes g of Inl e \<Rightarrow> Inl e | Inr remotes \<Rightarrow>
      (case hg_refs g of Inl e \<Rightarrow> Inl e | Inr refs \<Rightarrow>
       let found = elsewhere_of refs;
           work = work_resolve (in_work inp) g refs;
           rd = rd\<lparr>rd_walked := sc_walked work, rd_not_walked := sc_not_walked work\<rparr>;
           nothing_left = (\<lambda>rd. Inr ([], remotes,
             rd\<lparr>rd_stores := unasked (in_checkout inp) (in_siblings inp) NOTHING_TO_LOOK_FOR\<rparr>))
       in if \<not> in_dispositions inp then
            (case hg_among g (sc_tips work) (else_tips found) of
               Inl e \<Rightarrow> Inl e
             | Inr unproved \<Rightarrow>
                 let rd = rd\<lparr>rd_commits := length unproved\<rparr>
                 in if unproved = [] then nothing_left rd
                    else let (groups, rd) = refusing h inp unproved found remotes rd
                         in Inr (groups, remotes, rd))
          else
            (case hg_among g (sc_tips work) (else_own found) of
               Inl e \<Rightarrow> Inl e
             | Inr ours \<Rightarrow>
                 let rd = rd\<lparr>rd_commits := length ours\<rparr>
                 in if ours = [] then nothing_left rd
                    else (case hg_among g (sc_tips work) (else_tips found) of
                       Inl e \<Rightarrow> Inl e
                     | Inr unproved \<Rightarrow>
                         let w = witness_of remotes found;
                             (copies, rows) = local_copies h (in_home inp) (in_checkout inp) (in_siblings inp)
                                unproved (rd_stores rd)
                         in Inr (List.map_filter id [commit_group (RemoteProved w) (difference ours unproved)]
                              @ held_groups (fo_held copies)
                              @ List.map_filter id
                                  [commit_group (unchecked_copies w (fo_unread copies)) (fo_unchecked copies),
                                   commit_group (unreached w) (fo_only copies)],
                              remotes, rd\<lparr>rd_stores := rows\<rparr>)))))"

subsection \<open>The whole assessment\<close>

record attribution =
  at_own :: own
  at_moves :: bool

record assessment =
  as_home :: path
  as_moves :: bool
  as_remotes :: "string list"
  as_commits :: "commit_group list"
  as_paths :: "path_group list"
  as_runtime :: "runtime option"
  as_reasons :: "reason list"
  as_reading :: reading

definition assessment_loss_set :: "assessment \<Rightarrow> loss_set" where
  "assessment_loss_set a = \<lparr>ls_home = as_home a, ls_paths = as_paths a, ls_commits = as_commits a\<rparr>"

definition assessment_evidence :: "assessment \<Rightarrow> path list \<Rightarrow> timestamp \<Rightarrow> evidence" where
  "assessment_evidence a homes at =
     \<lparr>ev_runtime = (if as_moves a then as_runtime a else None), ev_set = homes, ev_at = at\<rparr>"

definition assessment_verdict :: "(path \<Rightarrow> path option) \<Rightarrow> assessment \<Rightarrow> path list \<Rightarrow> timestamp \<Rightarrow> verdict" where
  "assessment_verdict canonical a homes at =
     judge canonical (assessment_loss_set a) (assessment_evidence a homes at)"

definition ranked :: "(path \<Rightarrow> path option) \<Rightarrow> timestamp \<Rightarrow> assessment \<Rightarrow> assessment" where
  "ranked canonical at a = a\<lparr>as_reasons := reasons (assessment_verdict canonical a [] at)\<rparr>"

definition path_finding ::
    "assessment \<Rightarrow> held list \<Rightarrow> (nat \<Rightarrow> string list \<Rightarrow> finding) \<Rightarrow> finding option" where
  "path_finding a kinds build =
     (let gs = filter (\<lambda>g. pg_held g \<in> set kinds) (as_paths a);
          count = sum_list (map pg_count gs)
      in if count = 0 then None else Some (build count (take SAMPLE (concat (map pg_sample gs)))))"

definition unpushed :: "assessment \<Rightarrow> finding option" where
  "unpushed a =
     (let kept = filter (\<lambda>g. \<not> copies_survives (cg_copies g)) (as_commits a);
          count = sum_list (map cg_count kept)
      in if count = 0 then None
         else Some (FUnpushed count (take SAMPLE (concat (map cg_sample kept))) (as_remotes a)
           (case kept of
              [] \<Rightarrow> witness_default
            | g # _ \<Rightarrow> (case cg_copies g of OnlyHere w \<Rightarrow> w | NotChecked w _ \<Rightarrow> w | _ \<Rightarrow> witness_default))))"

definition findings :: "assessment \<Rightarrow> finding list" where
  "findings a = List.map_filter id
     [path_finding a [Uncommitted] FUncommitted, path_finding a [Untracked, UntrackedDeclared] FUntracked, unpushed a]"

definition TABLE :: string where "TABLE = ''the process table''"

definition unread_why :: "runtime \<Rightarrow> string" where
  "unread_why r =
     (case List.find (note_unread FromEnvironment) (rt_notes r) of
        Some n \<Rightarrow> note_why n | None \<Rightarrow> ''it could not be read'')"

definition not_asked :: "input \<Rightarrow> reading \<Rightarrow> reading" where
  "not_asked inp rd = rd\<lparr>rd_not_checked := rd_not_checked rd
     @ (if in_state inp then [] else [\<lparr>uc_what = ''ignored state'',
          uc_why = ''not asked for: it is what the trash keeps, and no verdict turns on it''\<rparr>])
     @ (if in_dispositions inp then [] else [\<lparr>uc_what = ''where else each commit lives'',
          uc_why = ''not asked for: a refusal rests on what nothing proved a copy of, which one reading answers''\<rparr>])\<rparr>"

definition record_table :: "string \<Rightarrow> reading \<Rightarrow> runtime option \<Rightarrow> reading \<times> runtime option" where
  "record_table at rd rt =
     (let rd = rd\<lparr>rd_not_checked := filter (\<lambda>gap. uc_what gap \<noteq> TABLE) (rd_not_checked rd)\<rparr>
      in case rt of
           None \<Rightarrow> (rd\<lparr>rd_not_checked := rd_not_checked rd @ [\<lparr>uc_what = TABLE,
             uc_why = ''not asked for: this reading is about the work in the home, not about what is running''\<rparr>]\<rparr>, None)
         | Some r \<Rightarrow>
             let r = rt_taken at r
             in (if rt_unread r
                 then rd\<lparr>rd_not_checked := rd_not_checked rd @ [\<lparr>uc_what = TABLE, uc_why = unread_why r\<rparr>]\<rparr>
                 else rd, Some r))"

definition PREFLIGHT :: string where "PREFLIGHT = ''the preflight''"

text \<open>
  \<open>status\<close>, \<open>candidates\<close> and \<open>running\<close> are the answers of \<open>git status\<close>, of \<open>prune::survey\<close> and of
  the process table; the clock at the reading is \<open>now\<close>.
\<close>

definition assess ::
    "store_reads \<Rightarrow> home_git \<Rightarrow> error + summary \<Rightarrow> candidate list \<Rightarrow> (own \<Rightarrow> runtime)
       \<Rightarrow> (git_ref list \<Rightarrow> elsewhere) \<Rightarrow> timestamp \<Rightarrow> input \<Rightarrow> attribution option \<Rightarrow> error + assessment" where
  "assess h g status candidates running elsewhere_of now inp attributed =
     (case status of Inl e \<Rightarrow> Inl e | Inr st \<Rightarrow>
      (case history h g inp elsewhere_of no_reading of Inl e \<Rightarrow> Inl e | Inr (commits, remotes, rd) \<Rightarrow>
       let ps = working st (in_fate inp) (in_declared inp)
              @ (if in_state inp then ignored candidates (in_fate inp) else []);
           rt = map_option (\<lambda>at. (running (at_own at))\<lparr>rt_groups := own_groups (at_own at)\<rparr>) attributed;
           a = ranked (sr_canonical h) now
             \<lparr>as_home = in_home inp, as_moves = (case attributed of Some at \<Rightarrow> at_moves at | None \<Rightarrow> False),
              as_remotes = remotes, as_commits = commits, as_paths = ps, as_runtime = rt, as_reasons = [],
              as_reading = not_asked inp rd\<rparr>;
           (rd, rt) = record_table PREFLIGHT (as_reading a) (as_runtime a)
       in Inr (a\<lparr>as_reading := rd, as_runtime := rt\<rparr>)))"

subsection \<open>The working tree, counted\<close>

lemma map_filter_id_Cons [simp]:
  "List.map_filter id (x # xs) = (case x of None \<Rightarrow> List.map_filter id xs | Some y \<Rightarrow> y # List.map_filter id xs)"
  by (simp add: map_filter_simps split: option.split)

lemma map_filter_id_Nil [simp]: "List.map_filter f [] = []"
  by (simp add: map_filter_simps)

lemma group_count [simp]: "(case group h f ps of None \<Rightarrow> 0 | Some g \<Rightarrow> pg_count g) = length ps"
  by (simp add: group_def)

lemma groups_sum:
  "sum_list (map pg_count (List.map_filter id gs)) =
     sum_list (map (\<lambda>g. case g of None \<Rightarrow> 0 | Some g \<Rightarrow> pg_count g) gs)"
  by (induction gs) (auto split: option.split)

definition work_entry :: "entry \<Rightarrow> bool" where
  "work_entry e \<longleftrightarrow> (is_change (en_state e) \<or> en_state e = StUntracked) \<and> \<not> is_nodals_own e"

lemma length_paths_where:
  "length (paths_where s (\<lambda>e. is_change (en_state e))) + length (paths_where s (\<lambda>e. en_state e = StUntracked))
     = length (filter work_entry (su_entries s))"
proof -
  have "length (filter (\<lambda>e. is_change (en_state e) \<and> \<not> is_nodals_own e) es)
      + length (filter (\<lambda>e. en_state e = StUntracked \<and> \<not> is_nodals_own e) es)
    = length (filter work_entry es)" for es
    by (induction es) (auto simp: work_entry_def)
  then show ?thesis by (simp add: paths_where_def)
qed

lemma working_groups:
  shows "sum_list (map pg_count (working s f declared)) = length (filter work_entry (su_entries s))"
  and "g \<in> set (working s f declared) \<Longrightarrow> held_refuses (pg_held g) \<and> 0 < pg_count g
        \<and> length (pg_sample g) = min (pg_count g) SAMPLE"
  and "working s f declared = [] \<longleftrightarrow> \<not> list_ex work_entry (su_entries s)"
proof -
  let ?t = "paths_where s (\<lambda>e. is_change (en_state e))" and ?u = "paths_where s (\<lambda>e. en_state e = StUntracked)"
  let ?n = "filter (\<lambda>p. regenerable p declared) ?u" and ?m = "filter (\<lambda>p. \<not> regenerable p declared) ?u"
  have w: "working s f declared = List.map_filter id
      [group Uncommitted f ?t, group Untracked f ?m, group UntrackedDeclared f ?n]"
    by (simp add: working_def Let_def comp_def)
  have "length ?n + length ?m = length ?u" by (rule sum_length_filter_compl)
  then show s: "sum_list (map pg_count (working s f declared)) = length (filter work_entry (su_entries s))"
    using length_paths_where [of s] unfolding w groups_sum by simp
  have g: "\<forall>g \<in> set (working s f declared). held_refuses (pg_held g) \<and> 0 < pg_count g
        \<and> length (pg_sample g) = min (pg_count g) SAMPLE"
    unfolding w by (auto simp: group_def)
  then show "g \<in> set (working s f declared) \<Longrightarrow> held_refuses (pg_held g) \<and> 0 < pg_count g
        \<and> length (pg_sample g) = min (pg_count g) SAMPLE" by blast
  have "working s f declared = [] \<longleftrightarrow> sum_list (map pg_count (working s f declared)) = 0"
    using g by (cases "working s f declared") auto
  with s g show "working s f declared = [] \<longleftrightarrow> \<not> list_ex work_entry (su_entries s)"
    by (simp add: filter_empty_conv list_ex_iff)
qed

text \<open>
  No work in the tree is dropped and none is invented. The groups the kernel judges count
  every changed, unmerged and untracked path of the status but Nodal's own files, each once;
  each group refuses and is not empty; and what the project declares regenerable moves a path
  between two groups and never out of them.
\<close>

theorem working_counts_every_path:
  "sum_list (map pg_count (working s f declared)) = length (filter work_entry (su_entries s))
   \<and> (\<forall>g \<in> set (working s f declared). held_refuses (pg_held g) \<and> 0 < pg_count g
        \<and> length (pg_sample g) = min (pg_count g) SAMPLE)
   \<and> (working s f declared = [] \<longleftrightarrow> \<not> list_ex work_entry (su_entries s))"
  using working_groups [where s = s and f = f and declared = declared] by blast

text \<open>
  A name that begins with a space is not read. The reader trims a path record, so an
  untracked file called \<open>" .envrc"\<close>, which is not one of Nodal's own files, is read as the
  \<open>.envrc\<close> that is, and a home whose only work is that file holds nothing to lose.
\<close>

theorem space_named_work_is_unseen:
  "\<not> is_own '' .envrc''
   \<and> (\<exists>s. parse_status args (head_print commit (HeadBranch ''main'')
         @ entry_print pr \<lparr>en_path = '' .envrc'', en_origin = None, en_state = StUntracked, en_submodule = NoSubmodule\<rparr>)
        = Inr s
      \<and> (commit \<noteq> ''(initial)'' \<longrightarrow> su_head s = HeadBranch ''main'')
      \<and> safe (judge canonical (loss_set_of home s f) (of_work at)))"
proof -
  have o1: "\<not> is_own '' .envrc''" and o2: "is_own ''.envrc''"
    by (simp_all add: is_own_def OWN_FILES_def comps_def)
  let ?e = "\<lparr>en_path = ''.envrc'', en_origin = None, en_state = StUntracked, en_submodule = NoSubmodule\<rparr>"
  let ?hd = "if commit = ''(initial)'' then HeadUnborn ''main'' else HeadBranch ''main''"
  let ?s = "\<lparr>su_head = ?hd, su_upstream = None, su_ahead = 0, su_behind = 0, su_entries = [?e]\<rparr>"
  have a: "absorb (CHR ''#'' # '' branch.oid '' @ commit) h' = Inr (h'\<lparr>hd_oid := Some commit\<rparr>)"
    and b: "absorb ''# branch.head main'' h' = Inr (h'\<lparr>hd_branch := Some ''main''\<rparr>)" for h'
    using absorb_headers(1) [of commit h'] absorb_headers(2) [of "''main''" h'] by simp_all
  have "parse_status args (head_print commit (HeadBranch ''main'')
         @ entry_print pr \<lparr>en_path = '' .envrc'', en_origin = None, en_state = StUntracked, en_submodule = NoSubmodule\<rparr>)
        = Inr ?s"
    using a b by (simp add: parse_status_def headers_head_def no_headers_def plain_def trim_start_def is_space_def)
  moreover have "working ?s f [] = []"
    using working_groups(3) [of ?s f "[]"] o2 by (simp add: work_entry_def is_nodals_own_def)
  ultimately show ?thesis
    using o1 by (intro conjI exI [of _ ?s]) (simp_all add: safe_clear occupied_iff of_work_def loss_set_of_def)
qed


subsection \<open>Where each commit lives\<close>

definition search_inv :: "store_reads \<Rightarrow> path \<Rightarrow> (path \<times> role) set \<Rightarrow> oid list \<Rightarrow> search \<Rightarrow> bool" where
  "search_inv h home places unproved se \<longleftrightarrow>
     mset unproved = mset (concat (map snd (se_held se))) + mset (se_left se)
     \<and> (\<forall>(store, os) \<in> set (se_held se).
          store \<in> fst ` places \<and> resolve_path (sr_canonical h) store \<noteq> resolve_path (sr_canonical h) home
          \<and> (\<exists>left r. holds_of h store left = Some r \<and> whole h store home (rc_reached r)
               \<and> set os \<subseteq> set (rc_reached r)))"

lemma mset_split: "mset xs = mset (filter P xs) + mset (filter (\<lambda>x. \<not> P x) xs)"
  by (simp add: mset_filter)

lemma search_one_inv:
  assumes inv: "search_inv h home places unproved se" and st: "(store, r) \<in> places"
  shows "search_inv h home places unproved (search_one h home (store, r) se)"
proof -
  have d: "search_inv h home places unproved (doubted store lacks has r se)" for lacks has
    using inv by (simp add: search_inv_def doubted_def)
  have row: "search_inv h home places unproved (se\<lparr>se_rows := rows\<rparr>)" for rows
    using inv by (simp add: search_inv_def)
  have hit: "search_inv h home places unproved (se\<lparr>se_rows := rows,
        se_held := se_held se @ [(store, filter (\<lambda>o1. o1 \<in> set (rc_reached re)) (se_left se))],
        se_left := filter (\<lambda>o1. o1 \<notin> set (rc_reached re)) (se_left se)\<rparr>)"
    if "resolve_path (sr_canonical h) store \<noteq> resolve_path (sr_canonical h) home" and "admits h store home = None"
      and "holds_of h store (se_left se) = Some re" and "incomplete_of h store home (rc_reached re) = None"
    for rows re
  proof -
    have "whole h store home (rc_reached re)" using that by (simp add: whole_def)
    moreover have "mset (se_left se) = mset (filter (\<lambda>o1. o1 \<in> set (rc_reached re)) (se_left se))
        + mset (filter (\<lambda>o1. o1 \<notin> set (rc_reached re)) (se_left se))" by (rule mset_split)
    moreover have "store \<in> fst ` places" using st by force
    ultimately show ?thesis using inv that by (auto simp: search_inv_def)
  qed
  show ?thesis
    using d row hit by (auto simp: search_one_def Let_def split: option.split)
qed

lemma search_fold_inv:
  assumes "search_inv h home places unproved se" and "set sts \<subseteq> places"
  shows "search_inv h home places unproved (fold (search_one h home) sts se)"
  using assms
proof (induction sts arbitrary: se)
  case (Cons st sts)
  obtain store r where st: "st = (store, r)" by (cases st)
  with Cons.prems have "search_inv h home places unproved (search_one h home st se)"
    using search_one_inv [of h home places unproved se store r] by simp
  with Cons show ?case by simp
qed simp

lemma local_copies_split:
  "case local_copies h home checkout siblings unproved rows of (f, _) \<Rightarrow>
     mset unproved = mset (concat (map snd (fo_held f))) + mset (fo_unchecked f) + mset (fo_only f)
     \<and> (\<forall>(store, os) \<in> set (fo_held f).
          store \<in> fst ` set (stores checkout siblings)
          \<and> resolve_path (sr_canonical h) store \<noteq> resolve_path (sr_canonical h) home
          \<and> (\<exists>left r. holds_of h store left = Some r \<and> whole h store home (rc_reached r)
               \<and> set os \<subseteq> set (rc_reached r)))"
proof -
  let ?se = "fold (search_one h home) (stores checkout siblings)
      \<lparr>se_left = unproved, se_held = [], se_doubtful = [], se_rows = rows\<rparr>"
  obtain f rows' where f: "local_copies h home checkout siblings unproved rows = (f, rows')"
    by (cases "local_copies h home checkout siblings unproved rows")
  have "search_inv h home (set (stores checkout siblings)) unproved ?se"
    by (rule search_fold_inv) (simp_all add: search_inv_def)
  moreover have "mset (se_left ?se) = mset (fo_unchecked f) + mset (fo_only f)"
    using f by (auto simp: local_copies_def Let_def)
  moreover have "fo_held f = se_held ?se" using f by (auto simp: local_copies_def Let_def)
  ultimately show ?thesis using f by (simp add: search_inv_def add.assoc)
qed

text \<open>
  C8. Every commit nothing proves is accounted for once. The search over the other stores
  splits the commits into those a store holds, those a doubted store has, and those only this
  home has; a store credited with a commit is one of the stores asked, is not the home under
  any name, reaches the commit from a ref of its own, and holds every object behind it.
\<close>

theorem local_copies_account:
  "case local_copies h home checkout siblings unproved rows of (f, _) \<Rightarrow>
     mset unproved = mset (concat (map snd (fo_held f))) + mset (fo_unchecked f) + mset (fo_only f)
     \<and> (\<forall>(store, os) \<in> set (fo_held f).
          store \<in> fst ` set (stores checkout siblings)
          \<and> resolve_path (sr_canonical h) store \<noteq> resolve_path (sr_canonical h) home
          \<and> (\<exists>left r. holds_of h store left = Some r \<and> whole h store home (rc_reached r)
               \<and> set os \<subseteq> set (rc_reached r)))"
  by (rule local_copies_split)

lemma search_nothing:
  "se_left se = [] \<Longrightarrow>
     se_left (fold (search_one h home) sts se) = [] \<and> se_held (fold (search_one h home) sts se) = se_held se"
  by (induction sts arbitrary: se) (simp_all add: search_one_def split: prod.split)

lemma local_copies_nothing:
  "fo_held (fst (local_copies h home checkout siblings [] rows)) = []
   \<and> fo_unchecked (fst (local_copies h home checkout siblings [] rows)) = []
   \<and> fo_only (fst (local_copies h home checkout siblings [] rows)) = []"
  using search_nothing [of "\<lparr>se_left = [], se_held = [], se_doubtful = [], se_rows = rows\<rparr>" h home
      "stores checkout siblings"]
  by (simp add: local_copies_def Let_def)

text \<open>The rows the search writes down change nothing it finds.\<close>

definition same_found :: "search \<Rightarrow> search \<Rightarrow> bool" where
  "same_found a b \<longleftrightarrow> se_left a = se_left b \<and> se_held a = se_held b \<and> se_doubtful a = se_doubtful b"

lemma search_rows: "same_found a b \<Longrightarrow> same_found (search_one h home st a) (search_one h home st b)"
  by (auto simp: same_found_def search_one_def doubted_def split: prod.split option.split)

lemma local_copies_rows:
  "fst (local_copies h home checkout siblings unproved rows) = fst (local_copies h home checkout siblings unproved rows')"
proof -
  have "same_found (fold (search_one h home) sts a) (fold (search_one h home) sts b)"
    if "same_found a b" for sts a b
    using that by (induction sts arbitrary: a b) (simp_all add: search_rows)
  from this [of "\<lparr>se_left = unproved, se_held = [], se_doubtful = [], se_rows = rows\<rparr>"
      "\<lparr>se_left = unproved, se_held = [], se_doubtful = [], se_rows = rows'\<rparr>" "stores checkout siblings"]
  show ?thesis by (simp add: local_copies_def same_found_def Let_def)
qed

subsection \<open>What the disposition reading adds\<close>

lemma oid_union_set: "set (oid_union a b) = set a \<union> set b"
  by (simp add: oid_union_def)

lemma proved_adds_nothing:
  assumes "\<forall>g \<in> set extra. \<exists>w. cg_copies g = RemoteProved w"
  shows "reasons (judge canonical (ls\<lparr>ls_commits := extra @ gs\<rparr>) ev) = reasons (judge canonical (ls\<lparr>ls_commits := gs\<rparr>) ev)"
proof -
  have f: "filter (\<lambda>g. copies_needs (cg_copies g) = Some n) extra = []" for n
    using assms by (auto simp: filter_empty_conv)
  have j: "List.map_filter (joint_one canonical homes) extra = []" for homes
    using assms by (force simp: map_filter_def joint_one_def filter_empty_conv)
  have "List.map_filter P (xs @ ys) = List.map_filter P xs @ List.map_filter P ys"
    for P :: "commit_group \<Rightarrow> loss option" and xs ys
    by (simp add: map_filter_def)
  then show ?thesis
    by (simp add: judge_eq reasons_def all_losses_def all_unread_def commit_losses_def commit_unread_def
        joint_def f j)
qed

lemma difference_group:
  "g \<in> set (List.map_filter id [commit_group (RemoteProved w) os]) \<Longrightarrow> cg_copies g = RemoteProved w"
  by (auto simp: commit_group_def split: if_splits)

text \<open>
  C9. Asking where each commit lives decides nothing. The refusal's reading and the report's
  reading of one home, which asks one more question of Git, give the kernel the same reasons
  in the same order, whatever it is judged with. The one law of Git used is that a walk that
  excludes more finds no more.
\<close>

theorem dispositions_decide_nothing:
  assumes law: "\<And>tips kept kept' a b. set kept \<subseteq> set kept' \<Longrightarrow> hg_among g tips kept = Inr a
      \<Longrightarrow> hg_among g tips kept' = Inr b \<Longrightarrow> set b \<subseteq> set a"
    and with_them: "history h g (inp\<lparr>in_dispositions := True\<rparr>) ew rd = Inr (gs1, remotes1, rd1)"
    and without: "history h g (inp\<lparr>in_dispositions := False\<rparr>) ew rd = Inr (gs2, remotes2, rd2)"
  shows "reasons (judge canonical (ls\<lparr>ls_commits := gs1\<rparr>) ev) = reasons (judge canonical (ls\<lparr>ls_commits := gs2\<rparr>) ev)"
proof -
  obtain remotes refs where r: "hg_remotes g = Inr remotes" "hg_refs g = Inr refs"
    using with_them by (auto simp: history_def split: sum.splits)
  define w where "w = witness_of remotes (ew refs)"
  define tips where "tips = sc_tips (work_resolve (in_work inp) g refs)"
  define split where "split = (\<lambda>unproved. fst (local_copies h (in_home inp) (in_checkout inp) (in_siblings inp) unproved []))"
  define tail where "tail = (\<lambda>f :: found. held_groups (fo_held f)
     @ List.map_filter id [commit_group (unchecked_copies w (fo_unread f)) (fo_unchecked f),
                           commit_group (unreached w) (fo_only f)])"
  have rows: "fst (local_copies h (in_home inp) (in_checkout inp) (in_siblings inp) u rows) = split u" for u rows
    unfolding split_def by (rule local_copies_rows)
  have empty: "tail (split []) = []"
    using local_copies_nothing [of h "in_home inp" "in_checkout inp" "in_siblings inp" "[]"]
    by (simp add: tail_def split_def held_groups_def commit_group_def)
  obtain unproved where u: "hg_among g tips (else_tips (ew refs)) = Inr unproved"
    and g2: "gs2 = (if unproved = [] then [] else tail (split unproved))"
    using without r rows
    by (auto simp: history_def refusing_def Let_def tips_def w_def tail_def split: sum.splits if_splits prod.splits)
      (metis fst_conv)+
  obtain ours where o1: "hg_among g tips (else_own (ew refs)) = Inr ours"
    and g1: "gs1 = (if ours = [] then []
       else List.map_filter id [commit_group (RemoteProved w) (difference ours unproved)] @ tail (split unproved))"
    using with_them r rows u
    by (auto simp: history_def Let_def tips_def w_def tail_def split: sum.splits if_splits prod.splits)
      (metis fst_conv)+
  have "set unproved \<subseteq> set ours"
    by (rule law [OF _ o1 u]) (simp add: else_tips_def oid_union_set)
  then have g2': "gs2 = (if ours = [] then [] else tail (split unproved))"
    using g2 empty by auto
  show ?thesis
    unfolding g1 g2' using difference_group by (auto intro!: proved_adds_nothing)
qed

subsection \<open>The findings are the refusal\<close>

lemma sum_list_0_iff: "sum_list (map f xs) = (0::nat) \<longleftrightarrow> (\<forall>x \<in> set xs. f x = 0)"
  by (induction xs) auto

lemma path_finding_None:
  "path_finding a kinds b = None \<longleftrightarrow> (\<forall>g \<in> set (as_paths a). pg_held g \<in> set kinds \<longrightarrow> pg_count g = 0)"
  by (auto simp: path_finding_def Let_def sum_list_0_iff)

lemma unpushed_None:
  "unpushed a = None \<longleftrightarrow> (\<forall>g \<in> set (as_commits a). copies_survives (cg_copies g) \<or> cg_count g = 0)"
  by (auto simp: unpushed_def Let_def sum_list_0_iff)

lemma findings_Nil:
  "findings a = [] \<longleftrightarrow> path_finding a [Uncommitted] FUncommitted = None
     \<and> path_finding a [Untracked, UntrackedDeclared] FUntracked = None \<and> unpushed a = None"
  by (auto simp: findings_def split: option.split)

lemma held_refuses_iff: "held_refuses k \<longleftrightarrow> k \<in> {Uncommitted, Untracked, UntrackedDeclared}"
  by (cases k) simp_all

definition counted_groups :: "assessment \<Rightarrow> bool" where
  "counted_groups a \<longleftrightarrow> (\<forall>g \<in> set (as_paths a). 0 < pg_count g) \<and> (\<forall>g \<in> set (as_commits a). 0 < cg_count g)"

lemma safe_of_work_iff:
  "safe (judge canonical ls (of_work at)) \<longleftrightarrow>
     (\<forall>g \<in> set (ls_paths ls). \<not> held_refuses (pg_held g)) \<and> (\<forall>g \<in> set (ls_commits ls). copies_survives (cg_copies g))"
proof -
  have "group_clear canonical (ev_set (of_work at)) c = copies_survives c" for c
    by (cases c) (simp_all add: copies_survives_def of_work_def group_clear_def)
  then show ?thesis unfolding safe_clear occupied_iff by (simp add: of_work_def)
qed

lemma findings_safe:
  assumes "counted_groups a"
  shows "findings a = [] \<longleftrightarrow> safe (judge canonical (assessment_loss_set a) (of_work at))"
proof -
  have p: "path_finding a kinds b = None \<longleftrightarrow> (\<forall>g \<in> set (as_paths a). pg_held g \<notin> set kinds)" for kinds b
    using assms unfolding path_finding_None counted_groups_def by (metis less_irrefl)
  have u: "unpushed a = None \<longleftrightarrow> (\<forall>g \<in> set (as_commits a). copies_survives (cg_copies g))"
    using assms unfolding unpushed_None counted_groups_def by (metis less_irrefl)
  show ?thesis
    unfolding findings_Nil p u safe_of_work_iff by (auto simp: assessment_loss_set_def held_refuses_iff)
qed

lemma commit_group_pos: "g \<in> set (List.map_filter id [commit_group c os]) \<Longrightarrow> 0 < cg_count g"
  by (auto simp: commit_group_def split: if_splits)

lemma commit_groups_pos:
  "g \<in> set (held_groups hs @ List.map_filter id [commit_group c os, commit_group c' os']) \<Longrightarrow> 0 < cg_count g"
  by (auto simp: held_groups_def map_filter_def commit_group_def split: if_splits)

lemma history_pos:
  assumes "history h g inp ew rd = Inr (gs, remotes, rd')" and "x \<in> set gs"
  shows "0 < cg_count x"
  using assms commit_groups_pos commit_group_pos
  by (fastforce simp: history_def refusing_def Let_def split: sum.splits if_splits prod.splits)

lemma ignored_pos: "g \<in> set (ignored cs f) \<Longrightarrow> 0 < pg_count g"
  by (auto simp: ignored_def measured_def split: if_splits)

text \<open>
  C10. The findings and the verdict are one refusal. Every assessment this code makes has no
  finding exactly when the kernel calls its work safe, so the report that lists the findings
  and the surface that asks the kernel never disagree; and the reasons it carries are the
  kernel's own, ranked.
\<close>

theorem findings_are_the_refusal:
  assumes "assess h g status candidates running ew now inp attributed = Inr a"
  shows "(findings a = [] \<longleftrightarrow> safe (judge canonical (assessment_loss_set a) (of_work at)))
    \<and> sorted (map rs_needs (as_reasons a))
    \<and> (attributed = None \<longrightarrow> (as_reasons a = [] \<longleftrightarrow> findings a = []))"
proof -
  from assms obtain st commits remotes rd where st: "status = Inr st"
    and hi: "history h g inp ew no_reading = Inr (commits, remotes, rd)"
    by (auto simp: assess_def split: sum.splits prod.splits)
  have p: "as_paths a = working st (in_fate inp) (in_declared inp)
        @ (if in_state inp then ignored candidates (in_fate inp) else [])"
    and c: "as_commits a = commits"
    and m: "attributed = None \<longrightarrow> \<not> as_moves a"
    and rs: "as_reasons a = reasons (judge (sr_canonical h) (assessment_loss_set a)
        \<lparr>ev_runtime = (if as_moves a
           then map_option (\<lambda>at. (running (at_own at))\<lparr>rt_groups := own_groups (at_own at)\<rparr>) attributed else None),
         ev_set = [], ev_at = now\<rparr>)"
    using assms st hi
    by (auto simp: assess_def ranked_def assessment_verdict_def assessment_loss_set_def assessment_evidence_def
        Let_def split: prod.splits)
  have "0 < pg_count g" if "g \<in> set (as_paths a)" for g
    using that working_groups(2) [of g st "in_fate inp" "in_declared inp"] ignored_pos [of g]
    by (auto simp: p split: if_splits)
  then have "counted_groups a" using history_pos [OF hi] by (simp add: counted_groups_def c)
  note fs = findings_safe [OF this]
  have "as_reasons a = [] \<longleftrightarrow> findings a = []" if "attributed = None"
    using that m rs fs [of "sr_canonical h" now] by (simp add: reasons_Nil_iff of_work_def)
  then show ?thesis using fs rs by (simp add: reasons_def)
qed

subsection \<open>The properties at one home\<close>

text \<open>
  A home with two commits, and beside it a checkout that keeps one of them under a branch of
  its own and lacks nothing.
\<close>

definition ex_reads :: store_reads where
  "ex_reads = \<lparr>sr_canonical = Some, sr_common_dir = (\<lambda>p. Some (p @ [''.git''])), sr_exists = (\<lambda>_. False),
     sr_partial = (\<lambda>_. Inr False), sr_boundary = (\<lambda>_ _. Inr []), sr_missing = (\<lambda>_ _ _. Inr 0),
     sr_stores = (\<lambda>_ wanted. Inr (filter (\<lambda>o1. o1 = ''a'') wanted)), sr_not_reached = (\<lambda>_ _. Inr []),
     sr_opens = (\<lambda>_. True)\<rparr>"

definition ex_git :: home_git where
  "ex_git = \<lparr>hg_remotes = Inr [''origin''], hg_refs = Inr [\<lparr>ref_name = ''refs/heads/main'', ref_oid = ''a''\<rparr>],
     hg_among = (\<lambda>tips kept. Inr (filter (\<lambda>o1. o1 \<notin> set kept) [''a'', ''b''])), hg_head_text = None,
     hg_head = Inr ''a''\<rparr>"

definition ex_input :: input where
  "ex_input = \<lparr>in_home = [''h''], in_checkout = Some [''r''], in_siblings = [], in_work = None, in_fate = Trashed,
     in_state = False, in_declared = [], in_dispositions = False\<rparr>"

definition ex_elsewhere :: elsewhere where
  "ex_elsewhere = \<lparr>else_own = [], else_copies = [], else_remote = [], else_witnesses = [],
     else_unobserved = [], else_direct = False\<rparr>"

theorem working_counts_every_path_witness:
  "sum_list (map pg_count (working ex_summary Trashed [])) = 2 \<and> working ex_summary Trashed [] \<noteq> []"
  using working_counts_every_path [of ex_summary Trashed "[]"]
  by (simp add: ex_summary_def work_entry_def is_nodals_own_def is_own_def OWN_FILES_def comps_def)

theorem space_named_work_is_unseen_witness:
  "\<exists>s. su_head s = HeadBranch ''main'' \<and> safe (judge Some (loss_set_of [''h''] s Trashed) (of_work 0))"
  using space_named_work_is_unseen [where args = "[]" and commit = "''c0''" and canonical = Some
      and home = "[''h'']" and f = Trashed and at = 0]
  by auto

lemma ex_copies:
  "local_copies ex_reads [''h''] (Some [''r'']) [] [''a'', ''b''] [] =
     (\<lparr>fo_held = [([''r''], [''a''])], fo_unread = [], fo_unchecked = [], fo_only = [''b'']\<rparr>,
      [asked [''r''] Checkout AnsweredYes []])"
  by (simp add: local_copies_def stores_def search_one_def ex_reads_def resolve_path_def admits_def holds_of_def
      owned_def incomplete_of_def missing_def)

theorem local_copies_account_witness:
  "\<exists>left r. holds_of ex_reads [''r''] left = Some r \<and> whole ex_reads [''r''] [''h''] (rc_reached r)
     \<and> ''a'' \<in> set (rc_reached r)"
  using local_copies_account [where h = ex_reads and home = "[''h'']" and checkout = "Some [''r'']" and siblings = "[]"
      and unproved = "[''a'', ''b'']" and rows = "[]"]
  unfolding ex_copies by auto


lemma ex_history:
  "\<exists>gs remotes rd. history ex_reads ex_git (ex_input\<lparr>in_dispositions := d\<rparr>) (\<lambda>_. ex_elsewhere) no_reading
     = Inr (gs, remotes, rd)"
  by (cases d) (simp_all add: history_def ex_git_def ex_input_def else_tips_def ex_elsewhere_def oid_union_def
      refusing_def no_reading_def Let_def split: prod.split)

theorem dispositions_decide_nothing_witness:
  "\<exists>gs1 gs2 remotes1 remotes2 rd1 rd2.
     history ex_reads ex_git (ex_input\<lparr>in_dispositions := True\<rparr>) (\<lambda>_. ex_elsewhere) no_reading = Inr (gs1, remotes1, rd1)
     \<and> history ex_reads ex_git (ex_input\<lparr>in_dispositions := False\<rparr>) (\<lambda>_. ex_elsewhere) no_reading = Inr (gs2, remotes2, rd2)
     \<and> reasons (judge Some (ex_changed\<lparr>ls_commits := gs1\<rparr>) (of_work 0))
       = reasons (judge Some (ex_changed\<lparr>ls_commits := gs2\<rparr>) (of_work 0))"
proof -
  obtain gs1 remotes1 rd1 gs2 remotes2 rd2 where
    h: "history ex_reads ex_git (ex_input\<lparr>in_dispositions := True\<rparr>) (\<lambda>_. ex_elsewhere) no_reading = Inr (gs1, remotes1, rd1)"
       "history ex_reads ex_git (ex_input\<lparr>in_dispositions := False\<rparr>) (\<lambda>_. ex_elsewhere) no_reading = Inr (gs2, remotes2, rd2)"
    using ex_history [of True] ex_history [of False] by blast
  have law: "set b \<subseteq> set a" if "set kept \<subseteq> set kept'" "hg_among ex_git tips kept = Inr a"
    "hg_among ex_git tips kept' = Inr b" for tips kept kept' a b
    using that by (auto simp: ex_git_def split: if_splits)
  have "reasons (judge Some (ex_changed\<lparr>ls_commits := gs1\<rparr>) (of_work 0))
      = reasons (judge Some (ex_changed\<lparr>ls_commits := gs2\<rparr>) (of_work 0))"
    by (rule dispositions_decide_nothing [OF _ h]) (rule law)
  with h show ?thesis by blast
qed

theorem findings_are_the_refusal_witness:
  "\<exists>a. assess ex_reads ex_git (Inr ex_summary) [] (\<lambda>_. no_runtime) (\<lambda>_. ex_elsewhere) 0 ex_input None = Inr a
     \<and> (findings a = [] \<longleftrightarrow> safe (judge Some (assessment_loss_set a) (of_work 0)))"
proof -
  have "ex_input\<lparr>in_dispositions := False\<rparr> = ex_input" by (simp add: ex_input_def)
  then obtain gs remotes rd where
    "history ex_reads ex_git ex_input (\<lambda>_. ex_elsewhere) no_reading = Inr (gs, remotes, rd)"
    using ex_history [of False] by auto
  then have "\<exists>a. assess ex_reads ex_git (Inr ex_summary) [] (\<lambda>_. no_runtime) (\<lambda>_. ex_elsewhere) 0 ex_input None = Inr a"
    by (simp add: assess_def Let_def split: prod.split)
  then obtain a where a: "assess ex_reads ex_git (Inr ex_summary) [] (\<lambda>_. no_runtime) (\<lambda>_. ex_elsewhere) 0 ex_input None = Inr a"
    by blast
  show ?thesis using a findings_are_the_refusal [OF a, of Some 0] by blast
qed

end
