(* ===== verification/Reclaim.thy ===== *)
theory Reclaim
  imports Steps Assess
begin

text \<open>
  \<open>lifecycle/ops/reclaim.rs\<close>: the step that takes a home away. \<open>TrashHome\<close> asks who stands in
  the home and then moves the directory into the trash; its \<open>undo\<close> moves it back. The world is
  the machine: a file system as a list of paths with what is at each, where each path is
  mounted, the calls the platform refuses and why (a full disk, a read-only mount, a
  permission), and the process table a scan of this machine reads. A link among the directories
  on the way to a path is one that does not lead to a directory, and a path that is there can be
  asked about. What is refused is refused whenever it is asked.
\<close>

datatype node = Dir | File string | Link string

type_synonym tree = "(path \<times> node) list"

record machine =
  m_tree :: tree
  m_mount :: "path \<Rightarrow> nat"
  m_denied :: "path \<Rightarrow> path \<Rightarrow> string option"
  m_unmade :: "path \<Rightarrow> string option"
  m_table :: "error + running list"

subsection \<open>The file system calls\<close>

text \<open>\<open>rename(2)\<close>, with the refusals it documents. \<open>m_denied\<close> is what the platform adds to them.\<close>

definition moved :: "path \<Rightarrow> path \<Rightarrow> tree \<Rightarrow> tree" where
  "moved src dst t =
     map (\<lambda>(p, n). if prefix src p then (dst @ drop (length src) p, n) else (p, n))
       (filter (\<lambda>(p, n). \<not> prefix dst p) t)"

definition rename :: "path \<Rightarrow> path \<Rightarrow> machine \<Rightarrow> string option \<times> machine" where
  "rename src dst m =
     (case map_of (m_tree m) src of
        None \<Rightarrow> (Some ''No such file or directory'', m)
      | Some n \<Rightarrow>
          if src = dst then (None, m)
          else if m_mount m src \<noteq> m_mount m dst then (Some ''Invalid cross-device link'', m)
          else if prefix src dst then (Some ''Invalid argument'', m)
          else if dst = [] \<or> map_of (m_tree m) (butlast dst) \<noteq> Some Dir then (Some ''No such file or directory'', m)
          else if map_of (m_tree m) dst = Some Dir \<and> n \<noteq> Dir then (Some ''Is a directory'', m)
          else if map_of (m_tree m) dst \<notin> {None, Some Dir} \<and> n = Dir then (Some ''Not a directory'', m)
          else if map_of (m_tree m) dst = Some Dir \<and> list_ex (\<lambda>(p, _). strict_prefix dst p) (m_tree m)
          then (Some ''Directory not empty'', m)
          else case m_denied m src dst of
              Some why \<Rightarrow> (Some why, m)
            | None \<Rightarrow> (None, m\<lparr>m_tree := moved src dst (m_tree m)\<rparr>))"

text \<open>\<open>create_dir_all\<close>: each directory on the way down, and the error of the first that cannot be one.\<close>

fun make_dirs :: "path list \<Rightarrow> machine \<Rightarrow> string option \<times> machine" where
  "make_dirs [] m = (None, m)"
| "make_dirs (p # ps) m =
     (case map_of (m_tree m) p of
        Some n \<Rightarrow> if n = Dir then make_dirs ps m else (Some ''Not a directory'', m)
      | None \<Rightarrow>
          (case m_unmade m p of
             Some why \<Rightarrow> (Some why, m)
           | None \<Rightarrow> make_dirs ps (m\<lparr>m_tree := (p, Dir) # m_tree m\<rparr>)))"

definition ancestors :: "path \<Rightarrow> path list" where
  "ancestors p = map (\<lambda>k. take k p) [0..<length p]"

text \<open>\<open>move_tree\<close>, and what a process killed after \<open>k\<close> of the directories leaves of one.\<close>

definition move_tree :: "path \<Rightarrow> path \<Rightarrow> machine \<Rightarrow> error option \<times> machine" where
  "move_tree src dst m =
     (if map_of (m_tree m) src = None then (None, m)
      else case make_dirs (ancestors dst) m of
          (Some why, m) \<Rightarrow> (Some (Io (butlast dst) why), m)
        | (None, m) \<Rightarrow>
            (case rename src dst m of
               (Some why, m) \<Rightarrow> (Some (Io src why), m)
             | (None, m) \<Rightarrow> (None, m)))"

definition move_torn :: "nat \<Rightarrow> path \<Rightarrow> path \<Rightarrow> machine \<Rightarrow> machine" where
  "move_torn k src dst m =
     (if map_of (m_tree m) src = None then m
      else if k < length dst then snd (make_dirs (take k (ancestors dst)) m)
      else snd (move_tree src dst m))"

subsection \<open>Whether a step may act on the home\<close>

record occupancy =
  oc_slug :: string
  oc_own :: own
  oc_home :: path

text \<open>
  \<open>reads\<close> is the reading \<open>assess::processes_of\<close> makes of this machine's process table, for the
  processes a unit may call its own and the home it is asked about.
\<close>

type_synonym table_reading = "error + running list \<Rightarrow> own \<Rightarrow> path list \<Rightarrow> runtime"

definition refuse :: "table_reading \<Rightarrow> occupancy \<Rightarrow> machine \<Rightarrow> error + runtime" where
  "refuse reads oc m =
     (let seen = reads (m_table m) (oc_own oc) [oc_home oc]
      in case unmovable seen of
           None \<Rightarrow> Inr seen
         | Some (UnmovableStanding standing) \<Rightarrow> Inl (HomeInUse (oc_slug oc) (map st_pid standing))
         | Some (UnmovableUnread n) \<Rightarrow> Inl (ProcessTableUnread (oc_slug oc) (note_why n)))"

definition BEFORE_THE_MOVE :: string where "BEFORE_THE_MOVE = ''before the move''"

definition recorded :: "table_reading \<Rightarrow> bool \<Rightarrow> occupancy \<Rightarrow> machine \<Rightarrow> error + runtime option" where
  "recorded reads force oc m =
     (if force then Inr None
      else case refuse reads oc m of
             Inl e \<Rightarrow> Inl e
           | Inr seen \<Rightarrow> Inr (Some (rt_taken BEFORE_THE_MOVE seen)))"

text \<open>\<open>encode\<close> is \<open>serde_json::to_value\<close> of the reading.\<close>

definition trash_home ::
    "table_reading \<Rightarrow> (runtime option \<Rightarrow> json) \<Rightarrow> occupancy \<Rightarrow> path \<Rightarrow> bool \<Rightarrow> nat \<Rightarrow> machine step" where
  "trash_home reads encode oc dst force torn =
     \<lparr>step_key = ''home.trash'',
      step_apply = (\<lambda>m. case recorded reads force oc m of
          Inl e \<Rightarrow> (Inl e, m)
        | Inr rt \<Rightarrow>
            (case move_tree (oc_home oc) dst m of
               (Some e, m) \<Rightarrow> (Inl e, m)
             | (None, m) \<Rightarrow> (Inr (encode rt), m))),
      step_undo = move_tree dst (oc_home oc),
      step_torn = (\<lambda>m. case recorded reads force oc m of
          Inl e \<Rightarrow> m | Inr rt \<Rightarrow> move_torn torn (oc_home oc) dst m),
      undo_torn = move_torn torn dst (oc_home oc)\<rparr>"

subsection \<open>What the calls do to the tree\<close>

definition look :: "machine \<Rightarrow> path \<Rightarrow> node option" where
  "look m = map_of (m_tree m)"

text \<open>
  Which machines an observer of a reclaim cannot tell apart: the same processes and mounts,
  and the same tree but for directories made above the trash path where nothing was.
\<close>

definition beside :: "path \<Rightarrow> machine \<Rightarrow> machine \<Rightarrow> bool" where
  "beside dst v w \<longleftrightarrow> v\<lparr>m_tree := []\<rparr> = w\<lparr>m_tree := []\<rparr>
     \<and> (\<forall>p. look v p = look w p \<or> strict_prefix p dst \<and> look w p = None \<and> look v p = Some Dir \<and> m_unmade w p = None)"

text \<open>Two machines that differ in their trees only.\<close>

lemma rest_same:
  "v\<lparr>m_tree := []\<rparr> = w\<lparr>m_tree := []\<rparr> \<longleftrightarrow>
     m_mount v = m_mount w \<and> m_denied v = m_denied w \<and> m_unmade v = m_unmade w \<and> m_table v = m_table w"
  for v w :: machine
  by (cases v; cases w) auto

lemma beside_refl [simp]: "beside dst w w"
  by (simp add: beside_def)

lemma beside_trans: "beside dst u v \<Longrightarrow> beside dst v w \<Longrightarrow> beside dst u w"
  unfolding beside_def rest_same by (metis option.distinct(1))

lemma look_mkdir [simp]: "look (m\<lparr>m_tree := (p, Dir) # m_tree m\<rparr>) = (look m)(p \<mapsto> Dir)"
  by (auto simp: look_def)

lemma make_dirs_Cons:
  "make_dirs (p # ps) m =
     (case look m p of
        Some n \<Rightarrow> if n = Dir then make_dirs ps m else (Some ''Not a directory'', m)
      | None \<Rightarrow>
          (case m_unmade m p of
             Some why \<Rightarrow> (Some why, m)
           | None \<Rightarrow> make_dirs ps (m\<lparr>m_tree := (p, Dir) # m_tree m\<rparr>)))"
  by (simp add: look_def)

declare make_dirs.simps(2) [simp del]
declare make_dirs_Cons [simp]

lemma make_dirs_rest:
  "(snd (make_dirs ps m))\<lparr>m_tree := []\<rparr> = m\<lparr>m_tree := []\<rparr>"
  by (induction ps arbitrary: m) (simp_all split: option.split)

lemma make_dirs_look:
  "look (snd (make_dirs ps m)) p = look m p
     \<or> p \<in> set ps \<and> look m p = None \<and> look (snd (make_dirs ps m)) p = Some Dir \<and> m_unmade m p = None"
proof (induction ps arbitrary: m)
  case (Cons q ps)
  show ?case
    using Cons [of m] Cons [of "m\<lparr>m_tree := (q, Dir) # m_tree m\<rparr>"]
    by (auto split: option.split if_splits)
qed simp

lemma make_dirs_kept: "look m p \<noteq> None \<Longrightarrow> look (snd (make_dirs ps m)) p = look m p"
  using make_dirs_look [of ps m p] by auto

lemma make_dirs_done:
  "fst (make_dirs ps m) = None \<Longrightarrow> p \<in> set ps \<Longrightarrow> look (snd (make_dirs ps m)) p = Some Dir"
proof (induction ps arbitrary: m)
  case (Cons q ps)
  show ?case
  proof (cases "look m q")
    case None
    let ?m = "m\<lparr>m_tree := (q, Dir) # m_tree m\<rparr>"
    have "look (snd (make_dirs ps ?m)) q = Some Dir" using make_dirs_kept [of ?m q ps] by simp
    with Cons.IH [of ?m] Cons.prems None show ?thesis by (auto split: option.splits)
  next
    case (Some n)
    have "look (snd (make_dirs ps m)) q = look m q" using make_dirs_kept [of m q ps] Some by simp
    with Cons.IH [of m] Cons.prems Some show ?thesis by (auto split: if_splits)
  qed
qed simp

text \<open>Where a directory stands or can be made.\<close>

definition may_stand :: "machine \<Rightarrow> path \<Rightarrow> bool" where
  "may_stand m p \<longleftrightarrow> look m p = Some Dir \<or> look m p = None \<and> m_unmade m p = None"

lemma make_dirs_ok: "(\<And>p. p \<in> set ps \<Longrightarrow> may_stand m p) \<Longrightarrow> fst (make_dirs ps m) = None"
proof (induction ps arbitrary: m)
  case (Cons q ps)
  have "fst (make_dirs ps (m\<lparr>m_tree := (q, Dir) # m_tree m\<rparr>)) = None"
    by (rule Cons.IH) (use Cons.prems in \<open>auto simp: may_stand_def\<close>)
  moreover have "fst (make_dirs ps m) = None" by (rule Cons.IH) (use Cons.prems in auto)
  ultimately show ?case using Cons.prems [of q] by (auto simp: may_stand_def)
qed simp

lemma make_dirs_stood: "fst (make_dirs ps m) = None \<Longrightarrow> p \<in> set ps \<Longrightarrow> may_stand m p"
proof (induction ps arbitrary: m)
  case (Cons q ps)
  show ?case
  proof (cases "p = q \<or> look m q \<noteq> None")
    case True
    then show ?thesis using Cons by (auto simp: may_stand_def split: option.splits if_splits)
  next
    case False
    with Cons.prems have "fst (make_dirs ps (m\<lparr>m_tree := (q, Dir) # m_tree m\<rparr>)) = None" "p \<in> set ps"
      by (auto split: option.splits)
    from Cons.IH [OF this] False show ?thesis by (simp add: may_stand_def)
  qed
qed simp

lemma make_dirs_nothing: "(\<And>p. p \<in> set ps \<Longrightarrow> look m p = Some Dir) \<Longrightarrow> make_dirs ps m = (None, m)"
  by (induction ps) simp_all

lemma set_ancestors: "p \<in> set (ancestors q) \<longleftrightarrow> strict_prefix p q"
proof
  assume "strict_prefix p q"
  then have "p = take (length p) q" and "length p < length q"
    by (auto simp: strict_prefix_def prefix_def)
  then show "p \<in> set (ancestors q)" unfolding ancestors_def by (auto intro!: image_eqI [of _ _ "length p"])
qed (auto simp: ancestors_def take_is_prefix strict_prefix_def)

lemma look_moved:
  assumes "\<not> prefix src dst" and "\<not> prefix dst src"
  shows "map_of (moved src dst t) p =
    (if prefix dst p then map_of t (src @ drop (length dst) p)
     else if prefix src p then None else map_of t p)"
proof (induction t)
  case Nil
  then show ?case by (simp add: moved_def)
next
  case (Cons x t)
  obtain q n where x: "x = (q, n)" by (cases x)
  have apart: "\<not> (prefix src r \<and> prefix dst r)" for r
    using assms prefix_same_cases by blast
  have bk: "dst @ drop (length src) q = p \<longleftrightarrow> prefix dst p \<and> q = src @ drop (length dst) p" if "prefix src q"
    using that by (auto simp: prefix_def)
  have same: "src @ drop (length dst) p = r \<longrightarrow> prefix src r" for r by (auto simp: prefix_def)
  from Cons show ?case
    using apart [of q] apart [of p] bk same [of q] by (auto simp: moved_def x)
qed

subsection \<open>A home that can be reclaimed\<close>

definition tree_ok :: "machine \<Rightarrow> bool" where
  "tree_ok m \<longleftrightarrow> (\<forall>p q. look m p \<noteq> None \<longrightarrow> strict_prefix q p \<longrightarrow> look m q = Some Dir)"

text \<open>The machine the plan is built for: a home, or none, and nothing yet at the trash path.\<close>

definition reclaimable :: "path \<Rightarrow> path \<Rightarrow> machine \<Rightarrow> bool" where
  "reclaimable home dst m \<longleftrightarrow> tree_ok m \<and> look m home \<in> {None, Some Dir} \<and> look m dst = None
     \<and> \<not> prefix home dst \<and> \<not> prefix dst home"

text \<open>The machine with the home in the trash.\<close>

definition in_trash :: "path \<Rightarrow> path \<Rightarrow> machine \<Rightarrow> machine \<Rightarrow> bool" where
  "in_trash home dst w v \<longleftrightarrow> v\<lparr>m_tree := []\<rparr> = w\<lparr>m_tree := []\<rparr>
     \<and> (\<forall>p. look v p = (if strict_prefix p dst then Some Dir
           else if prefix dst p then look w (home @ drop (length dst) p)
           else if prefix home p then None else look w p))"

definition movable :: "path \<Rightarrow> path \<Rightarrow> machine \<Rightarrow> bool" where
  "movable home dst w \<longleftrightarrow> look w home = Some Dir \<and> m_mount w home = m_mount w dst \<and> m_denied w home dst = None
     \<and> (\<forall>p. strict_prefix p dst \<longrightarrow> may_stand w p)"

lemma in_trash_same: "in_trash home dst w u \<Longrightarrow> in_trash home dst w v \<Longrightarrow> beside dst u v"
  by (simp add: in_trash_def beside_def)

lemma in_trash_beside: "in_trash home dst w v \<Longrightarrow> beside dst u v \<Longrightarrow> in_trash home dst w u"
  unfolding in_trash_def beside_def by (metis option.distinct(1))

lemma beside_look: "beside dst v w \<Longrightarrow> \<not> strict_prefix p dst \<Longrightarrow> look v p = look w p"
  by (auto simp: beside_def)

lemma beside_kept: "beside dst v w \<Longrightarrow> look w p \<noteq> None \<Longrightarrow> look v p = look w p"
  unfolding beside_def by metis

lemma make_dirs_beside:
  assumes "beside dst v w" and "set ps \<subseteq> set (ancestors dst)"
  shows "beside dst (snd (make_dirs ps v)) w"
proof -
  have "beside dst (snd (make_dirs ps v)) v"
    using make_dirs_look [of ps v] assms(2) unfolding beside_def make_dirs_rest
    by (metis set_ancestors subsetD)
  with assms(1) show ?thesis by (blast intro: beside_trans)
qed

lemma beside_may_stand: "beside dst v w \<Longrightarrow> may_stand v p \<longleftrightarrow> may_stand w p"
  unfolding beside_def rest_same may_stand_def by (metis option.distinct(1))

lemma make_dirs_ancestors:
  assumes "beside dst v w"
  shows "fst (make_dirs (ancestors dst) v) = None \<longleftrightarrow> (\<forall>p. strict_prefix p dst \<longrightarrow> may_stand w p)"
  using make_dirs_ok [of "ancestors dst" v] make_dirs_stood [of "ancestors dst" v] beside_may_stand [OF assms]
  by (auto simp: set_ancestors)

lemma strict_butlast: "p \<noteq> [] \<Longrightarrow> strict_prefix (butlast p) p"
  by (metis append_butlast_last_id prefixI strict_prefix_def self_append_conv list.distinct(1))

lemma rename_away:
  assumes r: "reclaimable home dst w" and b: "beside dst v w" and h: "look w home = Some Dir"
    and up: "\<And>p. strict_prefix p dst \<Longrightarrow> look v p = Some Dir"
  shows "m_mount w home = m_mount w dst \<Longrightarrow> m_denied w home dst = None \<Longrightarrow>
      fst (rename home dst v) = None \<and> in_trash home dst w (snd (rename home dst v))"
    and "m_mount w home \<noteq> m_mount w dst \<or> m_denied w home dst \<noteq> None \<Longrightarrow>
      fst (rename home dst v) \<noteq> None \<and> snd (rename home dst v) = v"
proof -
  have np: "\<not> prefix home dst" "\<not> prefix dst home" and nd: "look w dst = None"
    using r by (simp_all add: reclaimable_def)
  have v: "map_of (m_tree v) home = Some Dir" "map_of (m_tree v) dst = None"
    using beside_kept [OF b, of home] h beside_look [OF b, of dst] nd by (simp_all add: look_def)
  have "dst \<noteq> []" using np(2) by auto
  then have bl: "map_of (m_tree v) (butlast dst) = Some Dir"
    using up [OF strict_butlast [OF \<open>dst \<noteq> []\<close>]] by (simp add: look_def)
  have ne: "home \<noteq> dst" using np by auto
  have m: "m_mount v = m_mount w" "m_denied v = m_denied w" and rest: "v\<lparr>m_tree := []\<rparr> = w\<lparr>m_tree := []\<rparr>"
    using b by (simp_all add: beside_def rest_same)
  show "fst (rename home dst v) \<noteq> None \<and> snd (rename home dst v) = v"
    if "m_mount w home \<noteq> m_mount w dst \<or> m_denied w home dst \<noteq> None"
    using v ne that m np bl \<open>dst \<noteq> []\<close> by (auto simp: rename_def)
  assume eq: "m_mount w home = m_mount w dst" "m_denied w home dst = None"
  then have rn: "rename home dst v = (None, v\<lparr>m_tree := moved home dst (m_tree v)\<rparr>)"
    using v ne m np bl \<open>dst \<noteq> []\<close> by (simp add: rename_def)
  have "look v (home @ q) = look w (home @ q)" for q
    using beside_look [OF b, of "home @ q"] np by (metis prefixI prefix_order.less_imp_le prefix_order.trans)
  moreover have "look v p = look w p" if "\<not> strict_prefix p dst" for p using beside_look [OF b that] .
  moreover have "strict_prefix p dst \<Longrightarrow> \<not> prefix dst p \<and> \<not> prefix home p" for p
    using np by (meson prefix_order.less_le_not_le prefix_order.trans)
  ultimately have "in_trash home dst w (v\<lparr>m_tree := moved home dst (m_tree v)\<rparr>)"
    using rest up by (auto simp: in_trash_def look_moved [OF np] look_def [of "v\<lparr>m_tree := _\<rparr>"] look_def [of v, symmetric])
  with rn show "fst (rename home dst v) = None \<and> in_trash home dst w (snd (rename home dst v))" by simp
qed

lemma move_away:
  assumes r: "reclaimable home dst w" and b: "beside dst v w"
  shows "if look w home = None then move_tree home dst v = (None, v)
    else if movable home dst w then fst (move_tree home dst v) = None \<and> in_trash home dst w (snd (move_tree home dst v))
    else fst (move_tree home dst v) \<noteq> None \<and> beside dst (snd (move_tree home dst v)) w"
proof (cases "look w home")
  case None
  have "\<not> strict_prefix home dst" using r by (auto simp: reclaimable_def)
  with None show ?thesis using beside_look [OF b, of home] by (simp add: move_tree_def look_def)
next
  case (Some n)
  then have h: "look w home = Some Dir" using r by (auto simp: reclaimable_def)
  have v: "map_of (m_tree v) home \<noteq> None" using beside_kept [OF b, of home] h by (simp add: look_def)
  obtain e v1 where mk: "make_dirs (ancestors dst) v = (e, v1)" by (cases "make_dirs (ancestors dst) v")
  have b1: "beside dst v1 w" using make_dirs_beside [OF b, of "ancestors dst"] mk by simp
  have e: "e = None \<longleftrightarrow> (\<forall>p. strict_prefix p dst \<longrightarrow> may_stand w p)"
    using make_dirs_ancestors [OF b] mk by simp
  show ?thesis
  proof (cases e)
    case None
    have up: "look v1 p = Some Dir" if "strict_prefix p dst" for p
      using make_dirs_done [of "ancestors dst" v p] mk None that by (simp add: set_ancestors)
    from rename_away [OF r b1 h up] show ?thesis
      using v mk None e h b1
      by (cases "rename home dst v1"; cases "fst (rename home dst v1)"; cases "m_mount w home = m_mount w dst \<and> m_denied w home dst = None")
        (auto simp: move_tree_def movable_def)
  next
    case (Some why)
    with v mk e h b1 show ?thesis by (auto simp: move_tree_def movable_def)
  qed
qed

lemma move_back:
  assumes r: "reclaimable home dst w" and t: "in_trash home dst w v" and m: "movable home dst w"
  shows "make_dirs ps v = (None, v) \<or> \<not> set ps \<subseteq> set (ancestors home)"
    and "if m_denied w dst home = None then fst (move_tree dst home v) = None \<and> beside dst (snd (move_tree dst home v)) w
      else fst (move_tree dst home v) \<noteq> None \<and> snd (move_tree dst home v) = v"
proof -
  have np: "\<not> prefix home dst" "\<not> prefix dst home" and nd: "look w dst = None" and ok: "tree_ok w"
    and h: "look w home = Some Dir"
    using r m by (simp_all add: reclaimable_def movable_def)
  have l: "look v p = (if strict_prefix p dst then Some Dir
           else if prefix dst p then look w (home @ drop (length dst) p)
           else if prefix home p then None else look w p)" for p
    using t by (simp add: in_trash_def)
  have mt: "m_mount v = m_mount w" "m_denied v = m_denied w" and rest: "v\<lparr>m_tree := []\<rparr> = w\<lparr>m_tree := []\<rparr>"
    using t by (simp_all add: in_trash_def rest_same)
  have up: "look v p = Some Dir" if p: "strict_prefix p home" for p
  proof -
    have "\<not> prefix dst p" and "\<not> prefix home p"
      using p np by (meson prefix_order.less_le_not_le prefix_order.trans)+
    moreover have "look w p = Some Dir" using ok h p by (auto simp: tree_ok_def)
    ultimately show ?thesis by (simp add: l)
  qed
  have mk: "make_dirs ps v = (None, v)" if "set ps \<subseteq> set (ancestors home)" for ps
    using that up by (intro make_dirs_nothing) (auto simp: set_ancestors)
  then show "make_dirs ps v = (None, v) \<or> \<not> set ps \<subseteq> set (ancestors home)" by blast
  have d: "map_of (m_tree v) dst = Some Dir" and hm: "map_of (m_tree v) home = None"
    using l [of dst] l [of home] h np by (auto simp: look_def)
  have "home \<noteq> []" using np by auto
  then have "map_of (m_tree v) (butlast home) = Some Dir"
    using up [OF strict_butlast [OF \<open>home \<noteq> []\<close>]] by (simp add: look_def)
  then have rn: "rename dst home v = (case m_denied w dst home of Some why \<Rightarrow> (Some why, v)
      | None \<Rightarrow> (None, v\<lparr>m_tree := moved dst home (m_tree v)\<rparr>))"
    using d hm np m mt \<open>home \<noteq> []\<close> by (auto simp: rename_def movable_def)
  have mv: "move_tree dst home v = (case m_denied w dst home of Some why \<Rightarrow> (Some (Io dst why), v)
      | None \<Rightarrow> (None, v\<lparr>m_tree := moved dst home (m_tree v)\<rparr>))"
    using d mk [OF order_refl] rn by (simp add: move_tree_def split: option.split)
  have below: "look w p = None" if "prefix dst p" for p
    using ok nd that by (cases "p = dst") (auto simp: tree_ok_def strict_prefix_def)
  have lm: "look (v\<lparr>m_tree := moved dst home (m_tree v)\<rparr>) p =
      (if prefix home p then look v (dst @ drop (length home) p) else if prefix dst p then None else look v p)" for p
    by (simp add: look_def look_moved [OF np(2,1)])
  have "look (v\<lparr>m_tree := moved dst home (m_tree v)\<rparr>) p = look w p
      \<or> strict_prefix p dst \<and> look w p = None \<and> look (v\<lparr>m_tree := moved dst home (m_tree v)\<rparr>) p = Some Dir
        \<and> m_unmade w p = None" for p
  proof (cases "prefix home p")
    case True
    then have "p = home @ drop (length home) p" by (auto simp: prefix_def)
    moreover have "look v (dst @ drop (length home) p) = look w (home @ drop (length home) p)"
      by (auto simp: l strict_prefix_def prefix_def)
    ultimately show ?thesis using True by (simp add: lm)
  next
    case False
    show ?thesis
    proof (cases "strict_prefix p dst")
      case True
      then have "\<not> prefix dst p" by (meson prefix_order.less_le_not_le)
      moreover have "look w p = None \<and> m_unmade w p = None \<or> look w p = Some Dir"
        using m True by (auto simp: movable_def may_stand_def)
      ultimately show ?thesis using True False by (auto simp: lm l)
    next
      case nsp: False
      with False below [of p] show ?thesis by (auto simp: lm l)
    qed
  qed
  then have "beside dst (v\<lparr>m_tree := moved dst home (m_tree v)\<rparr>) w" using rest by (simp add: beside_def)
  then show "if m_denied w dst home = None then fst (move_tree dst home v) = None \<and> beside dst (snd (move_tree dst home v)) w
      else fst (move_tree dst home v) \<noteq> None \<and> snd (move_tree dst home v) = v"
    by (auto simp: mv)
qed

subsection \<open>The contract of the move\<close>

lemma recorded_table: "m_table v = m_table w \<Longrightarrow> recorded reads force oc v = recorded reads force oc w"
  by (simp add: recorded_def refuse_def)

lemma torn_beside:
  assumes "beside dst v w"
  shows "beside dst (snd (make_dirs (take k (ancestors dst)) v)) w"
  by (rule make_dirs_beside [OF assms set_take_subset])

text \<open>The worlds an attempt at the step can leave: the home where it was, or in the trash.\<close>

definition attempted :: "table_reading \<Rightarrow> occupancy \<Rightarrow> path \<Rightarrow> bool \<Rightarrow> machine \<Rightarrow> machine \<Rightarrow> bool" where
  "attempted reads oc dst force w v \<longleftrightarrow> beside dst v w
     \<or> movable (oc_home oc) dst w \<and> in_trash (oc_home oc) dst w v \<and> (\<exists>rt. recorded reads force oc w = Inr rt)"

lemma apply_from_home:
  assumes r: "reclaimable (oc_home oc) dst w" and b: "beside dst v w"
  shows "attempted reads oc dst force w (snd (step_apply (trash_home reads encode oc dst force torn) v))"
    and "step_apply (trash_home reads encode oc dst force torn) v = (Inr out, v') \<Longrightarrow>
      (\<exists>rt. recorded reads force oc w = Inr rt \<and> out = encode rt)
      \<and> (if look w (oc_home oc) = None then v' = v
         else movable (oc_home oc) dst w \<and> in_trash (oc_home oc) dst w v')"
    and "attempted reads oc dst force w (step_torn (trash_home reads encode oc dst force torn) v)"
proof -
  have rec: "recorded reads force oc v = recorded reads force oc w"
    by (rule recorded_table) (use b in \<open>simp add: beside_def rest_same\<close>)
  note ma = move_away [OF r b]
  show "attempted reads oc dst force w (snd (step_apply (trash_home reads encode oc dst force torn) v))"
    using ma rec b
    by (auto simp: trash_home_def attempted_def split: sum.split prod.split option.split if_splits)
  show "(\<exists>rt. recorded reads force oc w = Inr rt \<and> out = encode rt)
      \<and> (if look w (oc_home oc) = None then v' = v
         else movable (oc_home oc) dst w \<and> in_trash (oc_home oc) dst w v')"
    if "step_apply (trash_home reads encode oc dst force torn) v = (Inr out, v')"
    using that ma rec by (auto simp: trash_home_def split: sum.splits prod.splits option.splits if_splits)
  show "attempted reads oc dst force w (step_torn (trash_home reads encode oc dst force torn) v)"
    using ma rec b torn_beside [OF b]
    by (auto simp: trash_home_def attempted_def move_torn_def split: sum.split if_splits)
qed

lemma in_trash_rest:
  assumes r: "reclaimable (oc_home oc) dst w" and t: "in_trash (oc_home oc) dst w v"
  shows "move_tree (oc_home oc) dst v = (None, v)" and "recorded reads force oc v = recorded reads force oc w"
    and "step_torn (trash_home reads encode oc dst force torn) v = v"
proof -
  have "look v (oc_home oc) = None" using r t by (auto simp: in_trash_def reclaimable_def)
  then have h: "map_of (m_tree v) (oc_home oc) = None" by (simp add: look_def)
  then show "move_tree (oc_home oc) dst v = (None, v)" by (simp add: move_tree_def)
  show "step_torn (trash_home reads encode oc dst force torn) v = v"
    using h by (simp add: trash_home_def move_torn_def split: sum.split)
  show "recorded reads force oc v = recorded reads force oc w"
    by (rule recorded_table) (use t in \<open>simp add: in_trash_def rest_same\<close>)
qed

lemma touched_trash:
  assumes r: "reclaimable (oc_home oc) dst w"
  shows "touched (beside dst) (trash_home reads encode oc dst force torn) w v \<longleftrightarrow> attempted reads oc dst force w v"
proof
  have "attempted reads oc dst force w v" if "beside dst v u" "attempted reads oc dst force w u" for u
    using that by (auto simp: attempted_def intro: beside_trans in_trash_beside)
  moreover have "attempted reads oc dst force w w" by (simp add: attempted_def)
  ultimately show "attempted reads oc dst force w v"
    if "touched (beside dst) (trash_home reads encode oc dst force torn) w v"
    using that apply_from_home(1,3) [OF r beside_refl] unfolding touched_def by blast
next
  assume a: "attempted reads oc dst force w v"
  show "touched (beside dst) (trash_home reads encode oc dst force torn) w v"
  proof (cases "beside dst v w")
    case True
    then show ?thesis by (simp add: touched_def)
  next
    case False
    with a obtain rt where m: "movable (oc_home oc) dst w" "in_trash (oc_home oc) dst w v"
      "recorded reads force oc w = Inr rt" by (auto simp: attempted_def)
    then have "in_trash (oc_home oc) dst w (snd (step_apply (trash_home reads encode oc dst force torn) w))"
      using move_away [OF r beside_refl] by (auto simp: trash_home_def movable_def split: prod.split option.split)
    with m show ?thesis by (simp add: touched_def in_trash_same)
  qed
qed

lemma undo_from_home:
  assumes r: "reclaimable (oc_home oc) dst w" and b: "beside dst v w"
  shows "move_tree dst (oc_home oc) v = (None, v)" and "move_torn torn dst (oc_home oc) v = v"
proof -
  have "\<not> strict_prefix dst dst" by simp
  then have "map_of (m_tree v) dst = None"
    using beside_look [OF b, of dst] r by (simp add: look_def reclaimable_def)
  then show "move_tree dst (oc_home oc) v = (None, v)" and "move_torn torn dst (oc_home oc) v = v"
    by (simp_all add: move_tree_def move_torn_def)
qed

interpretation trash: repeatable_step "beside dst" "trash_home reads encode oc dst force torn" "reclaimable (oc_home oc) dst"
  for dst reads encode oc force torn
proof unfold_locales
  fix u v w v' w' e out
  let ?s = "trash_home reads encode oc dst force torn"
  show "beside dst w w" by simp
  show "beside dst u w" if "beside dst u v" "beside dst v w" using that by (rule beside_trans)
  assume r: "reclaimable (oc_home oc) dst w" and t: "touched (beside dst) ?s w v"
  have undo: "step_undo ?s = move_tree dst (oc_home oc)" "undo_torn ?s = move_torn torn dst (oc_home oc)"
    by (simp_all add: trash_home_def)
  have a: "attempted reads oc dst force w v" using t touched_trash [OF r] by blast
  have tu: "touched (beside dst) ?s w x" if "attempted reads oc dst force w x" for x
    using that touched_trash [OF r] by blast
  show "beside dst v' w" if "step_undo ?s v = (None, v')"
    using a that undo_from_home(1) [OF r] move_back(2) [OF r] unfolding undo attempted_def by (force split: if_splits)
  show "touched (beside dst) ?s w v'" if "step_undo ?s v = (Some e, v')"
  proof (cases "beside dst v w")
    case True
    then show ?thesis using that undo_from_home(1) [OF r True] unfolding undo by simp
  next
    case False
    with a have m: "movable (oc_home oc) dst w" "in_trash (oc_home oc) dst w v" by (auto simp: attempted_def)
    from move_back(2) [OF r m(2,1)] that have "v' = v" unfolding undo by (auto split: if_splits)
    with t show ?thesis by simp
  qed
  show "touched (beside dst) ?s w (undo_torn ?s v)"
  proof (rule tu)
    show "attempted reads oc dst force w (undo_torn ?s v)"
    proof (cases "beside dst v w")
      case True
      then show ?thesis using undo_from_home(2) [OF r True] by (simp add: undo attempted_def)
    next
      case False
      with a have m: "movable (oc_home oc) dst w" "in_trash (oc_home oc) dst w v" by (auto simp: attempted_def)
      have "make_dirs (take torn (ancestors (oc_home oc))) v = (None, v)"
        using move_back(1) [OF r m(2,1), of "take torn (ancestors (oc_home oc))"]
          set_take_subset [of torn "ancestors (oc_home oc)"] by simp
      then have "move_torn torn dst (oc_home oc) v \<in> {v, snd (move_tree dst (oc_home oc) v)}"
        unfolding move_torn_def by (metis insertCI snd_conv)
      then have "undo_torn ?s v = v \<or> undo_torn ?s v = snd (move_tree dst (oc_home oc) v)"
        unfolding undo by simp
      with a move_back(2) [OF r m(2,1)] show ?thesis unfolding undo attempted_def by (auto split: if_splits)
    qed
  qed
  show "touched (beside dst) ?s w (step_torn ?s v)"
    using a apply_from_home(3) [OF r] in_trash_rest(3) [OF r] tu unfolding attempted_def by metis
  show "\<exists>v'. step_apply ?s v = (Inr out, v') \<and> beside dst v' w'" if w': "step_apply ?s w = (Inr out, w')"
  proof -
    note home = apply_from_home(2) [OF r beside_refl w']
    then obtain rt where rt: "recorded reads force oc w = Inr rt" "out = encode rt" by blast
    have succeed: "\<exists>v'. step_apply ?s x = (Inr out, v')"
      if "fst (move_tree (oc_home oc) dst x) = None" "recorded reads force oc x = recorded reads force oc w" for x
      using that rt by (cases "move_tree (oc_home oc) dst x") (simp add: trash_home_def)
    show ?thesis
    proof (cases "beside dst v w")
      case True
      have "recorded reads force oc v = recorded reads force oc w"
        by (rule recorded_table) (use True in \<open>simp add: beside_def rest_same\<close>)
      moreover have "fst (move_tree (oc_home oc) dst v) = None"
        using move_away [OF r True] home by (auto split: if_splits)
      ultimately obtain x where x: "step_apply ?s v = (Inr out, x)" using succeed by blast
      note there = apply_from_home(2) [OF r True x]
      have "beside dst x w'"
      proof (cases "look w (oc_home oc) = None")
        case True
        with there home \<open>beside dst v w\<close> show ?thesis by simp
      next
        case False
        with there home have "in_trash (oc_home oc) dst w x" "in_trash (oc_home oc) dst w w'" by simp_all
        then show ?thesis by (rule in_trash_same)
      qed
      with x show ?thesis by blast
    next
      case False
      with a have m: "movable (oc_home oc) dst w" "in_trash (oc_home oc) dst w v" by (auto simp: attempted_def)
      note rest = in_trash_rest [OF r m(2)]
      have "step_apply ?s v = (Inr out, v)" using rest(1,2) rt by (simp add: trash_home_def)
      moreover have "in_trash (oc_home oc) dst w w'" using home m(1) by (simp add: movable_def)
      ultimately show ?thesis using in_trash_same [OF m(2)] by blast
    qed
  qed
qed

lemma trash_undo:
  assumes r: "reclaimable (oc_home oc) dst w"
    and t: "touched (beside dst) (trash_home reads encode oc dst force torn) w v"
    and u: "step_undo (trash_home reads encode oc dst force torn) v = (e, v')"
  shows "case e of None \<Rightarrow> beside dst v' w
    | Some _ \<Rightarrow> v' = v \<and> in_trash (oc_home oc) dst w v \<and> m_denied w dst (oc_home oc) \<noteq> None"
proof (cases "beside dst v w")
  case True
  then show ?thesis using u undo_from_home(1) [OF r True] by (simp add: trash_home_def)
next
  case False
  with t have m: "movable (oc_home oc) dst w" "in_trash (oc_home oc) dst w v"
    unfolding touched_trash [OF r] by (auto simp: attempted_def)
  show ?thesis using m u move_back(2) [OF r m(2,1)] by (auto simp: trash_home_def split: if_splits option.split)
qed

lemma trash_undo_succeeds:
  assumes "reclaimable (oc_home oc) dst w" and "m_denied w dst (oc_home oc) = None"
    and "touched (beside dst) (trash_home reads encode oc dst force torn) w v"
  shows "fst (step_undo (trash_home reads encode oc dst force torn) v) = None"
  using trash_undo [OF assms(1,3)] assms(2)
  by (cases "step_undo (trash_home reads encode oc dst force torn) v") (auto split: option.splits)

text \<open>
  C7. The move takes the home whole or leaves it. Where there is a home, or none, and nothing at
  the trash path, the step \<open>TrashHome\<close> either answers and the whole tree under the home stands
  under the trash path and nothing else changed, or fails and every path is where it was but for
  directories made above the trash path; over an occupied home, or a table that could
  not be read, it touches nothing unless it was forced, when it asks nobody; nothing refused, it
  answers. From anything an attempt left, killed or not, an undo that answers puts the home back,
  and one that does not leaves the home whole in the trash, and only because the
  platform refuses the rename back.
\<close>

theorem trash_moves_whole:
  assumes r: "reclaimable (oc_home oc) dst w"
    and st_def: "st = trash_home reads encode oc dst force torn"
  shows "(case step_apply st w of
       (Inr out, w') \<Rightarrow> (\<exists>rt. recorded reads force oc w = Inr rt \<and> out = encode rt)
          \<and> (if look w (oc_home oc) = None then w' = w else in_trash (oc_home oc) dst w w')
     | (Inl _, w') \<Rightarrow> beside dst w' w)
   \<and> (force \<longrightarrow> recorded reads force oc w = Inr None)
   \<and> (\<forall>e. recorded reads force oc w = Inl e \<longrightarrow> step_apply st w = (Inl e, w))
   \<and> (\<forall>rt. recorded reads force oc w = Inr rt \<longrightarrow>
        (fst (step_apply st w) = Inr (encode rt) \<longleftrightarrow> look w (oc_home oc) = None \<or> movable (oc_home oc) dst w))
   \<and> (\<forall>v v'. touched (beside dst) st w v \<longrightarrow> step_undo st v = (None, v') \<longrightarrow> beside dst v' w)
   \<and> (\<forall>v v' e. touched (beside dst) st w v \<longrightarrow> step_undo st v = (Some e, v') \<longrightarrow>
        v' = v \<and> in_trash (oc_home oc) dst w v \<and> m_denied w dst (oc_home oc) \<noteq> None)"
proof (intro conjI)
  note home = apply_from_home(2) [OF r beside_refl]
  show "case step_apply st w of
       (Inr out, w') \<Rightarrow> (\<exists>rt. recorded reads force oc w = Inr rt \<and> out = encode rt)
          \<and> (if look w (oc_home oc) = None then w' = w else in_trash (oc_home oc) dst w w')
     | (Inl _, w') \<Rightarrow> beside dst w' w"
  proof (cases "step_apply st w")
    case (Pair a w')
    show ?thesis
    proof (cases a)
      case (Inl e)
      have "move_tree (oc_home oc) dst w = (Some e, w') \<or> w' = w"
        using Pair Inl by (auto simp: st_def trash_home_def split: sum.splits prod.splits option.splits)
      then show ?thesis using Pair Inl move_away [OF r beside_refl] by (auto split: if_splits)
    next
      case (Inr out)
      then show ?thesis using Pair home unfolding st_def by (auto split: if_splits)
    qed
  qed
  show "force \<longrightarrow> recorded reads force oc w = Inr None" by (simp add: recorded_def)
  show "\<forall>e. recorded reads force oc w = Inl e \<longrightarrow> step_apply st w = (Inl e, w)"
    by (simp add: st_def trash_home_def)
  show "\<forall>rt. recorded reads force oc w = Inr rt \<longrightarrow>
      (fst (step_apply st w) = Inr (encode rt) \<longleftrightarrow> look w (oc_home oc) = None \<or> movable (oc_home oc) dst w)"
    using move_away [OF r beside_refl [of dst w]]
    by (auto simp: st_def trash_home_def split: prod.split option.split if_splits)
  show "\<forall>v v'. touched (beside dst) st w v \<longrightarrow> step_undo st v = (None, v') \<longrightarrow> beside dst v' w"
    using trash_undo [OF r] unfolding st_def by fastforce
  show "\<forall>v v' e. touched (beside dst) st w v \<longrightarrow> step_undo st v = (Some e, v') \<longrightarrow>
        v' = v \<and> in_trash (oc_home oc) dst w v \<and> m_denied w dst (oc_home oc) \<noteq> None"
    using trash_undo [OF r] unfolding st_def by fastforce
qed

end
