(* ===== verification/Resolution.thy ===== *)
theory Resolution
  imports Resumption Effects Reclaim
begin

text \<open>
  What a person and the next command can rely on of the runner (\<open>lifecycle/mod.rs\<close>), put
  together from the invariants of the theories before it, and shown at work on the one step
  of a reclaim that moves a home.
\<close>

subsection \<open>How much a run costs\<close>

lemma costs_apply: "costs 2 (do_apply st)"
  by (auto simp: costs_def do_apply_def split: prod.splits sum.splits)

lemma costs_raise_after: "costs n m \<Longrightarrow> costs n (bindA m (\<lambda>_. raiseA e))"
  using costs_bindA [of n m 0 "\<lambda>_. raiseA e"] by (simp add: costs_def raiseA_def [abs_def])

lemma costs_raiseA [simp]: "costs n (raiseA e)" and costs_retA [simp]: "costs n (retA a)"
  by (simp_all add: costs_def)

lemma costs_undo_steps: "costs (3 * length (plan_steps p)) (undo_steps h i p)"
  unfolding costs_def undo_steps_def
proof
  fix s
  show "ends (undo_loop h i (acted_positions (jnl s) i) (rev (enumerate 0 (plan_steps p))) [] s)
      (\<lambda>_ t. life s \<le> life t + 3 * length (plan_steps p))
      (\<lambda>_ t. life s \<le> life t + 3 * length (plan_steps p)) (\<lambda>_. life s < 3 * length (plan_steps p))"
    by (rule costsD, rule costs_mono [OF costs_undo_loop]) simp
qed

lemma costs_undo_applied: "costs (3 * length (plan_steps p) + 1) (undo_applied h i p)"
  unfolding undo_applied_def
proof (rule costs_bindA [OF costs_undo_steps])
  show "costs 1 (case u of AllUndone _ \<Rightarrow> close_run i (plan_kind p) OpRolledBack
     | StoppedAt key why \<Rightarrow> bindA (close_run i (plan_kind p) OpFailed)
         (\<lambda>_. raiseA (OperationUndo i (plan_kind p) key why)))" for u
    by (cases u) (simp_all add: costs_close [simplified] costs_raise_after [OF costs_close, simplified])
qed

lemma costs_keep: "costs 2 (keep h i pos key why)"
  unfolding keep_def using costs_bindA [OF costs_mark costs_close] by (simp add: numeral_2_eq_2)

lemma costs_apply_step:
  assumes "\<And>out. costs k (f out)" and "\<And>e. costs n (g e)" and "Suc k \<le> n"
  shows "costs (3 + n) (bindA (mark i pos key Applying None) (\<lambda>_.
       matchA (do_apply st) (\<lambda>out. bindA (mark i pos key Applied (Some out)) (\<lambda>_. f out)) g))"
proof -
  have "costs (1 + k) (bindA (mark i pos key Applied (Some out)) (\<lambda>_. f out))" for out
    by (rule costs_bindA [OF costs_mark assms(1)])
  then have "costs n (bindA (mark i pos key Applied (Some out)) (\<lambda>_. f out))" for out
    using assms(3) by (auto intro: costs_mono)
  then have "costs (2 + n) (matchA (do_apply st) (\<lambda>out. bindA (mark i pos key Applied (Some out)) (\<lambda>_. f out)) g)"
    by (intro costs_matchA [OF costs_apply]) (auto intro: assms(2))
  from costs_bindA [OF costs_mark this] have "costs (1 + (2 + n)) (bindA (mark i pos key Applying None)
       (\<lambda>_. matchA (do_apply st) (\<lambda>out. bindA (mark i pos key Applied (Some out)) (\<lambda>_. f out)) g))" .
  then show ?thesis by (rule costs_mono) simp
qed

lemma costs_run_steps:
  "costs (4 * length xs + (3 * length (plan_steps p) + 3))
     (run_steps h i p k xs outs :: (('w, 'r) sys, outputs) action)"
proof (induction xs arbitrary: k outs)
  case Nil
  then show ?case by simp
next
  case (Cons st xs)
  let ?n = "3 * length (plan_steps p) + 3"
  let ?g = "\<lambda>pos source. let failure = OperationStep i (plan_kind p) (step_key st) source in
          if plan_recovery p = Resume
          then bindA (keep h i pos (step_key st) failure) (\<lambda>_. raiseA failure)
          else bindA (undo_applied h i p) (\<lambda>_. raiseA failure)"
  have g: "costs (4 * length xs + ?n + 1) (?g pos e :: (('w, 'r) sys, outputs) action)" for pos e
    by (cases "plan_recovery p = Resume")
      (simp_all add: Let_def costs_mono [OF costs_raise_after [OF costs_keep]]
        costs_mono [OF costs_raise_after [OF costs_undo_applied]])
  have "costs (3 + (4 * length xs + ?n + 1)) (bindA (mark i pos (step_key st) Applying None) (\<lambda>_.
     matchA (do_apply st)
       (\<lambda>out. bindA (mark i pos (step_key st) Applied (Some out))
          (\<lambda>_. run_steps h i p (Suc k) xs (outputs_record outs (step_key st) out)))
       (?g pos)) :: (('w, 'r) sys, outputs) action)" for pos
    by (rule costs_apply_step [OF Cons.IH g]) simp
  then have "costs (0 + (3 + (4 * length xs + ?n + 1)))
      (run_steps h i p k (st # xs) outs :: (('w, 'r) sys, outputs) action)"
    unfolding run_steps.simps by (intro costs_bindA [OF costs_position])
  then show ?case by (rule costs_mono) simp
qed

lemma costs_resume_steps:
  "costs (4 * length xs) (resume_steps h i p finished k xs outs ks :: (('w, 'r) sys, outputs \<times> string list) action)"
proof (induction xs arbitrary: k outs ks)
  case Nil
  then show ?case by simp
next
  case (Cons st xs)
  have "costs (3 + (4 * length xs + 1)) (bindA (mark i pos (step_key st) Applying None) (\<lambda>_.
       matchA (do_apply st)
         (\<lambda>out. bindA (mark i pos (step_key st) Applied (Some out))
            (\<lambda>_. resume_steps h i p finished (Suc k) xs (outputs_record outs (step_key st) out) (ks @ [step_key st])))
         (\<lambda>source. raiseA (OperationStep i (plan_kind p) (step_key st) source)))
       :: (('w, 'r) sys, outputs \<times> string list) action)" for pos
    by (rule costs_apply_step [OF Cons.IH]) simp_all
  moreover have "costs (3 + (4 * length xs + 1))
      (resume_steps h i p finished (Suc k) xs outs ks :: (('w, 'r) sys, outputs \<times> string list) action)"
    by (rule costs_mono [OF Cons.IH]) simp
  ultimately have "costs (0 + (3 + (4 * length xs + 1)))
      (resume_steps h i p finished k (st # xs) outs ks :: (('w, 'r) sys, outputs \<times> string list) action)"
    unfolding resume_steps.simps by (intro costs_bindA [OF costs_position]) simp
  then show ?case by (rule costs_mono) simp
qed

lemma costs_commit: "costs 1 (commit_run i p outs)"
  unfolding commit_run_def by (rule costs_statement) (simp split: sum.splits prod.splits bool.splits)

lemma costs_resume: "costs (4 * length (plan_steps p) + 1) (resume h i p)"
  unfolding costs_def resume_def
proof
  fix s :: "('a, 'b) sys"
  have c: "costs 1 (case a of (outs, applied) \<Rightarrow> bindA (commit_run i p outs) (\<lambda>_. retA (Resumed applied)))"
    for a :: "outputs \<times> string list"
    using costs_bindA [OF costs_commit, of 0 "\<lambda>_. retA (Resumed (snd a))" i p "fst a"] by (cases a) simp
  show "ends (bindA (resume_steps h i p (applied_keys (jnl s) i) 0 (plan_steps p) (journal_outputs (jnl s) i) [])
       (\<lambda>(outs, applied). bindA (commit_run i p outs) (\<lambda>_. retA (Resumed applied))) s)
     (\<lambda>_ t. life s \<le> life t + (4 * length (plan_steps p) + 1))
     (\<lambda>_ t. life s \<le> life t + (4 * length (plan_steps p) + 1)) (\<lambda>_. life s < 4 * length (plan_steps p) + 1)"
    by (rule costsD, rule costs_bindA [OF costs_resume_steps c])
qed

lemma costs_start: "costs 1 (start_run h i p)"
  unfolding start_run_def by (rule costs_statement) (simp split: sum.splits)

lemma costs_record: "costs 1 (record_home h p i)"
  by (auto simp: costs_def record_home_def Let_def bindA_def spend_def split: option.splits prod.splits sum.splits)

lemma costs_run: "costs (7 * length (plan_steps p) + (3 * length (plan_steps p) + 7)) (run h i p)"
proof -
  let ?c = "\<lambda>recorded outs. matchA (commit_run i p outs)
       (\<lambda>committed. retA \<lparr>done_id = i, done_record = recorded, done_outputs = outs, done_committed = committed\<rparr>)
       (\<lambda>source. bindA (undo_applied h i p) (\<lambda>_. raiseA source))"
  have "costs (1 + (3 * length (plan_steps p) + 1)) (?c recorded outs)" for recorded outs
    by (intro costs_matchA costs_commit costs_raise_after costs_undo_applied) simp
  then have steps: "costs (4 * length (plan_steps p) + (3 * length (plan_steps p) + 3) + (1 + (3 * length (plan_steps p) + 1)))
      (bindA (run_steps h i p 0 (plan_steps p) Map.empty) (?c recorded))" for recorded
    by (intro costs_bindA costs_run_steps)
  have refuse: "costs (4 * length (plan_steps p) + (3 * length (plan_steps p) + 3) + (1 + (3 * length (plan_steps p) + 1)))
      (bindA (close_run i (plan_kind p) OpFailed) (\<lambda>_. raiseA why) :: (('a, 'b) sys, run_done) action)" for why
    by (rule costs_mono [OF costs_raise_after [OF costs_close]]) simp
  have "costs (1 + (1 + (4 * length (plan_steps p) + (3 * length (plan_steps p) + 3) + (1 + (3 * length (plan_steps p) + 1)))))
      (run h i p)"
    unfolding run_def by (intro costs_bindA costs_start costs_matchA costs_record steps refuse)
  then show ?thesis by (rule costs_mono) simp
qed

subsection \<open>A run that goes forward\<close>

lemma step_at_fresh:
  assumes "journal_wf j" and "journal_get j i = None"
  shows "step_at j i p = None"
  using assms by (auto simp: step_at_def find_None_iff journal_wf_def journal_get_None)

lemma start_resumable:
  assumes wf: "journal_wf (jnl s)" and fresh: "journal_get (jnl s) i = None" and sc: "\<forall>w. same w w"
  shows "ends (start_run h i p s) (\<lambda>_. resumable same (plan_steps p) (world s) out i (rows s) 0) (\<lambda>_ _. False)
    (\<lambda>t. t = s)"
proof -
  have "ends (start_run h i p s) (\<lambda>_ t. step_rows (jnl t) = step_rows (jnl s)) (\<lambda>_ _. True) (\<lambda>_. True)"
    using get_start [of "jnl s" i p "h_owner h" "clock s"]
    by (auto simp: start_run_def bindA_def spend_def split: sum.split)
  moreover note start_open [OF wf fresh, of h p]
  moreover have "step_at j i p = None" if "step_rows j = step_rows (jnl s)" for j p
    using step_at_fresh [OF wf fresh, of p] that by (simp add: step_at_def)
  moreover have "left_at same (plan_steps p) (world s) 0 (world s)"
    by (rule left_at_same) (simp_all add: sc)
  ultimately show ?thesis
    by (cases "start_run h i p s") (auto simp: open_run_def resumable_def progress_def)
qed

lemma run_resumable:
  assumes wf: "journal_wf (jnl s)" and fresh: "journal_get (jnl s) i = None" and none: "plan_records p = None"
    and sc: "succeeds same (plan_steps p) (world s) out"
    and c: "plan_commit p (rows s) (outputs_upto (plan_steps p) out (length (plan_steps p))) = Inr (c, r1)"
  shows "ends (run h i p s)
    (\<lambda>d t. done_committed d = c \<and> rows t = r1 \<and> same (world t) (world_after (plan_steps p) (world s))
       \<and> (\<exists>r. journal_get (jnl t) i = Some r \<and> op_state r = OpCommitted))
    (\<lambda>_ _. False)
    (\<lambda>t. t = s \<or> (\<exists>m. resumable same (plan_steps p) (world s) out i (rows s) m t))"
  (is "ends _ ?Q ?F ?H")
proof -
  have sr: "\<forall>w. same w w" using sc by (simp add: succeeds_def)
  have commit: "ends (matchA (commit_run i p outs)
            (\<lambda>committed. retA \<lparr>done_id = i, done_record = recorded, done_outputs = outs,
                              done_committed = committed\<rparr>)
            (\<lambda>source. bindA (undo_applied h i p) (\<lambda>_. raiseA source)) t) ?Q ?F ?H"
    if "outs = outputs_upto (plan_steps p) out (length (plan_steps p))"
      and r: "resumable same (plan_steps p) (world s) out i (rows s) (length (plan_steps p)) t" for outs recorded t
    by (rule ends_matchA, rule ends_mono [OF commit_resumable [OF r c [folded that(1)]]]) (use r in auto)
  have steps: "ends (bindA (run_steps h i p 0 (plan_steps p) Map.empty) (\<lambda>outs.
          matchA (commit_run i p outs)
            (\<lambda>committed. retA \<lparr>done_id = i, done_record = recorded, done_outputs = outs,
                              done_committed = committed\<rparr>)
            (\<lambda>source. bindA (undo_applied h i p) (\<lambda>_. raiseA source))) t) ?Q ?F ?H"
    if r: "resumable same (plan_steps p) (world s) out i (rows s) 0 t" for recorded t
  proof -
    have "ends (run_steps h i p 0 (plan_steps p) (outputs_upto (plan_steps p) out 0) t)
      (\<lambda>outs t. outs = outputs_upto (plan_steps p) out (length (plan_steps p))
         \<and> resumable same (plan_steps p) (world s) out i (rows s) (length (plan_steps p)) t)
      (\<lambda>_ _. False) (\<lambda>t. \<exists>m. resumable same (plan_steps p) (world s) out i (rows s) m t)"
      by (rule run_steps_resumable [OF sc _ r]) simp
    then show ?thesis by (intro ends_bindA) (auto elim!: ends_mono intro: commit)
  qed
  have start: "ends (start_run h i p s) (\<lambda>_. resumable same (plan_steps p) (world s) out i (rows s) 0)
      (\<lambda>_ _. False) (\<lambda>t. t = s)"
    using wf fresh sr by (rule start_resumable)
  show ?thesis
    unfolding run_def
  proof (rule ends_bindA, rule ends_mono [OF start], goal_cases)
    case (1 a t)
    then show ?case using steps none by (intro ends_matchA) (simp add: record_home_def)
  qed auto
qed

inductive forward_interrupted ::
    "('w, 'r) plan \<Rightarrow> op_id \<Rightarrow> ('w, 'r) sys \<Rightarrow> ('w, 'r) sys \<Rightarrow> bool" for p i s where
  first_killed: "run h i p s = Halt t \<Longrightarrow> forward_interrupted p i s t"
| resume_killed:
    "forward_interrupted p i s t \<Longrightarrow> r \<in> set (unfinished (jnl t)) \<Longrightarrow> op_ident r = i \<Longrightarrow> op_recovery r = Resume
     \<Longrightarrow> recovers h rebuilders r p \<Longrightarrow> resolve_one h rebuilders r (t\<lparr>life := n\<rparr>) = Halt t'
     \<Longrightarrow> forward_interrupted p i s t'"

lemma forward_state:
  assumes "forward_interrupted p i s t"
    and wf: "journal_wf (jnl s)" and fresh: "journal_get (jnl s) i = None" and none: "plan_records p = None"
    and sc: "succeeds same (plan_steps p) (world s) out"
    and c: "plan_commit p (rows s) (outputs_upto (plan_steps p) out (length (plan_steps p))) = Inr (c, r1)"
  shows "t = s \<or> (\<exists>m. resumable same (plan_steps p) (world s) out i (rows s) m t)"
  using assms(1)
proof (induction rule: forward_interrupted.induct)
  case (first_killed h t)
  show ?case by (rule endsD(3) [OF run_resumable [OF wf fresh none sc c] first_killed])
next
  case (resume_killed t r h rebuilders n t')
  have "t \<noteq> s"
    using unfinished_open [OF resume_killed(2)] resume_killed(3) wf fresh by auto
  then obtain m where "resumable same (plan_steps p) (world s) out i (rows s) m (t\<lparr>life := n\<rparr>)"
    using resume_killed.IH by auto
  from resume_ends [OF sc this c] show ?case
    using resume_killed(3,4,6) resolve_one_recovers [OF resume_killed(5)] endsD(3) by fastforce
qed

text \<open>
  C3. A killed run that goes forward is the run nobody killed. Whichever effect the process
  stopped at, and however many processes were killed while carrying it on, the next one that
  lives long enough ends it with the rows, the world and the committed state of a run that
  was never interrupted, because the journal gives the commit the outputs the steps produced.
\<close>

theorem killed_run_is_resumed:
  assumes "forward_interrupted p i s t"
    and "journal_wf (jnl s)" and "journal_get (jnl s) i = None" and "plan_records p = None"
    and sc: "succeeds same (plan_steps p) (world s) out"
    and c: "plan_commit p (rows s) (outputs_upto (plan_steps p) out (length (plan_steps p))) = Inr (c, r1)"
    and r: "r \<in> set (unfinished (jnl t))" "op_ident r = i" "op_recovery r = Resume"
    and rec: "recovers h rebuilders r p" and enough: "4 * length (plan_steps p) + 1 \<le> n"
  shows "\<exists>ks t'. resolve_one h rebuilders r (t\<lparr>life := n\<rparr>) = Ret (Resumed ks) t'
    \<and> rows t' = r1 \<and> same (world t') (world_after (plan_steps p) (world s))
    \<and> (\<exists>r'. journal_get (jnl t') i = Some r' \<and> op_state r' = OpCommitted)"
proof -
  have "t \<noteq> s" using unfinished_open [OF r(1)] r(2) assms(2,3) by auto
  then obtain m where rs: "resumable same (plan_steps p) (world s) out i (rows s) m (t\<lparr>life := n\<rparr>)"
    using forward_state [OF assms(1-4) sc c] by auto
  note e = resume_ends [OF sc rs c, of h]
  have "ends (resume h i p (t\<lparr>life := n\<rparr>)) (\<lambda>_ _. True) (\<lambda>_ _. True) (\<lambda>_. False)"
    by (rule ends_mono [OF costsD [OF costs_resume]]) (use enough in simp_all)
  then obtain a t' where a: "resume h i p (t\<lparr>life := n\<rparr>) = Ret a t'"
    using e by (cases "resume h i p (t\<lparr>life := n\<rparr>)") simp_all
  moreover have "resolve_one h rebuilders r = resume h i p"
    using resolve_one_recovers [OF rec] r by simp
  ultimately show ?thesis using e by auto
qed

subsection \<open>How a run ends\<close>

text \<open>
  C6. A commit is whole or it is not there. A run returns only with the rows its commit wrote
  out of the rows the run began with; however else it ends, with an error or killed, the rows
  are the ones it began with and the journal does not call it committed.
\<close>

theorem run_all_or_nothing:
  assumes fresh: "journal_get (jnl s) i = None"
  shows "ends (run h i p s)
    (\<lambda>d t. plan_commit p (rows s) (done_outputs d) = Inr (done_committed d, rows t))
    (\<lambda>_ t. rows t = rows s \<and> (\<forall>r. journal_get (jnl t) i = Some r \<longrightarrow> op_state r \<noteq> OpCommitted))
    (\<lambda>t. rows t = rows s \<and> (\<forall>r. journal_get (jnl t) i = Some r \<longrightarrow> op_state r \<noteq> OpCommitted))"
proof -
  let ?Q = "\<lambda>d t. plan_commit p (rows s) (done_outputs d) = Inr (done_committed d, rows t)"
  let ?U = "unwritten (rows s) i"
  have k: "ends (m t) (\<lambda>_. ?U) (\<lambda>_. ?U) ?U" if "keeps ?U m" "?U t" for m :: "(('a, 'b) sys, 'c) action" and t
    using keepsD [OF that] by (cases "m t") simp_all
  have after: "ends (bindA m (\<lambda>_. raiseA e) t) ?Q (\<lambda>_. ?U) ?U"
    if "keeps ?U m" "?U t" for m :: "(('a, 'b) sys, unit) action" and e t
    by (rule ends_bindA, rule ends_mono [OF k [OF that]]) simp_all
  have commit: "ends (matchA (commit_run i p outs)
            (\<lambda>committed. retA \<lparr>done_id = i, done_record = recorded, done_outputs = outs,
                              done_committed = committed\<rparr>)
            (\<lambda>source. bindA (undo_applied h i p) (\<lambda>_. raiseA source)) t) ?Q (\<lambda>_. ?U) ?U"
    if "?U t" for outs recorded t
    by (rule ends_matchA, rule ends_mono [OF commit_unwritten [OF that]])
      (auto intro: after unw.keeps_undo_applied)
  have steps: "ends (bindA (run_steps h i p 0 (plan_steps p) Map.empty) (\<lambda>outs.
          matchA (commit_run i p outs)
            (\<lambda>committed. retA \<lparr>done_id = i, done_record = recorded, done_outputs = outs,
                              done_committed = committed\<rparr>)
            (\<lambda>source. bindA (undo_applied h i p) (\<lambda>_. raiseA source))) t) ?Q (\<lambda>_. ?U) ?U"
    if "?U t" for recorded t
    by (rule ends_bindA, rule ends_mono [OF k [OF unw.keeps_run_steps that]]) (auto intro: commit)
  have body: "ends (matchA (record_home h p i)
       (\<lambda>recorded. bindA (run_steps h i p 0 (plan_steps p) Map.empty) (\<lambda>outs.
          matchA (commit_run i p outs)
            (\<lambda>committed. retA \<lparr>done_id = i, done_record = recorded, done_outputs = outs,
                              done_committed = committed\<rparr>)
            (\<lambda>source. bindA (undo_applied h i p) (\<lambda>_. raiseA source))))
       (\<lambda>why. bindA (close_run i (plan_kind p) OpFailed) (\<lambda>_. raiseA why)) t) ?Q (\<lambda>_. ?U) ?U"
    if "?U t" for t
    by (rule ends_matchA, rule ends_mono [OF k [OF unw.keeps_record that]])
      (auto intro: steps after unw.keeps_close)
  have start: "?U (final (start_run h i p s))" by (rule start_unwritten(1) [OF fresh])
  have "ends (run h i p s) ?Q (\<lambda>_. ?U) ?U"
    using start body by (cases "start_run h i p s") (simp_all add: run_def bindA_def)
  then show ?thesis by (rule ends_mono) (simp_all add: unwritten_def)
qed

lemma journal_get_in:
  assumes "journal_wf j" and "q \<in> set (ops j)"
  shows "journal_get j (op_ident q) = Some q"
proof (cases "journal_get j (op_ident q)")
  case None
  with assms(2) show ?thesis by (auto simp: journal_get_None)
next
  case (Some r)
  from journal_get_Some [OF this] assms have "r = q" by (auto simp: journal_wf_def distinct_map inj_on_def)
  with Some show ?thesis by simp
qed

text \<open>
  C5. A run that fails leaves nothing, or says which undo failed. Where every step keeps its
  contract, an error out of a plan that rolls back, from the record of the home, a step or the
  commit, comes back with the rows untouched and a run that is closed, so no later clean-up takes
  it up. Either the world is as it was before the first step; or the error is \<open>OperationUndo\<close>, an
  undo of one of the steps fails from a world an attempt at it can leave, the run is
  recorded as failed, and the journal still says which steps may have acted.
\<close>

theorem failed_run_is_undone:
  assumes "journal_wf (jnl s)" and "journal_get (jnl s) i = None"
    and u: "undoable same (plan_steps p) (recorded_world h p i (world s))"
    and rolls: "plan_recovery p = RollBack" and e: "run h i p s = Err e t"
  shows "rows t = rows s \<and> i \<notin> op_ident ` set (unfinished (jnl t))
    \<and> (same (world t) (recorded_world h p i (world s))
         \<and> (\<exists>r. journal_get (jnl t) i = Some r \<and> op_state r \<in> {OpRolledBack, OpFailed})
       \<or> (\<exists>k key why. e = OperationUndo i k key why)
         \<and> undo_fails same (plan_steps p) (recorded_world h p i (world s))
         \<and> (\<exists>r. journal_get (jnl t) i = Some r \<and> op_state r = OpFailed)
         \<and> (\<exists>m. at_step same (plan_steps p) (recorded_world h p i (world s)) m (world t)
              \<and> acting (step_at (jnl t) i) = {..<m}))"
proof -
  let ?w = "recorded_world h p i (world s)"
  note end_err = endsD(2) [OF run_ends [OF assms(1,2) refl u] e]
  have sr: "same ?w ?w" using u by (simp add: undoable_def)
  have shut: "i \<notin> op_ident ` set (unfinished (jnl t))"
    if c: "closed_run i st (rows s) A (world t) t" and st: "st \<in> {OpRolledBack, OpFailed}" for st A
  proof -
    from c obtain r where r: "journal_get (jnl t) i = Some r" "op_state r = st" and wf: "journal_wf (jnl t)"
      by (auto simp: closed_run_def)
    have "q = r" if "q \<in> set (ops (jnl t))" "op_ident q = i" for q
      using that journal_get_in [OF wf that(1)] r(1) by simp
    then show ?thesis using r st by (auto simp: unfinished_def)
  qed
  have closed: ?thesis if "closed_run i st (rows s) {} (world t) t" "st \<in> {OpRolledBack, OpFailed}" "same (world t) ?w" for st
    using that shut [OF that(1,2)] by (auto simp: closed_run_def)
  consider "taken_back same ?w i OpRolledBack (rows s) t" | "closed_run i OpFailed (rows s) {} ?w t"
    | "(\<exists>k key why. e = OperationUndo i k key why)" "left_failed same (plan_steps p) ?w i (rows s) t"
      "undo_fails same (plan_steps p) ?w"
    using end_err rolls by (auto simp: stopped_with_def refused_before_def)
  then show ?thesis
  proof cases
    case 1
    then show ?thesis using closed [of OpRolledBack] by (auto simp: taken_back_def)
  next
    case 2
    then have w: "world t = ?w" by (simp add: closed_run_def)
    with 2 show ?thesis using closed [of OpFailed] sr by simp
  next
    case 3
    then obtain m where m: "at_step same (plan_steps p) ?w m (world t)"
      "closed_run i OpFailed (rows s) {..<m} (world t) t" by (auto simp: left_failed_def)
    with shut [OF m(2)] 3 show ?thesis by (auto simp: closed_run_def)
  qed
qed

subsection \<open>What a clean-up does not touch\<close>

definition untouched :: "journal \<Rightarrow> op_id \<Rightarrow> ('w, 'r) sys \<Rightarrow> bool" where
  "untouched j0 i s \<longleftrightarrow> journal_get (jnl s) i = journal_get j0 i \<and> step_at (jnl s) i = step_at j0 i"

lemma untouched_mark:
  assumes "k \<noteq> i"
  shows "keeps (untouched j0 i) (mark k pos key st out)"
proof (rule keepsI)
  fix s :: "('a, 'b) sys" assume u: "untouched j0 i s"
  have "step_at j i = step_at (jnl s) i \<and> journal_get j i = journal_get (jnl s) i"
    if "mark_step (jnl s) k r = Inr j" for j r
    using that assms get_mark [OF that] by (simp add: step_at_mark)
  with u show "untouched j0 i (final (mark k pos key st out s))"
    by (auto simp: untouched_def mark_def bindA_def spend_def split: sum.split)
qed

lemma untouched_finish:
  assumes "k \<noteq> i"
  shows "journal_get (fst (journal_finish j k st at)) i = journal_get j i"
proof -
  have "map_option (finish_row k st at) (journal_get j i) = journal_get j i"
    using assms journal_get_Some [of j i] by (cases "journal_get j i") (auto simp: finish_row_def)
  then show ?thesis by (simp add: get_finish)
qed

lemma untouched_close:
  assumes "k \<noteq> i"
  shows "keeps (untouched j0 i) (close_run k kind st)"
proof (rule keepsI)
  fix s :: "('a, 'b) sys" assume u: "untouched j0 i s"
  obtain j b where f: "journal_finish (jnl s) k st (clock s) = (j, b)" by (cases "journal_finish (jnl s) k st (clock s)")
  with untouched_finish [OF assms, of "jnl s" st "clock s"] acting_finish [of "jnl s" k st "clock s"] u
  show "untouched j0 i (final (close_run k kind st s))"
    by (cases b) (simp_all add: untouched_def close_run_def bindA_def spend_def)
qed

interpretation other: effect_invariant "\<lambda>k s. k \<noteq> i \<longrightarrow> untouched j0 i s" for j0 i
proof unfold_locales
  show "keeps (\<lambda>s. k \<noteq> i \<longrightarrow> untouched j0 i s) (mark k pos key st out)" for k pos key st out
    using untouched_mark [of k i j0 pos key st out] by (cases "k = i") (simp_all add: keeps_def)
  show "keeps (\<lambda>s. k \<noteq> i \<longrightarrow> untouched j0 i s) (close_run k kd os)" for k kd os
    using untouched_close [of k i j0 kd os] by (cases "k = i") (simp_all add: keeps_def)
qed (simp add: untouched_def)

lemma untouched_commit:
  assumes "k \<noteq> i"
  shows "keeps (untouched j0 i) (commit_run k p outs)"
proof (rule keepsI)
  fix s :: "('a, 'b) sys" assume u: "untouched j0 i s"
  obtain j b where f: "journal_finish (jnl s) k OpCommitted (clock s) = (j, b)"
    by (cases "journal_finish (jnl s) k OpCommitted (clock s)")
  with untouched_finish [OF assms, of "jnl s" OpCommitted "clock s"] acting_finish [of "jnl s" k OpCommitted "clock s"] u
  show "untouched j0 i (final (commit_run k p outs s))"
    by (cases b) (auto simp: untouched_def commit_run_def bindA_def spend_def split: sum.split)
qed

lemma untouched_resolve_one:
  assumes "op_ident r = i \<longrightarrow> owner_state (h_kill h) (op_owner r) (h_owner h) \<noteq> Gone"
  shows "keeps (untouched j0 i) (resolve_one h rebuilders r)"
proof (rule keepsI)
  fix s :: "('a, 'b) sys" assume u: "untouched j0 i s"
  show "untouched j0 i (final (resolve_one h rebuilders r s))"
  proof (cases "owner_state (h_kill h) (op_owner r) (h_owner h) = Gone")
    case False
    then show ?thesis using u by (cases "owner_state (h_kill h) (op_owner r) (h_owner h)") (simp_all add: resolve_one_def)
  next
    case True
    with assms have ne: "op_ident r \<noteq> i" by blast
    have rb: "untouched j0 i (final (roll_back h (op_ident r) p s))" for p
      using keepsD [OF other.keeps_roll_back, of "op_ident r" i j0 s h p] ne u by simp
    have rs: "untouched j0 i (final (resume h (op_ident r) p s))" for p
    proof -
      have last: "keeps (untouched j0 i) (case a of (outs, applied) \<Rightarrow>
          bindA (commit_run (op_ident r) p outs) (\<lambda>_. retA (Resumed applied)))" for a
        by (cases a) (auto intro!: keeps_intros untouched_commit ne)
      have steps: "keeps (untouched j0 i) (resume_steps h (op_ident r) p f 0 xs outs [])" for f xs outs
        using other.keeps_resume_steps [of "op_ident r" i j0 h p f 0 xs outs "[]"] ne by (simp add: keeps_def)
      have "keeps (untouched j0 i) (bindA (resume_steps h (op_ident r) p f 0 xs outs [])
          (\<lambda>(outs, applied). bindA (commit_run (op_ident r) p outs) (\<lambda>_. retA (Resumed applied))))" for f xs outs
        by (rule keeps_bindA [OF steps]) (use last in simp)
      from keepsD [OF this u] show ?thesis by (simp add: resume_def)
    qed
    show ?thesis
      using True rb rs u
      by (auto simp: resolve_one_def take_over_def split: option.split sum.split recovery.split)
  qed
qed

text \<open>
  C12. A clean-up leaves a live run alone. A run whose process is alive, or which another host
  started, keeps its row and every row of its steps through the whole of a \<open>resolve\<close>, however
  the clean-up of the others ends and wherever it is killed.
\<close>

theorem resolve_leaves_live_runs:
  assumes live: "\<And>r. r \<in> set (unfinished (jnl s)) \<Longrightarrow> op_ident r = i
      \<Longrightarrow> owner_state (h_kill h) (op_owner r) (h_owner h) \<noteq> Gone"
  shows "journal_get (jnl (final (resolve h rebuilders s))) i = journal_get (jnl s) i
    \<and> step_at (jnl (final (resolve h rebuilders s))) i = step_at (jnl s) i"
proof -
  have loop: "keeps (untouched (jnl s) i) (resolve_loop h rebuilders rs acc)"
    if "\<And>r. r \<in> set rs \<Longrightarrow> op_ident r = i \<Longrightarrow> owner_state (h_kill h) (op_owner r) (h_owner h) \<noteq> Gone" for rs acc
    using that
  proof (induction rs arbitrary: acc)
    case Nil
    then show ?case by (simp add: keeps_def)
  next
    case (Cons r rs)
    then show ?case by (auto intro!: keeps_bindA untouched_resolve_one)
  qed
  have "keeps (untouched (jnl s) i) (resolve_loop h rebuilders (unfinished (jnl s)) [])"
    by (rule loop) (rule live)
  from keepsD [OF this, of s] show ?thesis
    by (simp add: untouched_def resolve_def)
qed

subsection \<open>A resume that fails, and a failure that is kept\<close>

lemma resume_keeps_ops: "keeps (\<lambda>s. ops (jnl s) = o0) (resume_steps h i p finished k sts outs ks)"
proof -
  have m: "keeps (\<lambda>s. ops (jnl s) = o0) (mark i pos key st out)" for pos key st out
    using mark_keeps_ops by (fastforce simp: keeps_def mark_def bindA_def spend_def split: sum.split)
  have a: "keeps (\<lambda>s. ops (jnl s) = o0) (do_apply st)" for st :: "'a step"
    by (auto simp: keeps_def do_apply_def bindA_def spend_def split: prod.splits sum.splits)
  have po: "keeps (\<lambda>s. ops (jnl s) = o0) (position_of k)" for k
    by (auto simp: keeps_def position_of_def split: if_splits)
  show ?thesis
  proof (induction sts arbitrary: k outs ks)
    case Nil
    then show ?case by (simp add: keeps_def)
  next
    case (Cons st sts)
    show ?case unfolding resume_steps.simps
      by (rule keeps_bindA [OF po]) (use Cons m a in \<open>auto intro!: keeps_intros\<close>)
  qed
qed

lemma resume_err_ops:
  assumes "resume h i p s = Err e t"
  shows "ops (jnl t) = ops (jnl s)"
proof -
  let ?m = "resume_steps h i p (applied_keys (jnl s) i) 0 (plan_steps p) (journal_outputs (jnl s) i) []"
  have k: "ops (jnl (final (?m s))) = ops (jnl s)"
    using keepsD [OF resume_keeps_ops [of "ops (jnl s)"]] by blast
  show ?thesis
  proof (cases "?m s")
    case (Ret a u)
    obtain outs applied where a: "a = (outs, applied)" by fastforce
    from assms Ret a have "bindA (commit_run i p outs) (\<lambda>_. retA (Resumed applied)) u = Err e t"
      by (simp add: resume_def bindA_def)
    then have "commit_run i p outs u = Err e t" by (cases "commit_run i p outs u") (auto simp: bindA_def)
    then have "jnl t = jnl u"
      by (auto simp: commit_run_def bindA_def spend_def split: sum.splits prod.splits bool.splits if_splits)
    with Ret k show ?thesis by simp
  qed (use assms k in \<open>auto simp: resume_def bindA_def\<close>)
qed

lemma resolve_loop_append:
  "resolve_loop h rebuilders (rs @ rs') acc = bindA (resolve_loop h rebuilders rs acc) (resolve_loop h rebuilders rs')"
proof (induction rs arbitrary: acc)
  case Nil
  then show ?case by (simp add: bindA_def fun_eq_iff)
next
  case (Cons r rs)
  then show ?case by (simp add: bindA_def fun_eq_iff split: outcome.split)
qed

text \<open>
  C24. One run that cannot be carried on stops the clean-up. Where the runs before it were dealt
  with, a run the clean-up resumes whose resume fails, at any of its steps or at the commit,
  ends the whole of \<open>resolve\<close> with its error: it keeps its own row, and every run after it keeps its row and
  the rows of its steps and still runs in the journal, whatever its own recovery would have done.
\<close>

theorem stuck_resume_stops_resolve:
  assumes un: "unfinished (jnl s) = before @ r # rest" and wf: "journal_wf (jnl s)"
    and dealt: "resolve_loop h rebuilders before [] s = Ret acc u"
    and rec: "recovers h rebuilders r p" and "op_recovery r = Resume"
    and stuck: "resume h (op_ident r) p u = Err e t"
  shows "resolve h rebuilders s = Err e t \<and> journal_get (jnl t) (op_ident r) = Some r
    \<and> (\<forall>q \<in> set rest. journal_get (jnl t) (op_ident q) = Some q \<and> q \<in> set (unfinished (jnl t))
         \<and> step_at (jnl t) (op_ident q) = step_at (jnl s) (op_ident q))"
proof -
  have d: "distinct (map op_ident (before @ r # rest))"
    using wf unfolding un [symmetric] unfinished_def journal_wf_def by (auto simp: distinct_map inj_on_def)
  have get: "journal_get (jnl s) (op_ident q) = Some q" "op_state q = OpRunning" if "q \<in> set (before @ r # rest)" for q
    using that wf unfolding un [symmetric] unfinished_def by (auto intro: journal_get_in)
  have one: "resolve_one h rebuilders r u = Err e t"
    using resolve_one_recovers [OF rec] assms(5) stuck by simp
  have whole: "resolve h rebuilders s = Err e t"
    using resolve_loop_append [of h rebuilders before "r # rest" "[]"] dealt one
    by (simp add: resolve_def un bindA_def)
  have bef: "keeps (untouched (jnl s) (op_ident q)) (resolve_loop h rebuilders rs acc)"
    if "op_ident q \<notin> op_ident ` set rs" for q rs acc
    using that
  proof (induction rs arbitrary: acc)
    case Nil
    then show ?case by (simp add: keeps_def)
  next
    case (Cons b bs)
    then show ?case by (auto intro!: keeps_bindA untouched_resolve_one)
  qed
  have at_u: "untouched (jnl s) (op_ident q) u" if "q \<in> set (r # rest)" for q
  proof -
    have "op_ident q \<notin> op_ident ` set before" using d that by (auto simp: distinct_map)
    from keepsD [OF bef [OF this, of "[]"], of s] show ?thesis using dealt by (simp add: untouched_def)
  qed
  have kept: "journal_get (jnl t) (op_ident q) = Some q" if "q \<in> set (r # rest)" for q
    using at_u [OF that] resume_err_ops [OF stuck] get(1) [of q] that
    by (auto simp: untouched_def journal_get_def)
  have "step_at (jnl t) (op_ident q) = step_at (jnl s) (op_ident q)" if "q \<in> set rest" for q
  proof -
    have "op_ident r = op_ident q \<longrightarrow> owner_state (h_kill h) (op_owner r) (h_owner h) \<noteq> Gone" using d that by force
    from keepsD [OF untouched_resolve_one [OF this], of "jnl s" u rebuilders] at_u [of q] that one
    show ?thesis by (simp add: untouched_def)
  qed
  moreover have "q \<in> set (unfinished (jnl t))" if "q \<in> set rest" for q
    using kept [of q] get(2) [of q] that journal_get_Some [of "jnl t" "op_ident q" q] by (auto simp: unfinished_def)
  ultimately show ?thesis using whole kept by simp
qed

lemma outputs_fold_other:
  "k \<notin> sr_key ` set xs \<Longrightarrow>
     fold (\<lambda>r m. case sr_output r of Some out \<Rightarrow> outputs_record m (sr_key r) out | None \<Rightarrow> m) xs m k = m k"
  by (induction xs arbitrary: m) (auto split: option.split)

lemma outputs_fold:
  assumes "distinct (map sr_key xs)" and "n \<in> set xs" and "sr_output n = Some v" and "\<not> is_null v"
  shows "fold (\<lambda>r m. case sr_output r of Some out \<Rightarrow> outputs_record m (sr_key r) out | None \<Rightarrow> m) xs m (sr_key n)
    = Some v"
proof -
  from split_list [OF assms(2)] obtain a b where xs: "xs = a @ n # b" by blast
  with assms(1) have "sr_key n \<notin> sr_key ` set b" by auto
  from outputs_fold_other [OF this] show ?thesis using assms(3,4) by (simp add: xs outputs_record_def)
qed

text \<open>
  What a step that failed and was kept is read back as saying, once it was carried on and said
  nothing: the record of the failure is in the column of the outputs, and a later write
  of nothing keeps it. A resume that finds the step applied starts from those outputs.
\<close>

lemma kept_failure_is_read_as_output:
  assumes "keep h i pos key why s = Ret () s1"
    and "journal_wf (jnl s2)" and "step_rows (jnl s2) = step_rows (jnl s1)"
    and "mark i pos key Applied (Some nothing) s2 = Ret () s3"
  shows "\<exists>r. step_at (jnl s3) i pos = Some r \<and> sr_state r = Applied \<and> sr_key r = key
    \<and> sr_output r = Some (JObj [(''failed'', JStr (h_render h why))])
    \<and> (distinct (map sr_key (journal_steps (jnl s3) i))
        \<longrightarrow> journal_outputs (jnl s3) i key = Some (JObj [(''failed'', JStr (h_render h why))]))"
proof -
  let ?f = "JObj [(''failed'', JStr (h_render h why))]"
  let ?r = "\<lparr>sr_position = pos, sr_key = key, sr_state = Applying, sr_output = Some ?f, sr_updated = clock s\<rparr>"
  let ?r' = "\<lparr>sr_position = pos, sr_key = key, sr_state = Applied, sr_output = None, sr_updated = clock s2\<rparr>"
  obtain j where j: "mark_step (jnl s) i ?r = Inr j" and s1: "step_rows (jnl s1) = step_rows j"
    using assms(1)
    by (auto simp: keep_def mark_def close_run_def bindA_def spend_def journal_finish_def
        split: sum.splits if_splits bool.splits prod.splits)
  have "step_at (jnl s2) i pos = step_at j i pos" using assms(3) s1 by (simp add: step_at_def)
  also have "\<dots> = Some ?r" using step_at_mark_row [OF j, of i pos] by simp
  finally have old: "step_at (jnl s2) i pos = Some ?r" .
  obtain j3 where j3: "mark_step (jnl s2) i ?r' = Inr j3" and s3: "jnl s3 = j3"
    using assms(4) by (auto simp: mark_def bindA_def spend_def nothing_def split: sum.splits if_splits)
  let ?new = "?r'\<lparr>sr_output := Some ?f\<rparr>"
  have new: "step_at (jnl s3) i pos = Some ?new"
    using step_at_mark_row [OF j3, of i pos] old s3 by simp
  have wf: "journal_wf (jnl s3)" using wf_mark [OF assms(2) j3] s3 by simp
  have mem: "?new \<in> set (journal_steps (jnl s3) i)"
    using set_journal_steps [OF wf, of ?new i] new by simp
  have "journal_outputs (jnl s3) i key = Some ?f" if d: "distinct (map sr_key (journal_steps (jnl s3) i))"
  proof -
    let ?xs = "filter (\<lambda>r. sr_state r = Applied) (journal_steps (jnl s3) i)"
    have "distinct (map sr_key ?xs)" using d by (rule distinct_map_filter)
    moreover have "?new \<in> set ?xs" using mem by simp
    ultimately show ?thesis using outputs_fold [of ?xs ?new ?f Map.empty] by (simp add: journal_outputs_def)
  qed
  with new show ?thesis by simp
qed

end
