(* ===== verification/Examples.thy ===== *)
theory Examples
  imports Resolution
begin

text \<open>
  One small machine and one plan on it, at which the properties of the runner are applied:
  a home with one file, moved to a trash directory that is not there yet by the step
  \<open>TrashHome\<close> of a reclaim, and a registry that counts the reclaims.
\<close>

definition ex_machine :: machine where
  "ex_machine = \<lparr>m_tree = [([], Dir), ([''h''], Dir), ([''h'', ''f''], File ''x'')],
     m_mount = (\<lambda>_. 0), m_denied = (\<lambda>_ _. None), m_unmade = (\<lambda>_. None), m_table = Inr []\<rparr>"

definition ex_home :: occupancy where
  "ex_home = \<lparr>oc_slug = ''a'', oc_own = \<lparr>own_unit = ''u'', own_groups = [], own_wrappers = []\<rparr>, oc_home = [''h'']\<rparr>"

abbreviation ex_trash :: path where "ex_trash \<equiv> [''t'', ''h'']"

definition ex_step :: "machine step" where
  "ex_step = trash_home (\<lambda>_ _ _. no_runtime) (\<lambda>_. JStr ''read'') ex_home ex_trash True 0"

definition ex_plan :: "recovery \<Rightarrow> (machine, nat) plan" where
  "ex_plan rc = recovering (then_step (new_plan ''reclaim'' ''a'' JNull (\<lambda>r _. Inr (JNull, Suc r))) ex_step) rc"

definition ex_host :: "nat \<Rightarrow> machine host" where
  "ex_host pid = \<lparr>h_owner = \<lparr>own_host = ''m'', own_pid = pid\<rparr>, h_kill = (\<lambda>_. Errno 3),
     h_is_dir = (\<lambda>_ _. True), h_opens = (\<lambda>_ _. True), h_snapshot = (\<lambda>w _ _ _. (Inr None, w)),
     h_render = (\<lambda>_. ''why''), h_ulid = (\<lambda>_. ''u'')\<rparr>"

definition ex_sys :: "nat \<Rightarrow> (machine, nat) sys" where
  "ex_sys n = \<lparr>world = ex_machine, rows = 0, jnl = \<lparr>ops = [], step_rows = []\<rparr>, clock = 0, life = n\<rparr>"

definition ex_row :: "recovery \<Rightarrow> operation" where
  "ex_row rc = \<lparr>op_ident = 1, op_kind = ''reclaim'', op_subject = ''a'', op_params = JNull,
     op_recovery = rc, op_state = OpRunning, op_host = ''m'', op_pid = 1, op_started = 0, op_ended = None\<rparr>"

definition ex_table :: "recovery \<Rightarrow> (machine, nat) rebuild list" where
  "ex_table rc = [(''reclaim'', \<lambda>_. Inr (ex_plan rc))]"

lemma ex_look: "look ex_machine p = map_of [([], Dir), ([''h''], Dir), ([''h'', ''f''], File ''x'')] p"
  by (simp add: look_def ex_machine_def)

lemma ex_reclaimable: "reclaimable (oc_home ex_home) ex_trash ex_machine"
  unfolding reclaimable_def tree_ok_def ex_look
  by (auto simp: ex_home_def strict_prefix_def prefix_Cons)

lemma ex_contract: "repeatable_step (beside ex_trash) ex_step (\<lambda>w. w = ex_machine)"
  unfolding ex_step_def
  by (rule repeatable_step_at [OF trash.repeatable_step_axioms ex_reclaimable])

lemma ex_plan_steps [simp]: "plan_steps (ex_plan rc) = [ex_step]"
  and ex_plan_rest [simp]: "plan_kind (ex_plan rc) = ''reclaim''" "plan_recovery (ex_plan rc) = rc"
    "plan_records (ex_plan rc) = None" "plan_subject (ex_plan rc) = ''a''" "plan_params (ex_plan rc) = JNull"
    "plan_commit (ex_plan rc) = (\<lambda>r _. Inr (JNull, Suc r))"
  by (simp_all add: ex_plan_def recovering_def then_step_def new_plan_def)

lemma ex_undoable: "undoable (beside ex_trash) (plan_steps (ex_plan rc)) ex_machine"
  using repeatable_step.axioms(1) [OF ex_contract] by (simp add: undoable_def)

lemma ex_fresh [simp]: "journal_wf (jnl (ex_sys n))" "journal_get (jnl (ex_sys n)) i = None"
    "world (ex_sys n) = ex_machine" "rows (ex_sys n) = 0"
  by (simp_all add: ex_sys_def journal_wf_def journal_get_def)

lemma ex_recovers: "recovers (ex_host 2) (ex_table rc) (ex_row rc) (ex_plan rc)"
  by (simp add: recovers_def ex_host_def ex_table_def ex_row_def op_owner_def owner_state_Gone_iff
      is_running_def EPERM_def)

lemma ex_undo_never: "\<not> undo_fails (beside ex_trash) [ex_step] ex_machine"
  unfolding undo_fails_def ex_step_def
  using trash_undo_succeeds [OF ex_reclaimable]
  by (auto simp: less_Suc_eq ex_machine_def) (metis fst_conv option.distinct(1))

text \<open>The step, run: the home is in the trash, and the answer is the reading.\<close>

definition ex_moved :: machine where
  "ex_moved = snd (step_apply ex_step ex_machine)"

lemma ex_apply: "step_apply ex_step ex_machine = (Inr (JStr ''read''), ex_moved)"
  by (simp add: ex_moved_def ex_step_def trash_home_def ex_home_def ex_machine_def recorded_def move_tree_def
      ancestors_def look_def rename_def upt_rec)

lemma ex_undo: "fst (step_undo ex_step ex_moved) = None"
  unfolding ex_moved_def
  by (simp add: ex_step_def trash_home_def ex_home_def ex_machine_def recorded_def move_tree_def
      ancestors_def look_def rename_def moved_def prefix_Cons upt_rec)

text \<open>A process that is killed between the move and the record of it.\<close>

definition ex_killed :: "recovery \<Rightarrow> (machine, nat) sys" where
  "ex_killed rc = final (run (ex_host 1) 1 (ex_plan rc) (ex_sys 4))"

lemma ex_run_killed: "run (ex_host 1) 1 (ex_plan rc) (ex_sys 4) = Halt (ex_killed rc)"
  and ex_killed_row: "ex_row rc \<in> set (unfinished (jnl (ex_killed rc)))"
  unfolding ex_killed_def
  by (simp_all add: run_def start_run_def bindA_def matchA_def spend_def journal_start_def ex_sys_def journal_get_def
      record_home_def position_of_def mark_def mark_step_def do_apply_def ex_apply ex_host_def ex_row_def
      unfinished_def retA_def)

subsection \<open>The properties of the runner at this run\<close>

theorem killed_run_is_taken_back_witness:
  "\<exists>ks t'. resolve_one (ex_host 2) (ex_table RollBack) (ex_row RollBack) ((ex_killed RollBack)\<lparr>life := 4\<rparr>)
       = Ret (RolledBack ks) t'
     \<and> beside ex_trash (world t') ex_machine \<and> rows t' = 0
     \<and> (\<exists>r'. journal_get (jnl t') 1 = Some r' \<and> op_state r' = OpRolledBack)"
proof -
  have k: "interrupted (ex_host 1) (ex_plan RollBack) 1 (ex_sys 4) (ex_killed RollBack)"
    by (rule run_killed [OF ex_run_killed])
  have b: "begun_in (ex_host 1) (ex_plan RollBack) 1 (world (ex_sys 4)) = {ex_machine}"
    by (simp add: begun_in_unrecorded)
  have u: "undoable (beside ex_trash) (plan_steps (ex_plan RollBack)) w0"
    if "w0 \<in> begun_in (ex_host 1) (ex_plan RollBack) 1 (world (ex_sys 4))" for w0
    using that ex_undoable [of RollBack] unfolding b by simp
  have "\<exists>a t' r'. resolve_one (ex_host 2) (ex_table RollBack) (ex_row RollBack) ((ex_killed RollBack)\<lparr>life := 4\<rparr>) = Ret a t'
      \<and> rows t' = rows (ex_sys 4) \<and> journal_get (jnl t') 1 = Some r'
      \<and> (case a of
         RolledBack ks \<Rightarrow> op_state r' = OpRolledBack \<and> (\<exists>w0 \<in> {ex_machine}. beside ex_trash (world t') w0)
       | ActFailed key why \<Rightarrow> op_state r' = OpFailed
           \<and> (\<exists>w0 \<in> {ex_machine}. undo_fails (beside ex_trash) (plan_steps (ex_plan RollBack)) w0)
       | _ \<Rightarrow> False)"
    using killed_run_is_taken_back [OF k _ _ u ex_killed_row _ _ ex_recovers, of 4] unfolding b by (simp add: ex_row_def)
  then obtain a t' r' where t: "resolve_one (ex_host 2) (ex_table RollBack) (ex_row RollBack) ((ex_killed RollBack)\<lparr>life := 4\<rparr>) = Ret a t'"
    "rows t' = rows (ex_sys 4)" "journal_get (jnl t') 1 = Some r'"
    and a: "case a of
         RolledBack ks \<Rightarrow> op_state r' = OpRolledBack \<and> (\<exists>w0 \<in> {ex_machine}. beside ex_trash (world t') w0)
       | ActFailed key why \<Rightarrow> op_state r' = OpFailed
           \<and> (\<exists>w0 \<in> {ex_machine}. undo_fails (beside ex_trash) (plan_steps (ex_plan RollBack)) w0)
       | _ \<Rightarrow> False" by blast
  from a have "\<exists>ks. a = RolledBack ks" using ex_undo_never by (cases a) simp_all
  with t a show ?thesis by auto
qed

theorem killed_run_is_resumed_witness:
  "\<exists>ks t'. resolve_one (ex_host 2) (ex_table Resume) (ex_row Resume) ((ex_killed Resume)\<lparr>life := 5\<rparr>)
       = Ret (Resumed ks) t'
     \<and> rows t' = 1 \<and> beside ex_trash (world t') ex_moved
     \<and> (\<exists>r'. journal_get (jnl t') 1 = Some r' \<and> op_state r' = OpCommitted)"
proof -
  have k: "forward_interrupted (ex_plan Resume) 1 (ex_sys 4) (ex_killed Resume)"
    by (rule first_killed [OF ex_run_killed])
  have sc: "succeeds (beside ex_trash) (plan_steps (ex_plan Resume)) (world (ex_sys 4)) (\<lambda>_. JStr ''read'')"
    using ex_contract by (simp add: succeeds_def ex_apply)
  show ?thesis
    using killed_run_is_resumed [OF k _ _ _ sc _ ex_killed_row _ _ ex_recovers, of JNull 1 5]
    by (simp add: ex_row_def world_after_def ex_apply)
qed

theorem run_all_or_nothing_witness:
  "journal_get (jnl (ex_sys 9)) 1 = None
   \<and> ends (run (ex_host 1) 1 (ex_plan RollBack) (ex_sys 9))
    (\<lambda>d t. Inr (JNull, Suc 0) = (Inr (done_committed d, rows t) :: error + json \<times> nat))
    (\<lambda>_ t. rows t = 0) (\<lambda>t. rows t = 0)"
proof
  show f: "journal_get (jnl (ex_sys 9)) 1 = None" by simp
  show "ends (run (ex_host 1) 1 (ex_plan RollBack) (ex_sys 9))
    (\<lambda>d t. Inr (JNull, Suc 0) = (Inr (done_committed d, rows t) :: error + json \<times> nat))
    (\<lambda>_ t. rows t = 0) (\<lambda>t. rows t = 0)"
    by (rule ends_mono [OF run_all_or_nothing [OF f]]) simp_all
qed

text \<open>The same plan, whose commit the registry refuses.\<close>

definition ex_refused :: "(machine, nat) plan" where
  "ex_refused = (ex_plan RollBack)\<lparr>plan_commit := \<lambda>_ _. Inl (Store ''full'')\<rparr>"

lemma ex_refused_fails: "\<exists>t. run (ex_host 1) 1 ex_refused (ex_sys 20) = Err (Store ''full'') t"
proof -
  obtain bk where bk: "step_undo ex_step ex_moved = (None, bk)"
    using ex_undo by (metis prod.collapse)
  show ?thesis
    by (simp add: ex_refused_def run_def start_run_def bindA_def matchA_def spend_def journal_start_def ex_sys_def
        journal_get_def record_home_def position_of_def mark_def mark_step_def do_apply_def ex_apply ex_host_def
        retA_def commit_run_def undo_applied_def undo_steps_def acted_positions_def journal_steps_def
        do_undo_def bk close_run_def journal_finish_def finish_row_def raiseA_def)
qed

theorem failed_run_is_undone_witness:
  "\<exists>t. run (ex_host 1) 1 ex_refused (ex_sys 20) = Err (Store ''full'') t
     \<and> beside ex_trash (world t) ex_machine \<and> rows t = 0
     \<and> (\<exists>r. journal_get (jnl t) 1 = Some r \<and> op_state r \<in> {OpRolledBack, OpFailed})"
proof -
  obtain t where t: "run (ex_host 1) 1 ex_refused (ex_sys 20) = Err (Store ''full'') t"
    using ex_refused_fails by blast
  have w: "recorded_world (ex_host 1) ex_refused 1 (world (ex_sys 20)) = ex_machine"
    and s: "plan_steps ex_refused = [ex_step]" "plan_recovery ex_refused = RollBack"
    by (simp_all add: recorded_world_def ex_refused_def)
  have u: "undoable (beside ex_trash) (plan_steps ex_refused) (recorded_world (ex_host 1) ex_refused 1 (world (ex_sys 20)))"
    using ex_undoable w s by simp
  show ?thesis using failed_run_is_undone [OF _ _ u s(2) t] t w by simp
qed

text \<open>A registry with one run in it, which process 1 began and which no step has acted in.\<close>

definition ex_open :: "recovery \<Rightarrow> (machine, nat) sys" where
  "ex_open rc = (ex_sys 20)\<lparr>jnl := \<lparr>ops = [ex_row rc], step_rows = []\<rparr>\<rparr>"

theorem resolve_leaves_live_runs_witness:
  "journal_get (jnl (final (resolve (ex_host 1) (ex_table RollBack) (ex_open RollBack)))) 1
     = Some (ex_row RollBack)"
proof -
  have live: "owner_state (h_kill (ex_host 1)) (op_owner r) (h_owner (ex_host 1)) \<noteq> Gone"
    if "r \<in> set (unfinished (jnl (ex_open RollBack)))" "op_ident r = 1" for r
    using that by (simp add: ex_open_def unfinished_def ex_row_def op_owner_def ex_host_def owner_state_def)
  show ?thesis
    using resolve_leaves_live_runs [where s = "ex_open RollBack" and i = 1 and h = "ex_host 1"
        and rebuilders = "ex_table RollBack", OF live]
    by (simp add: ex_open_def journal_get_def ex_row_def)
qed

text \<open>The same step on a machine whose process table could not be read.\<close>

definition ex_stuck :: "machine step" where
  "ex_stuck = trash_home (\<lambda>_ _ _. no_runtime\<lparr>rt_bystanders := [new_standing 7 None]\<rparr>)
     (\<lambda>_. JStr ''read'') ex_home ex_trash False 0"

definition ex_stuck_plan :: "(machine, nat) plan" where
  "ex_stuck_plan = (ex_plan Resume)\<lparr>plan_steps := [ex_stuck]\<rparr>"

lemma resume_first_fails:
  assumes "journal_get (jnl s) i \<noteq> None" and "applied_keys (jnl s) i = []" and "plan_steps p = st # sts"
    and "step_apply st (world s) = (Inl e, w)" and "3 \<le> life s"
  shows "\<exists>t. resume h i p s = Err (OperationStep i (plan_kind p) (step_key st) e) t"
proof -
  let ?r = "\<lparr>sr_position = 0, sr_key = step_key st, sr_state = Applying, sr_output = None, sr_updated = clock s\<rparr>"
  from assms(1) obtain j where j: "mark_step (jnl s) i ?r = Inr j" by (auto simp: mark_step_def)
  with assms show ?thesis
    by (simp add: resume_def bindA_def matchA_def position_of_def mark_def spend_def do_apply_def)
qed

theorem stuck_resume_stops_resolve_witness:
  "\<exists>t. resolve (ex_host 2) [(''reclaim'', \<lambda>_. Inr ex_stuck_plan)] (ex_open Resume)
       = Err (OperationStep 1 ''reclaim'' ''home.trash'' (HomeInUse ''a'' [7])) t
     \<and> journal_get (jnl t) 1 = Some (ex_row Resume)"
proof -
  have un: "unfinished (jnl (ex_open Resume)) = [] @ ex_row Resume # []"
    by (simp add: ex_open_def unfinished_def ex_row_def)
  have wf: "journal_wf (jnl (ex_open Resume))" by (simp add: ex_open_def journal_wf_def)
  have rec: "recovers (ex_host 2) [(''reclaim'', \<lambda>_. Inr ex_stuck_plan)] (ex_row Resume) ex_stuck_plan"
    using ex_recovers [of Resume] by (simp add: recovers_def ex_table_def ex_row_def)
  have e: "step_apply ex_stuck (world (ex_open Resume)) = (Inl (HomeInUse ''a'' [7]), ex_machine)"
    by (simp add: ex_stuck_def trash_home_def recorded_def refuse_def unmovable_def no_runtime_def rt_unread_def
        new_standing_def ex_home_def ex_open_def)
  have row: "op_ident (ex_row Resume) = 1" "op_recovery (ex_row Resume) = Resume" by (simp_all add: ex_row_def)
  have "\<exists>t. resume (ex_host 2) 1 ex_stuck_plan (ex_open Resume)
      = Err (OperationStep 1 (plan_kind ex_stuck_plan) (step_key ex_stuck) (HomeInUse ''a'' [7])) t"
    by (rule resume_first_fails [OF _ _ _ e, of _ _ "[]"])
      (simp_all add: ex_stuck_plan_def applied_keys_def journal_steps_def ex_open_def ex_sys_def journal_get_def ex_row_def)
  moreover have "plan_kind ex_stuck_plan = ''reclaim''" "step_key ex_stuck = ''home.trash''"
    by (simp_all add: ex_stuck_plan_def ex_stuck_def trash_home_def)
  ultimately obtain t where t: "resume (ex_host 2) (op_ident (ex_row Resume)) ex_stuck_plan (ex_open Resume)
      = Err (OperationStep 1 ''reclaim'' ''home.trash'' (HomeInUse ''a'' [7])) t" unfolding row by auto
  have "resolve_loop (ex_host 2) [(''reclaim'', \<lambda>_. Inr ex_stuck_plan)] [] [] (ex_open Resume) = Ret [] (ex_open Resume)"
    by simp
  from stuck_resume_stops_resolve [OF un wf this rec row(2) t] show ?thesis unfolding row by blast
qed

theorem trash_moves_whole_witness:
  "(\<exists>w'. step_apply ex_step ex_machine = (Inr (JStr ''read''), w')
      \<and> in_trash (oc_home ex_home) ex_trash ex_machine w')
   \<and> (\<exists>w'. step_undo ex_step ex_moved = (None, w') \<and> beside ex_trash w' ex_machine)"
proof -
  note t = trash_moves_whole [OF ex_reclaimable ex_step_def]
  have "look ex_machine (oc_home ex_home) \<noteq> None" by (simp add: ex_look ex_home_def)
  moreover have m: "touched (beside ex_trash) ex_step ex_machine ex_moved"
    by (simp add: touched_def ex_apply)
  moreover obtain e w' where u: "step_undo ex_step ex_moved = (e, w')" by fastforce
  have "e = None"
    using trash_undo_succeeds [OF ex_reclaimable _ m [unfolded ex_step_def]] u
    by (simp add: ex_machine_def flip: ex_step_def)
  ultimately show ?thesis using t u by (simp add: ex_apply)
qed

end
