(* ===== verification/Text.thy ===== *)
theory Text
  imports Prelude
begin

text \<open>
  The string functions of the standard library the readers of remotes, records and tables
  use, over text of one byte below 128, with their equations for text that is printed.
\<close>

definition strip_prefix :: "string \<Rightarrow> string \<Rightarrow> string option" where
  "strip_prefix p s = (if prefix p s then Some (drop (length p) s) else None)"

definition strip_suffix :: "string \<Rightarrow> string \<Rightarrow> string option" where
  "strip_suffix p s = (if suffix p s then Some (take (length s - length p) s) else None)"

definition trim_end_char :: "char \<Rightarrow> string \<Rightarrow> string" where
  "trim_end_char c s = rev (dropWhile (\<lambda>x. x = c) (rev s))"

definition trim_char :: "char \<Rightarrow> string \<Rightarrow> string" where
  "trim_char c s = trim_end_char c (dropWhile (\<lambda>x. x = c) s)"

text \<open>\<open>split_once(pat)\<close> for a pattern that is a string, and \<open>rsplit_once(c)\<close>.\<close>

fun split_str :: "string \<Rightarrow> string \<Rightarrow> (string \<times> string) option" where
  "split_str p s =
     (if prefix p s then Some ([], drop (length p) s)
      else case s of [] \<Rightarrow> None | x # xs \<Rightarrow> map_option (\<lambda>(a, b). (x # a, b)) (split_str p xs))"

declare split_str.simps [simp del]

definition rsplit_once :: "char \<Rightarrow> string \<Rightarrow> (string \<times> string) option" where
  "rsplit_once c s = map_option (\<lambda>(b, a). (rev a, rev b)) (split_once c (rev s))"

definition to_lower :: "char \<Rightarrow> char" where
  "to_lower c = (if 65 \<le> (of_char c :: nat) \<and> (of_char c :: nat) \<le> 90 then char_of ((of_char c :: nat) + 32) else c)"

definition lower :: "string \<Rightarrow> string" where
  "lower s = map to_lower s"

text \<open>\<open>str::lines\<close>: the parts between newlines, the last one only if it is not empty.\<close>

definition chomp :: "string \<Rightarrow> string" where
  "chomp l = (case strip_suffix [CHR 0x0D] l of Some m \<Rightarrow> m | None \<Rightarrow> l)"

definition text_lines :: "string \<Rightarrow> string list" where
  "text_lines s =
     (let parts = split_char (CHR 0x0A) s
      in map chomp (if last parts = [] then butlast parts else parts))"

subsection \<open>Their equations\<close>

lemma strip_prefix_append [simp]: "strip_prefix p (p @ s) = Some s"
  by (simp add: strip_prefix_def)

lemma strip_prefix_Some: "strip_prefix p s = Some r \<longleftrightarrow> s = p @ r"
  by (auto simp: strip_prefix_def prefix_def)

lemma strip_suffix_append [simp]: "strip_suffix p (s @ p) = Some s"
  by (simp add: strip_suffix_def suffix_def)

lemma strip_suffix_None: "strip_suffix p s = None \<longleftrightarrow> \<not> suffix p s"
  by (simp add: strip_suffix_def)

lemma trim_end_char_id: "s = [] \<or> last s \<noteq> c \<Longrightarrow> trim_end_char c s = s"
  by (cases s rule: rev_cases) (simp_all add: trim_end_char_def)

lemma trim_end_char_snoc [simp]: "trim_end_char c (s @ [c]) = trim_end_char c s"
  by (simp add: trim_end_char_def)

lemma trim_char_id: "s = [] \<or> hd s \<noteq> c \<and> last s \<noteq> c \<Longrightarrow> trim_char c s = s"
  by (cases s) (auto simp: trim_char_def trim_end_char_id)

lemma split_str_here [simp]: "split_str p (p @ s) = Some ([], s)"
  by (subst split_str.simps) simp

text \<open>A pattern whose first character is not in the text before it is found where it stands.\<close>

lemma split_str_append: "p \<noteq> [] \<Longrightarrow> hd p \<notin> set a \<Longrightarrow> split_str p (a @ p @ s) = Some (a, s)"
  by (induction a) (simp, subst split_str.simps, cases p, auto)

lemma split_str_None: "hd p \<notin> set s \<Longrightarrow> p \<noteq> [] \<Longrightarrow> split_str p s = None"
proof (induction s)
  case Nil
  then show ?case by (subst split_str.simps) simp
next
  case (Cons x xs)
  then show ?case by (subst split_str.simps) (cases p, auto)
qed

lemma split_str_skip: "p \<noteq> [] \<Longrightarrow> hd p \<notin> set a
    \<Longrightarrow> split_str p (a @ s) = map_option (\<lambda>(b, c). (a @ b, c)) (split_str p s)"
proof (induction a)
  case Nil
  then show ?case by (cases "split_str p s") auto
next
  case (Cons x xs)
  then have "\<not> prefix p (x # xs @ s)" by (cases p) auto
  with Cons show ?case
    by (subst split_str.simps) (auto simp: option.map_comp comp_def split: prod.split intro!: option.map_cong)
qed

lemma rsplit_once_append [simp]: "c \<notin> set b \<Longrightarrow> rsplit_once c (a @ c # b) = Some (a, b)"
  by (simp add: rsplit_once_def)

lemma rsplit_once_None [simp]: "c \<notin> set s \<Longrightarrow> rsplit_once c s = None"
  by (simp add: rsplit_once_def)

lemma lower_simps [simp]: "lower [] = []" "lower (c # s) = to_lower c # lower s" "lower (s @ t) = lower s @ lower t"
  by (simp_all add: lower_def)

lemma to_lower_other: "\<not> (65 \<le> (of_char c :: nat) \<and> (of_char c :: nat) \<le> 90) \<Longrightarrow> to_lower c = c"
  unfolding to_lower_def by (rule if_not_P)

lemma trim_id: "s = [] \<or> \<not> is_space (hd s) \<and> \<not> is_space (last s) \<Longrightarrow> trim s = s"
proof (cases s rule: rev_cases)
  case (snoc ys y)
  assume "s = [] \<or> \<not> is_space (hd s) \<and> \<not> is_space (last s)"
  with snoc have e: "\<not> is_space (hd s)" "\<not> is_space y" by auto
  then have "trim_start s = s" using snoc by (simp add: trim_start_def) (metis dropWhile.simps(2) hd_Cons_tl snoc_eq_iff_butlast)
  with snoc e show ?thesis by (simp add: trim_def)
qed (simp add: trim_def trim_start_def)

text \<open>A list of lines that hold no line break is read back from its text.\<close>

definition plain_line :: "string \<Rightarrow> bool" where
  "plain_line l \<longleftrightarrow> CHR 0x0A \<notin> set l \<and> CHR 0x0D \<notin> set l"

lemma chomp_plain [simp]: "plain_line l \<Longrightarrow> chomp l = l"
  by (auto simp: chomp_def plain_line_def strip_suffix_def suffix_def split: option.split)

lemma split_char_lines:
  "list_all plain_line ls \<Longrightarrow> split_char (CHR 0x0A) (concat (map (\<lambda>l. l @ [CHR 0x0A]) ls)) = ls @ [[]]"
  by (induction ls) (simp_all add: plain_line_def split_char_append)

lemma text_lines_concat [simp]:
  "list_all plain_line ls \<Longrightarrow> text_lines (concat (map (\<lambda>l. l @ [CHR 0x0A]) ls)) = ls"
  by (simp add: text_lines_def split_char_lines list_all_iff map_idI)

end
