(* ===== verification/Remote.thy ===== *)
theory Remote
  imports Text
begin

text \<open>
  \<open>git/remote.rs\<close> and \<open>doctor/origin.rs\<close>: the two reductions of a remote's url. \<open>identity\<close> is
  asked of every line of a fetch record; \<open>normalize\<close> names the group a clone belongs to. Texts
  are over the code points 0 to 255, and the case of a host is that of its ASCII letters, the
  only ones a host name has.
\<close>

subsection \<open>\<open>git/remote.rs\<close>\<close>

definition host_of :: "string \<Rightarrow> string" where
  "host_of authority = lower (case rsplit_once (CHR ''@'') authority of Some (_, host) \<Rightarrow> host | None \<Rightarrow> authority)"

definition tidy_path :: "string \<Rightarrow> string" where
  "tidy_path p =
     (let path = trim_char (CHR ''/'') p
      in trim_end_char (CHR ''/'') (case strip_suffix ''.git'' path of Some q \<Rightarrow> q | None \<Rightarrow> path))"

definition scp_like :: "string \<Rightarrow> (string \<times> string) option" where
  "scp_like url =
     (case split_once (CHR '':'') url of
        None \<Rightarrow> None
      | Some (authority, path) \<Rightarrow> if CHR ''/'' \<in> set authority then None else Some (authority, path))"

definition split_url :: "string \<Rightarrow> string \<times> string" where
  "split_url url =
     (case split_str ''://'' url of
        Some (_, rest) \<Rightarrow>
          (case split_once (CHR ''/'') rest of
             Some (authority, path) \<Rightarrow> (host_of authority, path)
           | None \<Rightarrow> (host_of rest, []))
      | None \<Rightarrow>
          (case scp_like url of
             Some (authority, path) \<Rightarrow> (host_of authority, path)
           | None \<Rightarrow> ([], url)))"

definition identity :: "string \<Rightarrow> string option" where
  "identity url =
     (if trim url = [] then None
      else case split_url (trim url) of (host, p) \<Rightarrow>
        let path = tidy_path p
        in if host = [] then (if path \<noteq> [] then Some (CHR ''/'' # path) else None)
           else Some (if path = [] then host else host @ CHR ''/'' # path))"

subsection \<open>\<open>doctor/origin.rs\<close>\<close>

definition is_alpha :: "char \<Rightarrow> bool" where
  "is_alpha c \<longleftrightarrow> 97 \<le> (of_char (to_lower c) :: nat) \<and> (of_char (to_lower c) :: nat) \<le> 122"

definition strip_git :: "string \<Rightarrow> string" where
  "strip_git v =
     (let w = trim_end_char (CHR ''/'') v
      in case strip_suffix ''.git'' w of Some q \<Rightarrow> trim_end_char (CHR ''/'') q | None \<Rightarrow> w)"

definition scheme_rest :: "string \<Rightarrow> string option" where
  "scheme_rest url =
     (case split_str ''://'' url of
        None \<Rightarrow> None
      | Some (scheme, rest) \<Rightarrow>
          if scheme = [] \<or> rest = [] then None
          else if \<not> list_all is_alpha scheme then None else Some rest)"

definition scp_name :: "string \<Rightarrow> string option" where
  "scp_name url =
     (case split_once (CHR '':'') (case rsplit_once (CHR ''@'') url of Some (_, hp) \<Rightarrow> hp | None \<Rightarrow> url) of
        None \<Rightarrow> None
      | Some (host, path) \<Rightarrow>
          if host = [] \<or> CHR ''/'' \<in> set host \<or> path = [] then None
          else Some (lower host @ CHR ''/'' # strip_git path))"

definition host_port :: "string \<Rightarrow> string" where
  "host_port hp =
     (case rsplit_once (CHR '':'') hp of
        Some (host, port) \<Rightarrow>
          if list_all is_digit port
          then (if port \<in> {''22'', ''80'', ''443''} then lower host else lower host @ CHR '':'' # port)
          else lower hp
      | None \<Rightarrow> lower hp)"

definition host_path :: "string \<Rightarrow> string" where
  "host_path r =
     (let rest = (case rsplit_once (CHR ''@'') r of Some (_, hp) \<Rightarrow> hp | None \<Rightarrow> r);
          (hp, p) = (case split_once (CHR ''/'') rest of Some (h, p) \<Rightarrow> (h, p) | None \<Rightarrow> (rest, []));
          path = strip_git p
      in if path = [] then host_port hp else host_port hp @ CHR ''/'' # path)"

definition normalize :: "string \<Rightarrow> string" where
  "normalize url =
     (let t = trim url
      in case strip_prefix ''file://'' t of
           Some p \<Rightarrow> strip_git p
         | None \<Rightarrow>
             (case scheme_rest t of
                Some rest \<Rightarrow> host_path rest
              | None \<Rightarrow> (case scp_name t of Some name \<Rightarrow> name | None \<Rightarrow> strip_git t)))"

subsection \<open>One repository, spelled six ways\<close>

definition name_ok :: "string \<Rightarrow> bool" where
  "name_ok h \<longleftrightarrow> h \<noteq> [] \<and> list_all (\<lambda>c. c \<notin> {CHR ''/'', CHR '':'', CHR ''@''} \<and> \<not> is_space c) h"

definition path_ok :: "string \<Rightarrow> bool" where
  "path_ok p \<longleftrightarrow> p \<noteq> [] \<and> hd p \<noteq> CHR ''/'' \<and> last p \<noteq> CHR ''/'' \<and> \<not> suffix ''.git'' p
     \<and> list_all (\<lambda>c. c \<notin> {CHR '':'', CHR ''@''} \<and> \<not> is_space c) p"

definition spellings :: "string \<Rightarrow> string \<Rightarrow> string \<Rightarrow> string list" where
  "spellings user host p =
     [''https://'' @ host @ CHR ''/'' # p, ''https://'' @ host @ CHR ''/'' # p @ ''.git'',
      ''ssh://'' @ user @ CHR ''@'' # host @ CHR ''/'' # p @ ''.git'',
      user @ CHR ''@'' # host @ CHR '':'' # p, user @ CHR ''@'' # host @ CHR '':'' # p @ ''.git'',
      ''https://'' @ host @ CHR ''/'' # p @ ''.git/'']"

lemma name_ok_chars:
  assumes "name_ok h"
  shows "CHR ''/'' \<notin> set h" "CHR '':'' \<notin> set h" "CHR ''@'' \<notin> set h" "h \<noteq> []" "\<not> is_space (hd h)"
  using assms by (cases h; auto simp: name_ok_def list_all_iff)+

lemma path_ok_chars:
  assumes "path_ok p"
  shows "CHR '':'' \<notin> set p" "CHR ''@'' \<notin> set p" "p \<noteq> []" "hd p \<noteq> CHR ''/''" "last p \<noteq> CHR ''/''"
    "\<not> is_space (last p)" "\<not> suffix ''.git'' p"
  using assms by (cases p rule: rev_cases; auto simp: path_ok_def list_all_iff)+

lemma tidy_ok:
  assumes "path_ok p"
  shows "tidy_path p = p" "tidy_path (p @ ''.git'') = p" "tidy_path (p @ ''.git/'') = p"
    "strip_git p = p" "strip_git (p @ ''.git'') = p" "strip_git (p @ ''.git/'') = p"
proof -
  note c = path_ok_chars [OF assms]
  have e: "trim_end_char (CHR ''/'') p = p" using c by (simp add: trim_end_char_id)
  have g: "trim_end_char (CHR ''/'') (p @ ''.git'') = p @ ''.git''" by (simp add: trim_end_char_id)
  have gs: "trim_end_char (CHR ''/'') (p @ ''.git/'') = p @ ''.git''"
    using trim_end_char_snoc [of "CHR ''/''" "p @ ''.git''"] g by simp
  have d: "dropWhile (\<lambda>x. x = CHR ''/'') (p @ s) = p @ s" for s
    using c by (cases p) auto
  have n: "strip_suffix ''.git'' p = None" using c by (simp add: strip_suffix_None)
  show "tidy_path p = p" "tidy_path (p @ ''.git'') = p" "tidy_path (p @ ''.git/'') = p"
    using d [of "[]"] d [of "''.git''"] d [of "''.git/''"] by (simp_all add: tidy_path_def trim_char_def e g gs n)
  show "strip_git p = p" "strip_git (p @ ''.git'') = p" "strip_git (p @ ''.git/'') = p"
    by (simp_all add: strip_git_def e g gs n)
qed

lemma split_spellings:
  assumes h: "name_ok host" and u: "name_ok user" and r: "hd r \<noteq> CHR ''/''" "CHR '':'' \<notin> set r" "CHR ''@'' \<notin> set r"
  shows "split_url (''https://'' @ host @ CHR ''/'' # r) = (lower host, r)"
    "split_url (''ssh://'' @ user @ CHR ''@'' # host @ CHR ''/'' # r) = (lower host, r)"
    "split_url (user @ CHR ''@'' # host @ CHR '':'' # r) = (lower host, r)"
    "scheme_rest (''https://'' @ host @ CHR ''/'' # r) = Some (host @ CHR ''/'' # r)"
    "scheme_rest (''ssh://'' @ user @ CHR ''@'' # host @ CHR ''/'' # r) = Some (user @ CHR ''@'' # host @ CHR ''/'' # r)"
    "scheme_rest (user @ CHR ''@'' # host @ CHR '':'' # r) = None"
    "split_str ''://'' (user @ CHR ''@'' # host @ CHR '':'' # r) = None"
proof -
  note hc = name_ok_chars [OF h] and uc = name_ok_chars [OF u]
  have f: "split_str ''://'' (''https'' @ ''://'' @ s) = Some (''https'', s)"
    "split_str ''://'' (''ssh'' @ ''://'' @ s) = Some (''ssh'', s)" for s
    by (rule split_str_append; simp)+
  have at: "split_once (CHR ''/'') (host @ CHR ''/'' # r) = Some (host, r)"
    "split_once (CHR ''/'') (user @ CHR ''@'' # host @ CHR ''/'' # r) = Some (user @ CHR ''@'' # host, r)"
    using split_once_append [of "CHR ''/''" host r] split_once_append [of "CHR ''/''" "user @ CHR ''@'' # host" r] hc uc by auto
  have ho: "host_of host = lower host" "host_of (user @ CHR ''@'' # host) = lower host"
    using hc by (simp_all add: host_of_def)
  have n: "split_str ''://'' (user @ CHR ''@'' # host @ CHR '':'' # r) = None"
  proof -
    have "split_str ''://'' (CHR '':'' # r) = None"
      using r split_str_None [of "''://''" r] by (subst split_str.simps) (cases r; simp)
    with split_str_skip [of "''://''" "user @ CHR ''@'' # host" "CHR '':'' # r"] show ?thesis using hc uc by simp
  qed
  have s: "scp_like (user @ CHR ''@'' # host @ CHR '':'' # r) = Some (user @ CHR ''@'' # host, r)"
    using split_once_append [of "CHR '':''" "user @ CHR ''@'' # host" r] hc uc by (simp add: scp_like_def)
  show "split_url (''https://'' @ host @ CHR ''/'' # r) = (lower host, r)"
    "split_url (''ssh://'' @ user @ CHR ''@'' # host @ CHR ''/'' # r) = (lower host, r)"
    "split_url (user @ CHR ''@'' # host @ CHR '':'' # r) = (lower host, r)"
    using f at ho n s by (simp_all add: split_url_def)
  show "scheme_rest (''https://'' @ host @ CHR ''/'' # r) = Some (host @ CHR ''/'' # r)"
    "scheme_rest (''ssh://'' @ user @ CHR ''@'' # host @ CHR ''/'' # r) = Some (user @ CHR ''@'' # host @ CHR ''/'' # r)"
    "scheme_rest (user @ CHR ''@'' # host @ CHR '':'' # r) = None"
    "split_str ''://'' (user @ CHR ''@'' # host @ CHR '':'' # r) = None"
    using f n by (simp_all add: scheme_rest_def is_alpha_def to_lower_def)
qed

lemma normalize_spellings:
  assumes h: "name_ok host" and u: "name_ok user"
    and r: "r \<noteq> []" "hd r \<noteq> CHR ''/''" "CHR '':'' \<notin> set r" "CHR ''@'' \<notin> set r" "\<not> is_space (last r)" "strip_git r \<noteq> []"
  shows "normalize (''https://'' @ host @ CHR ''/'' # r) = lower host @ CHR ''/'' # strip_git r"
    "normalize (''ssh://'' @ user @ CHR ''@'' # host @ CHR ''/'' # r) = lower host @ CHR ''/'' # strip_git r"
    "normalize (user @ CHR ''@'' # host @ CHR '':'' # r) = lower host @ CHR ''/'' # strip_git r"
proof -
  note hc = name_ok_chars [OF h] and uc = name_ok_chars [OF u]
  note s = split_spellings [OF h u r(2,3,4)]
  have l: "last (user @ CHR ''@'' # host @ CHR '':'' # r) = last r" "last (host @ CHR ''/'' # r) = last r"
    "last (user @ CHR ''@'' # host @ CHR ''/'' # r) = last r" using r(1) by simp_all
  have f: "strip_prefix ''file://'' (user @ CHR ''@'' # host @ CHR '':'' # r) = None"
  proof -
    have "\<not> prefix ''file://'' (user @ CHR ''@'' # host @ CHR '':'' # r)"
    proof
      assume p: "prefix ''file://'' (user @ CHR ''@'' # host @ CHR '':'' # r)"
      then obtain x where "user @ CHR ''@'' # host @ CHR '':'' # r = ''file'' @ ''://'' @ x" by (auto simp: prefix_def)
      moreover have "split_str ''://'' (''file'' @ ''://'' @ x) = Some (''file'', x)"
        by (rule split_str_append) simp_all
      ultimately show False using s(7) by simp
    qed
    then show ?thesis by (simp add: strip_prefix_def)
  qed
  have p: "host_path (host @ CHR ''/'' # r) = lower host @ CHR ''/'' # strip_git r"
    "host_path (user @ CHR ''@'' # host @ CHR ''/'' # r) = lower host @ CHR ''/'' # strip_git r"
    using hc uc r rsplit_once_append [of "CHR ''@''" "host @ CHR ''/'' # r" user]
    by (simp_all add: host_path_def host_port_def)
  have n: "scp_name (user @ CHR ''@'' # host @ CHR '':'' # r) = Some (lower host @ CHR ''/'' # strip_git r)"
    using hc r rsplit_once_append [of "CHR ''@''" "host @ CHR '':'' # r" user]
    by (simp add: scp_name_def)
  have t: "trim (''https://'' @ host @ CHR ''/'' # r) = ''https://'' @ host @ CHR ''/'' # r"
    "trim (''ssh://'' @ user @ CHR ''@'' # host @ CHR ''/'' # r) = ''ssh://'' @ user @ CHR ''@'' # host @ CHR ''/'' # r"
    "trim (user @ CHR ''@'' # host @ CHR '':'' # r) = user @ CHR ''@'' # host @ CHR '':'' # r"
    using uc r l by (auto intro!: trim_id simp: is_space_def)
  show "normalize (''https://'' @ host @ CHR ''/'' # r) = lower host @ CHR ''/'' # strip_git r"
    "normalize (''ssh://'' @ user @ CHR ''@'' # host @ CHR ''/'' # r) = lower host @ CHR ''/'' # strip_git r"
    "normalize (user @ CHR ''@'' # host @ CHR '':'' # r) = lower host @ CHR ''/'' # strip_git r"
    using t s p n f by (simp_all add: normalize_def strip_prefix_def)
qed

lemma six_spellings:
  assumes h: "name_ok host" and u: "name_ok user" and p: "path_ok p" and url: "url \<in> set (spellings user host p)"
  shows "identity url = Some (lower host @ CHR ''/'' # p) \<and> normalize url = lower host @ CHR ''/'' # p"
proof -
  note pc = path_ok_chars [OF p] and hc = name_ok_chars [OF h] and uc = name_ok_chars [OF u]
  have r: "r \<noteq> []" "hd r \<noteq> CHR ''/''" "CHR '':'' \<notin> set r" "CHR ''@'' \<notin> set r" "\<not> is_space (last r)"
      "strip_git r = p" "tidy_path r = p"
    if "r \<in> {p, p @ ''.git'', p @ ''.git/''}" for r
    using that pc tidy_ok [OF p] by (auto simp: is_space_def)
  have id: "identity x = Some (lower host @ CHR ''/'' # p)"
    if "split_url x = (lower host, r)" "tidy_path r = p" "trim x = x" "x \<noteq> []" for x r
    using that hc(4) pc(3) by (simp add: identity_def lower_def)
  have t: "trim (''https://'' @ host @ CHR ''/'' # r) = ''https://'' @ host @ CHR ''/'' # r"
    "trim (''ssh://'' @ user @ CHR ''@'' # host @ CHR ''/'' # r) = ''ssh://'' @ user @ CHR ''@'' # host @ CHR ''/'' # r"
    "trim (user @ CHR ''@'' # host @ CHR '':'' # r) = user @ CHR ''@'' # host @ CHR '':'' # r"
    if "r \<noteq> []" "\<not> is_space (last r)" for r
    using that uc by (auto intro!: trim_id simp: is_space_def)
  have one: "identity x = Some (lower host @ CHR ''/'' # p) \<and> normalize x = lower host @ CHR ''/'' # p"
    if "r \<in> {p, p @ ''.git'', p @ ''.git/''}" "x \<in> {''https://'' @ host @ CHR ''/'' # r,
      ''ssh://'' @ user @ CHR ''@'' # host @ CHR ''/'' # r, user @ CHR ''@'' # host @ CHR '':'' # r}" for r x
  proof -
    note q = r [OF that(1)]
    note s = split_spellings [OF h u q(2,3,4)] and n = normalize_spellings [OF h u q(1-5)] and v = t [OF q(1,5)]
    have "identity x = Some (lower host @ CHR ''/'' # p)"
      using that(2) id [OF s(1) q(7) v(1)] id [OF s(2) q(7) v(2)] id [OF s(3) q(7) v(3)] by auto
    moreover have "normalize x = lower host @ CHR ''/'' # p" using that(2) n q(6) pc(3) by auto
    ultimately show ?thesis ..
  qed
  consider "url \<in> {''https://'' @ host @ CHR ''/'' # p, user @ CHR ''@'' # host @ CHR '':'' # p}"
    | "url \<in> {''https://'' @ host @ CHR ''/'' # p @ ''.git'', ''ssh://'' @ user @ CHR ''@'' # host @ CHR ''/'' # p @ ''.git'',
        user @ CHR ''@'' # host @ CHR '':'' # p @ ''.git''}"
    | "url = ''https://'' @ host @ CHR ''/'' # p @ ''.git/''"
    using url by (auto simp: spellings_def)
  then show ?thesis
    by cases (rule one [of p], simp, blast, rule one [of "p @ ''.git''"], simp, blast,
        rule one [of "p @ ''.git/''"], simp, blast)
qed

text \<open>
  The two reducers are not one. A url that writes the port every server listens on
  reduces to the bare host under \<open>normalize\<close> and keeps the port under \<open>identity\<close>, and a name
  already reduced is read as a directory when it is reduced again; so a checkout and a home
  that are clones of one remote under the one are not under the other.
\<close>

lemma reducers_differ_on_a_port:
  assumes h: "name_ok host" and u: "name_ok user" and p: "path_ok p"
  shows "normalize (''ssh://'' @ user @ CHR ''@'' # host @ '':22/'' @ p) = lower host @ CHR ''/'' # p
    \<and> identity (''ssh://'' @ user @ CHR ''@'' # host @ '':22/'' @ p) = Some (lower host @ '':22/'' @ p)
    \<and> identity (host @ CHR ''/'' # p) = Some (CHR ''/'' # host @ CHR ''/'' # p)"
proof (intro conjI)
  note pc = path_ok_chars [OF p] and hc = name_ok_chars [OF h] and uc = name_ok_chars [OF u]
  let ?rest = "user @ CHR ''@'' # host @ '':22/'' @ p" and ?url = "''ssh://'' @ user @ CHR ''@'' # host @ '':22/'' @ p"
  have f: "split_str ''://'' ?url = Some (''ssh'', ?rest)"
    using split_str_append [of "''://''" "''ssh''" ?rest] by simp
  have t: "trim ?url = ?url" using pc by (intro trim_id) (simp add: is_space_def)
  have sl: "split_once (CHR ''/'') ?rest = Some (user @ CHR ''@'' # host @ '':22'', p)"
    using split_once_append [of "CHR ''/''" "user @ CHR ''@'' # host @ '':22''" p] hc uc by auto
  have at: "rsplit_once (CHR ''@'') ?rest = Some (user, host @ '':22/'' @ p)"
    using rsplit_once_append [of "CHR ''@''" "host @ '':22/'' @ p" user] hc pc by simp
  have at2: "rsplit_once (CHR ''@'') (user @ CHR ''@'' # host @ '':22'') = Some (user, host @ '':22'')"
    using rsplit_once_append [of "CHR ''@''" "host @ '':22''" user] hc by simp
  have sl2: "split_once (CHR ''/'') (host @ '':22/'' @ p) = Some (host @ '':22'', p)"
    using split_once_append [of "CHR ''/''" "host @ '':22''" p] hc by auto
  have po: "rsplit_once (CHR '':'') (host @ '':22'') = Some (host, ''22'')"
    using rsplit_once_append [of "CHR '':''" "''22''" host] by simp
  have "scheme_rest ?url = Some ?rest" using f by (simp add: scheme_rest_def is_alpha_def to_lower_def)
  moreover have "host_path ?rest = lower host @ CHR ''/'' # p"
    using at sl2 po tidy_ok(4) [OF p] pc by (simp add: host_path_def host_port_def is_digit_def)
  ultimately show "normalize ?url = lower host @ CHR ''/'' # p"
    using t by (simp add: normalize_def strip_prefix_def)
  have "split_url ?url = (lower host @ '':22'', p)"
    using f sl at2 by (simp add: split_url_def host_of_def to_lower_def)
  then show "identity ?url = Some (lower host @ '':22/'' @ p)"
    using t tidy_ok(1) [OF p] pc by (simp add: identity_def)
  let ?n = "host @ CHR ''/'' # p"
  have c: "CHR '':'' \<notin> set ?n" using hc pc by auto
  have "hd ?n = hd host" "last ?n = last p" using hc pc by simp_all
  then have ends: "hd ?n \<noteq> CHR ''/''" "last ?n \<noteq> CHR ''/''" "trim ?n = ?n"
    using hc pc by (auto intro!: trim_id) (metis list.set_sel(1))
  have ns: "\<not> suffix ''.git'' ?n"
  proof
    assume "suffix ''.git'' ?n"
    then obtain x where "host @ CHR ''/'' # p = x @ ''.git''" by (auto simp: suffix_def)
    then obtain y where "CHR ''/'' # p = y @ ''.git'' \<or> y @ CHR ''/'' # p = ''.git''"
      by (auto simp: append_eq_append_conv2)
    with pc show False by (auto simp: Cons_eq_append_conv append_eq_Cons_conv suffix_def)
  qed
  have "split_url ?n = ([], ?n)"
    using c by (simp add: split_url_def split_str_None scp_like_def)
  moreover have "tidy_path ?n = ?n"
    unfolding tidy_path_def Let_def trim_char_id [of ?n, OF disjI2 [OF conjI [OF ends(1,2)]]]
      strip_suffix_None [THEN iffD2, OF ns] option.case
    by (rule trim_end_char_id) (use ends in blast)
  ultimately show "identity ?n = Some (CHR ''/'' # ?n)" using ends by (simp add: identity_def)
qed

text \<open>
  A path that is absolute on the server, as the first form of the section \<open>GIT URLS\<close> of Git's
  manual lets \<open>user@host:/path\<close> spell it: \<open>identity\<close> drops the slash and \<open>normalize\<close> keeps it.
\<close>

definition absolute_spellings :: "string \<Rightarrow> string \<Rightarrow> string \<Rightarrow> string list" where
  "absolute_spellings user host p =
     [user @ CHR ''@'' # host @ '':/'' @ p, user @ CHR ''@'' # host @ '':/'' @ p @ ''.git'']"

lemma absolute_path:
  assumes h: "name_ok host" and u: "name_ok user" and p: "path_ok p" and r: "r \<in> {p, p @ ''.git''}"
  shows "identity (user @ CHR ''@'' # host @ '':/'' @ r) = Some (lower host @ CHR ''/'' # p)"
    and "normalize (user @ CHR ''@'' # host @ '':/'' @ r) = lower host @ ''//'' @ p"
proof -
  note pc = path_ok_chars [OF p] and hc = name_ok_chars [OF h] and uc = name_ok_chars [OF u]
  let ?url = "user @ CHR ''@'' # host @ '':/'' @ r"
  have rc: "r \<noteq> []" "hd r \<noteq> CHR ''/''" "CHR '':'' \<notin> set r" "CHR ''@'' \<notin> set r" "\<not> is_space (last r)"
    "trim_end_char (CHR ''/'') r = r" "strip_suffix ''.git'' r = (if r = p then None else Some p)"
    using r pc by (auto simp: is_space_def trim_end_char_id strip_suffix_None)
  have t: "trim ?url = ?url" using uc rc by (intro trim_id) (simp_all add: is_space_def)
  have no: "split_str ''://'' ?url = None"
  proof -
    have "split_str ''://'' (CHR ''/'' # r) = None" using rc split_str_None [of "''://''" "CHR ''/'' # r"] by simp
    then have "split_str ''://'' ('':/'' @ r) = None"
      using rc by (subst append_Cons, subst split_str.simps) (cases r; simp)
    with split_str_skip [of "''://''" "user @ CHR ''@'' # host" "'':/'' @ r"] show ?thesis using hc uc by simp
  qed
  have sp: "split_url ?url = (lower host, CHR ''/'' # r)"
    using split_once_append [of "CHR '':''" "user @ CHR ''@'' # host" "CHR ''/'' # r"] hc uc no
    by (simp add: split_url_def scp_like_def host_of_def)
  have "tidy_path (CHR ''/'' # r) = tidy_path r"
    using rc by (cases r) (simp_all add: tidy_path_def trim_char_def)
  also have "\<dots> = p" using r tidy_ok [OF p] by auto
  finally show "identity ?url = Some (lower host @ CHR ''/'' # p)"
    using sp t hc(4) pc(3) by (simp add: identity_def lower_def)
  have "\<not> prefix ''file://'' ?url"
  proof
    assume "prefix ''file://'' ?url"
    then obtain x where x: "?url = ''file'' @ ''://'' @ x" by (auto simp: prefix_def)
    have "split_str ''://'' (''file'' @ ''://'' @ x) = Some (''file'', x)"
      by (rule split_str_append) simp_all
    then show False using no unfolding x by simp
  qed
  moreover have "strip_git (CHR ''/'' # r) = CHR ''/'' # p"
  proof -
    have e: "trim_end_char (CHR ''/'') (CHR ''/'' # q) = CHR ''/'' # q" if "q \<noteq> []" "last q \<noteq> CHR ''/''" for q
      using that by (simp add: trim_end_char_id)
    have "strip_suffix ''.git'' (CHR ''/'' # r) = (if r = p then None else Some (CHR ''/'' # p))"
      using r pc(7) suffixI [of "p @ ''.git''" p "''.git''"] by (auto simp: strip_suffix_def suffix_Cons)
    then show ?thesis using rc(1,6) r pc(3,5) e [of p] e [of "p @ ''.git''"] by (auto simp: strip_git_def)
  qed
  moreover have "rsplit_once (CHR ''@'') ?url = Some (user, host @ '':/'' @ r)"
    using rsplit_once_append [of "CHR ''@''" "host @ '':/'' @ r" user] hc rc by simp
  ultimately show "normalize ?url = lower host @ ''//'' @ p"
    using t no hc split_once_append [of "CHR '':''" host "CHR ''/'' # r"]
    by (simp add: normalize_def strip_prefix_def scheme_rest_def scp_name_def)
qed

text \<open>
  C23. Where the two reducers agree, and where they do not. For a host and an account without
  slash, colon, at sign or white space, and a path without colon, at sign or white space that
  neither begins nor ends with a slash nor ends with \<open>.git\<close>, each of the six listed spellings
  reduces to the host in lower case, a slash and the path, under both. A path that is absolute on
  the server, written after the colon, has that name under \<open>identity\<close> and one with two
  slashes under \<open>normalize\<close>; the port every server listens on is kept by \<open>identity\<close> and dropped by
  \<open>normalize\<close>.
\<close>

theorem one_repository_one_name:
  assumes "name_ok host" and "name_ok user" and "path_ok p"
  shows "(\<forall>url \<in> set (spellings user host p).
        identity url = Some (lower host @ CHR ''/'' # p) \<and> normalize url = lower host @ CHR ''/'' # p)
    \<and> (\<forall>url \<in> set (absolute_spellings user host p).
        identity url = Some (lower host @ CHR ''/'' # p) \<and> normalize url = lower host @ ''//'' @ p)
    \<and> identity (''ssh://'' @ user @ CHR ''@'' # host @ '':22/'' @ p) = Some (lower host @ '':22/'' @ p)
    \<and> normalize (''ssh://'' @ user @ CHR ''@'' # host @ '':22/'' @ p) = lower host @ CHR ''/'' # p"
  using six_spellings [OF assms] absolute_path [OF assms] reducers_differ_on_a_port [OF assms]
  by (auto simp: absolute_spellings_def)

theorem one_repository_one_name_witness:
  "identity ''git@github.com:josh2c/nodal.git'' = Some ''github.com/josh2c/nodal''
   \<and> normalize ''git@github.com:josh2c/nodal.git'' = ''github.com/josh2c/nodal''
   \<and> normalize ''git@github.com:/josh2c/nodal.git'' = ''github.com//josh2c/nodal''"
proof -
  have ok: "name_ok ''github.com''" "name_ok ''git''" by (simp_all add: name_ok_def is_space_def)
  have p: "path_ok ''josh2c/nodal''" by (simp add: path_ok_def is_space_def suffix_def)
  show ?thesis
    using one_repository_one_name [OF ok p] by (simp add: spellings_def absolute_spellings_def to_lower_def)
qed

end
