(* ===== verification/Observation.thy ===== *)
theory Observation
  imports Remote Assess
begin

text \<open>
  What this machine can prove of a remote it does not reach: \<open>git/fetched.rs\<close>, the reading of a
  clone and the doctrine of \<open>doctor/unique.rs\<close>, and \<open>lifecycle/witness.rs\<close>. The answers of Git,
  the times of the files and \<open>realpath\<close> are the record \<open>git_reads\<close>.
\<close>

subsection \<open>The record of the last fetch\<close>

record seen_branch =
  sb_branch :: string
  sb_oid :: oid

record observation =
  ob_seen :: "seen_branch list"
  ob_at :: timestamp

definition observed_at_branch :: "observation \<Rightarrow> string \<Rightarrow> oid option" where
  "observed_at_branch o1 name = map_option sb_oid (List.find (\<lambda>s. sb_branch s = name) (ob_seen o1))"

definition fetched_one :: "string \<Rightarrow> string \<Rightarrow> seen_branch option" where
  "fetched_one line wanted =
     (case split_char (CHR 0x09) line of
        sha # _ # what # _ \<Rightarrow>
          (case oid_parse sha of
             Inl _ \<Rightarrow> None
           | Inr oid \<Rightarrow>
               (case Option.bind (strip_prefix ''branch '' what) (strip_prefix [CHR 0x27]) of
                  None \<Rightarrow> None
                | Some named \<Rightarrow>
                    (case split_str (CHR 0x27 # '' of '') named of
                       None \<Rightarrow> None
                     | Some (branch, url) \<Rightarrow>
                         if identity url = Some wanted then Some \<lparr>sb_branch = branch, sb_oid = oid\<rparr> else None)))
      | _ \<Rightarrow> None)"

subsection \<open>What one clone can say\<close>

record remote_tip =
  tip_branch :: string
  tip_oid :: oid

record clone_reading =
  cr_head :: "oid option"
  cr_tips :: "oid list"
  cr_own :: "oid list"
  cr_remotes :: "remote_tip list"
  cr_heard :: "nat option"
  cr_complete :: bool
  cr_shallow :: bool
  cr_unreadable :: "string option"

definition no_clone_reading :: clone_reading where
  "no_clone_reading = \<lparr>cr_head = None, cr_tips = [], cr_own = [], cr_remotes = [], cr_heard = None,
     cr_complete = False, cr_shallow = False, cr_unreadable = None\<rparr>"

record subject =
  sj_path :: path
  sj_reading :: clone_reading

record git_reads =
  gr_opens :: "path \<Rightarrow> error option"
  gr_branch :: "path \<Rightarrow> string option"
  gr_refs :: "path \<Rightarrow> error + git_ref list"
  gr_head :: "path \<Rightarrow> error + oid"
  gr_refspecs :: "path \<Rightarrow> string list"
  gr_is_dir :: "path \<Rightarrow> bool"
  gr_mtime :: "path \<Rightarrow> nat option"
  gr_render :: "error \<Rightarrow> string"
  gr_stores :: "path \<Rightarrow> oid list \<Rightarrow> error + oid list"
  gr_away :: "path \<Rightarrow> oid list \<Rightarrow> error + oid list"
  gr_among :: "path \<Rightarrow> oid list \<Rightarrow> oid list \<Rightarrow> error + oid list"
  gr_count :: "path \<Rightarrow> oid \<Rightarrow> oid list \<Rightarrow> error + nat"
  gr_fetch_head :: "path \<Rightarrow> (timestamp \<times> string) option"
  gr_moved :: "path \<Rightarrow> string \<Rightarrow> timestamp option"
  gr_url :: "path \<Rightarrow> string option"
  gr_real :: "path \<Rightarrow> string option"

text \<open>The readers of \<open>git/outside.rs\<close> that ask nothing of an empty list.\<close>

definition stores_in :: "git_reads \<Rightarrow> path \<Rightarrow> oid list \<Rightarrow> error + oid list" where
  "stores_in g p wanted = (if wanted = [] then Inr [] else gr_stores g p wanted)"

definition among_in :: "git_reads \<Rightarrow> path \<Rightarrow> oid list \<Rightarrow> oid list \<Rightarrow> error + oid list" where
  "among_in g p revs kept = (if revs = [] then Inr [] else gr_among g p revs kept)"

definition held_in :: "git_reads \<Rightarrow> path \<Rightarrow> oid list \<Rightarrow> error + oid list" where
  "held_in g p wanted =
     (case stores_in g p wanted of
        Inl e \<Rightarrow> Inl e
      | Inr stored \<Rightarrow>
          if stored = [] then Inr []
          else (case gr_away g p stored of
                  Inl e \<Rightarrow> Inl e
                | Inr away \<Rightarrow> Inr (filter (\<lambda>o1. o1 \<notin> set away) stored)))"

definition fetched_last :: "git_reads \<Rightarrow> path \<Rightarrow> string \<Rightarrow> observation option" where
  "fetched_last g p url =
     (case gr_fetch_head g p of
        None \<Rightarrow> None
      | Some (at, text) \<Rightarrow>
          (case identity url of
             None \<Rightarrow> None
           | Some wanted \<Rightarrow>
               Some \<lparr>ob_seen = List.map_filter (\<lambda>l. fetched_one l wanted) (text_lines text), ob_at = at\<rparr>))"

definition tracked_in :: "git_ref list \<Rightarrow> remote_tip list" where
  "tracked_in refs = List.map_filter (\<lambda>r.
     case strip_prefix ''refs/remotes/origin/'' (ref_name r) of
       None \<Rightarrow> None
     | Some branch \<Rightarrow> if branch \<noteq> ''HEAD'' then Some \<lparr>tip_branch = branch, tip_oid = ref_oid r\<rparr> else None) refs"

definition heads_of :: "git_reads \<Rightarrow> path \<Rightarrow> remote_tip list" where
  "heads_of g p =
     (case gr_refs g p of
        Inl _ \<Rightarrow> []
      | Inr refs \<Rightarrow> List.map_filter (\<lambda>r.
          map_option (\<lambda>branch. \<lparr>tip_branch = branch, tip_oid = ref_oid r\<rparr>) (strip_prefix ''refs/heads/'' (ref_name r)))
        refs)"

subsection \<open>\<open>doctor/inspect.rs\<close>: the reading of a clone\<close>

definition own_tips :: "git_ref list \<Rightarrow> oid list" where
  "own_tips refs = map ref_oid (filter (\<lambda>r. \<not> prefix ''refs/remotes/'' (ref_name r)) refs)"

definition head_of :: "git_reads \<Rightarrow> path \<Rightarrow> string option \<Rightarrow> git_ref list \<Rightarrow> error + oid option" where
  "head_of g p branch tips =
     (case branch of
        Some b \<Rightarrow> Inr (map_option ref_oid (List.find (\<lambda>r. ref_name r = ''refs/heads/'' @ b) tips))
      | None \<Rightarrow>
          (case gr_head g p of
             Inr oid \<Rightarrow> Inr (Some oid)
           | Inl (Git _) \<Rightarrow> Inr None
           | Inl e \<Rightarrow> Inl e))"

definition heard :: "git_reads \<Rightarrow> path \<Rightarrow> nat option" where
  "heard g p =
     (if \<not> gr_is_dir g (p @ [''.git'']) then None
      else case List.map_filter (gr_mtime g) [p @ [''.git'', ''FETCH_HEAD''], p @ [''.git'', ''refs'', ''remotes'']] of
             [] \<Rightarrow> None
           | t # ts \<Rightarrow> Some (fold max ts t))"

definition contains :: "string \<Rightarrow> string \<Rightarrow> bool" where
  "contains p s \<longleftrightarrow> split_str p s \<noteq> None"

definition complete :: "string list \<Rightarrow> bool" where
  "complete refspecs \<longleftrightarrow> list_ex (contains ''refs/heads/*'') refspecs"

definition clone_reading_of :: "git_reads \<Rightarrow> path \<Rightarrow> clone_reading" where
  "clone_reading_of g p =
     (case gr_opens g p of
        Some e \<Rightarrow> no_clone_reading\<lparr>cr_unreadable := Some (gr_render g e)\<rparr>
      | None \<Rightarrow>
          (case gr_refs g p of
             Inl e \<Rightarrow> no_clone_reading\<lparr>cr_unreadable := Some (gr_render g e)\<rparr>
           | Inr tips \<Rightarrow>
               (case head_of g p (gr_branch g p) tips of
                  Inl e \<Rightarrow> no_clone_reading\<lparr>cr_unreadable := Some (gr_render g e)\<rparr>
                | Inr head \<Rightarrow>
                    \<lparr>cr_head = head, cr_tips = map ref_oid tips, cr_own = own_tips tips, cr_remotes = tracked_in tips,
                     cr_heard = heard g p, cr_complete = complete (gr_refspecs g p),
                     cr_shallow = gr_mtime g (p @ [''.git'', ''shallow'']) \<noteq> None, cr_unreadable = None\<rparr>)))"

end
