(* ===== verification/Trust.thy ===== *)
theory Trust
  imports Observation
begin

text \<open>
  \<open>doctor/unique.rs\<close> and \<open>lifecycle/witness.rs\<close>: whose reading of a remote is believed, what that
  proves of the commits of one home, and what it proves of the clones of one group.
\<close>

subsection \<open>What a witness vouches for\<close>

record trusted =
  tr_tips :: "oid list"
  tr_witnesses :: "path list"

definition no_trust :: trusted where
  "no_trust = \<lparr>tr_tips = [], tr_witnesses = []\<rparr>"

definition witnessed :: "subject list \<Rightarrow> string \<Rightarrow> oid option" where
  "witnessed witnesses branch =
     map_option tip_oid (List.find (\<lambda>t. tip_branch t = branch)
       (concat (map (\<lambda>w. cr_remotes (sj_reading w)) witnesses)))"

text \<open>The loop of \<open>confirmed\<close>: the first witness that answers both questions answers.\<close>

fun confirmed_by :: "git_reads \<Rightarrow> oid list \<Rightarrow> subject list \<Rightarrow> oid list" where
  "confirmed_by g mine [] = []"
| "confirmed_by g mine (w # ws) =
     (case stores_in g (sj_path w) mine of
        Inl _ \<Rightarrow> confirmed_by g mine ws
      | Inr stored \<Rightarrow>
          (case among_in g (sj_path w) stored (map tip_oid (cr_remotes (sj_reading w))) of
             Inl _ \<Rightarrow> confirmed_by g mine ws
           | Inr gone \<Rightarrow> filter (\<lambda>o1. o1 \<notin> set gone) stored))"

definition confirmed :: "git_reads \<Rightarrow> subject \<Rightarrow> subject list \<Rightarrow> oid list" where
  "confirmed g s witnesses =
     (let mine = map tip_oid (cr_remotes (sj_reading s))
      in if mine = [] then [] else confirmed_by g mine witnesses)"

definition believed :: "git_reads \<Rightarrow> subject \<Rightarrow> subject list \<Rightarrow> trusted" where
  "believed g s witnesses =
     (if witnesses = [] then no_trust
      else \<lparr>tr_tips = remdups_adj (sort
               (List.map_filter (\<lambda>t. witnessed witnesses (tip_branch t)) (cr_remotes (sj_reading s))
                @ confirmed g s witnesses)),
            tr_witnesses = map sj_path witnesses\<rparr>)"

subsection \<open>\<open>lifecycle/witness.rs\<close>\<close>

record origin =
  or_url :: string
  or_name :: string

definition named :: "git_reads \<Rightarrow> path \<Rightarrow> origin option" where
  "named g p =
     (case gr_url g p of
        None \<Rightarrow> None
      | Some url \<Rightarrow> if normalize url = [] then None else Some \<lparr>or_url = url, or_name = normalize url\<rparr>)"

datatype relation = SameRemote | IsTheRemote | Unrelated

record checkout =
  ck_path :: path
  ck_reading :: clone_reading
  ck_origin :: "string option"
  ck_held :: "oid list"

definition checkout_read :: "git_reads \<Rightarrow> path \<Rightarrow> checkout" where
  "checkout_read g p =
     (let r = clone_reading_of g p
      in if cr_unreadable r = None \<and> \<not> cr_shallow r
         then (case stores_in g p (cr_tips r) of
                 Inr found \<Rightarrow> \<lparr>ck_path = p, ck_reading = r, ck_origin = map_option or_name (named g p), ck_held = found\<rparr>
               | Inl why \<Rightarrow> \<lparr>ck_path = p, ck_reading = r\<lparr>cr_unreadable := Some (gr_render g why)\<rparr>,
                   ck_origin = map_option or_name (named g p), ck_held = []\<rparr>)
         else \<lparr>ck_path = p, ck_reading = r, ck_origin = None, ck_held = []\<rparr>)"

definition relation_of :: "git_reads \<Rightarrow> string option \<Rightarrow> checkout \<Rightarrow> relation" where
  "relation_of g origin ck =
     (case origin of
        None \<Rightarrow> Unrelated
      | Some name \<Rightarrow>
          if ck_origin ck = Some name then SameRemote
          else if (case gr_real g (ck_path ck) of Some p \<Rightarrow> normalize p = name | None \<Rightarrow> False) then IsTheRemote
          else Unrelated)"

definition not_older :: "timestamp \<Rightarrow> timestamp option \<Rightarrow> bool" where
  "not_older read wrote = (case wrote of None \<Rightarrow> True | Some w \<Rightarrow> w \<le> read)"

definition strictly_later :: "timestamp \<Rightarrow> timestamp option \<Rightarrow> bool" where
  "strictly_later read wrote = (case wrote of None \<Rightarrow> True | Some w \<Rightarrow> w < read)"

text \<open>One branch the home names: seen, known not to be there, or unobserved and why.\<close>

definition observe_one ::
    "observation \<Rightarrow> string set \<Rightarrow> (string \<Rightarrow> timestamp option) \<Rightarrow> string
       \<Rightarrow> remote_tip list \<times> unobserved list \<Rightarrow> remote_tip list \<times> unobserved list" where
  "observe_one ob tracks wrote branch acc =
     (case acc of (seen, unseen) \<Rightarrow>
        case observed_at_branch ob branch of
          Some oid \<Rightarrow>
            if not_older (ob_at ob) (wrote branch) then (seen @ [\<lparr>tip_branch = branch, tip_oid = oid\<rparr>], unseen)
            else (seen, unseen @ [\<lparr>uo_branch = branch, uo_reading = Older\<rparr>])
        | None \<Rightarrow>
            if strictly_later (ob_at ob) (wrote branch) \<and> branch \<notin> tracks then (seen, unseen)
            else if strictly_later (ob_at ob) (wrote branch)
            then (seen, unseen @ [\<lparr>uo_branch = branch, uo_reading = Unnamed\<rparr>])
            else (seen, unseen @ [\<lparr>uo_branch = branch, uo_reading = Older\<rparr>]))"

record asked =
  ak_checkout :: checkout
  ak_origin :: "origin option"
  ak_subject :: subject

definition observed :: "git_reads \<Rightarrow> asked \<Rightarrow> (remote_tip list \<times> unobserved list) option" where
  "observed g a =
     (case ak_origin a of
        None \<Rightarrow> None
      | Some origin \<Rightarrow>
          (case fetched_last g (ck_path (ak_checkout a)) (or_url origin) of
             None \<Rightarrow> None
           | Some ob \<Rightarrow>
               if ob_seen ob = [] then None
               else Some (fold
                 (observe_one ob (tip_branch ` set (cr_remotes (ck_reading (ak_checkout a))))
                   (\<lambda>branch. gr_moved g (sj_path (ak_subject a)) (''refs/remotes/origin/'' @ branch)))
                 (map tip_branch (cr_remotes (sj_reading (ak_subject a)))) ([], []))))"

definition witness_for ::
    "git_reads \<Rightarrow> asked \<Rightarrow> relation \<Rightarrow> clone_reading \<Rightarrow> subject option \<times> unobserved list" where
  "witness_for g a rel r =
     (case rel of
        SameRemote \<Rightarrow>
          if cr_complete r
          then (case observed g a of
                  None \<Rightarrow> (None, [])
                | Some (seen, unseen) \<Rightarrow>
                    (Some \<lparr>sj_path = ck_path (ak_checkout a), sj_reading = r\<lparr>cr_remotes := seen\<rparr>\<rparr>, unseen))
          else (None, [])
      | IsTheRemote \<Rightarrow>
          (Some \<lparr>sj_path = ck_path (ak_checkout a),
             sj_reading = r\<lparr>cr_remotes := heads_of g (ck_path (ak_checkout a))\<rparr>\<rparr>, [])
      | Unrelated \<Rightarrow> (None, []))"

definition vouched :: "git_reads \<Rightarrow> asked \<Rightarrow> relation \<Rightarrow> clone_reading \<Rightarrow> trusted \<times> unobserved list" where
  "vouched g a rel r =
     (case witness_for g a rel r of
        (None, unseen) \<Rightarrow> (no_trust, unseen)
      | (Some w, unseen) \<Rightarrow> (believed g (ak_subject a) [w], unseen))"

definition holdings :: "git_reads \<Rightarrow> checkout \<Rightarrow> oid list \<Rightarrow> error + oid list" where
  "holdings g ck tips =
     (let extra = filter (\<lambda>o1. o1 \<notin> set (cr_tips (ck_reading ck))) tips
      in if extra = [] then Inr (ck_held ck)
         else (case held_in g (ck_path ck) extra of
                 Inl e \<Rightarrow> Inl e
               | Inr extras \<Rightarrow> Inr (oid_union (ck_held ck) extras)))"

definition nowhere :: elsewhere where
  "nowhere = \<lparr>else_own = [], else_copies = [], else_remote = [], else_witnesses = [], else_unobserved = [],
     else_direct = False\<rparr>"

definition elsewhere_in :: "git_reads \<Rightarrow> path \<Rightarrow> checkout option \<Rightarrow> git_ref list \<Rightarrow> elsewhere" where
  "elsewhere_in g home checkout refs =
     (case checkout of
        None \<Rightarrow> nowhere
      | Some ck \<Rightarrow>
          if cr_unreadable (ck_reading ck) \<noteq> None \<or> cr_shallow (ck_reading ck) then nowhere
          else
            let origin = named g home;
                rel = relation_of g (map_option or_name origin) ck;
                a = \<lparr>ak_checkout = ck, ak_origin = origin,
                  ak_subject = \<lparr>sj_path = home, sj_reading = no_clone_reading\<lparr>cr_remotes := tracked_in refs\<rparr>\<rparr>\<rparr>;
                (tr, unseen) = vouched g a rel (ck_reading ck)
            in (case holdings g ck (tr_tips tr) of
                  Inl _ \<Rightarrow> nowhere
                | Inr carried \<Rightarrow>
                    let own = filter (\<lambda>o1. o1 \<in> set carried) (cr_own (ck_reading ck));
                        remote = filter (\<lambda>o1. o1 \<in> set carried) (tr_tips tr)
                    in \<lparr>else_own = own, else_copies = filter (\<lambda>o1. o1 \<notin> set own \<union> set remote) carried,
                        else_remote = remote, else_witnesses = tr_witnesses tr, else_unobserved = unseen,
                        else_direct = (rel = IsTheRemote)\<rparr>))"

definition local_tips :: "elsewhere \<Rightarrow> oid list" where
  "local_tips e = oid_union (else_own e) (else_copies e)"

subsection \<open>What an observation says of each branch\<close>

text \<open>The three answers about one branch, as the text before \<open>observed\<close> gives them.\<close>

definition seen_at :: "observation \<Rightarrow> (string \<Rightarrow> timestamp option) \<Rightarrow> string \<Rightarrow> remote_tip option" where
  "seen_at ob wrote b =
     (case observed_at_branch ob b of
        Some oid \<Rightarrow> if not_older (ob_at ob) (wrote b) then Some \<lparr>tip_branch = b, tip_oid = oid\<rparr> else None
      | None \<Rightarrow> None)"

definition gone_at :: "observation \<Rightarrow> string set \<Rightarrow> (string \<Rightarrow> timestamp option) \<Rightarrow> string \<Rightarrow> bool" where
  "gone_at ob tracks wrote b \<longleftrightarrow>
     observed_at_branch ob b = None \<and> strictly_later (ob_at ob) (wrote b) \<and> b \<notin> tracks"

definition unseen_at :: "observation \<Rightarrow> string set \<Rightarrow> (string \<Rightarrow> timestamp option) \<Rightarrow> string \<Rightarrow> unobserved option" where
  "unseen_at ob tracks wrote b =
     (if seen_at ob wrote b \<noteq> None \<or> gone_at ob tracks wrote b then None
      else Some \<lparr>uo_branch = b,
        uo_reading = (if observed_at_branch ob b = None \<and> strictly_later (ob_at ob) (wrote b) then Unnamed else Older)\<rparr>)"

lemma observe_fold:
  "fold (observe_one ob tracks wrote) bs (seen, unseen) =
     (seen @ List.map_filter (seen_at ob wrote) bs, unseen @ List.map_filter (unseen_at ob tracks wrote) bs)"
  by (induction bs arbitrary: seen unseen)
    (auto simp: observe_one_def seen_at_def gone_at_def unseen_at_def map_filter_simps split: option.splits)

lemma observed_eq:
  assumes "observed g a = Some (seen, unseen)"
  shows "\<exists>origin ob. ak_origin a = Some origin
     \<and> fetched_last g (ck_path (ak_checkout a)) (or_url origin) = Some ob
     \<and> seen = List.map_filter (seen_at ob (\<lambda>b. gr_moved g (sj_path (ak_subject a)) (''refs/remotes/origin/'' @ b)))
         (map tip_branch (cr_remotes (sj_reading (ak_subject a))))
     \<and> unseen = List.map_filter (unseen_at ob (tip_branch ` set (cr_remotes (ck_reading (ak_checkout a))))
           (\<lambda>b. gr_moved g (sj_path (ak_subject a)) (''refs/remotes/origin/'' @ b)))
         (map tip_branch (cr_remotes (sj_reading (ak_subject a))))"
  using assms by (auto simp: observed_def observe_fold split: option.splits if_splits)

lemma set_map_filter: "set (List.map_filter f xs) = {y. \<exists>x \<in> set xs. f x = Some y}"
  by (induction xs) (auto simp: map_filter_simps split: option.splits)

subsection \<open>What is believed\<close>

lemma set_remdups_adj_sort [simp]: "set (remdups_adj (sort xs)) = set xs"
  by simp

lemma confirmed_by_some:
  "o1 \<in> set (confirmed_by g mine ws) \<Longrightarrow> \<exists>w \<in> set ws. \<exists>stored gone.
     among_in g (sj_path w) stored (map tip_oid (cr_remotes (sj_reading w))) = Inr gone
     \<and> o1 \<in> set stored \<and> o1 \<notin> set gone"
  by (induction ws) (auto split: sum.splits)

lemma believed_tips:
  "o1 \<in> set (tr_tips (believed g s ws)) \<longleftrightarrow> ws \<noteq> [] \<and>
     ((\<exists>t \<in> set (cr_remotes (sj_reading s)). witnessed ws (tip_branch t) = Some o1) \<or> o1 \<in> set (confirmed g s ws))"
  by (auto simp: believed_def no_trust_def set_map_filter)

lemma witnessed_tip:
  "witnessed ws b = Some o1 \<Longrightarrow> \<exists>w \<in> set ws. \<exists>t \<in> set (cr_remotes (sj_reading w)). tip_branch t = b \<and> tip_oid t = o1"
  unfolding witnessed_def by (auto dest!: find_Some_in) blast

text \<open>
  \<open>reaches k o1\<close>: the commit \<open>o1\<close> is \<open>k\<close> or in its history. What \<open>git rev-list revs --not kept\<close>
  documents of it: a revision it was given that it does not print is in the history of one it
  was told to leave out.
\<close>

definition excludes_only_reached :: "(oid \<Rightarrow> oid \<Rightarrow> bool) \<Rightarrow> git_reads \<Rightarrow> bool" where
  "excludes_only_reached reaches g \<longleftrightarrow> (\<forall>k. reaches k k)
     \<and> (\<forall>p revs kept out. gr_among g p revs kept = Inr out
          \<longrightarrow> (\<forall>o1 \<in> set revs. o1 \<in> set out \<or> (\<exists>k \<in> set kept. reaches k o1)))"

lemma believed_reached:
  assumes law: "excludes_only_reached reaches g" and b: "o1 \<in> set (tr_tips (believed g s ws))"
  shows "\<exists>w \<in> set ws. \<exists>t \<in> set (cr_remotes (sj_reading w)). reaches (tip_oid t) o1"
proof -
  consider t where "t \<in> set (cr_remotes (sj_reading s))" "witnessed ws (tip_branch t) = Some o1"
    | "o1 \<in> set (confirmed g s ws)"
    using b believed_tips by blast
  then show ?thesis
  proof cases
    case 1
    with law witnessed_tip show ?thesis unfolding excludes_only_reached_def by blast
  next
    case 2
    then have "o1 \<in> set (confirmed_by g (map tip_oid (cr_remotes (sj_reading s))) ws)"
      by (auto simp: confirmed_def Let_def split: if_splits)
    from confirmed_by_some [OF this] obtain w stored gone where
      c: "w \<in> set ws" "among_in g (sj_path w) stored (map tip_oid (cr_remotes (sj_reading w))) = Inr gone"
      "o1 \<in> set stored" "o1 \<notin> set gone" by blast
    then have "gr_among g (sj_path w) stored (map tip_oid (cr_remotes (sj_reading w))) = Inr gone"
      by (auto simp: among_in_def split: if_splits)
    with law c(3,4) have "\<exists>k \<in> set (map tip_oid (cr_remotes (sj_reading w))). reaches k o1"
      unfolding excludes_only_reached_def by blast
    with c(1) show ?thesis by auto
  qed
qed

subsection \<open>What is elsewhere\<close>

lemma elsewhere_cases:
  assumes "elsewhere_in g home (Some ck) refs \<noteq> nowhere"
  obtains tr unseen carried where
    "vouched g \<lparr>ak_checkout = ck, ak_origin = named g home,
        ak_subject = \<lparr>sj_path = home, sj_reading = no_clone_reading\<lparr>cr_remotes := tracked_in refs\<rparr>\<rparr>\<rparr>
      (relation_of g (map_option or_name (named g home)) ck) (ck_reading ck) = (tr, unseen)"
    and "holdings g ck (tr_tips tr) = Inr carried"
    and "elsewhere_in g home (Some ck) refs =
      \<lparr>else_own = filter (\<lambda>o1. o1 \<in> set carried) (cr_own (ck_reading ck)),
       else_copies = filter (\<lambda>o1. o1 \<notin> set (filter (\<lambda>o1. o1 \<in> set carried) (cr_own (ck_reading ck)))
          \<union> set (filter (\<lambda>o1. o1 \<in> set carried) (tr_tips tr))) carried,
       else_remote = filter (\<lambda>o1. o1 \<in> set carried) (tr_tips tr), else_witnesses = tr_witnesses tr,
       else_unobserved = unseen, else_direct = (relation_of g (map_option or_name (named g home)) ck = IsTheRemote)\<rparr>"
proof -
  have "cr_unreadable (ck_reading ck) = None" "\<not> cr_shallow (ck_reading ck)"
    using assms by (auto simp: elsewhere_in_def split: if_splits)
  with assms that show ?thesis
    by (auto simp: elsewhere_in_def Let_def split: prod.splits sum.splits)
qed

lemma nowhere_simps [simp]:
  "else_own nowhere = []" "else_copies nowhere = []" "else_remote nowhere = []" "else_witnesses nowhere = []"
  "else_unobserved nowhere = []" "else_direct nowhere = False" "else_tips nowhere = []"
  by (simp_all add: nowhere_def else_tips_def oid_union_def)

lemma remote_observed:
  assumes law: "excludes_only_reached reaches g"
    and r: "o1 \<in> set (else_remote (elsewhere_in g home (Some ck) refs))"
    and clone: "\<not> else_direct (elsewhere_in g home (Some ck) refs)"
  shows "\<exists>origin ob t c. named g home = Some origin
     \<and> fetched_last g (ck_path ck) (or_url origin) = Some ob
     \<and> t \<in> set (tracked_in refs) \<and> observed_at_branch ob (tip_branch t) = Some c
     \<and> not_older (ob_at ob) (gr_moved g home (''refs/remotes/origin/'' @ tip_branch t))
     \<and> reaches c o1
     \<and> (\<exists>tips carried. holdings g ck tips = Inr carried \<and> o1 \<in> set carried)"
proof -
  have "elsewhere_in g home (Some ck) refs \<noteq> nowhere" using r by auto
  then obtain tr unseen carried where v: "vouched g \<lparr>ak_checkout = ck, ak_origin = named g home,
        ak_subject = \<lparr>sj_path = home, sj_reading = no_clone_reading\<lparr>cr_remotes := tracked_in refs\<rparr>\<rparr>\<rparr>
      (relation_of g (map_option or_name (named g home)) ck) (ck_reading ck) = (tr, unseen)"
    and h: "holdings g ck (tr_tips tr) = Inr carried"
    and e: "else_remote (elsewhere_in g home (Some ck) refs) = filter (\<lambda>o1. o1 \<in> set carried) (tr_tips tr)"
      "else_direct (elsewhere_in g home (Some ck) refs)
        = (relation_of g (map_option or_name (named g home)) ck = IsTheRemote)"
    by (elim elsewhere_cases) simp
  let ?a = "\<lparr>ak_checkout = ck, ak_origin = named g home,
        ak_subject = \<lparr>sj_path = home, sj_reading = no_clone_reading\<lparr>cr_remotes := tracked_in refs\<rparr>\<rparr>\<rparr>"
  have o1: "o1 \<in> set (tr_tips tr)" "o1 \<in> set carried" using r e(1) by auto
  then have "relation_of g (map_option or_name (named g home)) ck = SameRemote"
    using v clone e(2) by (cases "relation_of g (map_option or_name (named g home)) ck")
      (auto simp: vouched_def witness_for_def no_trust_def)
  with v o1 obtain seen where ob: "observed g ?a = Some (seen, unseen)"
    and tr: "tr = believed g (ak_subject ?a)
        [\<lparr>sj_path = ck_path ck, sj_reading = (ck_reading ck)\<lparr>cr_remotes := seen\<rparr>\<rparr>]"
    by (auto simp: vouched_def witness_for_def no_trust_def split: if_splits option.splits)
  from believed_reached [OF law o1(1) [unfolded tr]] obtain t where
    t: "t \<in> set seen" "reaches (tip_oid t) o1" by auto
  from observed_eq [OF ob] obtain origin obs where
    s: "named g home = Some origin" "fetched_last g (ck_path ck) (or_url origin) = Some obs"
      "seen = List.map_filter (seen_at obs (\<lambda>b. gr_moved g home (''refs/remotes/origin/'' @ b)))
         (map tip_branch (tracked_in refs))"
    by (auto simp: no_clone_reading_def)
  from t(1) obtain q where q: "q \<in> set (tracked_in refs)"
    "seen_at obs (\<lambda>b. gr_moved g home (''refs/remotes/origin/'' @ b)) (tip_branch q) = Some t"
    unfolding s(3) set_map_filter by auto
  then have "observed_at_branch obs (tip_branch q) = Some (tip_oid t)"
    "not_older (ob_at obs) (gr_moved g home (''refs/remotes/origin/'' @ tip_branch q))"
    by (auto simp: seen_at_def split: option.splits if_splits)
  with s q(1) t(2) h o1(2) show ?thesis by blast
qed

lemma direct_observed:
  assumes law: "excludes_only_reached reaches g"
    and r: "o1 \<in> set (else_remote (elsewhere_in g home (Some ck) refs))"
    and direct: "else_direct (elsewhere_in g home (Some ck) refs)"
  shows "(\<exists>t \<in> set (heads_of g (ck_path ck)). reaches (tip_oid t) o1)
    \<and> (\<exists>tips carried. holdings g ck tips = Inr carried \<and> o1 \<in> set carried)"
proof -
  have "elsewhere_in g home (Some ck) refs \<noteq> nowhere" using r by auto
  then obtain tr unseen carried where v: "vouched g \<lparr>ak_checkout = ck, ak_origin = named g home,
        ak_subject = \<lparr>sj_path = home, sj_reading = no_clone_reading\<lparr>cr_remotes := tracked_in refs\<rparr>\<rparr>\<rparr>
      IsTheRemote (ck_reading ck) = (tr, unseen)" and t: "o1 \<in> set (tr_tips tr)"
    and h: "holdings g ck (tr_tips tr) = Inr carried" "o1 \<in> set carried"
    by (rule elsewhere_cases) (use r direct in auto)
  from v t believed_reached [OF law, of o1] have "\<exists>t \<in> set (heads_of g (ck_path ck)). reaches (tip_oid t) o1"
    by (fastforce simp: vouched_def witness_for_def)
  with h show ?thesis by blast
qed

text \<open>
  C20. What a remote is believed to hold was seen there. Take a commit counted as the remote's for
  a home. Where the checkout beside it is the remote itself, a branch of the checkout is at the
  commit or has it in its history. Where the two are clones of one remote, it is one the
  record of the checkout's last fetch wrote down for a branch the home names, or is in the
  history of one; the record is of that remote's url, and is not older than the home's own record
  of that branch. In both cases the checkout's own store answers that it holds the commit.
\<close>

theorem remote_was_observed:
  assumes law: "excludes_only_reached reaches g"
    and r: "o1 \<in> set (else_remote (elsewhere_in g home (Some ck) refs))"
  shows "(if else_direct (elsewhere_in g home (Some ck) refs)
      then \<exists>t \<in> set (heads_of g (ck_path ck)). reaches (tip_oid t) o1
      else \<exists>origin ob t c. named g home = Some origin
         \<and> fetched_last g (ck_path ck) (or_url origin) = Some ob
         \<and> t \<in> set (tracked_in refs) \<and> observed_at_branch ob (tip_branch t) = Some c
         \<and> not_older (ob_at ob) (gr_moved g home (''refs/remotes/origin/'' @ tip_branch t))
         \<and> reaches c o1)
     \<and> (\<exists>tips carried. holdings g ck tips = Inr carried \<and> o1 \<in> set carried)"
proof (cases "else_direct (elsewhere_in g home (Some ck) refs)")
  case True
  with direct_observed [OF law r True] show ?thesis by simp
next
  case False
  with remote_observed [OF law r False] show ?thesis by (simp only: if_False) blast
qed

text \<open>
  Everything a checkout really holds is in one list. What is elsewhere is what its store
  answered it has: its own refs' commits, the remote's, and the copies that are neither; and
  where there is no checkout, or it could not be read, or it is shallow, or it did not answer,
  nothing is elsewhere and nobody is named as having said so.
\<close>

theorem elsewhere_accounts:
  "(elsewhere_in g home checkout refs = nowhere
     \<or> (\<exists>ck tips carried. checkout = Some ck \<and> cr_unreadable (ck_reading ck) = None \<and> \<not> cr_shallow (ck_reading ck)
        \<and> holdings g ck tips = Inr carried
        \<and> set carried = set (else_own (elsewhere_in g home checkout refs))
            \<union> set (else_remote (elsewhere_in g home checkout refs)) \<union> set (else_copies (elsewhere_in g home checkout refs))
        \<and> set (else_own (elsewhere_in g home checkout refs)) \<subseteq> set (cr_own (ck_reading ck))
        \<and> set (else_copies (elsewhere_in g home checkout refs)) \<inter> set (else_tips (elsewhere_in g home checkout refs)) = {}))
   \<and> (else_witnesses (elsewhere_in g home checkout refs) = []
        \<longrightarrow> else_remote (elsewhere_in g home checkout refs) = []
          \<and> else_unobserved (elsewhere_in g home checkout refs) = [])"
  (is "(?E = nowhere \<or> ?P) \<and> ?Q")
proof (cases "?E = nowhere")
  case True
  then show ?thesis by simp
next
  case False
  then obtain ck where ck: "checkout = Some ck" by (cases checkout) (auto simp: elsewhere_in_def)
  have rd: "cr_unreadable (ck_reading ck) = None" "\<not> cr_shallow (ck_reading ck)"
    using False ck by (auto simp: elsewhere_in_def split: if_splits)
  from False [unfolded ck] obtain tr unseen carried where
    v: "vouched g \<lparr>ak_checkout = ck, ak_origin = named g home,
        ak_subject = \<lparr>sj_path = home, sj_reading = no_clone_reading\<lparr>cr_remotes := tracked_in refs\<rparr>\<rparr>\<rparr>
      (relation_of g (map_option or_name (named g home)) ck) (ck_reading ck) = (tr, unseen)"
    and h: "holdings g ck (tr_tips tr) = Inr carried"
    and e: "elsewhere_in g home (Some ck) refs =
      \<lparr>else_own = filter (\<lambda>o1. o1 \<in> set carried) (cr_own (ck_reading ck)),
       else_copies = filter (\<lambda>o1. o1 \<notin> set (filter (\<lambda>o1. o1 \<in> set carried) (cr_own (ck_reading ck)))
          \<union> set (filter (\<lambda>o1. o1 \<in> set carried) (tr_tips tr))) carried,
       else_remote = filter (\<lambda>o1. o1 \<in> set carried) (tr_tips tr), else_witnesses = tr_witnesses tr,
       else_unobserved = unseen, else_direct = (relation_of g (map_option or_name (named g home)) ck = IsTheRemote)\<rparr>"
    by (rule elsewhere_cases)
  have ?P
    using ck rd h unfolding ck e by (intro exI [of _ ck] exI [of _ "tr_tips tr"] exI [of _ carried])
      (auto simp: else_tips_def oid_union_def)
  moreover have "tr_tips tr = [] \<and> unseen = []" if "tr_witnesses tr = []"
    using v that by (auto simp: vouched_def witness_for_def no_trust_def believed_def
        split: relation.splits if_splits option.splits prod.splits)
  then have ?Q unfolding ck e by simp
  ultimately show ?thesis by blast
qed

lemma in_seen:
  assumes "b \<in> set bs"
  shows "\<lparr>tip_branch = b, tip_oid = c\<rparr> \<in> set (List.map_filter (seen_at ob wrote) bs)
      \<longleftrightarrow> observed_at_branch ob b = Some c \<and> not_older (ob_at ob) (wrote b)"
proof -
  have "seen_at ob wrote b' = Some t \<longleftrightarrow> (\<exists>c. observed_at_branch ob b' = Some c \<and> not_older (ob_at ob) (wrote b')
      \<and> t = \<lparr>tip_branch = b', tip_oid = c\<rparr>)" for b' t
    by (auto simp: seen_at_def split: option.split)
  with assms show ?thesis unfolding set_map_filter by auto
qed

lemma in_unseen:
  assumes "b \<in> set bs"
  shows "\<lparr>uo_branch = b, uo_reading = rd\<rparr> \<in> set (List.map_filter (unseen_at ob tracks wrote) bs)
      \<longleftrightarrow> unseen_at ob tracks wrote b = Some \<lparr>uo_branch = b, uo_reading = rd\<rparr>"
proof -
  have "uo_branch u = b'" if "unseen_at ob tracks wrote b' = Some u" for b' u
    using that by (auto simp: unseen_at_def split: if_splits)
  from this [of _ "\<lparr>uo_branch = b, uo_reading = rd\<rparr>"] show ?thesis
    using assms unfolding set_map_filter by auto
qed

lemma unseen_kind:
  "unseen_at ob tracks wrote b = Some \<lparr>uo_branch = b, uo_reading = Unnamed\<rparr>
     \<longleftrightarrow> observed_at_branch ob b = None \<and> strictly_later (ob_at ob) (wrote b) \<and> b \<in> tracks"
  "unseen_at ob tracks wrote b = Some \<lparr>uo_branch = b, uo_reading = Older\<rparr>
     \<longleftrightarrow> (case observed_at_branch ob b of Some _ \<Rightarrow> \<not> not_older (ob_at ob) (wrote b)
         | None \<Rightarrow> \<not> strictly_later (ob_at ob) (wrote b))"
  by (cases "observed_at_branch ob b"; simp add: unseen_at_def seen_at_def gone_at_def; blast)+

text \<open>
  Each branch is answered for once. Of the branches a home names, the observation of a
  checkout's last fetch vouches for the ones its record lists at an instant not older than the
  home's own, says nothing of the ones the remote had dropped by a later record and the
  checkout no longer tracks, and lists every other one as unobserved: as unnamed where the
  record is later and does not list a branch still tracked, and as older everywhere else.
\<close>

theorem observation_is_per_branch:
  assumes "observed g a = Some (seen, unseen)" and "t \<in> set (cr_remotes (sj_reading (ak_subject a)))"
  shows "\<exists>origin ob. ak_origin a = Some origin \<and> fetched_last g (ck_path (ak_checkout a)) (or_url origin) = Some ob
    \<and> (let wrote = gr_moved g (sj_path (ak_subject a)) (''refs/remotes/origin/'' @ tip_branch t);
           listed = observed_at_branch ob (tip_branch t);
           tracked = tip_branch t \<in> tip_branch ` set (cr_remotes (ck_reading (ak_checkout a)))
       in (\<forall>c. \<lparr>tip_branch = tip_branch t, tip_oid = c\<rparr> \<in> set seen \<longleftrightarrow> listed = Some c \<and> not_older (ob_at ob) wrote)
        \<and> (\<lparr>uo_branch = tip_branch t, uo_reading = Unnamed\<rparr> \<in> set unseen
             \<longleftrightarrow> listed = None \<and> strictly_later (ob_at ob) wrote \<and> tracked)
        \<and> (\<lparr>uo_branch = tip_branch t, uo_reading = Older\<rparr> \<in> set unseen
             \<longleftrightarrow> (case listed of Some _ \<Rightarrow> \<not> not_older (ob_at ob) wrote
                 | None \<Rightarrow> \<not> strictly_later (ob_at ob) wrote)))"
proof -
  from observed_eq [OF assms(1)] obtain origin ob where
    o1: "ak_origin a = Some origin" "fetched_last g (ck_path (ak_checkout a)) (or_url origin) = Some ob"
    and s: "seen = List.map_filter (seen_at ob (\<lambda>b. gr_moved g (sj_path (ak_subject a)) (''refs/remotes/origin/'' @ b)))
         (map tip_branch (cr_remotes (sj_reading (ak_subject a))))"
    and u: "unseen = List.map_filter (unseen_at ob (tip_branch ` set (cr_remotes (ck_reading (ak_checkout a))))
           (\<lambda>b. gr_moved g (sj_path (ak_subject a)) (''refs/remotes/origin/'' @ b)))
         (map tip_branch (cr_remotes (sj_reading (ak_subject a))))" by blast
  have b: "tip_branch t \<in> set (map tip_branch (cr_remotes (sj_reading (ak_subject a))))" using assms(2) by simp
  show ?thesis
    using o1 unfolding s u Let_def in_seen [OF b] in_unseen [OF b] unseen_kind by blast
qed

subsection \<open>The record Git writes\<close>

text \<open>One ref of a fetch, and the line Git writes for it in \<open>FETCH_HEAD\<close>.\<close>

datatype fetched_kind =
  OfHead | OfBranch string | OfTag string | OfTracking string | OfOther string

record fetched_ref =
  fr_oid :: oid
  fr_merge :: bool
  fr_what :: fetched_kind
  fr_url :: string

fun fetched_name :: "fetched_kind \<Rightarrow> string" where
  "fetched_name OfHead = []"
| "fetched_name (OfBranch b) = b"
| "fetched_name (OfTag b) = b"
| "fetched_name (OfTracking b) = b"
| "fetched_name (OfOther b) = b"

definition quoted_of :: "string \<Rightarrow> string" where
  "quoted_of name = CHR 0x27 # name @ CHR 0x27 # '' of ''"

fun fetched_what :: "fetched_kind \<Rightarrow> string" where
  "fetched_what OfHead = []"
| "fetched_what (OfBranch b) = ''branch '' @ quoted_of b"
| "fetched_what (OfTag b) = ''tag '' @ quoted_of b"
| "fetched_what (OfTracking b) = ''remote-tracking branch '' @ quoted_of b"
| "fetched_what (OfOther b) = quoted_of b"

definition fetch_line :: "fetched_ref \<Rightarrow> string" where
  "fetch_line r = fr_oid r @ CHR 0x09 # (if fr_merge r then [] else ''not-for-merge'')
     @ CHR 0x09 # fetched_what (fr_what r) @ fr_url r"

definition fetch_text :: "fetched_ref list \<Rightarrow> string" where
  "fetch_text rs = concat (map (\<lambda>r. fetch_line r @ [CHR 0x0A]) rs)"

text \<open>
  A full object id, a ref name as Git allows one, and a url with no tab or line break in it
  that does not begin as a branch line does.
\<close>

definition fetched_ok :: "fetched_ref \<Rightarrow> bool" where
  "fetched_ok r \<longleftrightarrow> oid_parse (fr_oid r) = Inr (fr_oid r) \<and> list_all oid_char (fr_oid r)
     \<and> list_all (\<lambda>c. \<not> is_space c) (fetched_name (fr_what r))
     \<and> list_all (\<lambda>c. c \<notin> {CHR 0x09, CHR 0x0A, CHR 0x0D}) (fr_url r) \<and> \<not> prefix ''branch '' (fr_url r)"

definition seen_of :: "string \<Rightarrow> fetched_ref \<Rightarrow> seen_branch option" where
  "seen_of w r = (case fr_what r of
     OfBranch b \<Rightarrow> if identity (fr_url r) = Some w then Some \<lparr>sb_branch = b, sb_oid = fr_oid r\<rparr> else None
   | _ \<Rightarrow> None)"

lemma split_str_second:
  "y \<notin> set a \<Longrightarrow> y \<noteq> x \<Longrightarrow> split_str (x # y # q) (a @ x # y # q @ s) = Some (a, s)"
proof (induction a)
  case Nil
  then show ?case using split_str_here [of "x # y # q" s] by simp
next
  case (Cons c a)
  then have "\<not> prefix (x # y # q) ((c # a) @ x # y # q @ s)" by (cases a) auto
  with Cons show ?case by (subst split_str.simps) simp
qed

lemma oid_char_plain: "oid_char c \<Longrightarrow> c \<noteq> CHR 0x09 \<and> c \<noteq> CHR 0x0A \<and> c \<noteq> CHR 0x0D"
  by (auto simp: oid_char_def is_digit_def)

lemma not_space_plain: "\<not> is_space c \<Longrightarrow> c \<noteq> CHR 0x09 \<and> c \<noteq> CHR 0x0A \<and> c \<noteq> CHR 0x0D \<and> c \<noteq> CHR '' ''"
  by (auto simp: is_space_def)

lemma fetched_line:
  assumes "fetched_ok r"
  shows "plain_line (fetch_line r)" and "fetched_one (fetch_line r) w = seen_of w r"
proof -
  have n: "c \<notin> set (fetched_name (fr_what r))" if "c \<in> {CHR '' '', CHR 0x09, CHR 0x0A, CHR 0x0D}" for c
  proof
    assume "c \<in> set (fetched_name (fr_what r))"
    with assms have "\<not> is_space c" by (simp add: fetched_ok_def list_all_iff)
    with that not_space_plain [of c] show False by simp
  qed
  have u: "CHR 0x09 \<notin> set (fr_url r)" "CHR 0x0A \<notin> set (fr_url r)" "CHR 0x0D \<notin> set (fr_url r)"
    and i: "CHR 0x09 \<notin> set (fr_oid r)" "CHR 0x0A \<notin> set (fr_oid r)" "CHR 0x0D \<notin> set (fr_oid r)"
    using assms oid_char_plain by (auto simp: fetched_ok_def list_all_iff)
  have w: "CHR 0x09 \<notin> set (fetched_what (fr_what r))" "CHR 0x0A \<notin> set (fetched_what (fr_what r))"
    "CHR 0x0D \<notin> set (fetched_what (fr_what r))"
    using n [of "CHR 0x09"] n [of "CHR 0x0A"] n [of "CHR 0x0D"] by (cases "fr_what r"; simp add: quoted_of_def)+
  then show "plain_line (fetch_line r)" using u i by (simp add: plain_line_def fetch_line_def)
  let ?what = "fetched_what (fr_what r) @ fr_url r"
  have sp: "split_char (CHR 0x09) (fetch_line r) = [fr_oid r, if fr_merge r then [] else ''not-for-merge'', ?what]"
    using split_char_append [OF i(1)] split_char_append [of "CHR 0x09" "''not-for-merge''" ?what]
      split_char_append [of "CHR 0x09" "[]" ?what] split_char_none [of "CHR 0x09" ?what] w u
    by (simp add: fetch_line_def)
  have oid: "oid_parse (fr_oid r) = Inr (fr_oid r)" using assms by (simp add: fetched_ok_def)
  show "fetched_one (fetch_line r) w = seen_of w r"
  proof (cases "\<exists>b. fr_what r = OfBranch b")
    case True
    then obtain b where b: "fr_what r = OfBranch b" by blast
    have "CHR '' '' \<notin> set b" using n [of "CHR '' ''"] b by simp
    then have "split_str (CHR 0x27 # '' of '') (b @ CHR 0x27 # '' of '' @ fr_url r) = Some (b, fr_url r)"
      using split_str_second [of "CHR '' ''" b "CHR 0x27" "''of ''" "fr_url r"] by simp
    then show ?thesis
      using sp oid b strip_prefix_append [of "''branch ''" "CHR 0x27 # b @ CHR 0x27 # '' of '' @ fr_url r"]
        strip_prefix_append [of "[CHR 0x27]" "b @ CHR 0x27 # '' of '' @ fr_url r"]
      by (simp add: fetched_one_def seen_of_def quoted_of_def)
  next
    case False
    have "\<not> prefix ''branch '' ?what"
      using False assms by (cases "fr_what r") (simp_all add: quoted_of_def fetched_ok_def)
    then have "strip_prefix ''branch '' ?what = None" by (simp add: strip_prefix_def)
    moreover have "seen_of w r = None" using False by (cases "fr_what r") (simp_all add: seen_of_def)
    ultimately show ?thesis using sp oid by (simp add: fetched_one_def)
  qed
qed

lemma fetched_last_text:
  assumes "list_all fetched_ok rs" and "gr_fetch_head g p = Some (at, fetch_text rs)" and "identity url = Some w"
  shows "fetched_last g p url = Some \<lparr>ob_seen = List.map_filter (seen_of w) rs, ob_at = at\<rparr>"
proof -
  have "text_lines (fetch_text rs) = map fetch_line rs"
  proof -
    have "list_all plain_line (map fetch_line rs)" using assms(1) fetched_line(1) by (auto simp: list_all_iff)
    from text_lines_concat [OF this] show ?thesis by (simp add: fetch_text_def comp_def)
  qed
  moreover have "List.map_filter (\<lambda>l. fetched_one l w) (map fetch_line rs) = List.map_filter (seen_of w) rs"
    using assms(1) by (induction rs) (simp_all add: map_filter_simps fetched_line(2) split: option.split)
  ultimately show ?thesis using assms(2,3) by (simp add: fetched_last_def)
qed

text \<open>
  C22. The record of a fetch is read back. From the lines Git writes for a fetch, in any number, of
  any mix of remotes and for merging or not, of branches, tags, remote-tracking branches, other refs
  and a bare \<open>HEAD\<close>, the reader takes the branches of the remote it was asked about, each at
  the commit on its line, in order, and nothing of any other line. A url has no tab or
  line break in it and does not begin with the word \<open>branch\<close> and a space.
\<close>

theorem fetch_record_round_trip:
  assumes "list_all fetched_ok rs" and "gr_fetch_head g p = Some (at, fetch_text rs)" and "identity url = Some w"
  shows "fetched_last g p url = Some
    \<lparr>ob_seen = List.map_filter (\<lambda>r. case fr_what r of
         OfBranch b \<Rightarrow> if identity (fr_url r) = Some w then Some \<lparr>sb_branch = b, sb_oid = fr_oid r\<rparr> else None
       | _ \<Rightarrow> None) rs, ob_at = at\<rparr>"
  using fetched_last_text [OF assms] by (simp add: seen_of_def [abs_def])

subsection \<open>The properties at one home and its checkout\<close>

text \<open>
  A home that pushed \<open>main\<close> at instant 5, and a checkout of the same remote that fetched at
  instant 9 and saw it there.
\<close>

definition ex_a :: oid where "ex_a = replicate 40 (CHR ''a'')"
definition ex_b :: oid where "ex_b = replicate 40 (CHR ''b'')"

definition ex_seen :: fetched_ref where
  "ex_seen = \<lparr>fr_oid = ex_b, fr_merge = True, fr_what = OfBranch ''main'', fr_url = ''/srv/app''\<rparr>"

definition ex_beside :: "fetched_ref list" where
  "ex_beside = [\<lparr>fr_oid = ex_a, fr_merge = False, fr_what = OfTag ''v1'', fr_url = ''/srv/app''\<rparr>,
     \<lparr>fr_oid = ex_a, fr_merge = True, fr_what = OfHead, fr_url = ''/srv/app''\<rparr>]"

definition ex_answers :: git_reads where
  "ex_answers = \<lparr>gr_opens = (\<lambda>_. None), gr_branch = (\<lambda>_. Some ''main''),
     gr_refs = (\<lambda>_. Inr [\<lparr>ref_name = ''refs/heads/main'', ref_oid = ex_a\<rparr>]), gr_head = (\<lambda>_. Inr ex_a),
     gr_refspecs = (\<lambda>_. [''+refs/heads/*:refs/remotes/origin/*'']), gr_is_dir = (\<lambda>_. True), gr_mtime = (\<lambda>_. None),
     gr_render = (\<lambda>_. ''why''), gr_stores = (\<lambda>_ wanted. Inr wanted), gr_away = (\<lambda>_ _. Inr []),
     gr_among = (\<lambda>_ revs kept. Inr (filter (\<lambda>o1. o1 \<notin> set kept) revs)),
     gr_count = (\<lambda>_ head kept. Inr (if head \<in> set kept then 0 else 1)),
     gr_fetch_head = (\<lambda>_. Some (9, fetch_text (ex_seen # ex_beside))), gr_moved = (\<lambda>_ _. Some 5),
     gr_url = (\<lambda>_. Some ''/srv/app''), gr_real = (\<lambda>_. None)\<rparr>"

definition ex_checkout :: checkout where
  "ex_checkout = \<lparr>ck_path = [''r''], ck_reading = no_clone_reading\<lparr>cr_tips := [ex_a], cr_own := [ex_a], cr_complete := True\<rparr>,
     ck_origin = Some ''/srv/app'', ck_held = [ex_a]\<rparr>"

abbreviation ex_home_refs :: "git_ref list" where
  "ex_home_refs \<equiv> [\<lparr>ref_name = ''refs/remotes/origin/main'', ref_oid = ex_b\<rparr>]"

lemma ex_url [simp]: "identity ''/srv/app'' = Some ''/srv/app''" "normalize ''/srv/app'' = ''/srv/app''"
  by (simp_all add: identity_def normalize_def trim_def trim_start_def is_space_def split_url_def split_str.simps
      scp_like_def tidy_path_def trim_char_def trim_end_char_def strip_suffix_def suffix_def strip_prefix_def
      scheme_rest_def scp_name_def strip_git_def rsplit_once_def)

lemma ex_b_chars: "list_all oid_char ex_b"
  by (simp add: ex_b_def list_all_iff oid_char_def is_digit_def)

lemma ex_seen_ok: "list_all fetched_ok (ex_seen # ex_beside)"
proof -
  have "list_all oid_char ex_a" by (simp add: ex_a_def list_all_iff oid_char_def is_digit_def)
  moreover from this have "oid_parse ex_a = Inr ex_a" by (simp add: oid_parse_def ex_a_def list_all_iff)
  moreover have "oid_parse ex_b = Inr ex_b" using ex_b_chars by (simp add: oid_parse_def ex_b_def list_all_iff)
  ultimately show ?thesis using ex_b_chars by (simp add: fetched_ok_def ex_seen_def ex_beside_def is_space_def)
qed

lemma ex_fetched: "fetched_last ex_answers p ''/srv/app'' = Some \<lparr>ob_seen = [\<lparr>sb_branch = ''main'', sb_oid = ex_b\<rparr>], ob_at = 9\<rparr>"
  using fetched_last_text [of "ex_seen # ex_beside" ex_answers p 9 "''/srv/app''" "''/srv/app''"] ex_seen_ok
  by (simp add: ex_answers_def ex_seen_def ex_beside_def seen_of_def map_filter_simps)

lemma ex_tracked [simp]: "tracked_in ex_home_refs = [\<lparr>tip_branch = ''main'', tip_oid = ex_b\<rparr>]"
  by (simp add: tracked_in_def map_filter_simps strip_prefix_def)

lemma ex_law: "excludes_only_reached (=) ex_answers"
  by (simp add: excludes_only_reached_def ex_answers_def)

definition ex_asks :: asked where
  "ex_asks = \<lparr>ak_checkout = ex_checkout, ak_origin = named ex_answers [''h''],
     ak_subject = \<lparr>sj_path = [''h''], sj_reading = no_clone_reading\<lparr>cr_remotes := tracked_in ex_home_refs\<rparr>\<rparr>\<rparr>"

lemma ex_observed: "observed ex_answers ex_asks = Some ([\<lparr>tip_branch = ''main'', tip_oid = ex_b\<rparr>], [])"
proof -
  have "named ex_answers [''h''] = Some \<lparr>or_url = ''/srv/app'', or_name = ''/srv/app''\<rparr>"
    by (simp add: named_def ex_answers_def)
  then show ?thesis
    using ex_fetched [of "[''r'']"]
    by (simp add: observed_def ex_asks_def ex_checkout_def observe_one_def observed_at_branch_def not_older_def)
      (simp add: ex_answers_def)
qed

lemma ex_held: "held_in ex_answers p xs = Inr xs"
  by (simp add: held_in_def stores_in_def ex_answers_def)

lemma ex_holdings:
  "ex_b \<in> set tips \<Longrightarrow> \<exists>carried. holdings ex_answers ex_checkout tips = Inr carried \<and> ex_b \<in> set carried"
proof -
  assume b: "ex_b \<in> set tips"
  have "ex_b \<noteq> ex_a" by (simp add: ex_a_def ex_b_def)
  with b have "filter (\<lambda>o1. o1 \<notin> set (cr_tips (ck_reading ex_checkout))) tips \<noteq> []"
    by (auto simp: filter_empty_conv ex_checkout_def no_clone_reading_def)
  with b \<open>ex_b \<noteq> ex_a\<close> show ?thesis
    by (simp add: holdings_def ex_held oid_union_def Let_def ex_checkout_def no_clone_reading_def set_insort_key)
qed

lemma ex_remote:
  "ex_b \<in> set (else_remote (elsewhere_in ex_answers [''h''] (Some ex_checkout) ex_home_refs))"
  "\<not> else_direct (elsewhere_in ex_answers [''h''] (Some ex_checkout) ex_home_refs)"
proof -
  let ?r = "(ck_reading ex_checkout)"
  have n: "named ex_answers [''h''] = Some \<lparr>or_url = ''/srv/app'', or_name = ''/srv/app''\<rparr>"
    by (simp add: named_def ex_answers_def)
  then have rel: "relation_of ex_answers (map_option or_name (named ex_answers [''h''])) ex_checkout = SameRemote"
    by (simp add: relation_of_def ex_checkout_def)
  have r: "cr_unreadable ?r = None" "\<not> cr_shallow ?r" "cr_complete ?r"
    by (simp_all add: ex_checkout_def no_clone_reading_def)
  have v: "vouched ex_answers ex_asks SameRemote ?r = (believed ex_answers (ak_subject ex_asks)
      [\<lparr>sj_path = [''r''], sj_reading = ?r\<lparr>cr_remotes := [\<lparr>tip_branch = ''main'', tip_oid = ex_b\<rparr>]\<rparr>\<rparr>], [])"
    using r ex_observed by (simp add: vouched_def witness_for_def ex_asks_def ex_checkout_def)
  obtain tr un where e: "vouched ex_answers ex_asks SameRemote ?r = (tr, un)" by fastforce
  have b: "ex_b \<in> set (tr_tips tr)"
    using e unfolding v prod.inject by (auto simp: believed_tips witnessed_def ex_asks_def)
  from ex_holdings [OF b] obtain carried where
    h: "holdings ex_answers ex_checkout (tr_tips tr) = Inr carried" "ex_b \<in> set carried" by blast
  show "ex_b \<in> set (else_remote (elsewhere_in ex_answers [''h''] (Some ex_checkout) ex_home_refs))"
    using r rel h b e by (simp add: elsewhere_in_def Let_def ex_asks_def)
  show "\<not> else_direct (elsewhere_in ex_answers [''h''] (Some ex_checkout) ex_home_refs)"
    using r rel by (simp add: elsewhere_in_def Let_def nowhere_def split: prod.split sum.split)
qed

theorem remote_was_observed_witness:
  "\<exists>origin ob. named ex_answers [''h''] = Some origin
     \<and> fetched_last ex_answers [''r''] (or_url origin) = Some ob \<and> observed_at_branch ob ''main'' = Some ex_b"
  using remote_was_observed [OF ex_law ex_remote(1)] ex_remote(2) by (auto simp: ex_checkout_def)

theorem elsewhere_accounts_witness:
  "set (else_copies (elsewhere_in ex_answers [''h''] (Some ex_checkout) ex_home_refs))
     \<inter> set (else_tips (elsewhere_in ex_answers [''h''] (Some ex_checkout) ex_home_refs)) = {}"
  using elsewhere_accounts [of ex_answers "[''h'']" "Some ex_checkout" ex_home_refs] by auto

theorem observation_is_per_branch_witness:
  "(\<exists>ob. fetched_last ex_answers [''r''] ''/srv/app'' = Some ob \<and> observed_at_branch ob ''main'' = Some ex_b)"
proof -
  have "\<lparr>tip_branch = ''main'', tip_oid = ex_b\<rparr> \<in> set (cr_remotes (sj_reading (ak_subject ex_asks)))"
    by (simp add: ex_asks_def)
  from observation_is_per_branch [OF ex_observed this] show ?thesis
    by (auto simp: ex_asks_def ex_checkout_def named_def ex_answers_def Let_def)
qed

theorem fetch_record_round_trip_witness:
  "fetched_last ex_answers [''r''] ''/srv/app'' = Some \<lparr>ob_seen = [\<lparr>sb_branch = ''main'', sb_oid = ex_b\<rparr>], ob_at = 9\<rparr>"
proof -
  have f: "gr_fetch_head ex_answers [''r''] = Some (9, fetch_text (ex_seen # ex_beside))" by (simp add: ex_answers_def)
  show ?thesis using fetch_record_round_trip [OF ex_seen_ok f ex_url(1)] by (simp add: ex_seen_def ex_beside_def map_filter_simps)
qed

end
