(* ===== verification/Safety.thy ===== *)
theory Safety
  imports Assess Trust
begin

text \<open>
  What the whole chain promises: a home that \<open>lifecycle/assess.rs\<close> read, that \<open>witness::elsewhere\<close>
  compared with the checkout of its project and that \<open>kernel::judge\<close> called safe to remove
  loses nothing. The pieces are the lemmas of \<open>Assess\<close>, \<open>Trust\<close> and \<open>Kernel\<close>; this theory puts
  them together.
\<close>

subsection \<open>Where a commit is kept\<close>

text \<open>A ref of the checkout's own, whose commit its store answered it has, reaches the commit.\<close>

definition kept_by_checkout :: "(oid \<Rightarrow> oid \<Rightarrow> bool) \<Rightarrow> git_reads \<Rightarrow> checkout option \<Rightarrow> oid \<Rightarrow> bool" where
  "kept_by_checkout reaches g checkout o1 \<longleftrightarrow>
     (\<exists>ck tips carried k. checkout = Some ck \<and> holdings g ck tips = Inr carried
        \<and> k \<in> set (cr_own (ck_reading ck)) \<and> k \<in> set carried \<and> reaches k o1)"

text \<open>
  A commit the checkout's store answered it has reaches it, and a branch of the remote reached that
  commit: a head of the remote, where the checkout is the remote; else a branch the checkout's
  last fetch of the home's remote wrote down, no older than the home's own record of that
  branch.
\<close>

definition kept_by_remote ::
    "(oid \<Rightarrow> oid \<Rightarrow> bool) \<Rightarrow> git_reads \<Rightarrow> path \<Rightarrow> checkout option \<Rightarrow> git_ref list \<Rightarrow> oid \<Rightarrow> bool" where
  "kept_by_remote reaches g home checkout refs o1 \<longleftrightarrow>
     (\<exists>ck tips carried k. checkout = Some ck \<and> holdings g ck tips = Inr carried \<and> k \<in> set carried \<and> reaches k o1
        \<and> ((\<exists>t \<in> set (heads_of g (ck_path ck)). reaches (tip_oid t) k)
           \<or> (\<exists>origin ob t c. named g home = Some origin
                \<and> fetched_last g (ck_path ck) (or_url origin) = Some ob
                \<and> t \<in> set (tracked_in refs) \<and> observed_at_branch ob (tip_branch t) = Some c
                \<and> not_older (ob_at ob) (gr_moved g home (''refs/remotes/origin/'' @ tip_branch t))
                \<and> reaches c k)))"

text \<open>
  A store beside the home reaches it from a ref of its own, holds every object behind it, and
  is neither the home nor one of the homes removed together.
\<close>

definition kept_by_store ::
    "store_reads \<Rightarrow> path \<Rightarrow> path list \<Rightarrow> (path \<times> role) list \<Rightarrow> oid \<Rightarrow> bool" where
  "kept_by_store h home homes places o1 \<longleftrightarrow>
     (\<exists>store left re. store \<in> fst ` set places
        \<and> (\<forall>other \<in> set (home # homes). resolve_path (sr_canonical h) store \<noteq> resolve_path (sr_canonical h) other)
        \<and> holds_of h store left = Some re \<and> whole h store home (rc_reached re) \<and> o1 \<in> set (rc_reached re))"

text \<open>
  The tips of the work in a home: its refs but its records of somewhere else, its head where no
  ref of its own is checked out, and the ref its record names.
\<close>

definition work_tip :: "input \<Rightarrow> home_git \<Rightarrow> git_ref list \<Rightarrow> oid \<Rightarrow> bool" where
  "work_tip inp g refs r \<longleftrightarrow>
     (\<exists>x \<in> set refs. ref_oid x = r \<and> \<not> prefix ''refs/remotes/'' (ref_name x) \<and> \<not> prefix ''refs/nodal/'' (ref_name x))
     \<or> (hg_head g = Inr r \<and> \<not> checked_out (hg_head_text g) (map ref_name (own_refs refs)))
     \<or> (\<exists>name x. in_work inp = Some name \<and> List.find (\<lambda>x. ref_name x = name) refs = Some x \<and> ref_oid x = r)"

lemma work_tips: "work_tip inp g refs r \<Longrightarrow> r \<in> set (sc_tips (work_resolve (in_work inp) g refs))"
  by (auto simp: work_tip_def work_resolve_def own_refs_def NOT_ITS_OWN_def Let_def split: option.splits)

text \<open>What \<open>git rev-list revs --not kept\<close> documents: every commit of \<open>revs\<close> that \<open>kept\<close> does not reach.\<close>

definition walks_everything :: "(oid \<Rightarrow> oid \<Rightarrow> bool) \<Rightarrow> home_git \<Rightarrow> bool" where
  "walks_everything reaches g \<longleftrightarrow>
     (\<forall>revs kept out. hg_among g revs kept = Inr out
        \<longrightarrow> (\<forall>r \<in> set revs. \<forall>o1. reaches r o1 \<longrightarrow> o1 \<in> set out \<or> (\<exists>k \<in> set kept. reaches k o1)))"

subsection \<open>What each reading leaves out\<close>

lemma own_kept:
  assumes "k \<in> set (else_own (elsewhere_in g home checkout refs))" and "reaches k o1"
  shows "kept_by_checkout reaches g checkout o1"
proof (cases checkout)
  case None
  with assms(1) show ?thesis by (simp add: elsewhere_in_def)
next
  case (Some ck)
  with assms(1) have "elsewhere_in g home (Some ck) refs \<noteq> nowhere" by auto
  then show ?thesis
    by (rule elsewhere_cases) (use assms Some in \<open>auto simp: kept_by_checkout_def\<close>)
qed

lemma remote_kept:
  assumes law: "excludes_only_reached reaches g"
    and k: "k \<in> set (else_remote (elsewhere_in g home checkout refs))" "reaches k o1"
  shows "kept_by_remote reaches g home checkout refs o1"
proof (cases checkout)
  case None
  with k(1) show ?thesis by (simp add: elsewhere_in_def)
next
  case (Some ck)
  show ?thesis
  proof (cases "else_direct (elsewhere_in g home (Some ck) refs)")
    case True
    from direct_observed [OF law k(1) [unfolded Some] True] k(2) Some
    show ?thesis unfolding kept_by_remote_def by blast
  next
    case False
    from remote_observed [OF law k(1) [unfolded Some] False] k(2) Some
    show ?thesis unfolding kept_by_remote_def by blast
  qed
qed

text \<open>The groups both readings end with, once the search over the other stores has answered.\<close>

definition left_groups :: "witness \<Rightarrow> found \<Rightarrow> commit_group list" where
  "left_groups w f = held_groups (fo_held f)
     @ List.map_filter id [commit_group (unchecked_copies w (fo_unread f)) (fo_unchecked f),
                           commit_group (unreached w) (fo_only f)]"

definition search_for :: "store_reads \<Rightarrow> input \<Rightarrow> oid list \<Rightarrow> found" where
  "search_for h inp unproved = fst (local_copies h (in_home inp) (in_checkout inp) (in_siblings inp) unproved [])"

lemma search_for_rows:
  "local_copies h (in_home inp) (in_checkout inp) (in_siblings inp) unproved rows = (f, rows')
     \<Longrightarrow> f = search_for h inp unproved"
  unfolding search_for_def by (metis local_copies_rows fst_conv)

lemma refusing_groups: "fst (refusing h inp unproved found remotes rd) = left_groups (witness_of remotes found) (search_for h inp unproved)"
  by (auto simp: refusing_def left_groups_def Let_def dest!: search_for_rows simp del: map_filter_id_Cons
      split: prod.split)

lemma history_accounts:
  assumes "history h g inp ew rd = Inr (gs, remotes, rd')"
  shows "\<exists>refs. hg_refs g = Inr refs \<and>
    (hg_among g (sc_tips (work_resolve (in_work inp) g refs)) (else_own (ew refs)) = Inr []
     \<or> (\<exists>unproved. hg_among g (sc_tips (work_resolve (in_work inp) g refs)) (else_tips (ew refs)) = Inr unproved
          \<and> (unproved = [] \<or> set (left_groups (witness_of remotes (ew refs)) (search_for h inp unproved)) \<subseteq> set gs)))"
proof -
  obtain refs where r: "hg_remotes g = Inr remotes" "hg_refs g = Inr refs"
    using assms by (auto simp: history_def Let_def split: sum.splits if_splits prod.splits)
  show ?thesis
  proof (cases "in_dispositions inp")
    case True
    with assms r show ?thesis
      by (auto simp: history_def Let_def left_groups_def simp del: map_filter_id_Cons dest!: search_for_rows
          split: sum.splits if_splits prod.splits)
  next
    case False
    then obtain unproved where u: "hg_among g (sc_tips (work_resolve (in_work inp) g refs)) (else_tips (ew refs)) = Inr unproved"
      using assms r by (auto simp: history_def Let_def split: sum.splits)
    have "unproved = [] \<or> (\<exists>rd0. fst (refusing h inp unproved (ew refs) remotes rd0) = gs)"
      using assms r u False by (auto simp: history_def Let_def split: if_splits prod.splits) (metis fst_conv)
    with r u show ?thesis unfolding refusing_groups by blast
  qed
qed

subsection \<open>A safe home\<close>

lemma safe_commits:
  assumes "safe (judge canonical ls ev)" and "g \<in> set (ls_commits ls)"
  shows "group_clear canonical (ev_set ev) (cg_copies g)"
  using assms by (simp add: safe_clear)

lemma safe_left:
  assumes safe: "safe (judge canonical ls ev)" and gs: "set (left_groups w f) \<subseteq> set (ls_commits ls)"
  shows "fo_unchecked f = []" and "fo_only f = []"
    and "(store, os) \<in> set (fo_held f) \<Longrightarrow> os \<noteq> []
      \<Longrightarrow> \<forall>home \<in> set (ev_set ev). resolve_path canonical home \<noteq> resolve_path canonical store"
proof -
  have clear: "group_clear canonical (ev_set ev) (cg_copies g)" if "g \<in> set (left_groups w f)" for g
    using safe_commits [OF safe] that gs by blast
  show "fo_unchecked f = []"
  proof (rule ccontr)
    assume "fo_unchecked f \<noteq> []"
    then have "\<lparr>cg_copies = NotChecked w (fo_unread f), cg_count = length (fo_unchecked f),
        cg_sample = take SAMPLE (fo_unchecked f)\<rparr> \<in> set (left_groups w f)"
      unfolding left_groups_def set_append set_map_filter by (simp add: commit_group_def unchecked_copies_def)
    from clear [OF this] show False by (simp add: group_clear_def)
  qed
  show "fo_only f = []"
  proof (rule ccontr)
    assume "fo_only f \<noteq> []"
    then have "\<lparr>cg_copies = unreached w, cg_count = length (fo_only f), cg_sample = take SAMPLE (fo_only f)\<rparr>
        \<in> set (left_groups w f)"
      unfolding left_groups_def set_append set_map_filter by (simp add: commit_group_def)
    from clear [OF this] show False by (simp add: group_clear_def unreached_def split: if_splits)
  qed
  assume held: "(store, os) \<in> set (fo_held f)" "os \<noteq> []"
  then have "\<lparr>cg_copies = SecondLocalCopy store, cg_count = length os, cg_sample = take SAMPLE os\<rparr> \<in> set (left_groups w f)"
    unfolding left_groups_def held_groups_def set_append set_map_filter
    by (auto simp: commit_group_def intro!: bexI [of _ "(store, os)"])
  from clear [OF this] show "\<forall>home \<in> set (ev_set ev). resolve_path canonical home \<noteq> resolve_path canonical store"
    by (simp add: group_clear_def)
qed

lemma unproved_kept:
  assumes safe: "safe (judge (sr_canonical h) ls ev)"
    and gs: "set (left_groups w (search_for h inp unproved)) \<subseteq> set (ls_commits ls)" and o1: "o1 \<in> set unproved"
  shows "kept_by_store h (in_home inp) (ev_set ev) (stores (in_checkout inp) (in_siblings inp)) o1"
proof -
  let ?f = "search_for h inp unproved"
  note left = safe_left [OF safe gs]
  have split: "mset unproved = mset (concat (map snd (fo_held ?f))) + mset (fo_unchecked ?f) + mset (fo_only ?f)"
    "\<forall>(store, os) \<in> set (fo_held ?f). store \<in> fst ` set (stores (in_checkout inp) (in_siblings inp))
       \<and> resolve_path (sr_canonical h) store \<noteq> resolve_path (sr_canonical h) (in_home inp)
       \<and> (\<exists>left r. holds_of h store left = Some r \<and> whole h store (in_home inp) (rc_reached r) \<and> set os \<subseteq> set (rc_reached r))"
    using local_copies_split [where h = h and home = "in_home inp" and checkout = "in_checkout inp"
        and siblings = "in_siblings inp" and unproved = unproved and rows = "[]"]
    unfolding search_for_def case_prod_beta by blast+
  have "set unproved = set (concat (map snd (fo_held ?f)))"
    using split(1) left(1,2) by (metis add_0_right mset.simps(1) set_mset_mset)
  with o1 obtain store os where s: "(store, os) \<in> set (fo_held ?f)" "o1 \<in> set os" by auto
  from s left(3) [OF s(1)] split(2) show ?thesis
    unfolding kept_by_store_def by fastforce
qed

lemma assess_parts:
  assumes "assess h g status candidates running ew now inp attributed = Inr a"
  obtains st commits remotes rd where "status = Inr st" and "history h g inp ew no_reading = Inr (commits, remotes, rd)"
    and "as_commits a = commits" and "set (working st (in_fate inp) (in_declared inp)) \<subseteq> set (as_paths a)"
  using assms by (auto simp: assess_def ranked_def Let_def split: sum.splits prod.splits if_splits)

text \<open>
  C1. A home called safe loses nothing that was read. Where the assessment of a home is judged safe
  to remove, alone or with other homes, no entry of the listing of its working tree holds work;
  where the home is to be moved and what runs on the machine was read, nothing else stands
  in it and nothing was left unread; and every commit that any tip of its work reaches, whichever
  of its refs that is, is reached from a commit the checkout's store answered it has, at a ref of
  the checkout or in the history of a branch of the remote as it was last observed, or from a ref of a
  store beside the home that holds every object behind it and is none of the homes this
  removal takes. Git's own walks are taken to do what \<open>rev-list\<close> documents, and
  the checkout is not compared with the homes that are taken.
\<close>

theorem safe_home_is_kept:
  assumes laws: "walks_everything reaches hg" "excludes_only_reached reaches gr"
    and a: "assess h hg status candidates running (elsewhere_in gr (in_home inp) checkout) now inp attributed = Inr a"
    and safe: "safe (assessment_verdict (sr_canonical h) a homes at)"
  shows "\<exists>refs st. hg_refs hg = Inr refs \<and> status = Inr st
    \<and> (\<forall>e \<in> set (su_entries st). \<not> work_entry e)
    \<and> (as_moves a \<longrightarrow> (case as_runtime a of None \<Rightarrow> True | Some rt \<Rightarrow> \<not> rt_unread rt \<and> rt_bystanders rt = []))
    \<and> (\<forall>r o1. work_tip inp hg refs r \<and> reaches r o1 \<longrightarrow>
         kept_by_checkout reaches gr checkout o1
         \<or> kept_by_remote reaches gr (in_home inp) checkout refs o1
         \<or> kept_by_store h (in_home inp) homes (stores (in_checkout inp) (in_siblings inp)) o1)"
proof -
  let ?ew = "elsewhere_in gr (in_home inp) checkout"
  let ?ls = "assessment_loss_set a" and ?ev = "assessment_evidence a homes at"
  from a obtain st commits remotes rd where st: "status = Inr st"
    and hi: "history h hg inp ?ew no_reading = Inr (commits, remotes, rd)"
    and c: "as_commits a = commits" and w: "set (working st (in_fate inp) (in_declared inp)) \<subseteq> set (as_paths a)"
    by (rule assess_parts)
  have j: "safe (judge (sr_canonical h) ?ls ?ev)" using safe by (simp add: assessment_verdict_def)
  have ev: "ev_set ?ev = homes" by (simp add: assessment_evidence_def)
  have "working st (in_fate inp) (in_declared inp) = []"
  proof (rule ccontr)
    assume "working st (in_fate inp) (in_declared inp) \<noteq> []"
    then obtain g where "g \<in> set (working st (in_fate inp) (in_declared inp))" by (meson list.set_sel(1))
    with working_groups(2) w j show False by (fastforce simp: safe_clear assessment_loss_set_def)
  qed
  then have tree: "\<forall>e \<in> set (su_entries st). \<not> work_entry e"
    unfolding working_groups(3) by (simp add: list_ex_iff)
  have run: "as_moves a \<longrightarrow> (case as_runtime a of None \<Rightarrow> True | Some rt \<Rightarrow> \<not> rt_unread rt \<and> rt_bystanders rt = [])"
    using j by (auto simp: safe_clear occupied_iff assessment_evidence_def split: option.splits)
  from history_accounts [OF hi] obtain refs where refs: "hg_refs hg = Inr refs"
    and split: "hg_among hg (sc_tips (work_resolve (in_work inp) hg refs)) (else_own (?ew refs)) = Inr []
      \<or> (\<exists>unproved. hg_among hg (sc_tips (work_resolve (in_work inp) hg refs)) (else_tips (?ew refs)) = Inr unproved
           \<and> (unproved = [] \<or> set (left_groups (witness_of remotes (?ew refs)) (search_for h inp unproved)) \<subseteq> set commits))"
    by blast
  have "kept_by_checkout reaches gr checkout o1 \<or> kept_by_remote reaches gr (in_home inp) checkout refs o1
      \<or> kept_by_store h (in_home inp) homes (stores (in_checkout inp) (in_siblings inp)) o1"
    if tip: "work_tip inp hg refs r" "reaches r o1" for r o1
  proof -
    have r: "r \<in> set (sc_tips (work_resolve (in_work inp) hg refs))" "reaches r o1"
      using work_tips [OF tip(1)] tip(2) .
    consider k where "k \<in> set (else_own (?ew refs)) \<union> set (else_remote (?ew refs))" "reaches k o1"
      | unproved where "o1 \<in> set unproved"
          "set (left_groups (witness_of remotes (?ew refs)) (search_for h inp unproved)) \<subseteq> set commits"
      using split laws(1) r unfolding walks_everything_def
      by (elim disjE exE conjE) (force simp: else_tips_def oid_union_set)+
    then show ?thesis
    proof cases
      case 1
      with own_kept remote_kept [OF laws(2)] show ?thesis by blast
    next
      case 2
      with unproved_kept [OF j] c show ?thesis by (simp add: ev assessment_loss_set_def)
    qed
  qed
  with st refs tree run show ?thesis by blast
qed

subsection \<open>The property at one home\<close>

text \<open>The home of \<open>Trust\<close>, on the commit it pushed, with nothing changed in it.\<close>

definition ex_home :: home_git where
  "ex_home = \<lparr>hg_remotes = Inr [''origin''], hg_refs = Inr ex_home_refs,
     hg_among = (\<lambda>revs kept. Inr (filter (\<lambda>o1. o1 \<notin> set kept) revs)), hg_head_text = None, hg_head = Inr ex_b\<rparr>"

lemma ex_home_git [simp]:
  "hg_remotes ex_home = Inr [''origin'']" "hg_refs ex_home = Inr ex_home_refs"
  "hg_among ex_home revs kept = Inr (filter (\<lambda>o1. o1 \<notin> set kept) revs)"
  by (simp_all add: ex_home_def)

lemma ex_tips: "sc_tips (work_resolve None ex_home ex_home_refs) = [ex_b]"
  by (simp add: work_resolve_def ex_home_def own_refs_def NOT_ITS_OWN_def checked_out_def Let_def)

lemma ex_else: "ex_b \<in> set (else_tips (elsewhere_in ex_answers [''h''] (Some ex_checkout) ex_home_refs))"
  using ex_remote(1) by (simp add: else_tips_def oid_union_set)

lemma assess_alone:
  assumes "status = Inr st" and "history h g inp ew no_reading = Inr (commits, remotes, rd)"
  shows "\<exists>a. assess h g status cs running ew now inp None = Inr a \<and> as_commits a = commits
    \<and> as_paths a = working st (in_fate inp) (in_declared inp) @ (if in_state inp then ignored cs (in_fate inp) else [])
    \<and> \<not> as_moves a"
  using assms by (simp add: assess_def ranked_def Let_def case_prod_beta)

theorem safe_home_is_kept_witness:
  "kept_by_checkout (=) ex_answers (Some ex_checkout) ex_b
   \<or> kept_by_remote (=) ex_answers [''h''] (Some ex_checkout) ex_home_refs ex_b
   \<or> kept_by_store ex_reads [''h''] [] [([''r''], Checkout)] ex_b"
proof -
  let ?status = "Inr \<lparr>su_head = HeadDetached ex_b, su_upstream = None, su_ahead = 0, su_behind = 0, su_entries = []\<rparr> :: error + summary"
  have walk: "walks_everything (=) ex_home" by (simp add: walks_everything_def ex_home_def)
  obtain rd where "history ex_reads ex_home ex_input (elsewhere_in ex_answers (in_home ex_input) (Some ex_checkout)) no_reading
      = Inr ([], [''origin''], rd)"
    using ex_else ex_tips by (simp add: history_def ex_input_def Let_def)
  from assess_alone [OF _ this, of ?status] obtain a where
    a: "assess ex_reads ex_home ?status [] undefined
      (elsewhere_in ex_answers (in_home ex_input) (Some ex_checkout)) 0 ex_input None = Inr a"
    and c: "as_commits a = []" "as_paths a = []" "\<not> as_moves a"
    by (force simp: working_def group_def paths_where_def ex_input_def)
  then have "safe (assessment_verdict (sr_canonical ex_reads) a [] 0)"
    by (simp add: assessment_verdict_def assessment_loss_set_def assessment_evidence_def safe_clear occupied_iff)
  moreover have "work_tip ex_input ex_home ex_home_refs ex_b"
    by (simp add: work_tip_def checked_out_def) (simp add: ex_home_def)
  ultimately show ?thesis
    using safe_home_is_kept [OF walk ex_law a] by (fastforce simp: ex_input_def stores_def)
qed

end
