(* ===== verification/Clones.thy ===== *)
theory Clones
  imports Trust
begin

text \<open>
  \<open>doctor/unique.rs\<close>: what a survey proves of each clone of one remote, from the other clones
  on this machine. The commits a clone alone holds are counted by \<open>git rev-list --count\<close>.
\<close>

record proved =
  pv_off_remote :: "nat option"
  pv_only_copy :: "nat option"
  pv_unchecked :: "string option"
  pv_witnesses :: "path list"

definition UNWITNESSED :: string where
  "UNWITNESSED = ''no clone of this remote here heard from it more recently, so this clone's own ''
     @ ''remote-tracking refs could not be checked''"

definition proved_unchecked :: "string \<Rightarrow> proved" where
  "proved_unchecked why = \<lparr>pv_off_remote = None, pv_only_copy = None, pv_unchecked = Some why, pv_witnesses = []\<rparr>"

definition proved_empty :: proved where
  "proved_empty = \<lparr>pv_off_remote = Some 0, pv_only_copy = Some 0, pv_unchecked = None, pv_witnesses = []\<rparr>"

definition fresher :: "clone_reading \<Rightarrow> subject \<Rightarrow> bool" where
  "fresher candidate s =
     (if \<not> cr_complete candidate \<or> cr_unreadable candidate \<noteq> None then False
      else (case (cr_heard candidate, cr_heard (sj_reading s)) of
              (Some later, Some earlier) \<Rightarrow> earlier < later
            | _ \<Rightarrow> False))"

definition freshest :: "subject list \<Rightarrow> nat \<Rightarrow> subject list" where
  "freshest subjects index =
     (let candidates = map snd (filter (\<lambda>(other, c). other \<noteq> index \<and> fresher (sj_reading c) (subjects ! index))
            (enumerate 0 subjects))
      in case List.map_filter (\<lambda>c. cr_heard (sj_reading c)) candidates of
           [] \<Rightarrow> []
         | t # ts \<Rightarrow> filter (\<lambda>c. cr_heard (sj_reading c) = Some (fold max ts t)) candidates)"

definition trusted_of :: "git_reads \<Rightarrow> subject list \<Rightarrow> nat \<Rightarrow> trusted" where
  "trusted_of g subjects index = believed g (subjects ! index) (freshest subjects index)"

definition witnessable :: "clone_reading \<Rightarrow> bool" where
  "witnessable r \<longleftrightarrow> \<not> cr_shallow r \<and> cr_unreadable r = None"

text \<open>The holders of each tip are counted once for each clone that may stand as a copy.\<close>

definition held_by_others :: "subject list \<Rightarrow> oid list list" where
  "held_by_others subjects =
     (let mine = map (\<lambda>s. if witnessable (sj_reading s) then remdups (cr_tips (sj_reading s)) else []) subjects;
          holders = (\<lambda>o1. length (filter (\<lambda>tips. o1 \<in> set tips) mine))
      in map (\<lambda>tips. filter (\<lambda>o1. (if o1 \<in> set tips then 1 else 0) < holders o1)
            (remdups_adj (sort (concat mine)))) mine)"

definition unwitnessed :: "git_reads \<Rightarrow> path \<Rightarrow> oid \<Rightarrow> oid list \<Rightarrow> proved" where
  "unwitnessed g p head others =
     (case gr_count g p head others of
        Inr n \<Rightarrow>
          if n = 0 then \<lparr>pv_off_remote = None, pv_only_copy = Some 0, pv_unchecked = None, pv_witnesses = []\<rparr>
          else proved_unchecked UNWITNESSED
      | Inl e \<Rightarrow> proved_unchecked (gr_render g e))"

definition prove_one :: "git_reads \<Rightarrow> subject \<Rightarrow> trusted \<Rightarrow> oid list \<Rightarrow> proved" where
  "prove_one g s tr others =
     (case cr_unreadable (sj_reading s) of
        Some why \<Rightarrow> proved_unchecked why
      | None \<Rightarrow>
          (case cr_head (sj_reading s) of
             None \<Rightarrow> proved_empty
           | Some head \<Rightarrow>
               if tr_witnesses tr = [] \<and> cr_remotes (sj_reading s) \<noteq> []
               then unwitnessed g (sj_path s) head others
               else
                 (case gr_count g (sj_path s) head (tr_tips tr) of
                    Inl e \<Rightarrow> proved_unchecked (gr_render g e)
                  | Inr off \<Rightarrow>
                      if off = 0
                      then \<lparr>pv_off_remote = Some 0, pv_only_copy = Some 0, pv_unchecked = None,
                            pv_witnesses = tr_witnesses tr\<rparr>
                      else
                        (case gr_count g (sj_path s) head (tr_tips tr @ others) of
                           Inr only \<Rightarrow> \<lparr>pv_off_remote = Some off, pv_only_copy = Some only, pv_unchecked = None,
                             pv_witnesses = tr_witnesses tr\<rparr>
                         | Inl e \<Rightarrow> proved_unchecked (gr_render g e)))))"

definition prove :: "git_reads \<Rightarrow> subject list \<Rightarrow> proved list" where
  "prove g subjects =
     map (\<lambda>(index, s). prove_one g s (trusted_of g subjects index) (held_by_others subjects ! index))
       (enumerate 0 subjects)"

subsection \<open>Who holds a tip, and who heard last\<close>

lemma length_filter_gt:
  "k < length xs \<Longrightarrow> (if P (xs ! k) then 1 else 0) < length (filter P xs)
     \<longleftrightarrow> (\<exists>j < length xs. j \<noteq> k \<and> P (xs ! j))"
proof -
  assume k: "k < length xs"
  let ?S = "{j. j < length xs \<and> P (xs ! j)}"
  have f: "finite ?S" by simp
  have "(if P (xs ! k) then 1 else 0) < card ?S \<longleftrightarrow> ?S - {k} \<noteq> {}"
  proof (cases "P (xs ! k)")
    case True
    then have "card ?S = Suc (card (?S - {k}))" using card.remove [OF f, of k] k by simp
    with True f show ?thesis by (simp add: card_gt_0_iff)
  next
    case False
    then have "?S - {k} = ?S" by auto
    with False f show ?thesis by (simp add: card_gt_0_iff)
  qed
  moreover have "?S - {k} \<noteq> {} \<longleftrightarrow> (\<exists>j < length xs. j \<noteq> k \<and> P (xs ! j))" by auto
  ultimately show ?thesis by (simp only: length_filter_conv_card)
qed

lemma held_by_others_iff:
  assumes "i < length subjects"
  shows "o1 \<in> set (held_by_others subjects ! i) \<longleftrightarrow>
    (\<exists>j < length subjects. j \<noteq> i \<and> witnessable (sj_reading (subjects ! j)) \<and> o1 \<in> set (cr_tips (sj_reading (subjects ! j))))"
proof -
  let ?mine = "map (\<lambda>s. if witnessable (sj_reading s) then remdups (cr_tips (sj_reading s)) else []) subjects"
  have "o1 \<in> set (held_by_others subjects ! i) \<longleftrightarrow>
      (if o1 \<in> set (?mine ! i) then 1 else 0) < length (filter (\<lambda>tips. o1 \<in> set tips) ?mine)
      \<and> o1 \<in> set (concat ?mine)"
    using assms by (auto simp: held_by_others_def Let_def)
  also have "\<dots> \<longleftrightarrow> (\<exists>j < length ?mine. j \<noteq> i \<and> o1 \<in> set (?mine ! j))"
  proof -
    have "o1 \<in> set (concat ?mine)" if "j < length ?mine" "o1 \<in> set (?mine ! j)" for j
      using that nth_mem [OF that(1)] by (simp only: set_concat) blast
    moreover have "i < length ?mine" using assms by simp
    ultimately show ?thesis using length_filter_gt [of i ?mine "\<lambda>tips. o1 \<in> set tips"] by blast
  qed
  finally show ?thesis by (auto split: if_splits)
qed

lemma fold_max_ge: "x \<in> insert t (set ts) \<Longrightarrow> x \<le> fold max ts (t :: nat)"
  by (metis Max.set_eq_fold Max_ge List.finite_set list.simps(15))

lemma freshest_in:
  assumes "c \<in> set (freshest subjects i)"
  shows "\<exists>j < length subjects. j \<noteq> i \<and> subjects ! j = c \<and> fresher (sj_reading c) (subjects ! i)
    \<and> (\<forall>k < length subjects. k \<noteq> i \<and> fresher (sj_reading (subjects ! k)) (subjects ! i)
         \<longrightarrow> the (cr_heard (sj_reading (subjects ! k))) \<le> the (cr_heard (sj_reading c)))"
proof -
  let ?cs = "map snd (filter (\<lambda>(other, c). other \<noteq> i \<and> fresher (sj_reading c) (subjects ! i)) (enumerate 0 subjects))"
  have mem: "x \<in> set ?cs \<longleftrightarrow> (\<exists>j < length subjects. j \<noteq> i \<and> subjects ! j = x \<and> fresher (sj_reading x) (subjects ! i))" for x
    by (auto simp: enumerate_eq_zip in_set_zip) force
  obtain t ts where ts: "List.map_filter (\<lambda>c. cr_heard (sj_reading c)) ?cs = t # ts"
    and c: "c \<in> set ?cs" "cr_heard (sj_reading c) = Some (fold max ts t)"
    using assms by (cases "List.map_filter (\<lambda>c. cr_heard (sj_reading c)) ?cs") (simp_all add: freshest_def Let_def)
  have le: "the (cr_heard (sj_reading x)) \<le> the (cr_heard (sj_reading c))" if "x \<in> set ?cs" for x
  proof -
    have "fresher (sj_reading x) (subjects ! i)" using that mem by blast
    then obtain h where h: "cr_heard (sj_reading x) = Some h" by (auto simp: fresher_def split: option.splits if_splits)
    then have "h \<in> set (List.map_filter (\<lambda>c. cr_heard (sj_reading c)) ?cs)"
      using that unfolding set_map_filter by blast
    then show ?thesis using h c(2) ts fold_max_ge [of h t ts] by simp
  qed
  then show ?thesis using c(1) unfolding mem by blast
qed

subsection \<open>What a clean clone rests on\<close>

text \<open>
  What \<open>git rev-list --count head --not kept\<close> documents: a count of nothing is a head in the
  history of one of the commits it was told to leave out.
\<close>

definition counts_only_outside :: "(oid \<Rightarrow> oid \<Rightarrow> bool) \<Rightarrow> git_reads \<Rightarrow> bool" where
  "counts_only_outside reaches g \<longleftrightarrow>
     (\<forall>p head kept. gr_count g p head kept = Inr 0 \<longrightarrow> (\<exists>k \<in> set kept. reaches k head))"

lemma prove_nth: "i < length subjects \<Longrightarrow> prove g subjects ! i =
    prove_one g (subjects ! i) (trusted_of g subjects i) (held_by_others subjects ! i)"
  by (simp add: prove_def nth_enumerate_eq)

lemma clean_count:
  assumes "pv_only_copy (prove_one g s tr others) = Some 0" and "cr_head (sj_reading s) = Some head"
  shows "\<exists>kept. gr_count g (sj_path s) head kept = Inr 0 \<and> set kept \<subseteq> set (tr_tips tr) \<union> set others"
  using assms
  by (auto simp: prove_one_def unwitnessed_def proved_unchecked_def split: option.splits if_splits sum.splits)

text \<open>
  C21. A clone called clean is somewhere else. Where the survey says a clone is the only copy of
  nothing, the commit its head names is in the history of a commit that another clone of the
  group, whole and readable, names; or in the history of a branch of the remote as a clone read
  it that fetches every branch, that heard from the remote after this one, and than which no
  clone that could witness heard later.
\<close>

theorem clean_clone_is_elsewhere:
  assumes laws: "excludes_only_reached reaches g" "counts_only_outside reaches g" "\<forall>a b c. reaches a b \<longrightarrow> reaches b c \<longrightarrow> reaches a c"
    and i: "i < length subjects" and head: "cr_head (sj_reading (subjects ! i)) = Some head"
    and clean: "pv_only_copy (prove g subjects ! i) = Some 0"
  shows "\<exists>j < length subjects. j \<noteq> i \<and>
    (witnessable (sj_reading (subjects ! j)) \<and> (\<exists>k \<in> set (cr_tips (sj_reading (subjects ! j))). reaches k head)
     \<or> fresher (sj_reading (subjects ! j)) (subjects ! i)
       \<and> (\<forall>k < length subjects. k \<noteq> i \<and> fresher (sj_reading (subjects ! k)) (subjects ! i)
            \<longrightarrow> the (cr_heard (sj_reading (subjects ! k))) \<le> the (cr_heard (sj_reading (subjects ! j))))
       \<and> (\<exists>t \<in> set (cr_remotes (sj_reading (subjects ! j))). reaches (tip_oid t) head))"
proof -
  from clean_count [OF clean [unfolded prove_nth [OF i]] head] obtain kept where
    "gr_count g (sj_path (subjects ! i)) head kept = Inr 0"
    "set kept \<subseteq> set (tr_tips (trusted_of g subjects i)) \<union> set (held_by_others subjects ! i)" by blast
  with laws(2) obtain k where k: "reaches k head"
    "k \<in> set (tr_tips (trusted_of g subjects i)) \<or> k \<in> set (held_by_others subjects ! i)"
    unfolding counts_only_outside_def by blast
  show ?thesis
  proof (cases "k \<in> set (held_by_others subjects ! i)")
    case True
    with k(1) show ?thesis unfolding held_by_others_iff [OF i] by blast
  next
    case False
    with k(2) have "k \<in> set (tr_tips (believed g (subjects ! i) (freshest subjects i)))"
      by (simp add: trusted_of_def)
    from believed_reached [OF laws(1) this] obtain w t where
      w: "w \<in> set (freshest subjects i)" "t \<in> set (cr_remotes (sj_reading w))" "reaches (tip_oid t) k" by blast
    from freshest_in [OF w(1)] obtain j where "j < length subjects" "j \<noteq> i" "subjects ! j = w"
      "fresher (sj_reading w) (subjects ! i)"
      "\<forall>k < length subjects. k \<noteq> i \<and> fresher (sj_reading (subjects ! k)) (subjects ! i)
         \<longrightarrow> the (cr_heard (sj_reading (subjects ! k))) \<le> the (cr_heard (sj_reading w))" by blast
    with w k(1) laws(3) show ?thesis by blast
  qed
qed

subsection \<open>The property at two clones\<close>

text \<open>Two whole clones whose heads are one commit, neither of which heard from the remote.\<close>

definition ex_clones :: "subject list" where
  "ex_clones = [\<lparr>sj_path = [''a''], sj_reading = no_clone_reading\<lparr>cr_head := Some ex_a, cr_tips := [ex_a]\<rparr>\<rparr>,
     \<lparr>sj_path = [''b''], sj_reading = no_clone_reading\<lparr>cr_head := Some ex_a, cr_tips := [ex_a]\<rparr>\<rparr>]"

lemma ex_clones_clean: "pv_only_copy (prove ex_answers ex_clones ! 0) = Some 0"
proof -
  have "ex_a \<in> set (held_by_others ex_clones ! 0)"
    using held_by_others_iff [of 0 ex_clones ex_a] by (auto simp: ex_clones_def no_clone_reading_def witnessable_def)
  moreover have "freshest ex_clones 0 = []"
    by (simp add: freshest_def fresher_def ex_clones_def no_clone_reading_def)
  moreover have "gr_count ex_answers p head kept = Inr (if head \<in> set kept then 0 else 1)" for p head kept
    by (simp add: ex_answers_def)
  moreover have "0 < length ex_clones" by (simp add: ex_clones_def)
  ultimately show ?thesis
    by (simp add: prove_nth prove_one_def trusted_of_def believed_def no_trust_def)
      (simp add: ex_clones_def no_clone_reading_def)
qed

theorem clean_clone_is_elsewhere_witness:
  "\<exists>j < length ex_clones. j \<noteq> 0 \<and> ex_a \<in> set (cr_tips (sj_reading (ex_clones ! j)))"
proof -
  have law: "counts_only_outside (=) ex_answers" by (simp add: counts_only_outside_def ex_answers_def)
  have i: "0 < length ex_clones" and head: "cr_head (sj_reading (ex_clones ! 0)) = Some ex_a"
    by (simp_all add: ex_clones_def)
  have no: "\<not> fresher (sj_reading (ex_clones ! j)) (ex_clones ! 0)" for j
    by (simp add: fresher_def ex_clones_def no_clone_reading_def split: option.split)
  have trans: "\<forall>x y z. (x :: oid) = y \<longrightarrow> y = z \<longrightarrow> x = z" by simp
  show ?thesis using clean_clone_is_elsewhere [OF ex_law law trans i head ex_clones_clean] no by blast
qed

end
