(* ===== verification/Ladder.thy ===== *)
theory Ladder
  imports Prelude
begin

text \<open>
  \<open>runtime/stop.rs\<close>: the ladder of signals a reclaim sends to what a unit is running. A
  \<open>signals\<close> value is the trait of that name, over the machine it acts on: sending, looking and
  waiting each leave the machine they leave. \<open>Instant::now\<close> is a reading of the same machine's
  clock, in milliseconds. The wait between two looks repeats until the targets have gone or the
  clock has passed the deadline, so it is a partial function, and that it ends is a theorem.
\<close>

subsection \<open>Targets and signals\<close>

type_synonym os_id = "32 word"

datatype stop_signal = Interrupt | Terminate | Kill

definition LADDER :: "stop_signal list" where "LADDER = [Interrupt, Terminate, Kill]"

definition GRACE :: nat where "GRACE = 5000"

definition POLL :: nat where "POLL = 50"

definition RESERVED :: "os_id list" where "RESERVED = [0, 1]"

datatype target = Process os_id | Group os_id

fun is_group :: "target \<Rightarrow> bool" where
  "is_group (Process _) = False"
| "is_group (Group _) = True"

record 'm signals =
  sg_send :: "target \<Rightarrow> stop_signal \<Rightarrow> 'm \<Rightarrow> bool \<times> 'm"
  sg_alive :: "target \<Rightarrow> 'm \<Rightarrow> bool \<times> 'm"
  sg_wait :: "nat \<Rightarrow> 'm \<Rightarrow> 'm"
  sg_now :: "'m \<Rightarrow> nat"

text \<open>The processes and groups this operation is: itself, and what started it.\<close>

record session =
  own_pid :: os_id
  parent_pid :: os_id
  own_group :: os_id
  parent_group :: os_id

definition spared :: "session \<Rightarrow> os_id list" where
  "spared us = [own_pid us, parent_pid us]"

definition spared_groups :: "session \<Rightarrow> os_id list" where
  "spared_groups us = [own_group us, parent_group us]"

fun is_spared :: "session \<Rightarrow> target \<Rightarrow> bool" where
  "is_spared us (Process pid) \<longleftrightarrow> pid \<in> set RESERVED \<or> pid \<in> set (spared us)"
| "is_spared us (Group pgid) \<longleftrightarrow> pgid \<in> set RESERVED \<or> pgid \<in> set (spared_groups us)"

record stopped =
  st_asked :: "target list"
  st_killed :: "target list"
  st_left :: "target list"
  st_spared :: "target list"

definition stopped_none :: stopped where
  "stopped_none = \<lparr>st_asked = [], st_killed = [], st_left = [], st_spared = []\<rparr>"

definition stopped_count :: "stopped \<Rightarrow> nat" where
  "stopped_count s = length (st_asked s) + length (st_killed s)"

definition stopped_groups :: "stopped \<Rightarrow> nat" where
  "stopped_groups s = length (filter is_group (st_asked s @ st_killed s))"

definition stopped_processes :: "stopped \<Rightarrow> nat" where
  "stopped_processes s = stopped_count s - stopped_groups s"

definition is_clear :: "stopped \<Rightarrow> bool" where
  "is_clear s \<longleftrightarrow> st_left s = []"

subsection \<open>The ladder\<close>

fun still :: "'m signals \<Rightarrow> target list \<Rightarrow> 'm \<Rightarrow> target list \<times> 'm" where
  "still sg [] m = ([], m)"
| "still sg (t # ts) m =
     (let (here, m1) = sg_alive sg t m; (rest, m2) = still sg ts m1
      in (if here then t # rest else rest, m2))"

partial_function (option) settle_until ::
    "'m signals \<Rightarrow> target list \<Rightarrow> nat \<Rightarrow> 'm \<Rightarrow> (target list \<times> 'm) option" where
  "settle_until sg sent deadline m =
     (case still sg sent m of (here, m1) \<Rightarrow>
        if here = [] \<or> deadline \<le> sg_now sg m1 then Some (here, m1)
        else settle_until sg sent deadline (sg_wait sg POLL m1))"

definition settle :: "'m signals \<Rightarrow> target list \<Rightarrow> nat \<Rightarrow> 'm \<Rightarrow> (target list \<times> 'm) option" where
  "settle sg sent period m = settle_until sg sent (sg_now sg m + period) m"

type_synonym reached = "(target \<times> stop_signal) list"

definition reach :: "target \<Rightarrow> stop_signal \<Rightarrow> reached \<Rightarrow> reached" where
  "reach t s rs = filter (\<lambda>(seen, _). seen \<noteq> t) rs @ [(t, s)]"

fun send_all :: "'m signals \<Rightarrow> stop_signal \<Rightarrow> target list \<Rightarrow> reached \<Rightarrow> 'm \<Rightarrow> target list \<times> reached \<times> 'm" where
  "send_all sg s [] rs m = ([], rs, m)"
| "send_all sg s (t # ts) rs m =
     (case sg_send sg t s m of
        (False, m1) \<Rightarrow> send_all sg s ts rs m1
      | (True, m1) \<Rightarrow>
          let (sent, rs', m2) = send_all sg s ts (reach t s rs) m1 in (t # sent, rs', m2))"

definition rung ::
    "'m signals \<Rightarrow> target list \<Rightarrow> stop_signal \<Rightarrow> nat \<Rightarrow> reached \<Rightarrow> 'm \<Rightarrow> (target list \<times> reached \<times> 'm) option" where
  "rung sg standing s period rs m =
     (case send_all sg s standing rs m of (sent, rs', m1) \<Rightarrow>
        map_option (\<lambda>(here, m2). (here, rs', m2)) (settle sg sent period m1))"

fun climb ::
    "'m signals \<Rightarrow> nat \<Rightarrow> stop_signal list \<Rightarrow> target list \<Rightarrow> reached \<Rightarrow> 'm \<Rightarrow> (target list \<times> reached \<times> 'm) option" where
  "climb sg grace [] standing rs m = Some (standing, rs, m)"
| "climb sg grace (s # ss) standing rs m =
     (if standing = [] then Some (standing, rs, m)
      else case rung sg standing s (if s = Kill then POLL else grace) rs m of
             None \<Rightarrow> None
           | Some (standing', rs', m') \<Rightarrow> climb sg grace ss standing' rs' m')"

definition account :: "stopped \<Rightarrow> reached \<Rightarrow> target list \<Rightarrow> stopped" where
  "account s rs standing =
     (let gone = filter (\<lambda>(t, _). t \<notin> set standing) rs
      in s\<lparr>st_killed := st_killed s @ map fst (filter (\<lambda>(_, sig). sig = Kill) gone),
           st_asked := st_asked s @ map fst (filter (\<lambda>(_, sig). sig \<noteq> Kill) gone),
           st_left := standing\<rparr>)"

text \<open>The loop over the targets: each once, in order, and the operation's own put aside.\<close>

definition admit :: "session \<Rightarrow> target \<Rightarrow> target list \<times> target list \<Rightarrow> target list \<times> target list" where
  "admit us t acc =
     (case acc of (standing, own) \<Rightarrow>
        if t \<in> set standing \<or> t \<in> set own then (standing, own)
        else if is_spared us t then (standing, own @ [t])
        else (standing @ [t], own))"

definition processes :: "session \<Rightarrow> 'm signals \<Rightarrow> target list \<Rightarrow> nat \<Rightarrow> 'm \<Rightarrow> (stopped \<times> 'm) option" where
  "processes us sg targets grace m =
     (case fold (admit us) targets ([], []) of (standing, own) \<Rightarrow>
        map_option (\<lambda>(left, rs, m'). (account (stopped_none\<lparr>st_spared := own\<rparr>) rs left, m'))
          (climb sg grace LADDER standing [] m))"

subsection \<open>The processes of this machine\<close>

text \<open>\<open>i32::try_from\<close> of an identifier and \<open>i32::checked_neg\<close>, as integers in the range of an i32.\<close>

definition to_i32 :: "os_id \<Rightarrow> int option" where
  "to_i32 n = (if uint n < 2 ^ 31 then Some (uint n) else None)"

definition checked_neg :: "int \<Rightarrow> int option" where
  "checked_neg n = (if n = - (2 ^ 31) then None else Some (- n))"

fun addressed :: "target \<Rightarrow> int option" where
  "addressed (Process pid) = to_i32 pid"
| "addressed (Group pgid) = Option.bind (to_i32 pgid) checked_neg"

fun signal_number :: "stop_signal \<Rightarrow> nat" where
  "signal_number Interrupt = 2"
| "signal_number Terminate = 15"
| "signal_number Kill = 9"

definition EPERM :: nat where "EPERM = 1"

text \<open>The system call \<open>kill\<close> is the machine's: it answers zero, or the number of an error.\<close>

type_synonym 'm kill_call = "int \<Rightarrow> nat \<Rightarrow> 'm \<Rightarrow> nat \<times> 'm"

definition live_send :: "'m kill_call \<Rightarrow> target \<Rightarrow> stop_signal \<Rightarrow> 'm \<Rightarrow> bool \<times> 'm" where
  "live_send kill t s m =
     (case addressed t of
        None \<Rightarrow> (False, m)
      | Some addressee \<Rightarrow> (case kill addressee (signal_number s) m of (e, m') \<Rightarrow> (e = 0, m')))"

definition live_alive :: "'m kill_call \<Rightarrow> target \<Rightarrow> 'm \<Rightarrow> bool \<times> 'm" where
  "live_alive kill t m =
     (case addressed t of
        None \<Rightarrow> (False, m)
      | Some addressee \<Rightarrow> (case kill addressee 0 m of (e, m') \<Rightarrow> (e = 0 \<or> e = EPERM, m')))"

definition live :: "'m kill_call \<Rightarrow> (nat \<Rightarrow> 'm \<Rightarrow> 'm) \<Rightarrow> ('m \<Rightarrow> nat) \<Rightarrow> 'm signals" where
  "live kill sleep now = \<lparr>sg_send = live_send kill, sg_alive = live_alive kill, sg_wait = sleep, sg_now = now\<rparr>"

text \<open>The same trait on a platform with no signals.\<close>

definition signalless :: "(nat \<Rightarrow> 'm \<Rightarrow> 'm) \<Rightarrow> ('m \<Rightarrow> nat) \<Rightarrow> 'm signals" where
  "signalless sleep now =
     \<lparr>sg_send = (\<lambda>_ _ m. (False, m)), sg_alive = (\<lambda>_ m. (True, m)), sg_wait = sleep, sg_now = now\<rparr>"

declare settle_until.simps [code]

subsection \<open>What the trait promises\<close>

text \<open>The clock of a wait: looking never takes it back, and waiting a period passes it.\<close>

locale clocked =
  fixes sg :: "'m signals"
  assumes alive_clock: "sg_alive sg t m = (b, m') \<Longrightarrow> sg_now sg m \<le> sg_now sg m'"
    and wait_clock: "sg_now sg m + p \<le> sg_now sg (sg_wait sg p m)"
begin

lemma still_clock: "still sg ts m = (here, m') \<Longrightarrow> sg_now sg m \<le> sg_now sg m'"
  by (induction ts arbitrary: m here m') (force dest: alive_clock simp: Let_def split: prod.splits)+

text \<open>The distance to the deadline shrinks with every look, so the wait ends.\<close>

lemma settle_until_ends: "\<exists>here m'. settle_until sg sent deadline m = Some (here, m')"
proof (induction "deadline - sg_now sg m" arbitrary: m rule: less_induct)
  case less
  obtain here m1 where s: "still sg sent m = (here, m1)" by fastforce
  show ?case
  proof (cases "here = [] \<or> deadline \<le> sg_now sg m1")
    case True
    with s show ?thesis by (subst settle_until.simps) simp
  next
    case False
    have "deadline - sg_now sg (sg_wait sg POLL m1) < deadline - sg_now sg m"
      using False still_clock [OF s] wait_clock [of m1 POLL] unfolding POLL_def by linarith
    from less [OF this] s False show ?thesis by (subst settle_until.simps) simp
  qed
qed

lemma settle_ends: "\<exists>here m'. settle sg sent period m = Some (here, m')"
  unfolding settle_def by (rule settle_until_ends)

lemma rung_ends: "\<exists>here rs' m'. rung sg standing s period rs m = Some (here, rs', m')"
proof -
  obtain sent rs' m1 where "send_all sg s standing rs m = (sent, rs', m1)" by (metis prod_cases3)
  with settle_ends [of sent period m1] show ?thesis by (auto simp: rung_def)
qed

lemma climb_ends: "\<exists>left rs' m'. climb sg grace ss standing rs m = Some (left, rs', m')"
proof (induction ss arbitrary: standing rs m)
  case (Cons s ss)
  obtain here rs' m' where "rung sg standing s (if s = Kill then POLL else grace) rs m = Some (here, rs', m')"
    using rung_ends by blast
  with Cons.IH [of here rs' m'] show ?case by auto
qed simp

end

text \<open>
  And what it says of the targets. Which of them are barred, those this account may not signal, is
  one answer for the whole of a stop: a signal that is not sent is a target that has gone or
  is barred, and one that is sent is to a target that is not. A target that has gone does
  not come back: its number is not given to another while the stop runs.
\<close>

locale signals_contract = clocked sg for sg :: "'m signals" +
  fixes running :: "target \<Rightarrow> 'm \<Rightarrow> bool" and barred :: "target \<Rightarrow> bool"
  assumes send_fails: "sg_send sg t s m = (False, m') \<Longrightarrow> running t m' \<Longrightarrow> barred t"
    and send_reaches: "sg_send sg t s m = (True, m') \<Longrightarrow> \<not> barred t"
    and alive_tells: "sg_alive sg t m = (False, m') \<Longrightarrow> \<not> running t m'"
    and send_stays: "sg_send sg t s m = (b, m') \<Longrightarrow> running u m' \<Longrightarrow> running u m"
    and alive_stays: "sg_alive sg t m = (b, m') \<Longrightarrow> running u m' \<Longrightarrow> running u m"
    and wait_stays: "running u (sg_wait sg p m) \<Longrightarrow> running u m"
begin

lemma still_stays: "still sg ts m = (here, m') \<Longrightarrow> running u m' \<Longrightarrow> running u m"
  by (induction ts arbitrary: m here m') (auto dest: alive_stays simp: Let_def split: prod.splits)

lemma still_tells: "still sg ts m = (here, m') \<Longrightarrow> t \<in> set ts \<Longrightarrow> running t m' \<Longrightarrow> t \<in> set here"
proof (induction ts arbitrary: m here m')
  case (Cons u ts)
  obtain b m1 where a: "sg_alive sg u m = (b, m1)" by fastforce
  obtain rest m2 where r: "still sg ts m1 = (rest, m2)" by fastforce
  have e: "here = (if b then u # rest else rest)" "m' = m2" using Cons.prems(1) a r by simp_all
  show ?case
  proof (cases "t \<in> set ts")
    case True
    with Cons.IH [OF r True] Cons.prems(3) e show ?thesis by auto
  next
    case False
    then have "t = u" using Cons.prems(2) by simp
    with a alive_tells still_stays [OF r] Cons.prems(3) e show ?thesis by (cases b) auto
  qed
qed simp

lemma settle_until_tells:
  "settle_until sg sent deadline m = Some (here, m')
     \<Longrightarrow> (\<forall>u. running u m' \<longrightarrow> running u m) \<and> (\<forall>t. t \<in> set sent \<longrightarrow> running t m' \<longrightarrow> t \<in> set here)"
proof (induction "deadline - sg_now sg m" arbitrary: m rule: less_induct)
  case less
  obtain here1 m1 where s: "still sg sent m = (here1, m1)" by fastforce
  show ?case
  proof (cases "here1 = [] \<or> deadline \<le> sg_now sg m1")
    case True
    with s less.prems have "here = here1" "m' = m1" by (simp_all add: settle_until.simps [of sg sent deadline m])
    with still_stays [OF s] still_tells [OF s] show ?thesis by blast
  next
    case False
    have d: "deadline - sg_now sg (sg_wait sg POLL m1) < deadline - sg_now sg m"
      using False still_clock [OF s] wait_clock [of m1 POLL] unfolding POLL_def by linarith
    have "settle_until sg sent deadline (sg_wait sg POLL m1) = Some (here, m')"
      using less.prems s False by (simp add: settle_until.simps [of sg sent deadline m])
    from less.hyps [OF d this] show ?thesis using wait_stays still_stays [OF s] by blast
  qed
qed

lemma send_all_tells:
  "send_all sg s ts rs m = (sent, rs', m')
     \<Longrightarrow> (\<forall>u. running u m' \<longrightarrow> running u m) \<and> (\<forall>t. t \<in> set ts \<longrightarrow> running t m' \<longrightarrow> t \<in> set sent \<or> barred t)
       \<and> (\<forall>t. t \<in> fst ` set rs' \<longrightarrow> t \<in> fst ` set rs \<or> \<not> barred t)"
proof (induction ts arbitrary: rs m sent)
  case (Cons v ts)
  obtain b m1 where a: "sg_send sg v s m = (b, m1)" by fastforce
  show ?case
  proof (cases b)
    case True
    then obtain sent1 where r: "send_all sg s ts (reach v s rs) m1 = (sent1, rs', m')" "sent = v # sent1"
      using Cons.prems a by (auto simp: Let_def split: prod.splits)
    have "fst ` set (reach v s rs) \<subseteq> insert v (fst ` set rs)" by (auto simp: reach_def)
    moreover have "\<not> barred v" using send_reaches [of v s m m1] a True by simp
    ultimately have "\<forall>t. t \<in> fst ` set rs' \<longrightarrow> t \<in> fst ` set rs \<or> \<not> barred t" using Cons.IH [OF r(1)] by blast
    then show ?thesis using Cons.IH [OF r(1)] send_stays [OF a] r(2) by auto
  next
    case False
    then have r: "send_all sg s ts rs m1 = (sent, rs', m')" using Cons.prems a by simp
    have "running v m1 \<longrightarrow> barred v" using send_fails [of v s m m1] a False by simp
    then have "running v m' \<longrightarrow> barred v" using Cons.IH [OF r] by blast
    with Cons.IH [OF r] send_stays [OF a] show ?thesis by auto
  qed
qed simp

lemma climb_tells:
  "climb sg grace ss standing rs m = Some (left, rs', m')
     \<Longrightarrow> (\<forall>u. running u m' \<longrightarrow> running u m) \<and> (\<forall>t. t \<in> set standing \<longrightarrow> running t m' \<longrightarrow> t \<in> set left \<or> barred t)
       \<and> (\<forall>t. t \<in> fst ` set rs' \<longrightarrow> t \<in> fst ` set rs \<or> \<not> barred t)"
proof (induction ss arbitrary: standing rs m)
  case (Cons s ss)
  show ?case
  proof (cases "standing = []")
    case True
    with Cons.prems show ?thesis by auto
  next
    case False
    obtain sent rs1 m1 where a: "send_all sg s standing rs m = (sent, rs1, m1)" by (metis prod_cases3)
    obtain here m2 where b: "settle sg sent (if s = Kill then POLL else grace) m1 = Some (here, m2)"
      using settle_ends by blast
    have c: "climb sg grace ss here rs1 m2 = Some (left, rs', m')"
      using Cons.prems False a b by (simp add: rung_def)
    note x = Cons.IH [OF c] and y = settle_until_tells [OF b [unfolded settle_def]] and z = send_all_tells [OF a]
    have "\<forall>u. running u m' \<longrightarrow> running u m" using x y z by (elim conjE) (intro allI impI; metis)
    moreover have "\<forall>t. t \<in> set standing \<longrightarrow> running t m' \<longrightarrow> t \<in> set left \<or> barred t"
      using x y z by (elim conjE) (intro allI impI; metis)
    moreover have "\<forall>t. t \<in> fst ` set rs' \<longrightarrow> t \<in> fst ` set rs \<or> \<not> barred t"
      using x z by (elim conjE) (intro allI impI; metis)
    ultimately show ?thesis by (intro conjI)
  qed
qed simp

end

subsection \<open>Watching what is sent\<close>

text \<open>The same trait over a machine that writes down every signal sent to it, in order.\<close>

type_synonym log = "(target \<times> stop_signal) list"

definition observing :: "'m signals \<Rightarrow> ('m \<times> log) signals" where
  "observing sg = \<lparr>
     sg_send = (\<lambda>t s (m, log). case sg_send sg t s m of (b, m') \<Rightarrow> (b, (m', log @ [(t, s)]))),
     sg_alive = (\<lambda>t (m, log). case sg_alive sg t m of (b, m') \<Rightarrow> (b, (m', log))),
     sg_wait = (\<lambda>p (m, log). (sg_wait sg p m, log)),
     sg_now = (\<lambda>(m, log). sg_now sg m)\<rparr>"

definition sends_to :: "target \<Rightarrow> log \<Rightarrow> stop_signal list" where
  "sends_to t log = map snd (filter (\<lambda>(u, _). u = t) log)"

lemma sends_to_simps [simp]:
  "sends_to t [] = []" "sends_to t (a @ b) = sends_to t a @ sends_to t b"
  "sends_to t ((u, s) # log) = (if u = t then s # sends_to t log else sends_to t log)"
  by (simp_all add: sends_to_def)

context signals_contract begin

lemma observing_contract: "signals_contract (observing sg) (\<lambda>t ml. running t (fst ml)) barred"
  by unfold_locales
    (auto simp: observing_def wait_clock split: prod.splits
      dest: alive_clock send_fails send_reaches alive_tells send_stays alive_stays wait_stays)

end

lemma still_observing:
  "still (observing sg) ts (m, log) = (case still sg ts m of (here, m') \<Rightarrow> (here, (m', log)))"
  by (induction ts arbitrary: m) (simp_all add: observing_def Let_def split: prod.split)


lemma settle_until_observing:
  assumes "settle_until sg sent deadline m = Some r"
  shows "settle_until (observing sg) sent deadline (m, log) = Some (fst r, (snd r, log))"
proof (rule settle_until.raw_induct [where P = "\<lambda>sg sent deadline m r.
      settle_until (observing sg) sent deadline (m, log) = Some (fst r, (snd r, log))", OF _ assms], goal_cases)
  case (1 rec sg sent deadline m r)
  obtain here m1 where s: "still sg sent m = (here, m1)" by fastforce
  then have o1: "still (observing sg) sent (m, log) = (here, (m1, log))" by (simp add: still_observing)
  have n: "sg_now (observing sg) (m1, log) = sg_now sg m1" "sg_wait (observing sg) p (m1, log) = (sg_wait sg p m1, log)" for p
    by (simp_all add: observing_def)
  show ?case
  proof (cases "here = [] \<or> deadline \<le> sg_now sg m1")
    case True
    with 1(2) s have "r = (here, m1)" by auto
    with True show ?thesis by (subst settle_until.simps) (simp add: o1 n)
  next
    case False
    then show ?thesis using 1 s by (subst settle_until.simps) (simp add: o1 n)
  qed
qed

lemma settle_observing:
  "settle sg sent period m = Some (here, m') \<Longrightarrow> settle (observing sg) sent period (m, log) = Some (here, (m', log))"
  using settle_until_observing [where r = "(here, m')" and sg = sg] by (simp add: settle_def) (simp add: observing_def)

lemma send_all_observing:
  "send_all (observing sg) s ts rs (m, log) =
     (case send_all sg s ts rs m of (sent, rs', m') \<Rightarrow> (sent, rs', (m', log @ map (\<lambda>t. (t, s)) ts)))"
  by (induction ts arbitrary: rs m log) (auto simp: observing_def Let_def split: prod.split bool.split)

lemma reach_fst: "fst ` set (reach t s rs) = insert t (fst ` set rs)"
  by (auto simp: reach_def image_iff)

lemma reach_distinct: "distinct (map fst rs) \<Longrightarrow> distinct (map fst (reach t s rs))"
  by (auto simp: reach_def distinct_map inj_on_def)

lemma send_all_reached:
  "send_all sg s ts rs m = (sent, rs', m') \<Longrightarrow>
     subseq sent ts \<and> (\<forall>(u, x) \<in> set rs'. (u, x) \<in> set rs \<or> u \<in> set ts \<and> x = s)
     \<and> fst ` set rs' = fst ` set rs \<union> set sent \<and> (distinct (map fst rs) \<longrightarrow> distinct (map fst rs'))"
proof (induction ts arbitrary: rs m sent)
  case (Cons t ts)
  obtain b m1 where a: "sg_send sg t s m = (b, m1)" by fastforce
  show ?case
  proof (cases b)
    case True
    then obtain sent1 where r: "send_all sg s ts (reach t s rs) m1 = (sent1, rs', m')" "sent = t # sent1"
      using Cons.prems a by (auto simp: Let_def split: prod.splits)
    with Cons.IH [OF r(1)] show ?thesis using reach_distinct [of rs t s]
      by (auto simp: reach_fst) (auto simp: reach_def)
  next
    case False
    then have "send_all sg s ts rs m1 = (sent, rs', m')" using Cons.prems a by simp
    from Cons.IH [OF this] show ?thesis by auto
  qed
qed simp

lemma subseq_distinct: "subseq xs ys \<Longrightarrow> distinct ys \<Longrightarrow> distinct xs"
  unfolding subseq_conv_nths using distinct_nthsI by blast

lemma subseq_set: "subseq xs ys \<Longrightarrow> set xs \<subseteq> set ys"
  unfolding subseq_conv_nths using set_nths_subset by fast

lemma still_subseq: "still sg ts m = (here, m') \<Longrightarrow> subseq here ts"
  by (induction ts arbitrary: m here m') (auto simp: Let_def split: prod.splits if_splits)

lemma settle_subseq: "settle sg sent period m = Some (here, m') \<Longrightarrow> subseq here sent"
proof -
  have "subseq (fst r) sent" if "settle_until sg sent deadline m = Some r" for deadline r
    by (rule settle_until.raw_induct [where P = "\<lambda>sg sent deadline m r. subseq (fst r) sent", OF _ that])
      (auto dest: still_subseq split: prod.splits if_splits)
  then show "settle sg sent period m = Some (here, m') \<Longrightarrow> subseq here sent" by (fastforce simp: settle_def)
qed

lemma sends_to_all: "distinct ts \<Longrightarrow> sends_to t (map (\<lambda>t. (t, s)) ts) = (if t \<in> set ts then [s] else [])"
  by (induction ts) auto

text \<open>The rungs one run of the ladder climbs, target by target.\<close>

definition rungs_climbed :: "stop_signal list \<Rightarrow> target list \<Rightarrow> target list \<Rightarrow> log \<Rightarrow> target \<Rightarrow> bool" where
  "rungs_climbed ss standing left log t \<longleftrightarrow>
     (\<exists>k \<le> length ss. sends_to t log = take k ss \<and> (t \<notin> set standing \<longrightarrow> k = 0) \<and> (t \<in> set left \<longrightarrow> k = length ss))"

lemma rungs_climbed_Cons:
  assumes "rungs_climbed ss here left log t" and "set here \<subseteq> set standing" and "set left \<subseteq> set here" and "distinct standing"
  shows "rungs_climbed (s # ss) standing left (map (\<lambda>t. (t, s)) standing @ log) t"
proof -
  from assms(1) obtain k where k: "k \<le> length ss" "sends_to t log = take k ss"
    "t \<notin> set here \<longrightarrow> k = 0" "t \<in> set left \<longrightarrow> k = length ss" unfolding rungs_climbed_def by blast
  show ?thesis
  proof (cases "t \<in> set standing")
    case True
    then show ?thesis using k assms(4) unfolding rungs_climbed_def by (intro exI [of _ "Suc k"]) (simp add: sends_to_all)
  next
    case False
    then show ?thesis using k assms(2-4) unfolding rungs_climbed_def by (intro exI [of _ 0]) (auto simp: sends_to_all)
  qed
qed

lemma climb_observing:
  assumes "climb sg grace ss standing rs m = Some (left, rs', m')" and "distinct standing"
  shows "\<exists>log'. climb (observing sg) grace ss standing rs (m, log) = Some (left, rs', (m', log @ log'))
    \<and> (\<forall>t. rungs_climbed ss standing left log' t)
    \<and> (\<forall>(u, x) \<in> set rs'. (u, x) \<in> set rs \<or> x \<in> set (sends_to u log'))
    \<and> distinct left \<and> set left \<subseteq> set standing
    \<and> fst ` set rs' \<subseteq> fst ` set rs \<union> set standing \<and> (distinct (map fst rs) \<longrightarrow> distinct (map fst rs'))"
  using assms
proof (induction ss arbitrary: standing rs m log)
  case Nil
  then show ?case by (intro exI [of _ "[]"]) (auto simp: rungs_climbed_def)
next
  case (Cons s ss)
  show ?case
  proof (cases "standing = []")
    case True
    with Cons.prems show ?thesis by (intro exI [of _ "[]"]) (auto simp: rungs_climbed_def)
  next
    case False
    let ?p = "if s = Kill then POLL else grace"
    obtain sent rs1 m1 where a: "send_all sg s standing rs m = (sent, rs1, m1)" by (metis prod_cases3)
    obtain here m2 where b: "settle sg sent ?p m1 = Some (here, m2)"
      and c: "climb sg grace ss here rs1 m2 = Some (left, rs', m')"
      using Cons.prems False a by (auto simp: rung_def split: option.splits)
    let ?log = "log @ map (\<lambda>t. (t, s)) standing"
    note sr = send_all_reached [OF a]
    have sub: "subseq here sent" "subseq sent standing" using settle_subseq [OF b] sr by blast+
    have hs: "distinct here" "set here \<subseteq> set sent" "set sent \<subseteq> set standing"
      using subseq_distinct [OF subseq_order.trans [OF sub] Cons.prems(2)] subseq_set [OF sub(1)] subseq_set [OF sub(2)] .
    from Cons.IH [OF c hs(1), of ?log] obtain log' where
      l: "climb (observing sg) grace ss here rs1 (m2, ?log) = Some (left, rs', (m', ?log @ log'))"
      "\<forall>t. rungs_climbed ss here left log' t" "\<forall>(u, x) \<in> set rs'. (u, x) \<in> set rs1 \<or> x \<in> set (sends_to u log')"
      "distinct left" "set left \<subseteq> set here" "fst ` set rs' \<subseteq> fst ` set rs1 \<union> set here"
      "distinct (map fst rs1) \<longrightarrow> distinct (map fst rs')" by blast
    have "climb (observing sg) grace (s # ss) standing rs (m, log) = Some (left, rs', (m', log @ map (\<lambda>t. (t, s)) standing @ log'))"
      using False a settle_observing [OF b, of ?log] l(1) by (simp add: rung_def send_all_observing)
    moreover have "\<forall>t. rungs_climbed (s # ss) standing left (map (\<lambda>t. (t, s)) standing @ log') t"
      using l(2,5) hs Cons.prems(2) by (blast intro: rungs_climbed_Cons)
    moreover have "\<forall>(u, x) \<in> set rs'. (u, x) \<in> set rs \<or> x \<in> set (sends_to u (map (\<lambda>t. (t, s)) standing @ log'))"
      using l(3) sr by (fastforce simp: sends_to_all [OF Cons.prems(2)])
    moreover have "set left \<subseteq> set standing" using l(5) hs(2,3) by (meson subset_trans)
    moreover have "fst ` set rs' \<subseteq> fst ` set rs \<union> set standing"
    proof -
      have "fst ` set rs1 = fst ` set rs \<union> set sent" using sr by (elim conjE)
      moreover have "A \<subseteq> B \<union> T \<union> H \<Longrightarrow> H \<subseteq> T \<Longrightarrow> T \<subseteq> S \<Longrightarrow> A \<subseteq> B \<union> S" for A B H S T :: "target set" by blast
      ultimately show ?thesis using l(6) hs(2,3) by metis
    qed
    moreover have "distinct (map fst rs) \<longrightarrow> distinct (map fst rs')" using l(7) sr by metis
    ultimately show ?thesis using l(4) by (intro exI conjI)
  qed
qed

lemma admit_fold:
  assumes "fold (admit us) targets (standing0, own0) = (standing, own)"
    and "distinct standing0" "distinct own0" "\<forall>t \<in> set standing0. \<not> is_spared us t" "\<forall>t \<in> set own0. is_spared us t"
  shows "distinct standing \<and> distinct own
    \<and> set standing = set standing0 \<union> {t \<in> set targets. \<not> is_spared us t}
    \<and> set own = set own0 \<union> {t \<in> set targets. is_spared us t}"
  using assms
proof (induction targets arbitrary: standing0 own0)
  case (Cons t ts)
  obtain s1 o1 where a: "admit us t (standing0, own0) = (s1, o1)" by fastforce
  have "distinct s1" "distinct o1" "\<forall>t \<in> set s1. \<not> is_spared us t" "\<forall>t \<in> set o1. is_spared us t"
    using a Cons.prems(2-5) by (auto simp: admit_def split: if_splits)
  moreover have "fold (admit us) ts (s1, o1) = (standing, own)" using Cons.prems(1) a by simp
  ultimately have "distinct standing \<and> distinct own \<and> set standing = set s1 \<union> {t \<in> set ts. \<not> is_spared us t}
      \<and> set own = set o1 \<union> {t \<in> set ts. is_spared us t}" using Cons.IH by blast
  moreover have "set s1 \<union> {u \<in> set ts. \<not> is_spared us u} = set standing0 \<union> {u \<in> set (t # ts). \<not> is_spared us u}"
    and "set o1 \<union> {u \<in> set ts. is_spared us u} = set own0 \<union> {u \<in> set (t # ts). is_spared us u}"
    using a Cons.prems(4,5) by (auto simp: admit_def split: if_splits)
  ultimately show ?case by simp
qed simp

lemma processes_parts:
  assumes "processes us sg targets grace m = Some (rep, m')"
  obtains standing left rs where "fold (admit us) targets ([], []) = (standing, st_spared rep)"
    and "climb sg grace LADDER standing [] m = Some (left, rs, m')"
    and "distinct standing" and "set standing = {t \<in> set targets. \<not> is_spared us t}"
    and "set (st_spared rep) = {t \<in> set targets. is_spared us t}"
    and "rep = account (stopped_none\<lparr>st_spared := st_spared rep\<rparr>) rs left"
proof -
  obtain standing own where a: "fold (admit us) targets ([], []) = (standing, own)" by fastforce
  with assms obtain left rs where c: "climb sg grace LADDER standing [] m = Some (left, rs, m')"
    and r: "rep = account (stopped_none\<lparr>st_spared := own\<rparr>) rs left" by (auto simp: processes_def)
  have own: "st_spared rep = own" using r by (simp add: account_def Let_def)
  have f: "distinct standing" "set standing = {t \<in> set targets. \<not> is_spared us t}"
    "set own = {t \<in> set targets. is_spared us t}"
    using admit_fold [OF a] by simp_all
  show ?thesis by (rule that [OF _ c]) (use a r own f in simp_all)
qed

lemma account_parts [simp]:
  "st_left (account s rs left) = left" "st_spared (account s rs left) = st_spared s"
  "set (st_killed (account stopped_none' rs left)) = set (st_killed stopped_none') \<union> {t. (t, Kill) \<in> set rs \<and> t \<notin> set left}"
  "set (st_asked (account stopped_none' rs left)) = set (st_asked stopped_none') \<union> {t. \<exists>x. (t, x) \<in> set rs \<and> x \<noteq> Kill \<and> t \<notin> set left}"
  by (auto simp: account_def Let_def image_iff)

text \<open>
  C15. The ladder is climbed one rung at a time. Whatever a stop answers, a watched run of it
  answers the same and has sent each target a beginning of the three signals, in their order:
  nothing to a target it was not given, nothing to the operation's own processes and groups or
  to a reserved identifier; all three to every target it had to kill or reports as left, and at
  least one to every target that stopped when asked. The targets spared are exactly its own,
  and the ones it reports of were given and are not its own.
\<close>

theorem signals_climb_the_ladder:
  assumes "processes us sg targets grace m = Some (rep, m')"
  shows "\<exists>log. processes us (observing sg) targets grace (m, []) = Some (rep, (m', log))
    \<and> (\<forall>t. prefix (sends_to t log) LADDER
         \<and> (t \<notin> set targets \<or> is_spared us t \<longrightarrow> sends_to t log = [])
         \<and> (t \<in> set (st_killed rep) \<union> set (st_left rep) \<longrightarrow> sends_to t log = LADDER)
         \<and> (t \<in> set (st_asked rep) \<longrightarrow> sends_to t log \<noteq> []))
    \<and> set (st_spared rep) = {t \<in> set targets. is_spared us t}
    \<and> set (st_asked rep) \<union> set (st_killed rep) \<union> set (st_left rep) \<subseteq> {t \<in> set targets. \<not> is_spared us t}
    \<and> set (st_asked rep) \<inter> set (st_killed rep) = {}
    \<and> (set (st_asked rep) \<union> set (st_killed rep)) \<inter> set (st_left rep) = {}"
proof -
  from assms obtain standing left rs where p: "fold (admit us) targets ([], []) = (standing, st_spared rep)"
    "climb sg grace LADDER standing [] m = Some (left, rs, m')" "distinct standing"
    "set standing = {t \<in> set targets. \<not> is_spared us t}" "set (st_spared rep) = {t \<in> set targets. is_spared us t}"
    "rep = account (stopped_none\<lparr>st_spared := st_spared rep\<rparr>) rs left" by (rule processes_parts)
  from climb_observing [OF p(2,3), of "[]"] obtain log where
    l: "climb (observing sg) grace LADDER standing [] (m, []) = Some (left, rs, (m', log))"
    and r: "\<And>t. rungs_climbed LADDER standing left log t" and x: "\<forall>(u, x) \<in> set rs. x \<in> set (sends_to u log)"
    and s: "set left \<subseteq> set standing" "fst ` set rs \<subseteq> set standing" "distinct (map fst rs)" by auto
  have k: "set (st_killed rep) = {t. (t, Kill) \<in> set rs \<and> t \<notin> set left}"
    "set (st_asked rep) = {t. \<exists>x. (t, x) \<in> set rs \<and> x \<noteq> Kill \<and> t \<notin> set left}" "st_left rep = left"
    by (subst p(6); simp add: stopped_none_def)+
  have run: "processes us (observing sg) targets grace (m, []) = Some (rep, (m', log))"
    using p(1,6) l by (simp add: processes_def)
  have "prefix (sends_to t log) LADDER
      \<and> (t \<notin> set targets \<or> is_spared us t \<longrightarrow> sends_to t log = [])
      \<and> (t \<in> set (st_killed rep) \<union> set (st_left rep) \<longrightarrow> sends_to t log = LADDER)
      \<and> (t \<in> set (st_asked rep) \<longrightarrow> sends_to t log \<noteq> [])" for t
  proof -
    from r [of t] obtain n where n: "n \<le> length LADDER" "sends_to t log = take n LADDER"
      "t \<notin> set standing \<longrightarrow> n = 0" "t \<in> set left \<longrightarrow> n = length LADDER" unfolding rungs_climbed_def by blast
    have all: "n = length LADDER" if "Kill \<in> set (take n LADDER)"
      using that n(1) by (auto simp: LADDER_def take_Cons' split: if_splits)
    have "n = length LADDER" if "t \<in> set (st_killed rep) \<union> set (st_left rep)"
    proof (cases "t \<in> set left")
      case True
      with n(4) show ?thesis by blast
    next
      case False
      with that have "(t, Kill) \<in> set rs" unfolding k by blast
      with x n(2) all show ?thesis by force
    qed
    moreover have "sends_to t log \<noteq> []" if "t \<in> set (st_asked rep)" using that x unfolding k by force
    moreover have "n = 0" if "t \<notin> set targets \<or> is_spared us t" using n(3) p(4) that by blast
    ultimately show ?thesis using n(2) by (metis take_all order_refl take_0 take_is_prefix)
  qed
  moreover have "set (st_asked rep) \<union> set (st_killed rep) \<union> set (st_left rep) \<subseteq> {t \<in> set targets. \<not> is_spared us t}"
    using s k p(4) by force
  moreover have "set (st_asked rep) \<inter> set (st_killed rep) = {}"
    using s(3) k by (auto dest: eq_key_imp_eq_value)
  moreover have "(set (st_asked rep) \<union> set (st_killed rep)) \<inter> set (st_left rep) = {}" using k by auto
  ultimately show ?thesis using run p(5) by blast
qed

text \<open>
  C14. A stop ends, and what it reports is true. Where the clock runs, no number of a target that
  has gone is given to another, and a target this account may signal once it may signal for
  as long as it runs, every stop returns a report, whatever the targets ignore; and once
  it has, a target still running is on the list of the left, is the operation's own, or is one
  this account may not signal. So a target reported as stopped or made to stop has stopped,
  and a clear report leaves none running that it could have signalled and that is not its own.
\<close>

theorem stop_ends_and_tells:
  assumes contract: "signals_contract sg running barred"
  shows "\<exists>rep m'. processes us sg targets grace m = Some (rep, m')
    \<and> (\<forall>t \<in> set targets. running t m' \<longrightarrow> t \<in> set (st_left rep) \<or> t \<in> set (st_spared rep) \<or> barred t)
    \<and> (\<forall>t \<in> set (st_asked rep) \<union> set (st_killed rep). \<not> running t m')
    \<and> (is_clear rep \<longrightarrow> (\<forall>t \<in> set targets. running t m' \<longrightarrow> is_spared us t \<or> barred t))"
proof -
  from signals_contract.axioms(1) [OF contract] obtain left rs m' standing own where
    a: "fold (admit us) targets ([], []) = (standing, own)"
    and c: "climb sg grace LADDER standing [] m = Some (left, rs, m')"
    using clocked.climb_ends by (metis surj_pair)
  let ?rep = "account (stopped_none\<lparr>st_spared := own\<rparr>) rs left"
  have p: "processes us sg targets grace m = Some (?rep, m')" using a c by (simp add: processes_def)
  have f: "set standing = {t \<in> set targets. \<not> is_spared us t}" "set own = {t \<in> set targets. is_spared us t}"
    using admit_fold [OF a] by simp_all
  note told = signals_contract.climb_tells [OF contract c]
  have left: "t \<in> set left \<or> barred t" if "t \<in> set standing" "running t m'" for t
    using told that by blast
  have rs: "fst ` set rs \<subseteq> set standing"
    using climb_observing [OF c, of "[]"] admit_fold [OF a] by auto
  have open_to: "\<not> barred t" if "t \<in> fst ` set rs" for t using told that by auto
  have "\<not> running t m'" if "t \<in> set (st_asked ?rep) \<union> set (st_killed ?rep)" for t
  proof -
    have t: "t \<in> fst ` set rs" "t \<notin> set left" using that by (force simp: stopped_none_def)+
    with left rs open_to show ?thesis by blast
  qed
  moreover have "t \<in> set (st_left ?rep) \<or> t \<in> set (st_spared ?rep) \<or> barred t" if "t \<in> set targets" "running t m'" for t
    using that f left by auto
  moreover have "is_spared us t \<or> barred t" if "is_clear ?rep" "t \<in> set targets" "running t m'" for t
    using that f left [of t] by (auto simp: is_clear_def)
  ultimately show ?thesis using p by blast
qed

subsection \<open>Whom \<open>kill\<close> is given\<close>

lemma to_i32_Some: "to_i32 n = Some a \<longleftrightarrow> a = uint n \<and> a < 2 ^ 31"
  by (auto simp: to_i32_def)

lemma addressed_Group: "addressed (Group n) = (if uint n < 2 ^ 31 then Some (- uint n) else None)"
proof -
  have "0 \<le> i \<Longrightarrow> i \<noteq> - (2 ^ 31)" for i :: int by auto
  from this [OF uint_ge_0] have "uint n \<noteq> - (2 ^ 31)" .
  then show ?thesis by (simp add: to_i32_def checked_neg_def)
qed

lemma addressed_Process: "addressed (Process n) = (if uint n < 2 ^ 31 then Some (uint n) else None)"
  by (simp add: to_i32_def)

lemma unreserved: "n \<notin> set RESERVED \<longleftrightarrow> 1 < uint n"
proof -
  have "n = 0 \<longleftrightarrow> uint n = 0" "n = 1 \<longleftrightarrow> uint n = 1" by (simp_all add: word_uint_eq_iff)
  moreover have "0 \<le> i \<Longrightarrow> i \<noteq> 0 \<and> i \<noteq> 1 \<longleftrightarrow> 1 < i" for i :: int by linarith
  ultimately show ?thesis using uint_ge_0 [of n] by (simp add: RESERVED_def)
qed

text \<open>
  C16. A signal reaches the target and nobody else. For a target that is not spared the number
  given to \<open>kill\<close> fits an i32, is above one for a process and below minus one for a group, so it
  is never zero, which addresses the caller's own group, nor minus one, which addresses every
  process of the machine; two targets are never given one number; and only an identifier that
  does not fit an i32 has none.
\<close>

theorem addresses_one_target:
  assumes "\<not> is_spared us t"
  shows "(\<forall>a. addressed t = Some a \<longrightarrow>
        - (2 ^ 31) < a \<and> a < 2 ^ 31 \<and> (if is_group t then a < - 1 else 1 < a)
        \<and> (\<forall>u. addressed u = Some a \<longrightarrow> u = t))
    \<and> (addressed t = None \<longleftrightarrow> (case t of Process n \<Rightarrow> 2 ^ 31 \<le> uint n | Group n \<Rightarrow> 2 ^ 31 \<le> uint n))"
proof (intro conjI allI impI)
  fix a assume a: "addressed t = Some a"
  obtain n where n: "t = Process n \<or> t = Group n" "uint n < 2 ^ 31" "a = (if is_group t then - uint n else uint n)"
    using a by (cases t) (auto simp: addressed_Group addressed_Process simp del: addressed.simps split: if_splits)
  have "1 < uint n" using assms n(1) unreserved [of n] by auto
  then show "- (2 ^ 31) < a" "a < 2 ^ 31" "if is_group t then a < - 1 else 1 < a" using n by auto
  fix u assume u: "addressed u = Some a"
  obtain m where m: "u = Process m \<or> u = Group m" "a = (if is_group u then - uint m else uint m)"
    using u by (cases u) (auto simp: addressed_Group addressed_Process simp del: addressed.simps split: if_splits)
  have "is_group u \<Longrightarrow> a \<le> 0" "\<not> is_group u \<Longrightarrow> 0 \<le> a" using m(2) by auto
  moreover have "is_group t \<Longrightarrow> a < 0" "\<not> is_group t \<Longrightarrow> 0 < a" using n(3) \<open>1 < uint n\<close> by auto
  ultimately have g: "is_group u = is_group t" by (cases "is_group u"; cases "is_group t") auto
  then have "uint m = uint n" using m(2) n(3) by (simp split: if_splits)
  then have "m = n" by (simp add: word_uint_eq_iff)
  with g m(1) n(1) show "u = t" by auto
next
  show "addressed t = None \<longleftrightarrow> (case t of Process n \<Rightarrow> 2 ^ 31 \<le> uint n | Group n \<Rightarrow> 2 ^ 31 \<le> uint n)"
    by (cases t) (auto simp: addressed_Group addressed_Process simp del: addressed.simps)
qed

theorem addresses_one_target_witness:
  "\<not> is_group (Process 42) \<and> addressed (Process 42) = Some 42 \<and> (1 :: int) < 42"
proof -
  let ?us = "\<lparr>own_pid = 7, parent_pid = 6, own_group = 7, parent_group = 6\<rparr>"
  have "\<not> is_spared ?us (Process 42)" by (simp add: RESERVED_def spared_def)
  from addresses_one_target [OF this] show ?thesis by (simp add: to_i32_def)
qed

subsection \<open>A host on which no signal gets through\<close>

lemma send_all_refused:
  assumes no: "\<And>t s m. \<not> fst (sg_send sg t s m)"
  shows "\<exists>m'. send_all sg s ts rs m = ([], rs, m')"
proof (induction ts arbitrary: m)
  case (Cons t ts)
  obtain b m1 where a: "sg_send sg t s m = (b, m1)" by fastforce
  with no [of t s m] Cons.IH [of m1] show ?case by auto
qed simp

lemma settle_nobody: "settle sg [] period m = Some ([], m)"
  by (simp add: settle_def settle_until.simps)

lemma refused_is_clear:
  assumes "\<And>t s m. \<not> fst (sg_send sg t s m)"
  shows "\<exists>m' own. processes us sg targets grace m =
     Some (\<lparr>st_asked = [], st_killed = [], st_left = [], st_spared = own\<rparr>, m')"
proof -
  obtain standing own where a: "fold (admit us) targets ([], []) = (standing, own)" by fastforce
  have "\<exists>m'. climb sg grace LADDER standing [] m = Some ([], [], m')"
  proof (cases "standing = []")
    case False
    obtain m' where "send_all sg Interrupt standing [] m = ([], [], m')" using send_all_refused [OF assms] by blast
    with False show ?thesis by (simp add: LADDER_def rung_def settle_nobody)
  qed (simp add: LADDER_def)
  with a show ?thesis by (auto simp: processes_def account_def stopped_none_def)
qed

text \<open>
  C26. A stop that reaches nobody reports that nothing is left. On a platform with no signals,
  and on one where this account may signal none of the targets, the report lists no target as
  asked, killed or left and so is clear, while the trait itself answers that every target
  whose number it can form is alive.
\<close>

theorem unreached_target_is_not_left:
  "(\<exists>m' own. processes us (signalless sleep now) targets grace m =
      Some (\<lparr>st_asked = [], st_killed = [], st_left = [], st_spared = own\<rparr>, m'))
   \<and> fst (sg_alive (signalless sleep now) t m)
   \<and> (\<exists>m' own. processes us (live (\<lambda>_ _ m. (EPERM, m)) sleep now) targets grace m =
      Some (\<lparr>st_asked = [], st_killed = [], st_left = [], st_spared = own\<rparr>, m'))
   \<and> fst (sg_alive (live (\<lambda>_ _ m. (EPERM, m)) sleep now) t m) = (addressed t \<noteq> None)"
proof (intro conjI)
  show "\<exists>m' own. processes us (signalless sleep now) targets grace m =
      Some (\<lparr>st_asked = [], st_killed = [], st_left = [], st_spared = own\<rparr>, m')"
    by (rule refused_is_clear) (simp add: signalless_def)
  show "\<exists>m' own. processes us (live (\<lambda>_ _ m. (EPERM, m)) sleep now) targets grace m =
      Some (\<lparr>st_asked = [], st_killed = [], st_left = [], st_spared = own\<rparr>, m')"
    by (rule refused_is_clear) (simp add: live_def live_send_def EPERM_def split: option.split)
qed (simp_all add: signalless_def live_def live_alive_def split: option.split)

subsection \<open>The machine of the tests, and this one\<close>

text \<open>\<open>Fake\<close>: targets that stop on the first signal each of them honours.\<close>

record fake =
  fk_alive :: "target list"
  fk_clock :: nat

definition fake_signals :: "(target \<times> stop_signal) list \<Rightarrow> fake signals" where
  "fake_signals ignores = \<lparr>
     sg_send = (\<lambda>t s m. if t \<notin> set (fk_alive m) then (False, m)
        else (True, if (t, s) \<in> set ignores then m else m\<lparr>fk_alive := filter (\<lambda>u. u \<noteq> t) (fk_alive m)\<rparr>)),
     sg_alive = (\<lambda>t m. (t \<in> set (fk_alive m), m)),
     sg_wait = (\<lambda>p m. m\<lparr>fk_clock := fk_clock m + p\<rparr>),
     sg_now = fk_clock\<rparr>"

interpretation faked: signals_contract "fake_signals ignores" "\<lambda>t m. t \<in> set (fk_alive m)" "\<lambda>_. False" for ignores
  by unfold_locales (auto simp: fake_signals_def split: if_splits)

text \<open>
  A host as \<open>kill(2)\<close> documents it: the processes that are there, when each of them ends, and the
  clock. \<open>grp\<close> is the group of a process, \<open>may\<close> whether this account may signal it and \<open>lag\<close>
  how long a process takes to end once it is sent a signal, or that it ignores it. A call answers
  that there is nobody, that none of them may be signalled, or reaches those that may; to minus
  one it is everybody, and that call is refused by nobody.
\<close>

record hosted =
  hp_pids :: "os_id list"
  hp_ends :: "os_id \<Rightarrow> nat option"
  hp_clock :: nat

definition standing_on :: "hosted \<Rightarrow> os_id \<Rightarrow> bool" where
  "standing_on h p \<longleftrightarrow> p \<in> set (hp_pids h) \<and> (case hp_ends h p of None \<Rightarrow> True | Some e \<Rightarrow> hp_clock h < e)"

definition called :: "os_id \<Rightarrow> (os_id \<Rightarrow> os_id) \<Rightarrow> int \<Rightarrow> os_id \<Rightarrow> bool" where
  "called own grp a p \<longleftrightarrow>
     (if 0 < a then uint p = a else if a = 0 then grp p = own else if a = - 1 then True else uint (grp p) = - a)"

definition sooner :: "nat option \<Rightarrow> nat option \<Rightarrow> nat option" where
  "sooner a b = (case (a, b) of (Some x, Some y) \<Rightarrow> Some (min x y) | (None, b) \<Rightarrow> b | (a, None) \<Rightarrow> a)"

definition ESRCH :: nat where "ESRCH = 3"

definition host_kill ::
    "os_id \<Rightarrow> (os_id \<Rightarrow> os_id) \<Rightarrow> (os_id \<Rightarrow> bool) \<Rightarrow> (os_id \<Rightarrow> nat \<Rightarrow> nat option) \<Rightarrow> hosted kill_call" where
  "host_kill own grp may lag a n h =
     (let there = filter (\<lambda>p. standing_on h p \<and> called own grp a p) (hp_pids h)
      in if there = [] then (ESRCH, h)
         else if a \<noteq> - 1 \<and> \<not> list_ex may there then (EPERM, h)
         else (0, h\<lparr>hp_ends := (\<lambda>p. if n \<noteq> 0 \<and> p \<in> set there \<and> may p
                  then sooner (hp_ends h p) (map_option ((+) (hp_clock h)) (lag p n)) else hp_ends h p)\<rparr>))"

definition host_sleep :: "nat \<Rightarrow> hosted \<Rightarrow> hosted" where
  "host_sleep p h = h\<lparr>hp_clock := hp_clock h + p\<rparr>"

text \<open>A target is running while a process that its number calls stands.\<close>

definition running_on :: "os_id \<Rightarrow> (os_id \<Rightarrow> os_id) \<Rightarrow> target \<Rightarrow> hosted \<Rightarrow> bool" where
  "running_on own grp t h \<longleftrightarrow>
     (case addressed t of None \<Rightarrow> False | Some a \<Rightarrow> \<exists>p \<in> set (hp_pids h). standing_on h p \<and> called own grp a p)"

definition barred_on :: "os_id \<Rightarrow> (os_id \<Rightarrow> os_id) \<Rightarrow> (os_id \<Rightarrow> bool) \<Rightarrow> target \<Rightarrow> bool" where
  "barred_on own grp may t \<longleftrightarrow>
     (case addressed t of None \<Rightarrow> False | Some a \<Rightarrow> a \<noteq> - 1 \<and> (\<forall>p. called own grp a p \<longrightarrow> \<not> may p))"

lemma host_kill_stays:
  assumes "host_kill own grp may lag a n h = (e, h')" and "standing_on h' p"
  shows "standing_on h p"
proof -
  have s: "hp_pids h' = hp_pids h" "hp_clock h' = hp_clock h"
    and e: "hp_ends h' p = hp_ends h p \<or> (\<exists>b. hp_ends h' p = sooner (hp_ends h p) b)"
    using assms(1) by (auto simp: host_kill_def Let_def split: if_splits)
  from assms(2) e show ?thesis
    unfolding standing_on_def s by (auto simp: sooner_def split: option.splits)
qed

lemma host_kill_stays_on: "host_kill own grp may lag a n h = (e, h') \<Longrightarrow> running_on own grp t h' \<Longrightarrow> running_on own grp t h"
  using host_kill_stays [of own grp may lag a n h e h']
  by (auto simp: running_on_def split: option.splits) (auto simp: standing_on_def)

lemma host_kill_answer:
  assumes "host_kill own grp may lag a n h = (e, h')" and "addressed t = Some a"
  shows "e = 0 \<and> running_on own grp t h \<and> (a = - 1 \<or> (\<exists>p. called own grp a p \<and> may p))
    \<or> h' = h \<and> e = ESRCH \<and> \<not> running_on own grp t h
    \<or> h' = h \<and> e = EPERM \<and> running_on own grp t h \<and> a \<noteq> - 1
      \<and> (\<forall>p \<in> set (hp_pids h). standing_on h p \<longrightarrow> called own grp a p \<longrightarrow> \<not> may p)"
  using assms by (auto simp: host_kill_def Let_def running_on_def list_ex_iff filter_empty_conv split: if_splits)

text \<open>Where an account may signal a process or may not by the group it is in, no group is of both kinds.\<close>

lemma called_alike: "called own grp a p \<Longrightarrow> called own grp a q \<Longrightarrow> a \<noteq> - 1 \<Longrightarrow> grp p = grp q"
  using word_uint_eq_iff [of p q] word_uint_eq_iff [of "grp p" "grp q"]
  by (simp add: called_def split: if_splits)

lemma live_send_host:
  "sg_send (live (host_kill own grp may lag) host_sleep hp_clock) t s h =
     (case addressed t of None \<Rightarrow> (False, h)
      | Some a \<Rightarrow> (case host_kill own grp may lag a (signal_number s) h of (e, h') \<Rightarrow> (e = 0, h')))"
  "sg_alive (live (host_kill own grp may lag) host_sleep hp_clock) t h =
     (case addressed t of None \<Rightarrow> (False, h)
      | Some a \<Rightarrow> (case host_kill own grp may lag a 0 h of (e, h') \<Rightarrow> (e = 0 \<or> e = EPERM, h')))"
  "sg_wait (live (host_kill own grp may lag) host_sleep hp_clock) = host_sleep"
  "sg_now (live (host_kill own grp may lag) host_sleep hp_clock) = hp_clock"
  by (simp_all add: live_def live_send_def live_alive_def)

lemma host_clock: "host_kill own grp may lag a n h = (e, h') \<Longrightarrow> hp_clock h' = hp_clock h"
  by (auto simp: host_kill_def Let_def split: if_splits)

interpretation on_host: signals_contract "live (host_kill own grp (\<lambda>p. may (grp p)) lag) host_sleep hp_clock"
  "running_on own grp" "barred_on own grp (\<lambda>p. may (grp p))" for own grp may lag
proof (unfold_locales, unfold live_send_host)
  fix t u s and b :: bool and h h' :: hosted and p :: nat
  let ?kill = "host_kill own grp (\<lambda>p. may (grp p)) lag"
  show "hp_clock h \<le> hp_clock h'"
    if "(case addressed t of None \<Rightarrow> (False, h)
      | Some a \<Rightarrow> (case ?kill a 0 h of (e, h') \<Rightarrow> (e = 0 \<or> e = EPERM, h'))) = (b, h')"
    using that by (auto dest: host_clock split: option.splits prod.splits)
  show "hp_clock h + p \<le> hp_clock (host_sleep p h)" by (simp add: host_sleep_def)
  have gone: "running_on own grp t h \<Longrightarrow> addressed t \<noteq> None" for t h by (cases "addressed t") (auto simp: running_on_def)
  show "barred_on own grp (\<lambda>p. may (grp p)) t"
    if "(case addressed t of None \<Rightarrow> (False, h)
      | Some a \<Rightarrow> (case ?kill a (signal_number s) h of (e, h') \<Rightarrow> (e = 0, h'))) = (False, h')" and r: "running_on own grp t h'"
  proof -
    from gone [OF r] obtain a where a: "addressed t = Some a" by blast
    with that(1) obtain e where k: "?kill a (signal_number s) h = (e, h')" "e \<noteq> 0" by (auto split: prod.splits)
    from host_kill_answer [OF k(1) a] k(2) r
    have n: "a \<noteq> - 1" "\<forall>p \<in> set (hp_pids h). standing_on h p \<longrightarrow> called own grp a p \<longrightarrow> \<not> may (grp p)" "h' = h" by auto
    from r a n(3) obtain p where p: "p \<in> set (hp_pids h)" "standing_on h p" "called own grp a p"
      by (auto simp: running_on_def)
    have "\<not> may (grp q)" if "called own grp a q" for q
      using called_alike [OF p(3) that n(1)] n(2) p by metis
    with a n(1) show ?thesis by (simp add: barred_on_def)
  qed
  show "\<not> barred_on own grp (\<lambda>p. may (grp p)) t"
    if "(case addressed t of None \<Rightarrow> (False, h)
      | Some a \<Rightarrow> (case ?kill a (signal_number s) h of (e, h') \<Rightarrow> (e = 0, h'))) = (True, h')"
  proof -
    from that obtain a where a: "addressed t = Some a" by (cases "addressed t") auto
    with that obtain e where k: "?kill a (signal_number s) h = (e, h')" "e = 0" by (auto split: prod.splits)
    from host_kill_answer [OF k(1) a] k(2) have "a = - 1 \<or> (\<exists>p. called own grp a p \<and> may (grp p))"
      by (auto simp: ESRCH_def EPERM_def)
    with a show ?thesis by (auto simp: barred_on_def)
  qed
  show "\<not> running_on own grp t h'"
    if "(case addressed t of None \<Rightarrow> (False, h)
      | Some a \<Rightarrow> (case ?kill a 0 h of (e, h') \<Rightarrow> (e = 0 \<or> e = EPERM, h'))) = (False, h')"
  proof
    assume r: "running_on own grp t h'"
    from gone [OF r] obtain a where a: "addressed t = Some a" by blast
    with that obtain e where k: "?kill a 0 h = (e, h')" "e \<noteq> 0" "e \<noteq> EPERM" by (auto split: prod.splits)
    from host_kill_answer [OF k(1) a] k(2,3) r show False by auto
  qed
  show "running_on own grp u h"
    if "(case addressed t of None \<Rightarrow> (False, h)
      | Some a \<Rightarrow> (case ?kill a (signal_number s) h of (e, h') \<Rightarrow> (e = 0, h'))) = (b, h')" "running_on own grp u h'"
    using that by (auto dest: host_kill_stays_on split: option.splits prod.splits)
  show "running_on own grp u h"
    if "(case addressed t of None \<Rightarrow> (False, h)
      | Some a \<Rightarrow> (case ?kill a 0 h of (e, h') \<Rightarrow> (e = 0 \<or> e = EPERM, h'))) = (b, h')" "running_on own grp u h'"
    using that by (auto dest: host_kill_stays_on split: option.splits prod.splits)
  show "running_on own grp u h" if "running_on own grp u (host_sleep p h)"
    using that by (fastforce simp: running_on_def standing_on_def host_sleep_def split: option.splits)
qed

text \<open>The platform with no signals keeps the contract too: all of its targets are barred.\<close>

interpretation unsignalled: signals_contract "signalless (\<lambda>p m. m + p) (\<lambda>m. m)" "\<lambda>_ _. True" "\<lambda>_. True"
  by unfold_locales (auto simp: signalless_def)

subsection \<open>A group only some of whose processes may be signalled\<close>

text \<open>What is left of such a group of two once the one process that may be signalled has ended.\<close>

definition half_gone :: "os_id \<Rightarrow> os_id \<Rightarrow> hosted \<Rightarrow> bool" where
  "half_gone p q h \<longleftrightarrow> hp_pids h = [p, q] \<and> \<not> standing_on h p \<and> hp_ends h q = None"

lemma half_gone_sleep: "half_gone p q h \<Longrightarrow> half_gone p q (host_sleep d h)"
  by (auto simp: half_gone_def standing_on_def host_sleep_def split: option.splits)

lemma half_gone_call:
  assumes "half_gone p q h" and "grp q = g" and "\<not> may q" and "1 < uint g"
  shows "host_kill own grp may lag (- uint g) n h = (EPERM, h)"
proof -
  have "standing_on h q" using assms(1) by (simp add: half_gone_def standing_on_def)
  moreover have "called own grp (- uint g) q" using assms(2,4) by (simp add: called_def)
  moreover have "hp_pids h = [p, q]" "\<not> standing_on h p" using assms(1) by (simp_all add: half_gone_def)
  ultimately show ?thesis using assms(3,4) by (simp add: host_kill_def)
qed

lemma half_gone_settles:
  assumes i: "half_gone p q h" and g: "grp q = g" "\<not> may q" "1 < uint g" "uint g < 2 ^ 31"
  shows "\<exists>h'. settle_until (live (host_kill own grp may lag) host_sleep hp_clock) [Group g] deadline h = Some ([Group g], h')
    \<and> half_gone p q h'"
  using i
proof (induction "deadline - hp_clock h" arbitrary: h rule: less_induct)
  case less
  let ?sg = "live (host_kill own grp may lag) host_sleep hp_clock"
  have s: "still ?sg [Group g] h = ([Group g], h)"
    using half_gone_call [where n = 0 and grp = grp and may = may and lag = lag and own = own, OF less.prems g(1-3)] g(4)
    by (simp add: live_send_host addressed_Group del: addressed.simps)
  show ?case
  proof (cases "deadline \<le> hp_clock h")
    case True
    with s less.prems show ?thesis by (subst settle_until.simps) (simp add: live_send_host del: still.simps)
  next
    case False
    then have "deadline - hp_clock (host_sleep POLL h) < deadline - hp_clock h" by (simp add: host_sleep_def POLL_def)
    from less.hyps [OF this half_gone_sleep [OF less.prems]] s False show ?thesis
      by (subst settle_until.simps) (simp add: live_send_host del: still.simps)
  qed
qed

text \<open>
  C25. A group only some of whose processes this account may signal is reported as stopped.
  On a host that answers as \<open>kill(2)\<close> documents, where a group holds one process that ends
  when it is interrupted and one this account may not signal, a stop of the group reports
  it as stopped when asked, and nothing as left, while the group holds the other process.
\<close>

theorem mixed_group_is_called_stopped:
  assumes g: "\<not> is_spared us (Group g)" "uint g < 2 ^ 31" and grp: "grp p = g" "grp q = g" "p \<noteq> q"
    and may: "may p" "\<not> may q" and lag: "lag p (signal_number Interrupt) = Some 0"
    and h: "hp_pids h = [p, q]" "hp_ends h = (\<lambda>_. None)"
  shows "\<exists>h'. processes us (live (host_kill own grp may lag) host_sleep hp_clock) [Group g] grace h
      = Some (\<lparr>st_asked = [Group g], st_killed = [], st_left = [], st_spared = []\<rparr>, h')
    \<and> running_on own grp (Group g) h'"
proof -
  let ?sg = "live (host_kill own grp may lag) host_sleep hp_clock"
  let ?h = "h\<lparr>hp_ends := (\<lambda>_. None)(p := Some (hp_clock h))\<rparr>"
  have g1: "1 < uint g" using g(1) unreserved [of g] by simp
  have up: "standing_on h p" "standing_on h q" using h by (simp_all add: standing_on_def)
  have to: "called own grp (- uint g) p" "called own grp (- uint g) q" using grp g1 by (simp_all add: called_def)
  have "(\<lambda>x. if (x = p \<or> x = q) \<and> may x then sooner None (map_option ((+) (hp_clock h)) (lag x 2)) else None)
      = (\<lambda>_. None)(p := Some (hp_clock h))"
    using may lag by (auto simp: sooner_def fun_eq_iff)
  then have k: "host_kill own grp may lag (- uint g) 2 h = (0, ?h)"
    using up to may h grp(3) g1 by (simp add: host_kill_def cong: if_cong)
  have i: "half_gone p q ?h" using h grp(3) by (simp add: half_gone_def standing_on_def)
  have one: "send_all ?sg Interrupt [Group g] [] h = ([Group g], [(Group g, Interrupt)], ?h)"
    using k g(2) by (simp add: live_send_host addressed_Group reach_def Let_def del: addressed.simps)
  from half_gone_settles [where grp = grp and may = may and lag = lag and own = own, OF i grp(2) may(2) g1 g(2)] obtain h' where
    s: "settle ?sg [Group g] grace ?h = Some ([Group g], h')" and i': "half_gone p q h'"
    unfolding settle_def by blast
  have two: "send_all ?sg Terminate [Group g] [(Group g, Interrupt)] h' = ([], [(Group g, Interrupt)], h')"
    using half_gone_call [where grp = grp and may = may and lag = lag and own = own, OF i' grp(2) may(2) g1] g(2)
    by (simp add: live_send_host addressed_Group EPERM_def del: addressed.simps)
  have "climb ?sg grace LADDER [Group g] [] h = Some ([], [(Group g, Interrupt)], h')"
    using one two s by (simp add: LADDER_def rung_def settle_nobody del: send_all.simps)
  then have "processes us ?sg [Group g] grace h
      = Some (\<lparr>st_asked = [Group g], st_killed = [], st_left = [], st_spared = []\<rparr>, h')"
    using g(1) by (simp add: processes_def admit_def account_def stopped_none_def)
  moreover have "running_on own grp (Group g) h'"
  proof -
    have "standing_on h' q" "q \<in> set (hp_pids h')" using i' by (simp_all add: half_gone_def standing_on_def)
    with to(2) g(2) show ?thesis by (auto simp: running_on_def addressed_Group simp del: addressed.simps)
  qed
  ultimately show ?thesis by blast
qed

theorem mixed_group_is_called_stopped_witness:
  "\<exists>h. processes \<lparr>own_pid = 7, parent_pid = 6, own_group = 7, parent_group = 6\<rparr>
       (live (host_kill 7 (\<lambda>_. 41) (\<lambda>p. p = 41) (\<lambda>_ _. Some 0)) host_sleep hp_clock) [Group 41] GRACE
       \<lparr>hp_pids = [41, 42], hp_ends = (\<lambda>_. None), hp_clock = 0\<rparr>
     = Some (\<lparr>st_asked = [Group 41], st_killed = [], st_left = [], st_spared = []\<rparr>, h)
     \<and> running_on 7 (\<lambda>_. 41) (Group 41) h"
  by (rule mixed_group_is_called_stopped [where p = 41 and q = 42])
    (simp_all add: RESERVED_def spared_groups_def)

subsection \<open>The properties at one stop\<close>

text \<open>A server that stops when it is interrupted and a watcher that ignores all but the kill.\<close>

definition ex_us :: session where
  "ex_us = \<lparr>own_pid = 7, parent_pid = 6, own_group = 7, parent_group = 6\<rparr>"

definition ex_ignores :: "(target \<times> stop_signal) list" where
  "ex_ignores = [(Process 42, Interrupt), (Process 42, Terminate)]"

definition ex_machine :: "target list \<Rightarrow> fake" where "ex_machine ts = \<lparr>fk_alive = ts, fk_clock = 0\<rparr>"

lemma ex_rungs:
  "rung (fake_signals ex_ignores) [Group 41, Process 42] Interrupt 0 [] (ex_machine [Group 41, Process 42, Process 7])
     = Some ([Process 42], [(Group 41, Interrupt), (Process 42, Interrupt)], ex_machine [Process 42, Process 7])"
  "rung (fake_signals ex_ignores) [Process 42] Terminate 0 [(Group 41, Interrupt), (Process 42, Interrupt)] (ex_machine [Process 42, Process 7])
     = Some ([Process 42], [(Group 41, Interrupt), (Process 42, Terminate)], ex_machine [Process 42, Process 7])"
  "rung (fake_signals ex_ignores) [Process 42] Kill POLL [(Group 41, Interrupt), (Process 42, Terminate)] (ex_machine [Process 42, Process 7])
     = Some ([], [(Group 41, Interrupt), (Process 42, Kill)], ex_machine [Process 7])"
  by (simp_all add: rung_def settle_def fake_signals_def ex_machine_def ex_ignores_def reach_def settle_until.simps)
lemma ex_stop: "processes ex_us (fake_signals ex_ignores) [Group 41, Process 42, Process 7] 0 (ex_machine [Group 41, Process 42, Process 7]) =
    Some (\<lparr>st_asked = [Group 41], st_killed = [Process 42], st_left = [], st_spared = [Process 7]\<rparr>, ex_machine [Process 7])"
  by (simp add: processes_def admit_def ex_us_def RESERVED_def spared_def spared_groups_def LADDER_def ex_rungs account_def stopped_none_def)

theorem signals_climb_the_ladder_witness:
  "\<exists>log. sends_to (Process 42) log = [Interrupt, Terminate, Kill] \<and> sends_to (Process 7) log = []
     \<and> sends_to (Group 41) log \<noteq> []"
proof -
  have own: "is_spared ex_us (Process 7)" by (simp add: ex_us_def spared_def)
  from signals_climb_the_ladder [OF ex_stop] obtain log where
    l: "\<forall>t. prefix (sends_to t log) LADDER
         \<and> (t \<notin> set [Group 41, Process 42, Process 7] \<or> is_spared ex_us t \<longrightarrow> sends_to t log = [])
         \<and> (t \<in> set [Process 42] \<union> set [] \<longrightarrow> sends_to t log = LADDER)
         \<and> (t \<in> set [Group 41] \<longrightarrow> sends_to t log \<noteq> [])"
    unfolding stopped.simps by (elim exE conjE) (rule that)
  show ?thesis using spec [OF l, of "Process 42"] spec [OF l, of "Process 7"] spec [OF l, of "Group 41"] own
    by (intro exI [of _ log]) (auto simp: LADDER_def)
qed

text \<open>
  A host with a server in a group of its own that ends two seconds after it is interrupted, a
  watcher that only a kill ends, and a process of somebody else's.
\<close>

definition ex_grp :: "os_id \<Rightarrow> os_id" where "ex_grp p = (if p = 40 then 41 else p)"

definition ex_lag :: "os_id \<Rightarrow> nat \<Rightarrow> nat option" where
  "ex_lag p n = (if n = 9 then Some 0 else if p = 42 then None else Some 2000)"

definition ex_hosted :: hosted where
  "ex_hosted = \<lparr>hp_pids = [40, 42, 43], hp_ends = (\<lambda>_. None), hp_clock = 0\<rparr>"

theorem stop_ends_and_tells_witness:
  "\<exists>rep h. processes ex_us (live (host_kill 7 ex_grp (\<lambda>p. ex_grp p \<noteq> 43) ex_lag) host_sleep hp_clock)
       [Group 41, Process 42, Process 43] GRACE ex_hosted = Some (rep, h)
     \<and> (\<forall>t \<in> {Group 41, Process 42}. running_on 7 ex_grp t h \<longrightarrow> t \<in> set (st_left rep))
     \<and> \<not> barred_on 7 ex_grp (\<lambda>p. ex_grp p \<noteq> 43) (Group 41) \<and> barred_on 7 ex_grp (\<lambda>p. ex_grp p \<noteq> 43) (Process 43)"
proof -
  have open_to: "\<not> barred_on 7 ex_grp (\<lambda>p. ex_grp p \<noteq> 43) (Group 41)" "\<not> barred_on 7 ex_grp (\<lambda>p. ex_grp p \<noteq> 43) (Process 42)"
    by (auto simp: barred_on_def addressed_Group addressed_Process called_def ex_grp_def simp del: addressed.simps
        intro: exI [of _ 40] exI [of _ 42])
  have shut: "barred_on 7 ex_grp (\<lambda>p. ex_grp p \<noteq> 43) (Process 43)"
    by (auto simp: barred_on_def addressed_Process called_def ex_grp_def word_uint_eq_iff simp del: addressed.simps)
  obtain rep h where p: "processes ex_us (live (host_kill 7 ex_grp (\<lambda>p. ex_grp p \<noteq> 43) ex_lag) host_sleep hp_clock)
       [Group 41, Process 42, Process 43] GRACE ex_hosted = Some (rep, h)"
    and l: "\<forall>t \<in> set [Group 41, Process 42, Process 43]. running_on 7 ex_grp t h \<longrightarrow>
      t \<in> set (st_left rep) \<or> t \<in> set (st_spared rep) \<or> barred_on 7 ex_grp (\<lambda>p. ex_grp p \<noteq> 43) t"
    using stop_ends_and_tells [OF on_host.signals_contract_axioms [where may = "\<lambda>g. g \<noteq> 43"]] by blast
  from processes_parts [OF p] have "set (st_spared rep) = {t \<in> set [Group 41, Process 42, Process 43]. is_spared ex_us t}"
    by metis
  then have "set (st_spared rep) = {}" by (auto simp: ex_us_def RESERVED_def spared_def spared_groups_def)
  with l open_to p shut show ?thesis by auto
qed

end
