(* ===== verification/Exclude.thy ===== *)
theory Exclude
  imports Text "HOL-Library.Sublist"
begin

text \<open>
  \<open>workspace/exclude.rs\<close> and \<open>workspace/tracked.rs\<close>: the table of the directories a tool
  generates, read three ways, the list of paths a copy leaves out, and the gate that lets no copy
  drop a path the source tracks. A path inside a tree is the list of its names; a path a
  recipe writes is the list of its components, which is what \<open>Path::components\<close> answers with.
\<close>

subsection \<open>The table\<close>

record row =
  row_path :: string
  row_keep :: bool
  row_invalidate :: bool
  row_reason :: string

definition kept :: "string \<Rightarrow> string \<Rightarrow> row" where
  "kept p why = \<lparr>row_path = p, row_keep = True, row_invalidate = False, row_reason = why\<rparr>"

definition dropped :: "string \<Rightarrow> string \<Rightarrow> row" where
  "dropped p why = \<lparr>row_path = p, row_keep = False, row_invalidate = False, row_reason = why\<rparr>"

definition dropped_everywhere :: "string \<Rightarrow> string \<Rightarrow> row" where
  "dropped_everywhere p why = \<lparr>row_path = p, row_keep = False, row_invalidate = True, row_reason = why\<rparr>"

definition ROWS :: "row list" where
  "ROWS =
    [dropped ''.claude/worktrees'' ''checkouts another tool made, which the clone would multiply'',
     dropped ''.nodal'' ''the state of the copy it was found in'',
     dropped ''test-results'' ''output of a run that did not happen here'',
     dropped ''coverage'' ''output of a run that did not happen here'',
     dropped_everywhere ''.next/cache'' ''a build cache that records its own path'',
     dropped_everywhere ''__pycache__'' ''compiled modules that record their own path'',
     kept ''node_modules'' ''installed dependencies, kept warm'',
     kept ''.pnpm-store'' ''the dependency store, kept warm'',
     kept ''.venv'' ''installed dependencies, kept warm'',
     kept ''target'' ''build output, kept warm'',
     kept ''dist'' ''build output, kept warm'',
     kept ''build'' ''build output, kept warm'',
     kept ''.next'' ''build output, kept warm without its cache'',
     kept ''.nuxt'' ''build output, kept warm'',
     kept ''.svelte-kit'' ''build output, kept warm'',
     kept ''.turbo'' ''a task cache, kept warm'',
     kept ''.vite'' ''a task cache, kept warm'',
     kept ''.parcel-cache'' ''a task cache, kept warm'',
     kept ''.cache'' ''a task cache, kept warm'']"

text \<open>\<open>Path::new\<close> of a text that begins with no slash and names no dot: its names.\<close>

definition segments :: "string \<Rightarrow> path" where
  "segments s = filter (\<lambda>part. part \<noteq> []) (split_char CHR ''/'' s)"

definition invalidated :: "row list" where
  "invalidated = filter row_invalidate ROWS"

definition regenerable_rows :: "row list" where
  "regenerable_rows = filter (\<lambda>r. row_keep r \<or> row_invalidate r) ROWS"

definition reason_dropped :: "path \<Rightarrow> string option" where
  "reason_dropped p = map_option row_reason (find (\<lambda>r. \<not> row_keep r \<and> segments (row_path r) = p) ROWS)"

subsection \<open>The list of one copy\<close>

datatype origin = OriginDefault | OriginRecipe

record excluded =
  ex_path :: path
  ex_origin :: origin

type_synonym excludes = "excluded list"

datatype component = Normal string | CurDir | ParentDir | RootDir | Prefix string

fun normal_parts :: "component list \<Rightarrow> path option" where
  "normal_parts [] = Some []"
| "normal_parts (Normal part # cs) = map_option ((#) part) (normal_parts cs)"
| "normal_parts (CurDir # cs) = normal_parts cs"
| "normal_parts (ParentDir # cs) = None"
| "normal_parts (RootDir # cs) = None"
| "normal_parts (Prefix _ # cs) = None"

definition normalise :: "component list \<Rightarrow> path option" where
  "normalise p = (case normal_parts p of Some (n # ns) \<Rightarrow> Some (n # ns) | _ \<Rightarrow> None)"

fun asked_for :: "path \<Rightarrow> excludes \<Rightarrow> excludes" where
  "asked_for q [] = []"
| "asked_for q (x # xs) = (if ex_path x = q then x\<lparr>ex_origin := OriginRecipe\<rparr> # xs else x # asked_for q xs)"

definition add_row :: "origin \<Rightarrow> component list \<Rightarrow> excludes \<Rightarrow> excludes" where
  "add_row og p xs =
     (case normalise p of
        None \<Rightarrow> xs
      | Some q \<Rightarrow>
          if find (\<lambda>x. ex_path x = q) xs \<noteq> None then
            (if og = OriginRecipe then asked_for q xs else xs)
          else xs @ [\<lparr>ex_path = q, ex_origin = og\<rparr>])"

definition extend :: "component list list \<Rightarrow> origin \<Rightarrow> excludes \<Rightarrow> excludes" where
  "extend ps og xs = fold (add_row og) ps xs"

definition default_list :: excludes where
  "default_list =
     extend (map (\<lambda>r. map Normal (segments (row_path r))) (filter (\<lambda>r. \<not> row_keep r) ROWS)) OriginDefault []"

definition with_recipe :: "component list list \<Rightarrow> excludes" where
  "with_recipe ps = extend ps OriginRecipe default_list"

definition from_paths :: "component list list \<Rightarrow> excludes" where
  "from_paths ps = extend ps OriginRecipe []"

definition excludes_path :: "excludes \<Rightarrow> path \<Rightarrow> bool" where
  "excludes_path xs p = list_ex (\<lambda>x. prefix (ex_path x) p) xs"

definition keep_row :: "path \<Rightarrow> excludes \<Rightarrow> excludes" where
  "keep_row p xs = filter (\<lambda>x. ex_path x \<noteq> p) xs"

lemma map_asked_for [simp]: "map ex_path (asked_for q xs) = map ex_path xs"
  by (induction xs) auto

lemma paths_add_row: "ex_path ` set (add_row og p xs) = ex_path ` set xs \<union> set_option (normalise p)"
proof (cases "normalise p")
  case (Some q)
  have "ex_path ` set (asked_for q xs) = ex_path ` set xs"
    using map_asked_for [of q xs] by (metis list.set_map)
  then show ?thesis
    using Some by (force simp: add_row_def find_None_iff find_Some_iff)
qed (simp add: add_row_def)

lemma distinct_add_row: "distinct (map ex_path xs) \<Longrightarrow> distinct (map ex_path (add_row og p xs))"
  by (auto simp: add_row_def find_None_iff split: option.splits)

text \<open>What a list holds: the paths it was given, each once, and a path a project asked for is the
  project's, whichever came first.\<close>

definition named :: "component list list \<Rightarrow> path set" where
  "named ps = {q. \<exists>p \<in> set ps. normalise p = Some q}"

lemma named_simps: "named [] = {}" "named (p # ps) = set_option (normalise p) \<union> named ps"
  by (auto simp: named_def)

lemma extend_simps:
  "extend [] og xs = xs" "extend (p # ps) og xs = extend ps og (add_row og p xs)"
  by (simp_all add: extend_def)

lemma paths_extend: "ex_path ` set (extend ps og xs) = ex_path ` set xs \<union> named ps"
  by (induction ps arbitrary: xs) (auto simp: extend_simps named_simps paths_add_row)

lemma distinct_extend: "distinct (map ex_path xs) \<Longrightarrow> distinct (map ex_path (extend ps og xs))"
  by (induction ps arbitrary: xs) (simp_all add: extend_simps distinct_add_row)

definition origin_of :: "excludes \<Rightarrow> path \<Rightarrow> origin option" where
  "origin_of xs q = map_option ex_origin (find (\<lambda>x. ex_path x = q) xs)"

lemma origin_asked_for:
  "origin_of (asked_for q xs) q' =
     (if q' = q \<and> origin_of xs q \<noteq> None then Some OriginRecipe else origin_of xs q')"
  by (induction xs) (auto simp: origin_of_def)

lemma origin_of_None: "origin_of xs q = None \<longleftrightarrow> q \<notin> ex_path ` set xs"
  by (auto simp: origin_of_def find_None_iff)

lemma origin_add_row:
  "origin_of (add_row og p xs) q =
     (if normalise p \<noteq> Some q then origin_of xs q
      else if og = OriginRecipe \<or> origin_of xs q = None then Some og else origin_of xs q)"
  by (auto simp: add_row_def origin_asked_for split: option.splits)
     (auto simp: origin_of_def find_append split: option.splits)

lemma origin_extend_recipe:
  "origin_of (extend ps OriginRecipe xs) q = (if q \<in> named ps then Some OriginRecipe else origin_of xs q)"
  by (induction ps arbitrary: xs) (auto simp: extend_simps named_simps origin_add_row)

lemma origin_extend_default:
  "origin_of (extend ps OriginDefault xs) q =
     (if q \<in> named ps \<and> origin_of xs q = None then Some OriginDefault else origin_of xs q)"
  by (induction ps arbitrary: xs) (auto simp: extend_simps named_simps origin_add_row)

lemma excludes_paths: "excludes_path xs p \<longleftrightarrow> (\<exists>q \<in> ex_path ` set xs. prefix q p)"
  by (auto simp: excludes_path_def list_ex_iff)

lemma excludes_keep_row:
  "excludes_path (keep_row p xs) q \<longleftrightarrow> (\<exists>r \<in> ex_path ` set xs - {p}. prefix r q)"
  by (auto simp: excludes_paths keep_row_def)

text \<open>The default list leaves out what the table drops, and a recipe adds to it.\<close>

lemma dropped_rows:
  "named (map (\<lambda>r. map Normal (segments (row_path r))) (filter (\<lambda>r. \<not> row_keep r) ROWS))
    = {segments (row_path r) | r. r \<in> set ROWS \<and> \<not> row_keep r}"
proof -
  have parts: "normal_parts (map Normal q) = Some q" for q by (induction q) auto
  have "\<forall>r \<in> set ROWS. segments (row_path r) \<noteq> []"
    by (simp add: ROWS_def kept_def dropped_def dropped_everywhere_def segments_def)
  then have "normalise (map Normal (segments (row_path r))) = Some (segments (row_path r))" if "r \<in> set ROWS" for r
    using that by (auto simp: normalise_def parts split: list.splits)
  then show ?thesis by (auto simp: named_def)
qed

lemma default_paths: "ex_path ` set default_list = {segments (row_path r) | r. r \<in> set ROWS \<and> \<not> row_keep r}"
  by (simp add: default_list_def paths_extend dropped_rows)

lemma with_recipe_distinct: "distinct (map ex_path (with_recipe ps))"
  by (simp add: with_recipe_def default_list_def distinct_extend)

lemma with_recipe_origin:
  "origin_of (with_recipe ps) q =
     (if q \<in> named ps then Some OriginRecipe
      else if q \<in> {segments (row_path r) | r. r \<in> set ROWS \<and> \<not> row_keep r} then Some OriginDefault else None)"
proof -
  have "origin_of ([] :: excludes) q = None" by (simp add: origin_of_def)
  then show ?thesis
    unfolding with_recipe_def default_list_def origin_extend_recipe origin_extend_default dropped_rows
    by (auto split: if_splits)
qed

lemma with_recipe_excludes:
  "excludes_path (with_recipe ps) p \<longleftrightarrow>
     (\<exists>r \<in> set ROWS. \<not> row_keep r \<and> prefix (segments (row_path r)) p) \<or> (\<exists>q \<in> named ps. prefix q p)"
  by (auto simp: excludes_paths with_recipe_def paths_extend default_paths)

subsection \<open>The gate\<close>

text \<open>Git is asked two things of the commit a source is at: whether there is one, and which entries of
  its tree some literal pathspecs name. A path that is not UTF-8 has no pathspec.\<close>

record commit_tree =
  rev_known :: "error + bool"
  ls_tree :: "string list \<Rightarrow> error + path list"

record yielded =
  yd_path :: path
  yd_reason :: string

definition LITERAL :: string where "LITERAL = '':(literal)''"

definition pathspec :: "path \<Rightarrow> string" where
  "pathspec p = LITERAL @ join ''/'' p"

definition yielded_note :: "yielded \<Rightarrow> string" where
  "yielded_note y = join ''/'' (yd_path y) @ '' is excluded by default ('' @ yd_reason y
     @ ''), but the commit tracks it, so the copy keeps it''"

fun pathspecs :: "(path \<Rightarrow> bool) \<Rightarrow> excludes \<Rightarrow> error + string list" where
  "pathspecs utf8 [] = Inr []"
| "pathspecs utf8 (x # xs) =
     (if \<not> utf8 (ex_path x) then Inl (InvalidValue ''excluded path'' (join ''/'' (ex_path x)))
      else case pathspecs utf8 xs of Inl e \<Rightarrow> Inl e | Inr ts \<Rightarrow> Inr (pathspec (ex_path x) # ts))"

definition tracked_rows :: "(path \<Rightarrow> bool) \<Rightarrow> commit_tree \<Rightarrow> excludes \<Rightarrow> error + excludes" where
  "tracked_rows utf8 g xs =
     (if xs = [] then Inr []
      else case rev_known g of
        Inl e \<Rightarrow> Inl e
      | Inr False \<Rightarrow> Inr []
      | Inr True \<Rightarrow>
          (case pathspecs utf8 xs of
             Inl e \<Rightarrow> Inl e
           | Inr specs \<Rightarrow>
               (case ls_tree g specs of
                  Inl e \<Rightarrow> Inl e
                | Inr entries \<Rightarrow> Inr (filter (\<lambda>x. list_ex (prefix (ex_path x)) entries) xs))))"

definition enforce ::
  "(path \<Rightarrow> bool) \<Rightarrow> (path \<Rightarrow> commit_tree option) \<Rightarrow> path \<Rightarrow> excludes \<Rightarrow> (error + yielded list) \<times> excludes" where
  "enforce utf8 git source xs =
     (case git source of
        None \<Rightarrow> (Inr [], xs)
      | Some g \<Rightarrow>
          (case tracked_rows utf8 g xs of
             Inl e \<Rightarrow> (Inl e, xs)
           | Inr rows \<Rightarrow>
               (let asked = map ex_path (filter (\<lambda>x. ex_origin x = OriginRecipe) rows)
                in if asked \<noteq> [] then (Inl (ExcludesTrackedPath source asked), xs)
                   else fold (\<lambda>x (yielded, ys).
                     (map_sum id (\<lambda>l. l @ [\<lparr>yd_path = ex_path x,
                        yd_reason = (case reason_dropped (ex_path x) of Some why \<Rightarrow> why
                          | None \<Rightarrow> ''a default row of the exclusion table'')\<rparr>]) yielded,
                      keep_row (ex_path x) ys)) rows (Inr [], xs))))"

text \<open>What the gate relies on in Git: a commit is what is tracked, and \<open>ls-tree\<close> answers about a literal
  pathspec with an entry at or under it exactly when something tracked is.\<close>

definition tells :: "commit_tree option \<Rightarrow> path set \<Rightarrow> bool" where
  "tells g held \<longleftrightarrow> (case g of
     None \<Rightarrow> held = {}
   | Some c \<Rightarrow> (rev_known c = Inr False \<longrightarrow> held = {})
      \<and> (\<forall>ps entries p. ls_tree c (map pathspec ps) = Inr entries \<and> p \<in> set ps
           \<longrightarrow> ((\<exists>e \<in> set entries. prefix p e) \<longleftrightarrow> (\<exists>q \<in> held. prefix p q))))"

lemma pathspecs_Inr: "pathspecs utf8 xs = Inr ts \<Longrightarrow> ts = map (\<lambda>x. pathspec (ex_path x)) xs"
  by (induction xs arbitrary: ts) (auto split: if_splits sum.splits)

lemma tracked_rows_Inr:
  assumes "tells (Some g) held" and "tracked_rows utf8 g xs = Inr rows"
  shows "rows = filter (\<lambda>x. \<exists>q \<in> held. prefix (ex_path x) q) xs"
proof -
  have filt: "filter (\<lambda>x. list_ex (prefix (ex_path x)) entries) xs = filter (\<lambda>x. \<exists>q \<in> held. prefix (ex_path x) q) xs"
    if "ls_tree g (map (\<lambda>x. pathspec (ex_path x)) xs) = Inr entries" for entries
  proof (rule filter_cong [OF refl])
    fix x assume "x \<in> set xs"
    then have "ls_tree g (map pathspec (map ex_path xs)) = Inr entries \<and> ex_path x \<in> set (map ex_path xs)"
      using that by (simp add: comp_def)
    then show "list_ex (prefix (ex_path x)) entries = (\<exists>q \<in> held. prefix (ex_path x) q)"
      using assms(1) by (simp only: tells_def option.case list_ex_iff)
  qed
  show ?thesis
    using assms filt
    by (auto simp: tracked_rows_def tells_def dest!: pathspecs_Inr split: if_splits sum.splits bool.splits)
qed

lemma fold_yield:
  "fold (\<lambda>x (yielded, ys). (map_sum id (\<lambda>l. l @ [f x]) yielded, keep_row (ex_path x) ys)) rows (Inr l, xs)
    = (Inr (l @ map f rows), filter (\<lambda>y. ex_path y \<notin> ex_path ` set rows) xs)"
  by (induction rows arbitrary: l xs) (auto simp: keep_row_def intro!: filter_cong)

definition gate_rows :: "path set \<Rightarrow> excludes \<Rightarrow> excludes" where
  "gate_rows held xs = filter (\<lambda>x. \<exists>q \<in> held. prefix (ex_path x) q) xs"

lemma enforce_Inr:
  assumes "tells (git source) held" and "enforce utf8 git source xs = (Inr notes, ys)"
  shows "list_all (\<lambda>x. ex_origin x = OriginDefault) (gate_rows held xs)"
    and "map yd_path notes = map ex_path (gate_rows held xs)"
    and "ys = filter (\<lambda>y. ex_path y \<notin> ex_path ` set (gate_rows held xs)) xs"
proof -
  have d: "ex_origin x \<noteq> OriginRecipe \<longleftrightarrow> ex_origin x = OriginDefault" for x :: excluded
    by (cases "ex_origin x") auto
  have empty: "gate_rows held xs = []" if "git source = None"
    using assms(1) that by (simp add: tells_def gate_rows_def)
  show "list_all (\<lambda>x. ex_origin x = OriginDefault) (gate_rows held xs)"
    "map yd_path notes = map ex_path (gate_rows held xs)"
    "ys = filter (\<lambda>y. ex_path y \<notin> ex_path ` set (gate_rows held xs)) xs"
    using assms empty tracked_rows_Inr
    by (auto simp: enforce_def fold_yield list_all_iff filter_empty_conv d Let_def comp_def
        gate_rows_def [symmetric] split: option.splits sum.splits if_splits)
qed

text \<open>
  C33. A copy never drops a tracked path. Whatever the list and whatever the source tracks, the list the
  gate hands on leaves out nothing a commit holds and loses no other row; each row that yielded is
  a default one and is reported once, in order; and a row the project wrote that would drop
  something tracked is never handed on.
\<close>

theorem no_list_drops_a_tracked_path:
  assumes "tells (git source) held" and "enforce utf8 git source xs = (Inr notes, ys)"
  shows "(\<forall>q \<in> held. \<not> excludes_path ys q)
    \<and> (\<forall>q. excludes_path ys q \<longleftrightarrow> (\<exists>x \<in> set xs. prefix (ex_path x) q \<and> \<not> (\<exists>t \<in> held. prefix (ex_path x) t)))
    \<and> map yd_path notes = map ex_path (filter (\<lambda>x. \<exists>t \<in> held. prefix (ex_path x) t) xs)
    \<and> (\<forall>x \<in> set xs. ex_origin x = OriginRecipe \<longrightarrow> \<not> (\<exists>t \<in> held. prefix (ex_path x) t))"
proof -
  note parts = enforce_Inr [OF assms]
  have "x \<in> set ys \<longleftrightarrow> x \<in> set xs \<and> \<not> (\<exists>t \<in> held. prefix (ex_path x) t)" for x
    by (auto simp: parts(3) gate_rows_def)
  then have rest: "excludes_path ys q \<longleftrightarrow> (\<exists>x \<in> set xs. prefix (ex_path x) q \<and> \<not> (\<exists>t \<in> held. prefix (ex_path x) t))"
    for q by (auto simp: excludes_paths)
  have "\<forall>x \<in> set xs. ex_origin x = OriginRecipe \<longrightarrow> \<not> (\<exists>t \<in> held. prefix (ex_path x) t)"
    using parts(1) by (auto simp: list_all_iff gate_rows_def)
  with rest parts(2) show ?thesis by (auto simp: gate_rows_def)
qed

lemma gate_refuses:
  assumes "tells (git source) held" and "enforce utf8 git source xs = (Inl e, ys)"
  shows "ys = xs \<and> (e = ExcludesTrackedPath source
        (map ex_path (filter (\<lambda>x. ex_origin x = OriginRecipe) (gate_rows held xs)))
      \<or> (\<exists>g. git source = Some g \<and> tracked_rows utf8 g xs = Inl e))"
  using assms tracked_rows_Inr [of _ held utf8 xs]
  by (fastforce simp: enforce_def fold_yield Let_def gate_rows_def split: option.splits sum.splits if_splits)

text \<open>A checkout that commits its \<open>coverage\<close> directory.\<close>

definition ex_commit :: commit_tree where
  "ex_commit = \<lparr>rev_known = Inr True,
     ls_tree = (\<lambda>specs. Inr (filter (\<lambda>p. pathspec p \<in> set specs) (prefixes [''coverage'', ''base''])))\<rparr>"

lemma ex_tells: "tells (Some ex_commit) {[''coverage'', ''base'']}"
  by (auto simp: tells_def ex_commit_def simp del: prefixes.simps dest: prefix_order.trans)

lemma ex_gate:
  "enforce (\<lambda>_. True) (\<lambda>_. Some ex_commit) [''src''] (with_recipe [[Normal ''var'']])
    = (Inr [\<lparr>yd_path = [''coverage''], yd_reason = ''output of a run that did not happen here''\<rparr>],
       filter (\<lambda>x. ex_path x \<noteq> [''coverage'']) (with_recipe [[Normal ''var'']]))"
  by code_simp

theorem no_list_drops_a_tracked_path_witness:
  "\<not> excludes_path (snd (enforce (\<lambda>_. True) (\<lambda>_. Some ex_commit) [''src''] (with_recipe [[Normal ''var'']])))
      [''coverage'', ''base'']
    \<and> excludes_path (with_recipe [[Normal ''var'']]) [''coverage'', ''base'']"
proof -
  have "excludes_path (with_recipe [[Normal ''var'']]) [''coverage'', ''base'']" by code_simp
  then show ?thesis
    using no_list_drops_a_tracked_path [OF ex_tells ex_gate] by (simp only: ex_gate snd_conv) blast
qed

end
