(* ===== verification/HomeTree.thy ===== *)
theory HomeTree
  imports Prelude "HOL-Library.Word" "HOL-Library.AList" "HOL-Library.Sublist"
begin

unbundle bit_operations_syntax

text \<open>
  The tree of a home as the platform shows it, with \<open>workspace/remove.rs\<close> and \<open>doctor/size.rs\<close>: how a
  directory is removed that denies it, and how big one is. A path is the names below the
  home; a symbolic link is an entry and never a way into what it points at. A mode is read for
  the account Nodal runs as: its owner bits where the entry is that account's own, its
  bits for others elsewhere. Removing a name leaves the times of its folder as they are here.
\<close>

subsection \<open>Entries\<close>

datatype leaf = RegularFile | SymLink string | Special

record meta =
  me_mode :: "32 word"
  me_mine :: bool
  me_len :: "64 word"
  me_modified :: timestamp
  me_accessed :: timestamp
  me_dev :: "64 word"
  me_ino :: "64 word"
  me_nlink :: "64 word"

datatype item = Leaf leaf meta | Folder meta "(string \<times> item) list"

primrec is_folder :: "item \<Rightarrow> bool" where
  "is_folder (Leaf l m) = False"
| "is_folder (Folder m es) = True"

primrec is_link :: "item \<Rightarrow> bool" where
  "is_link (Leaf l m) = (case l of SymLink _ \<Rightarrow> True | _ \<Rightarrow> False)"
| "is_link (Folder m es) = False"

primrec meta_of :: "item \<Rightarrow> meta" where
  "meta_of (Leaf l m) = m"
| "meta_of (Folder m es) = m"

definition allows :: "nat \<Rightarrow> meta \<Rightarrow> bool" where
  "allows n m = bit (me_mode m) (if me_mine m then n + 6 else n)"

abbreviation readable :: "meta \<Rightarrow> bool" where "readable \<equiv> allows 2"
abbreviation writable :: "meta \<Rightarrow> bool" where "writable \<equiv> allows 1"
abbreviation enterable :: "meta \<Rightarrow> bool" where "enterable \<equiv> allows 0"

fun item_at :: "path \<Rightarrow> item \<Rightarrow> item option" where
  "item_at [] t = Some t"
| "item_at (n # ns) (Leaf l m) = None"
| "item_at (n # ns) (Folder m es) = (case map_of es n of None \<Rightarrow> None | Some c \<Rightarrow> item_at ns c)"

text \<open>\<open>symlink_metadata\<close> of a path: it needs leave to enter every folder it crosses.\<close>

datatype seen = There item | Absent | Denied

fun lstat :: "path \<Rightarrow> item \<Rightarrow> seen" where
  "lstat [] t = There t"
| "lstat (n # ns) (Leaf l m) = Absent"
| "lstat (n # ns) (Folder m es) =
     (if \<not> enterable m then Denied else case map_of es n of None \<Rightarrow> Absent | Some c \<Rightarrow> lstat ns c)"

subsection \<open>Removing a directory\<close>

text \<open>
  \<open>std::fs::remove_dir_all\<close>: it opens the folder, clears it entry by entry and stops at the first entry
  it is refused, so a refusal leaves part of the tree. \<open>None\<close> is an entry that has gone.
\<close>

lemma sizes_below: "(\<Sum>x\<leftarrow>es. size (snd x)) < Suc (sum_list (map (size_prod (\<lambda>_. 0) size) es))"
  by (induction es) auto

function clear_item :: "meta \<Rightarrow> item \<Rightarrow> item option"
  and clear_list :: "meta \<Rightarrow> (string \<times> item) list \<Rightarrow> (string \<times> item) list option" where
  "clear_item pm (Leaf l m) = (if writable pm \<and> enterable pm then None else Some (Leaf l m))"
| "clear_item pm (Folder m es) =
     (if \<not> (enterable pm \<and> readable m) then Some (Folder m es)
      else case clear_list m es of
        Some left \<Rightarrow> Some (Folder m left)
      | None \<Rightarrow> if writable pm then None else Some (Folder m []))"
| "clear_list m [] = None"
| "clear_list m ((n, c) # es) =
     (case clear_item m c of None \<Rightarrow> clear_list m es | Some left \<Rightarrow> Some ((n, left) # es))"
  by pat_completeness auto

termination
  by (relation "measure (case_sum (size \<circ> snd) (size_list (size \<circ> snd) \<circ> snd))")
     (auto simp: size_list_conv_sum_list sum_list_Suc comp_def sizes_below)

datatype removal = Gone | NotFound | Refused string

fun remove_dir_all :: "path \<Rightarrow> item \<Rightarrow> removal \<times> item" where
  "remove_dir_all [] t = (Refused ''the home itself'', t)"
| "remove_dir_all (n # ns) (Leaf l m) = (Refused ''not a directory'', Leaf l m)"
| "remove_dir_all (n # ns) (Folder m es) =
     (if \<not> enterable m then (Refused ''permission denied'', Folder m es)
      else case map_of es n of
        None \<Rightarrow> (NotFound, Folder m es)
      | Some c \<Rightarrow>
          if ns \<noteq> [] then (case remove_dir_all ns c of (r, c') \<Rightarrow> (r, Folder m (AList.update n c' es)))
          else if \<not> is_folder c \<and> \<not> is_link c then (Refused ''not a directory'', Folder m es)
          else case clear_item m c of
            None \<Rightarrow> (Gone, Folder m (AList.delete n es))
          | Some left \<Rightarrow> (Refused ''permission denied'', Folder m (AList.update n left es)))"

definition OWNER :: "32 word" where "OWNER = 0x1C0"

text \<open>\<open>unlock\<close>: every folder whose mode this account may change is opened to its owner.\<close>

definition opened :: "meta \<Rightarrow> meta" where
  "opened m = (if me_mode m AND OWNER \<noteq> OWNER \<and> me_mine m then m\<lparr>me_mode := me_mode m OR OWNER\<rparr> else m)"

primrec unlock_item :: "item \<Rightarrow> item" where
  "unlock_item (Leaf l m) = Leaf l m"
| "unlock_item (Folder m es) =
     Folder (opened m)
       (if \<not> (readable (opened m) \<and> enterable (opened m)) then es else map (map_prod id unlock_item) es)"

fun unlock :: "path \<Rightarrow> item \<Rightarrow> item" where
  "unlock [] t = unlock_item t"
| "unlock (n # ns) (Leaf l m) = Leaf l m"
| "unlock (n # ns) (Folder m es) =
     (if \<not> enterable m then Folder m es
      else case map_of es n of None \<Rightarrow> Folder m es | Some c \<Rightarrow> Folder m (AList.update n (unlock ns c) es))"

text \<open>\<open>remove::tree\<close>; \<open>home\<close> is where the home is, which its error names.\<close>

definition remove_tree :: "path \<Rightarrow> path \<Rightarrow> item \<Rightarrow> error option \<times> item" where
  "remove_tree home p t =
     (case remove_dir_all p t of
        (Gone, t') \<Rightarrow> (None, t')
      | (NotFound, t') \<Rightarrow> (None, t')
      | (Refused _, t') \<Rightarrow>
          (case remove_dir_all p (unlock p t') of
             (Gone, t'') \<Rightarrow> (None, t'')
           | (NotFound, t'') \<Rightarrow> (None, t'')
           | (Refused why, t'') \<Rightarrow> (Some (Io (home @ p) why), t'')))"

definition remove_plain :: "path \<Rightarrow> path \<Rightarrow> item \<Rightarrow> error option \<times> item" where
  "remove_plain home p t =
     (case remove_dir_all p t of
        (Gone, t') \<Rightarrow> (None, t')
      | (NotFound, t') \<Rightarrow> (Some (Io (home @ p) ''not found''), t')
      | (Refused why, t') \<Rightarrow> (Some (Io (home @ p) why), t'))"

subsection \<open>What a removal keeps\<close>

text \<open>What there is at a path, without what is in it.\<close>

primrec face :: "item \<Rightarrow> leaf option \<times> meta" where
  "face (Leaf l m) = (Some l, m)"
| "face (Folder m es) = (None, m)"

definition seen_at :: "path \<Rightarrow> item \<Rightarrow> (leaf option \<times> meta) option" where
  "seen_at q t = map_option face (item_at q t)"

lemma seen_at_simps [simp]:
  "seen_at [] t = Some (face t)"
  "seen_at (n # ns) (Leaf l m) = None"
  "seen_at (n # ns) (Folder m es) = Option.bind (map_of es n) (seen_at ns)"
  by (auto simp: seen_at_def split: option.splits)

lemma seen_at_None: "seen_at q t = None \<longleftrightarrow> item_at q t = None"
  by (simp add: seen_at_def)

lemma item_at_Folder: "item_at (n # ns) (Folder m es) = Option.bind (map_of es n) (item_at ns)"
  by (auto split: option.splits)

lemma remove_dir_all_other:
  "\<not> prefix p q \<Longrightarrow> seen_at q (snd (remove_dir_all p t)) = seen_at q t"
proof (induction p t arbitrary: q rule: remove_dir_all.induct)
  case (3 n ns m es)
  show ?case
  proof (cases q)
    case (Cons a q')
    then show ?thesis
      using 3 by (auto simp: AList.update_conv' AList.delete_conv' split: option.splits prod.splits)
         (metis snd_conv)+
  qed (use 3 in \<open>auto split: option.splits prod.splits\<close>)
qed simp_all

lemma unlock_other: "\<not> prefix p q \<Longrightarrow> seen_at q (unlock p t) = seen_at q t"
proof (induction p t arbitrary: q rule: unlock.induct)
  case (3 n ns m es)
  show ?case
  proof (cases q)
    case (Cons a q')
    then show ?thesis using 3 by (auto simp: AList.update_conv' split: option.splits)
  qed (use 3 in \<open>auto split: option.splits\<close>)
qed simp_all

text \<open>A folder names each of its entries once.\<close>

declare map_of_eq_Some_iff [simp del] Some_eq_map_of_iff [simp del]

primrec wf_item :: "item \<Rightarrow> bool" where
  "wf_item (Leaf l m) = True"
| "wf_item (Folder m es) = (distinct (map fst es) \<and> list_all snd (map (map_prod id wf_item) es))"

lemma wf_Folder:
  "wf_item (Folder m es) \<longleftrightarrow> distinct (map fst es) \<and> (\<forall>n c. map_of es n = Some c \<longrightarrow> wf_item c)"
proof -
  have "wf_item (Folder m es) \<longleftrightarrow> distinct (map fst es) \<and> (\<forall>n c. (n, c) \<in> set es \<longrightarrow> wf_item c)"
    by (fastforce simp: list_all_iff)
  then show ?thesis by (metis map_of_SomeD map_of_is_SomeI)
qed

lemma wf_Cons:
  "wf_item (Folder m ((n, c) # es)) \<longleftrightarrow> n \<notin> fst ` set es \<and> wf_item c \<and> wf_item (Folder m es)"
  by auto

declare wf_item.simps(2) [simp del]

lemma wf_child: "wf_item (Folder m es) \<Longrightarrow> map_of es n = Some c \<Longrightarrow> wf_item c"
  by (simp add: wf_Folder)

lemma wf_update: "wf_item (Folder m es) \<Longrightarrow> wf_item c \<Longrightarrow> wf_item (Folder m' (AList.update n c es))"
  by (auto simp: wf_Folder distinct_update AList.update_conv' split: if_splits)

lemma wf_delete: "wf_item (Folder m es) \<Longrightarrow> wf_item (Folder m' (AList.delete n es))"
  by (auto simp: wf_Folder distinct_delete AList.delete_conv' split: if_splits)

text \<open>\<open>t'\<close> is \<open>t\<close> with less in it: whatever it holds was there.\<close>

definition within_item :: "item \<Rightarrow> item \<Rightarrow> bool" where
  "within_item t' t \<longleftrightarrow> wf_item t' \<and> (\<forall>q. item_at q t = None \<longrightarrow> item_at q t' = None)"

lemma within_refl: "wf_item t \<Longrightarrow> within_item t t"
  by (simp add: within_item_def)

lemma within_trans: "within_item a b \<Longrightarrow> within_item b c \<Longrightarrow> within_item a c"
  by (simp add: within_item_def)

lemma within_Folder:
  assumes "wf_item (Folder m' es')"
    and "\<And>n c'. map_of es' n = Some c' \<Longrightarrow> \<exists>c. map_of es n = Some c \<and> within_item c' c"
  shows "within_item (Folder m' es') (Folder m es)"
  unfolding within_item_def
proof (intro conjI allI impI)
  fix q assume q: "item_at q (Folder m es) = None"
  show "item_at q (Folder m' es') = None"
  proof (cases q)
    case (Cons n ns)
    then show ?thesis
      using q assms(2) [of n] by (auto simp: within_item_def split: option.splits)
  qed (use q in simp)
qed (rule assms(1))

lemma cleared_within:
  "wf_item t \<Longrightarrow> clear_item pm t = Some left \<Longrightarrow> within_item left t"
  "wf_item (Folder m es) \<Longrightarrow> clear_list m es = Some rest \<Longrightarrow>
     set (map fst rest) \<subseteq> set (map fst es) \<and> within_item (Folder m rest) (Folder m es)"
proof (induction pm t and m es arbitrary: left and rest rule: clear_item_clear_list.induct)
  case (2 pm m es)
  show ?case
  proof (cases "clear_list m es")
    case None
    then show ?thesis using 2 by (auto intro!: within_Folder within_refl simp: wf_Folder split: if_splits)
  next
    case (Some l)
    then show ?thesis using 2 by (auto intro!: within_refl split: if_splits)
  qed
next
  case (4 m n c es)
  have wf: "wf_item c" "wf_item (Folder m es)" "n \<notin> fst ` set es" using 4(3) by (auto simp: wf_Cons)
  show ?case
  proof (cases "clear_item m c")
    case None
    with 4 wf have ih: "set (map fst rest) \<subseteq> set (map fst es)" "within_item (Folder m rest) (Folder m es)" by auto
    have "map_of es n = None" using wf(3) by (simp add: map_of_eq_None_iff)
    then have "item_at q (Folder m ((n, c) # es)) = None \<Longrightarrow> item_at q (Folder m es) = None" for q
      by (cases q) (auto split: option.splits if_splits)
    with ih show ?thesis by (auto simp: within_item_def)
  next
    case (Some l)
    with 4 wf have "within_item l c" "rest = (n, l) # es" by auto
    moreover have "wf_item (Folder m ((n, l) # es))"
      using \<open>within_item l c\<close> wf by (simp add: wf_Cons within_item_def)
    ultimately show ?thesis
      using wf by (auto intro!: within_Folder within_refl dest: wf_child split: if_splits)
  qed
qed (auto intro: within_refl split: if_splits)

lemma unlocked_within: "wf_item t \<Longrightarrow> within_item (unlock_item t) t"
proof (induction t)
  case (Folder m es)
  have at: "map_of (map (map_prod id unlock_item) es) n = map_option unlock_item (map_of es n)" for n
    by (induction es) auto
  have each: "within_item (unlock_item c) c" if "map_of es n = Some c" for n c
    using Folder.IH [of "(n, c)" c] map_of_SomeD [OF that] wf_child [OF Folder.prems that] by (simp add: snds.intros)
  show ?case
  proof (cases "readable (opened m) \<and> enterable (opened m)")
    case True
    have "wf_item (Folder (opened m) (map (map_prod id unlock_item) es))"
      using each Folder.prems by (auto simp: wf_Folder at within_item_def)
    then have "within_item (Folder (opened m) (map (map_prod id unlock_item) es)) (Folder m es)"
      by (rule within_Folder) (auto simp: at each)
    with True show ?thesis by simp
  next
    case False
    then show ?thesis
      using Folder.prems by (auto simp: wf_Folder intro!: within_Folder within_refl)
  qed
qed (simp add: within_refl)

lemma update_within:
  assumes "wf_item (Folder m es)" and "map_of es n = Some c" and "within_item c' c"
  shows "within_item (Folder m (AList.update n c' es)) (Folder m es)"
proof (rule within_Folder)
  show "wf_item (Folder m (AList.update n c' es))"
    using assms by (intro wf_update) (auto simp: within_item_def)
  show "\<exists>c. map_of es k = Some c \<and> within_item d c" if "map_of (AList.update n c' es) k = Some d" for k d
    using that assms by (auto simp: AList.update_conv' wf_Folder within_refl split: if_splits)
qed

lemma delete_within:
  assumes "wf_item (Folder m es)"
  shows "within_item (Folder m (AList.delete n es)) (Folder m es)"
proof (rule within_Folder)
  show "wf_item (Folder m (AList.delete n es))" using assms by (rule wf_delete)
  show "\<exists>c. map_of es k = Some c \<and> within_item d c" if "map_of (AList.delete n es) k = Some d" for k d
    using that assms by (auto simp: AList.delete_conv' wf_Folder within_refl split: if_splits)
qed

lemma remove_dir_all_within: "wf_item t \<Longrightarrow> within_item (snd (remove_dir_all p t)) t"
proof (induction p t rule: remove_dir_all.induct)
  case (3 n ns m es)
  show ?case
  proof (cases "map_of es n")
    case (Some c)
    note c = wf_child [OF 3(2) Some]
    show ?thesis
      using 3 Some c
      by (auto simp: within_refl update_within delete_within cleared_within split: option.splits prod.splits)
  qed (use 3 in \<open>simp add: within_refl\<close>)
qed (simp_all add: within_refl)

lemma unlock_within: "wf_item t \<Longrightarrow> within_item (unlock p t) t"
proof (induction p t rule: unlock.induct)
  case (3 n ns m es)
  then show ?case
    by (auto simp: within_refl update_within wf_child split: option.splits)
qed (simp_all add: within_refl unlocked_within)

lemma remove_dir_all_gone:
  "fst (remove_dir_all p t) \<in> {Gone, NotFound} \<Longrightarrow> item_at p (snd (remove_dir_all p t)) = None"
  by (induction p t rule: remove_dir_all.induct)
     (auto simp: AList.update_conv' AList.delete_conv' split: option.splits prod.splits if_splits)

subsection \<open>The contract of a removal\<close>

text \<open>
  What everything that removes from a home rests on: a removal touches nothing beside the path it is
  given, makes nothing, and where it says it succeeded the path names nothing any more.
\<close>

locale remover =
  fixes rm :: "path \<Rightarrow> item \<Rightarrow> error option \<times> item"
  assumes other: "\<not> prefix p q \<Longrightarrow> seen_at q (snd (rm p t)) = seen_at q t"
    and less: "wf_item t \<Longrightarrow> within_item (snd (rm p t)) t"
    and gone: "fst (rm p t) = None \<Longrightarrow> item_at p (snd (rm p t)) = None"
begin

lemma gone_stays: "wf_item t \<Longrightarrow> item_at q t = None \<Longrightarrow> item_at q (snd (rm p t)) = None"
  using less by (simp add: within_item_def)

lemma wf: "wf_item t \<Longrightarrow> wf_item (snd (rm p t))"
  using less by (simp add: within_item_def)

end

lemma remove_plain_parts:
  "snd (remove_plain home p t) = snd (remove_dir_all p t)"
  "fst (remove_plain home p t) = None \<longleftrightarrow> fst (remove_dir_all p t) = Gone"
  by (auto simp: remove_plain_def split: prod.splits removal.splits)

lemma remove_tree_parts:
  "snd (remove_tree home p t) =
     (if fst (remove_dir_all p t) \<in> {Gone, NotFound} then snd (remove_dir_all p t)
      else snd (remove_dir_all p (unlock p (snd (remove_dir_all p t)))))"
  "fst (remove_tree home p t) = None \<longleftrightarrow> fst (remove_dir_all p t) \<in> {Gone, NotFound}
     \<or> fst (remove_dir_all p (unlock p (snd (remove_dir_all p t)))) \<in> {Gone, NotFound}"
  by (auto simp: remove_tree_def split: prod.splits removal.splits)

interpretation plain: remover "remove_plain home" for home
  by unfold_locales (simp_all add: remove_plain_parts remove_dir_all_other remove_dir_all_within remove_dir_all_gone)

interpretation trees: remover "remove_tree home" for home
proof
  show "seen_at q (snd (remove_tree home p t)) = seen_at q t" if "\<not> prefix p q" for p q t
    by (simp add: remove_tree_parts remove_dir_all_other unlock_other that)
  show "within_item (snd (remove_tree home p t)) t" if "wf_item t" for p t
    using remove_dir_all_within [OF that, of p] unlock_within remove_dir_all_within
    by (auto simp: remove_tree_parts) (meson within_item_def within_trans)
  show "item_at p (snd (remove_tree home p t)) = None" if "fst (remove_tree home p t) = None" for p t
    using that remove_dir_all_gone by (auto simp: remove_tree_parts)
qed

text \<open>Removals one after another, each of what the one before it left.\<close>

fun removals :: "(path \<Rightarrow> item \<Rightarrow> error option \<times> item) \<Rightarrow> path list \<Rightarrow> item \<Rightarrow> (path \<times> error option) list \<times> item" where
  "removals rm [] t = ([], t)"
| "removals rm (p # ps) t =
     (case rm p t of (e, t') \<Rightarrow> (case removals rm ps t' of (told, t'') \<Rightarrow> ((p, e) # told, t'')))"

lemma removals_Cons:
  "fst (removals rm (p # ps) t) = (p, fst (rm p t)) # fst (removals rm ps (snd (rm p t)))"
  "snd (removals rm (p # ps) t) = snd (removals rm ps (snd (rm p t)))"
  by (simp_all split: prod.splits)

declare removals.simps(2) [simp del] removals_Cons [simp]

context remover
begin

lemma told_paths: "map fst (fst (removals rm ps t)) = ps"
  by (induction ps arbitrary: t) auto

lemma others_kept: "(\<And>p. p \<in> set ps \<Longrightarrow> \<not> prefix p q) \<Longrightarrow> seen_at q (snd (removals rm ps t)) = seen_at q t"
  by (induction ps arbitrary: t) (auto simp: other)

lemma removals_wf: "wf_item t \<Longrightarrow> within_item (snd (removals rm ps t)) t"
  by (induction ps arbitrary: t) (auto intro: within_refl within_trans less wf)

lemma all_gone: "wf_item t \<Longrightarrow> (p, None) \<in> set (fst (removals rm ps t)) \<Longrightarrow> item_at p (snd (removals rm ps t)) = None"
proof (induction ps arbitrary: t)
  case (Cons a ps)
  note t' = wf [OF Cons.prems(1), of a]
  have "item_at p (snd (removals rm ps (snd (rm a t)))) = None" if "a = p" "fst (rm a t) = None"
    using gone [of a t] that removals_wf [OF t'] by (simp add: within_item_def)
  then show ?case using Cons.prems Cons.IH [OF t'] by auto
qed simp

end

subsection \<open>When a removal succeeds\<close>

primrec mine_item :: "item \<Rightarrow> bool" where
  "mine_item (Leaf l m) = True"
| "mine_item (Folder m es) = (me_mine m \<and> list_all snd (map (map_prod id mine_item) es))"

primrec open_item :: "item \<Rightarrow> bool" where
  "open_item (Leaf l m) = True"
| "open_item (Folder m es) =
     (readable m \<and> writable m \<and> enterable m \<and> list_all snd (map (map_prod id open_item) es))"

lemma mine_Folder: "mine_item (Folder m es) \<longleftrightarrow> me_mine m \<and> (\<forall>x \<in> set es. mine_item (snd x))"
  by (auto simp: list_all_iff)

lemma open_Folder:
  "open_item (Folder m es) \<longleftrightarrow> readable m \<and> writable m \<and> enterable m \<and> (\<forall>x \<in> set es. open_item (snd x))"
  by (auto simp: list_all_iff)

declare mine_item.simps(2) [simp del] mine_Folder [simp] open_item.simps(2) [simp del] open_Folder [simp]

lemma bit_OWNER: "bit OWNER n \<longleftrightarrow> n \<in> {6, 7, 8}"
proof -
  have "OWNER = push_bit 6 (mask 3)" by (simp add: OWNER_def push_bit_eq_mult mask_eq_exp_minus_1)
  moreover have "bit (push_bit 6 (mask 3) :: 32 word) n \<longleftrightarrow> n \<in> {6, 7, 8}"
    by (auto simp: bit_push_bit_iff bit_mask_iff)
  ultimately show ?thesis by metis
qed

lemma opened_allows:
  assumes "me_mine m" and "n < 3"
  shows "allows n (opened m)"
proof -
  have b: "bit OWNER (n + 6)" using assms(2) by (auto simp: bit_OWNER)
  have "bit (me_mode m) (n + 6)" if "me_mode m AND OWNER = OWNER"
    using b that by (metis bit_and_iff)
  then show ?thesis using assms(1) b by (auto simp: opened_def allows_def bit_or_iff)
qed

lemma unlocked_open: "mine_item t \<Longrightarrow> open_item (unlock_item t)"
proof (induction t)
  case (Folder m es)
  then show ?case by (auto simp: opened_allows snds.intros)
qed simp

lemma clear_open:
  "open_item t \<Longrightarrow> writable pm \<Longrightarrow> enterable pm \<Longrightarrow> clear_item pm t = None"
  "writable m \<Longrightarrow> enterable m \<Longrightarrow> \<forall>x \<in> set es. open_item (snd x) \<Longrightarrow> clear_list m es = None"
  by (induction pm t and m es rule: clear_item_clear_list.induct) auto

lemma cleared_mine:
  "mine_item t \<Longrightarrow> clear_item pm t = Some left \<Longrightarrow> mine_item left \<and> is_folder left = is_folder t"
  "\<forall>x \<in> set es. mine_item (snd x) \<Longrightarrow> clear_list m es = Some rest \<Longrightarrow> \<forall>x \<in> set rest. mine_item (snd x)"
  by (induction pm t and m es arbitrary: left and rest rule: clear_item_clear_list.induct)
     (auto split: if_splits option.splits)

text \<open>A folder this account owns whole, in a folder it may write, along folders it may enter.\<close>

fun may_remove :: "path \<Rightarrow> item \<Rightarrow> bool" where
  "may_remove [] t = False"
| "may_remove (n # ns) (Leaf l m) = False"
| "may_remove (n # ns) (Folder m es) = (enterable m \<and> (case map_of es n of
     None \<Rightarrow> True
   | Some c \<Rightarrow> if ns = [] then writable m \<and> is_folder c \<and> mine_item c else may_remove ns c))"

lemma may_remove_left:
  "may_remove p t \<Longrightarrow> fst (remove_dir_all p t) \<in> {Gone, NotFound} \<or> may_remove p (snd (remove_dir_all p t))"
  by (induction p t rule: remove_dir_all.induct)
     (auto simp: AList.update_conv' AList.delete_conv' dest: cleared_mine split: option.splits prod.splits if_splits)

lemma unlock_item_folder: "is_folder (unlock_item c) = is_folder c"
  by (cases c) auto

lemma may_remove_unlocked: "may_remove p t \<Longrightarrow> fst (remove_dir_all p (unlock p t)) \<in> {Gone, NotFound}"
  by (induction p t rule: may_remove.induct)
     (auto simp: AList.update_conv' unlock_item_folder clear_open unlocked_open split: option.splits prod.splits if_splits)

lemma remove_tree_succeeds: "may_remove p t \<Longrightarrow> fst (remove_tree home p t) = None"
  unfolding remove_tree_parts using may_remove_left may_remove_unlocked by blast

subsection \<open>How big a directory is\<close>

record bytes =
  by_apparent :: "64 word"
  by_complete :: bool
  by_unknown :: string

definition SHARED :: string where
  "SHARED = ''a home shares blocks with the base it was copied from, and no portable call says how many of these bytes are its own''"

definition bytes_of :: "64 word \<Rightarrow> bool \<Rightarrow> bytes" where
  "bytes_of n whole = \<lparr>by_apparent = n, by_complete = whole, by_unknown = SHARED\<rparr>"

record measured =
  ms_bytes :: "64 word"
  ms_entries :: "64 word"
  ms_newest :: "timestamp option"
  ms_complete :: bool

definition nothing_measured :: measured where
  "nothing_measured = \<lparr>ms_bytes = 0, ms_entries = 0, ms_newest = None, ms_complete = True\<rparr>"

definition count :: "item \<Rightarrow> measured \<Rightarrow> measured" where
  "count t b = b\<lparr>ms_entries := ms_entries b + 1,
     ms_bytes := (if is_folder t then ms_bytes b else ms_bytes b + me_len (meta_of t)),
     ms_newest := Some (case ms_newest b of
        Some newest \<Rightarrow> if newest \<ge> me_modified (meta_of t) then newest else me_modified (meta_of t)
      | None \<Rightarrow> me_modified (meta_of t))\<rparr>"

definition incomplete :: "measured \<Rightarrow> measured" where
  "incomplete b = b\<lparr>ms_complete := False\<rparr>"

text \<open>The entries of one folder: each counted, and each that is a folder put on the queue. The metadata of
  an entry needs leave to enter the folder.\<close>

definition read_one :: "meta \<Rightarrow> string \<times> item \<Rightarrow> measured \<times> item list \<Rightarrow> measured \<times> item list" where
  "read_one m e a = (case a of (b, queue) \<Rightarrow>
     if \<not> enterable m then (incomplete b, queue)
     else (count (snd e) b, if is_folder (snd e) then snd e # queue else queue))"

text \<open>The queue is a stack, its top first.\<close>

lemma queue_read: "snd (fold (read_one m) es (b, queue)) =
    rev (filter is_folder (if enterable m then map snd es else [])) @ queue"
  by (induction es arbitrary: b queue) (auto simp: read_one_def)

lemma sizes_queue:
  "size_list size (snd (fold (read_one m) es (b, queue))) < size_list size (Folder m es # queue)"
proof -
  have "sum_list (map (Suc \<circ> size) (filter is_folder (map snd es))) \<le> (\<Sum>x\<leftarrow>es. Suc (size (snd x)))"
    by (induction es) auto
  also have "\<dots> \<le> size_list (size_prod (\<lambda>_. 0) size) es" by (induction es) auto
  finally show ?thesis by (auto simp: queue_read size_list_conv_sum_list sum_list_Suc comp_def rev_map [symmetric])
qed

function measure_queue :: "measured \<Rightarrow> item list \<Rightarrow> measured" where
  "measure_queue b [] = b"
| "measure_queue b (Leaf l m # queue) = measure_queue b queue"
| "measure_queue b (Folder m es # queue) =
     (if \<not> readable m then measure_queue (incomplete b) queue
      else case fold (read_one m) es (b, queue) of (b', queue') \<Rightarrow> measure_queue b' queue')"
  by pat_completeness auto

termination
  by (relation "measure (size_list size \<circ> snd)") (use sizes_queue in \<open>auto simp: comp_def\<close>)

definition measure_at :: "path \<Rightarrow> item \<Rightarrow> measured" where
  "measure_at p t = (case lstat p t of
     There c \<Rightarrow> if \<not> is_folder c then count c nothing_measured else measure_queue nothing_measured [c]
   | _ \<Rightarrow> incomplete nothing_measured)"

text \<open>What a measure adds up, by the shape of the tree.\<close>

primrec held_bytes :: "item \<Rightarrow> 64 word" where
  "held_bytes (Leaf l m) = me_len m"
| "held_bytes (Folder m es) =
     (if \<not> (readable m \<and> enterable m) then 0 else sum_list (map snd (map (map_prod id held_bytes) es)))"

primrec held_entries :: "item \<Rightarrow> 64 word" where
  "held_entries (Leaf l m) = 0"
| "held_entries (Folder m es) =
     (if \<not> (readable m \<and> enterable m) then 0
      else sum_list (map (\<lambda>x. snd x + 1) (map (map_prod id held_entries) es)))"

primrec all_read :: "item \<Rightarrow> bool" where
  "all_read (Leaf l m) = True"
| "all_read (Folder m es) =
     (readable m \<and> (enterable m \<or> es = []) \<and> list_all snd (map (map_prod id all_read) es))"

lemma held_Folder:
  "held_bytes (Folder m es) = (if readable m \<and> enterable m then (\<Sum>x\<leftarrow>es. held_bytes (snd x)) else 0)"
  "held_entries (Folder m es) = (if readable m \<and> enterable m then (\<Sum>x\<leftarrow>es. held_entries (snd x) + 1) else 0)"
  "all_read (Folder m es) \<longleftrightarrow> readable m \<and> (enterable m \<or> es = []) \<and> (\<forall>x \<in> set es. all_read (snd x))"
  by (auto simp: comp_def list_all_iff)

declare held_bytes.simps(2) [simp del] held_entries.simps(2) [simp del] all_read.simps(2) [simp del]
  held_Folder [simp]

lemma count_parts:
  "ms_bytes (count t b) = ms_bytes b + (if is_folder t then 0 else me_len (meta_of t))"
  "ms_entries (count t b) = ms_entries b + 1" "ms_complete (count t b) = ms_complete b"
  "ms_bytes (incomplete b) = ms_bytes b" "ms_entries (incomplete b) = ms_entries b"
  "\<not> ms_complete (incomplete b)"
  by (simp_all add: count_def incomplete_def)

definition measured_as :: "measured \<Rightarrow> item list \<Rightarrow> measured \<Rightarrow> bool" where
  "measured_as b queue b' \<longleftrightarrow>
     ms_bytes b' = ms_bytes b + (\<Sum>t\<leftarrow>queue. if is_folder t then held_bytes t else 0)
     \<and> ms_entries b' = ms_entries b + (\<Sum>t\<leftarrow>queue. held_entries t)
     \<and> (ms_complete b' \<longleftrightarrow> ms_complete b \<and> (\<forall>t \<in> set queue. all_read t))"

lemma read_one_eq:
  "enterable m \<Longrightarrow> read_one m e (b, queue) = (count (snd e) b, if is_folder (snd e) then snd e # queue else queue)"
  "\<not> enterable m \<Longrightarrow> read_one m e (b, queue) = (incomplete b, queue)"
  by (simp_all add: read_one_def)

lemma read_folder:
  assumes "fold (read_one m) es (b, queue) = (b', queue')" and "measured_as b' queue' b''"
  shows "ms_bytes b'' = ms_bytes b + (if enterable m then (\<Sum>x\<leftarrow>es. held_bytes (snd x)) else 0)
           + (\<Sum>t\<leftarrow>queue. if is_folder t then held_bytes t else 0)
      \<and> ms_entries b'' = ms_entries b + (if enterable m then (\<Sum>x\<leftarrow>es. held_entries (snd x) + 1) else 0)
           + (\<Sum>t\<leftarrow>queue. held_entries t)
      \<and> (ms_complete b'' \<longleftrightarrow> ms_complete b \<and> (enterable m \<or> es = []) \<and> (\<forall>x \<in> set es. all_read (snd x))
           \<and> (\<forall>t \<in> set queue. all_read t))"
  using assms
proof (induction es arbitrary: b queue)
  case Nil
  then show ?case by (auto simp: measured_as_def)
next
  case (Cons e es)
  have leaf: "held_bytes c = me_len (meta_of c)" "held_entries c = 0" "all_read c" if "\<not> is_folder c" for c
    using that by (cases c; simp)+
  show ?case
  proof (cases "enterable m")
    case True
    with Cons.prems have "fold (read_one m) es (count (snd e) b, if is_folder (snd e) then snd e # queue else queue) = (b', queue')"
      by (simp add: read_one_eq)
    from Cons.IH [OF this Cons.prems(2)] show ?thesis
      using True by (auto simp: count_parts leaf algebra_simps)
  next
    case False
    with Cons.prems have "fold (read_one m) es (incomplete b, queue) = (b', queue')" by (simp add: read_one_eq)
    from Cons.IH [OF this Cons.prems(2)] show ?thesis
      using False by (auto simp: count_parts)
  qed
qed

lemma measure_queue_spec: "measured_as b queue (measure_queue b queue)"
proof (induction b queue rule: measure_queue.induct)
  case (3 b m es queue)
  obtain b' queue' where f: "fold (read_one m) es (b, queue) = (b', queue')" by fastforce
  show ?case
  proof (cases "readable m")
    case True
    then have "measured_as b' queue' (measure_queue b' queue')" using 3(2) f [symmetric] by blast
    from read_folder [OF f this] show ?thesis using True f by (auto simp: measured_as_def)
  next
    case False
    then show ?thesis using 3(1) by (auto simp: measured_as_def count_parts)
  qed
qed (auto simp: measured_as_def)

lemma measure_at_There:
  assumes "lstat p t = There c"
  shows "ms_bytes (measure_at p t) = held_bytes c"
    and "ms_complete (measure_at p t) \<longleftrightarrow> all_read c"
proof -
  have leaf: "held_bytes c = me_len (meta_of c)" "all_read c" if "\<not> is_folder c"
    using that by (cases c; simp)+
  show "ms_bytes (measure_at p t) = held_bytes c" "ms_complete (measure_at p t) \<longleftrightarrow> all_read c"
    using measure_queue_spec [of nothing_measured "[c]"] leaf assms
    by (auto simp: measure_at_def measured_as_def nothing_measured_def count_parts)
qed

subsection \<open>Walking down\<close>

text \<open>The size of what is at a path, which a walk goes down by.\<close>

definition weight :: "item \<Rightarrow> path \<Rightarrow> nat" where
  "weight t d = (case item_at d t of None \<Rightarrow> 0 | Some c \<Rightarrow> size c)"

lemma lstat_There: "lstat p t = There c \<Longrightarrow> item_at p t = Some c"
  by (induction p t rule: lstat.induct) (auto split: if_splits option.splits)

lemma item_at_snoc: "item_at (d @ [n]) t = Option.bind (item_at d t) (item_at [n])"
  by (induction d t rule: item_at.induct) (auto split: option.splits)

lemma weight_child:
  assumes "item_at d t = Some (Folder m es)"
  shows "weight t (d @ [n]) < weight t d"
proof -
  have "size c < size (Folder m es)" if "map_of es n = Some c" for c
    using that by (induction es) (auto split: if_splits)
  then show ?thesis using assms by (auto simp: weight_def item_at_snoc split: option.splits)
qed

definition folder_at :: "path \<Rightarrow> item \<Rightarrow> bool" where
  "folder_at p t \<longleftrightarrow> (case item_at p t of Some c \<Rightarrow> is_folder c | None \<Rightarrow> False)"

lemma folder_at_Some: "folder_at p t \<longleftrightarrow> (\<exists>m es. item_at p t = Some (Folder m es))"
proof -
  have "is_folder c \<longleftrightarrow> (\<exists>m es. c = Folder m es)" for c by (cases c) auto
  then show ?thesis by (auto simp: folder_at_def split: option.splits)
qed

lemma is_folder_iff: "is_folder c \<longleftrightarrow> fst (face c) = None"
  by (cases c) auto

lemma folder_at_seen: "seen_at p t = seen_at p t' \<Longrightarrow> folder_at p t = folder_at p t'"
  by (auto simp: folder_at_def seen_at_def is_folder_iff split: option.splits)

lemma folder_child:
  "item_at d t = Some (Folder m es) \<Longrightarrow> folder_at (d @ [n]) t \<longleftrightarrow> (\<exists>c. map_of es n = Some c \<and> is_folder c)"
  by (auto simp: folder_at_def item_at_snoc split: option.splits)

definition apart :: "path \<Rightarrow> path \<Rightarrow> bool" where
  "apart a b \<longleftrightarrow> \<not> prefix a b \<and> \<not> prefix b a"

lemma folder_above: "folder_at p t \<Longrightarrow> prefix q p \<Longrightarrow> folder_at q t"
proof (induction q t arbitrary: p rule: item_at.induct)
  case (1 t)
  then show ?case by (cases t; cases p) (auto simp: folder_at_def)
next
  case (2 n ns l m)
  then show ?case by (cases p) (auto simp: folder_at_def)
next
  case (3 n ns m es)
  from 3(3) obtain ps where "p = n # ps" "prefix ns ps" by (cases p) auto
  then show ?case using 3(1,2) by (fastforce simp: folder_at_def split: option.splits)
qed

lemma strict_prefix_child:
  assumes "strict_prefix d p"
  obtains n where "prefix (d @ [n]) p" "p = d @ [n] \<or> prefix (d @ [n]) (butlast p)"
proof -
  from assms obtain n ns where "p = d @ n # ns" by (auto elim: strict_prefixE')
  then show ?thesis using that [of n] by (cases ns) (auto simp: butlast_append)
qed

lemma apart_child:
  assumes "apart d d'"
  shows "apart (d @ [n]) d'"
  using assms by (auto simp: apart_def prefix_snoc dest: append_prefixD)

text \<open>Where every folder can be read, written and entered.\<close>

lemma open_child: "open_item (Folder m es) \<Longrightarrow> map_of es n = Some c \<Longrightarrow> open_item c"
  using map_of_SomeD by fastforce

lemma open_update: "open_item (Folder m es) \<Longrightarrow> open_item c \<Longrightarrow> open_item (Folder m (AList.update n c es))"
  by (induction es) auto

lemma open_delete: "open_item (Folder m es) \<Longrightarrow> open_item (Folder m (AList.delete n es))"
  by (auto simp: AList.delete_eq)

lemma open_lstat: "open_item t \<Longrightarrow> item_at p t = Some c \<Longrightarrow> lstat p t = There c \<and> open_item c"
proof (induction p t rule: lstat.induct)
  case (3 n ns m es)
  then show ?case using open_child [OF 3(2)] by (auto split: option.splits)
qed auto

lemma open_removed:
  "open_item t \<Longrightarrow> p \<noteq> [] \<Longrightarrow> folder_at p t \<Longrightarrow>
     \<exists>t'. remove_dir_all p t = (Gone, t') \<and> open_item t'"
proof (induction p t rule: remove_dir_all.induct)
  case (3 n ns m es)
  then obtain c where c: "map_of es n = Some c" "folder_at ns c" by (auto simp: folder_at_def split: option.splits)
  note oc = open_child [OF 3(2) c(1)]
  show ?case
  proof (cases "ns = []")
    case True
    with c 3(2) oc show ?thesis
      by (auto simp: folder_at_def clear_open AList.delete_eq)
  next
    case False
    then obtain c' where "remove_dir_all ns c = (Gone, c')" "open_item c'" using 3 c oc by auto
    then show ?thesis using 3(2) c False open_update [OF 3(2)] by auto
  qed
qed (auto simp: folder_at_def)

end
