(* ===== verification/Relocate.thy ===== *)
theory Relocate
  imports Exclude HomeTree "HOL-Library.Multiset"
begin

text \<open>
  \<open>workspace/relocate.rs\<close>: what a new home does about caches that record the path they were made at.
  One walk of the directories below the home takes each directory a name matches away whole
  and goes no further into it. The walk is a stack of paths, its top first here.
\<close>

record name_row =
  nm_path :: path
  nm_reason :: string

record cache_removal =
  cr_path :: path
  cr_reason :: string

record relocation =
  rl_relocator :: string
  rl_from :: path
  rl_to :: path
  rl_removed :: "cache_removal list"
  rl_examined :: nat

definition INVALIDATE :: string where "INVALIDATE = ''invalidate''"
definition RECIPE_REASON :: string where
  "RECIPE_REASON = ''named by the project as a cache that records its own path''"

definition changed_nothing :: "relocation \<Rightarrow> bool" where
  "changed_nothing r = (rl_removed r = [])"

text \<open>\<open>shown\<close> is \<open>Path::display\<close> of a whole path.\<close>

definition describe_relocation :: "(path \<Rightarrow> string) \<Rightarrow> relocation \<Rightarrow> string" where
  "describe_relocation shown r =
     (if changed_nothing r then
        ''No cache in this home records the path it was made at. The content was made at ''
        @ shown (rl_from r) @ ''. The home is at '' @ shown (rl_to r) @ ''.''
      else ''Removed '' @ dec (length (rl_removed r)) @ '' ''
        @ (if length (rl_removed r) = 1 then ''cache'' else ''caches'')
        @ '' from the new home: '' @ join '', '' (map (join ''/'' \<circ> cr_path) (rl_removed r))
        @ ''. Each one records the path it was made at. The content was made at '' @ shown (rl_from r)
        @ ''. The home is at '' @ shown (rl_to r)
        @ ''. A cache of this kind is not correct at a new path, so the home does not keep it.'')"

definition default_names :: "name_row list" where
  "default_names = map (\<lambda>r. \<lparr>nm_path = segments (row_path r), nm_reason = row_reason r\<rparr>) invalidated"

definition names_with_recipe :: "component list list \<Rightarrow> name_row list" where
  "names_with_recipe ps =
     fold (\<lambda>p ns. if list_ex (\<lambda>n. nm_path n = p) ns then ns else ns @ [\<lparr>nm_path = p, nm_reason = RECIPE_REASON\<rparr>])
       (List.map_filter normalise ps) default_names"

definition matched :: "name_row list \<Rightarrow> path \<Rightarrow> string option" where
  "matched names relative = map_option nm_reason (find (\<lambda>n. suffix (nm_path n) relative) names)"

text \<open>The names of the folders in a folder, sorted. A link is not one.\<close>

definition directories_in :: "path \<Rightarrow> path \<Rightarrow> item \<Rightarrow> error + string list" where
  "directories_in home d t =
     (case lstat d t of
        There (Folder m es) \<Rightarrow>
          if \<not> readable m then Inl (Io (home @ d) ''permission denied'')
          else Inr (sort (map fst (filter (\<lambda>(n, c). is_folder c) es)))
      | There (Leaf l m) \<Rightarrow> Inl (Io (home @ d) ''not a directory'')
      | Absent \<Rightarrow> Inl (Io (home @ d) ''not found'')
      | Denied \<Rightarrow> Inl (Io (home @ d) ''permission denied''))"

text \<open>What is in one folder: the report, the stack and the home as far as the walk has come.\<close>

fun relocate_names :: "name_row list \<Rightarrow> path \<Rightarrow> path \<Rightarrow> string list \<Rightarrow> relocation \<times> path list \<Rightarrow> item
    \<Rightarrow> (error + relocation \<times> path list) \<times> item" where
  "relocate_names names home d [] (r, queue) t = (Inr (r, queue), t)"
| "relocate_names names home d (n # ns) (r, queue) t =
     (let relative = d @ [n]; r1 = r\<lparr>rl_examined := rl_examined r + 1\<rparr>
      in case matched names relative of
           Some reason \<Rightarrow>
             (case remove_plain home relative t of
                (Some e, t') \<Rightarrow> (Inl e, t')
              | (None, t') \<Rightarrow>
                  relocate_names names home d ns
                    (r1\<lparr>rl_removed := rl_removed r @ [\<lparr>cr_path = relative, cr_reason = reason\<rparr>]\<rparr>, queue) t')
         | None \<Rightarrow> relocate_names names home d ns (r1, relative # queue) t)"

text \<open>Why the walk ends: a removal makes the home smaller, and a folder in which nothing matches is
  replaced on the stack by smaller ones.\<close>

lemma size_update:
  "map_of es n = Some c \<Longrightarrow> size c' < size c \<Longrightarrow> size (Folder m' (AList.update n c' es)) < size (Folder m es)"
  by (induction es) (auto split: if_splits)

lemma size_delete_le: "size (Folder m' (AList.delete n es)) \<le> size (Folder m es)"
  by (induction es) (auto simp: AList.delete_eq)

lemma size_delete: "map_of es n = Some c \<Longrightarrow> size (Folder m' (AList.delete n es)) < size (Folder m es)"
proof (induction es)
  case (Cons e es)
  then show ?case using size_delete_le [of m' n es m] by (cases e) (auto simp: AList.delete_eq split: if_splits)
qed simp

lemma removed_smaller: "remove_dir_all p t = (Gone, t') \<Longrightarrow> size t' < size t"
proof (induction p t arbitrary: t' rule: remove_dir_all.induct)
  case (3 n ns m es)
  then show ?case
    by (auto simp del: item.size simp: size_update size_delete split: if_splits option.splits prod.splits)
qed auto

lemma directories_in_Inr:
  assumes "directories_in home d t = Inr found"
  obtains m es where "item_at d t = Some (Folder m es)" "readable m" "mset found = mset (map fst (filter (\<lambda>(n, c). is_folder c) es))"
  using assms by (auto simp: directories_in_def dest!: lstat_There split: seen.splits item.splits if_splits)

lemma child_lighter:
  assumes "directories_in home d t = Inr found"
  shows "weight t (d @ [n]) < weight t d"
  using assms by (rule directories_in_Inr) (rule weight_child)

lemma relocate_names_moves:
  "relocate_names names home d ns (r, queue) t = (Inr (r', queue'), t') \<Longrightarrow>
     size t' < size t \<or> (t' = t \<and> queue' = rev (map (\<lambda>n. d @ [n]) ns) @ queue)"
proof (induction ns arbitrary: r queue t)
  case (Cons n ns)
  then show ?case
    using removed_smaller [of "d @ [n]" t]
    by (fastforce simp: Let_def remove_plain_def split: option.splits prod.splits removal.splits)
qed simp

function relocate_queue :: "name_row list \<Rightarrow> path \<Rightarrow> path list \<Rightarrow> relocation \<Rightarrow> item \<Rightarrow> (error + relocation) \<times> item" where
  "relocate_queue names home [] r t = (Inr r, t)"
| "relocate_queue names home (d # queue) r t =
     (case directories_in home d t of
        Inl e \<Rightarrow> (Inl e, t)
      | Inr found \<Rightarrow>
          (case relocate_names names home d found (r, queue) t of
             (Inl e, t') \<Rightarrow> (Inl e, t')
           | (Inr (r', queue'), t') \<Rightarrow> relocate_queue names home queue' r' t'))"
  by pat_completeness auto

termination
proof (relation "inv_image (less_than <*lex*> mult less_than)
    (\<lambda>(names, home, queue, r, t). (size t, image_mset (weight t) (mset queue)))")
  fix names home d queue r t found x t' pair r' queue'
  assume found: "directories_in home d t = Inr found"
    and step: "(x, t') = relocate_names names home d found (r, queue) t" "x = Inr pair" "(r', queue') = pair"
  let ?w = "image_mset (weight t)"
  have "\<forall>k \<in># ?w (mset (map (\<lambda>n. d @ [n]) found)). \<exists>j \<in># {#weight t d#}. (k, j) \<in> less_than"
    using child_lighter [OF found] by auto
  then have "(?w (mset queue) + ?w (mset (map (\<lambda>n. d @ [n]) found)), ?w (mset queue) + {#weight t d#}) \<in> mult less_than"
    by (intro one_step_implies_mult) auto
  then show "((names, home, queue', r', t'), names, home, d # queue, r, t)
      \<in> inv_image (less_than <*lex*> mult less_than)
          (\<lambda>(names, home, queue, r, t). (size t, image_mset (weight t) (mset queue)))"
    using relocate_names_moves [of names home d found r queue t r' queue' t'] step by (auto simp: add.commute)
qed (auto intro!: wf_inv_image wf_lex_prod wf_mult)

definition relocate :: "name_row list \<Rightarrow> path \<Rightarrow> path \<Rightarrow> path \<Rightarrow> item \<Rightarrow> (error + relocation) \<times> item" where
  "relocate names home src dst t =
     relocate_queue names home [[]]
       \<lparr>rl_relocator = INVALIDATE, rl_from = src, rl_to = dst, rl_removed = [], rl_examined = 0\<rparr> t"

subsection \<open>What a relocation takes\<close>

text \<open>No name matches a folder at or above the path.\<close>

definition clean :: "name_row list \<Rightarrow> path \<Rightarrow> bool" where
  "clean names d \<longleftrightarrow> (\<forall>q. q \<noteq> [] \<and> prefix q d \<longrightarrow> matched names q = None)"

definition top_match :: "name_row list \<Rightarrow> item \<Rightarrow> path \<Rightarrow> bool" where
  "top_match names t p \<longleftrightarrow> p \<noteq> [] \<and> folder_at p t \<and> matched names p \<noteq> None \<and> clean names (butlast p)"

lemma clean_Nil [simp]: "clean names []"
  by (simp add: clean_def)

lemma clean_snoc: "clean names (d @ [n]) \<longleftrightarrow> clean names d \<and> matched names (d @ [n]) = None"
  by (auto simp: clean_def prefix_snoc)

lemma found_folders:
  assumes "wf_item t" and "directories_in home d t = Inr found"
  shows "distinct found" and "n \<in> set found \<longleftrightarrow> folder_at (d @ [n]) t"
proof -
  from assms(2) obtain m es where d: "item_at d t = Some (Folder m es)"
    and found: "mset found = mset (map fst (filter (\<lambda>(n, c). is_folder c) es))"
    by (rule directories_in_Inr)
  have "wf_item c" if "item_at p t = Some c" for p c
    using assms(1) that by (induction p t rule: item_at.induct) (auto split: option.splits dest: wf_child)
  from this [OF d] have es: "distinct (map fst es)" by (simp add: wf_Folder)
  then have "distinct (map fst (filter (\<lambda>(n, c). is_folder c) es))" by (simp add: distinct_map_filter)
  with found show "distinct found" by (metis mset_eq_imp_distinct_iff)
  have "set found = fst ` {x \<in> set es. is_folder (snd x)}"
    using mset_eq_setD [OF found] by (auto simp: case_prod_unfold)
  then show "n \<in> set found \<longleftrightarrow> folder_at (d @ [n]) t"
    using es by (force simp: folder_child [OF d] dest: map_of_SomeD intro: map_of_is_SomeI)
qed

lemma relocate_names_Inr:
  "relocate_names names home d ns (r, queue) t = (Inr (r', queue'), t') \<Longrightarrow>
     (let rs = map (\<lambda>n. d @ [n]) (filter (\<lambda>n. matched names (d @ [n]) \<noteq> None) ns)
      in map cr_path (rl_removed r') = map cr_path (rl_removed r) @ rs
       \<and> queue' = rev (map (\<lambda>n. d @ [n]) (filter (\<lambda>n. matched names (d @ [n]) = None) ns)) @ queue
       \<and> t' = snd (removals (remove_plain home) rs t)
       \<and> list_all (\<lambda>(p, e). e = None) (fst (removals (remove_plain home) rs t)))"
proof (induction ns arbitrary: r queue t)
  case (Cons n ns)
  show ?case
  proof (cases "matched names (d @ [n])")
    case None
    then show ?thesis using Cons.prems Cons.IH by (fastforce simp: Let_def)
  next
    case (Some why)
    then show ?thesis using Cons.prems Cons.IH by (fastforce simp: Let_def split: prod.splits option.splits)
  qed
qed simp

lemma relocate_names_takes:
  "\<exists>ps. snd (relocate_names names home d ns (r, queue) t) = snd (removals (remove_plain home) ps t)
     \<and> (\<forall>p \<in> set ps. p \<noteq> [] \<and> matched names p \<noteq> None)"
proof (induction names home d ns "(r, queue)" t arbitrary: r queue rule: relocate_names.induct)
  case (1 names home d r queue t)
  then show ?case by (intro exI [of _ "[]"]) simp
next
  case (2 names home d n ns r queue t)
  show ?case
  proof (cases "matched names (d @ [n])")
    case None
    then show ?thesis using 2(1) [OF refl refl None] by (simp add: Let_def)
  next
    case (Some why)
    obtain e t1 where rm: "remove_plain home (d @ [n]) t = (e, t1)" by fastforce
    show ?thesis
    proof (cases e)
      case None
      then obtain ps where "snd (relocate_names names home d (n # ns) (r, queue) t) = snd (removals (remove_plain home) ps t1)"
        "\<forall>p \<in> set ps. p \<noteq> [] \<and> matched names p \<noteq> None"
        using 2(2) [OF refl refl Some rm [symmetric]] Some rm by (auto simp: Let_def)
      then show ?thesis using rm Some by (intro exI [of _ "(d @ [n]) # ps"]) simp
    qed (use rm Some in \<open>auto intro!: exI [of _ "[d @ [n]]"] simp: Let_def\<close>)
  qed
qed

text \<open>Where the walk stands: what was removed is gone and was a top match, the rest is as it was, and each
  top match still there is below a folder on the stack, which names folders apart from each other.\<close>

definition taken :: "relocation \<Rightarrow> path set" where
  "taken r = cr_path ` set (rl_removed r)"

definition walking :: "name_row list \<Rightarrow> item \<Rightarrow> path list \<Rightarrow> relocation \<Rightarrow> item \<Rightarrow> bool" where
  "walking names t0 queue r t \<longleftrightarrow> wf_item t
    \<and> (\<forall>p \<in> taken r. top_match names t0 p \<and> item_at p t = None)
    \<and> (\<forall>q. (\<forall>p \<in> taken r. \<not> prefix p q) \<longrightarrow> seen_at q t = seen_at q t0)
    \<and> (\<forall>p. top_match names t0 p \<longrightarrow> p \<in> taken r \<or> (\<exists>d \<in> set queue. strict_prefix d p))
    \<and> (\<forall>d \<in> set queue. folder_at d t0 \<and> clean names d \<and> (\<forall>p \<in> taken r. \<not> prefix d p))
    \<and> sorted_wrt apart queue"

lemma walking_start:
  "wf_item t \<Longrightarrow> is_folder t \<Longrightarrow> rl_removed r = [] \<Longrightarrow> walking names t [[]] r t"
  by (auto simp: walking_def folder_at_def taken_def top_match_def strict_prefix_def)

text \<open>A folder of the walk shows the same entries as before it.\<close>

lemma walking_child:
  assumes "walking names t0 (d # queue) r t"
  shows "seen_at (d @ [n]) t = seen_at (d @ [n]) t0"
proof -
  have "\<not> prefix p (d @ [n])" if "p \<in> taken r" for p
    using assms that by (auto simp: walking_def top_match_def clean_def prefix_snoc)
  then show ?thesis using assms by (simp add: walking_def)
qed

lemma walking_step:
  assumes at: "walking names t0 (d # queue) r t" and found: "directories_in home d t = Inr found"
    and step: "relocate_names names home d found (r, queue) t = (Inr (r', queue'), t')"
  shows "walking names t0 queue' r' t'"
proof -
  define rs where "rs = map (\<lambda>n. d @ [n]) (filter (\<lambda>n. matched names (d @ [n]) \<noteq> None) found)"
  define os where "os = filter (\<lambda>n. matched names (d @ [n]) = None) found"
  have moved: "map cr_path (rl_removed r') = map cr_path (rl_removed r) @ rs"
    "queue' = rev (map (\<lambda>n. d @ [n]) os) @ queue" "t' = snd (removals (remove_plain home) rs t)"
    "list_all (\<lambda>(p, e). e = None) (fst (removals (remove_plain home) rs t))"
    using relocate_names_Inr [OF step] by (simp_all add: rs_def os_def Let_def)
  have taken: "taken r' = taken r \<union> set rs"
    using moved(1) by (metis set_append set_map taken_def)
  have wf: "wf_item t" and d: "clean names d" "\<forall>p \<in> taken r. \<not> prefix d p" and queue: "\<forall>d' \<in> set queue. apart d d'"
    using at by (auto simp: walking_def)
  have child: "n \<in> set found \<longleftrightarrow> folder_at (d @ [n]) t0" for n
    using found_folders(2) [OF wf found] folder_at_seen [OF walking_child [OF at]] by metis
  have within: "within_item t' t" unfolding moved(3) by (rule plain.removals_wf [OF wf])
  have gone: "item_at p t' = None" if "p \<in> taken r'" for p
  proof (cases "p \<in> set rs")
    case True
    then have "p \<in> fst ` set (fst (removals (remove_plain home) rs t))"
      using plain.told_paths [of home rs t] by (metis list.set_map)
    then have "(p, None) \<in> set (fst (removals (remove_plain home) rs t))"
      using moved(4) by (auto simp: list_all_iff)
    then show ?thesis unfolding moved(3) by (rule plain.all_gone [OF wf])
  next
    case False
    then show ?thesis using that within at by (simp add: taken walking_def within_item_def)
  qed
  have "top_match names t0 p" if "p \<in> set rs" for p
    using that d(1) child by (auto simp: rs_def top_match_def)
  then have tops: "\<forall>p \<in> taken r'. top_match names t0 p" using at by (auto simp: walking_def taken)
  have "wf_item t'" using within by (simp add: within_item_def)
  moreover have "p \<in> taken r' \<or> (\<exists>d' \<in> set queue'. strict_prefix d' p)" if top: "top_match names t0 p" for p
  proof (cases "strict_prefix d p")
    case True
    then obtain n where n: "prefix (d @ [n]) p" "p = d @ [n] \<or> prefix (d @ [n]) (butlast p)" by (rule strict_prefix_child)
    have "n \<in> set found" using child folder_above [OF _ n(1)] top by (auto simp: top_match_def)
    moreover have "strict_prefix (d @ [n]) p \<and> matched names (d @ [n]) = None" if "p \<noteq> d @ [n]"
      using that n top by (auto simp: top_match_def clean_def strict_prefix_def)
    ultimately show ?thesis using top by (auto simp: taken moved(2) os_def rs_def top_match_def)
  next
    case False
    then show ?thesis using at top by (auto simp: walking_def taken moved(2))
  qed
  moreover have "folder_at d' t0 \<and> clean names d' \<and> (\<forall>p \<in> taken r'. \<not> prefix d' p)"
    if d': "d' \<in> set queue'" for d'
  proof (cases "d' \<in> set queue")
    case True
    then have "\<not> prefix d' p" if "p \<in> set rs" for p
      using apart_child queue that by (force simp: rs_def apart_def)
    then show ?thesis using True at by (auto simp: walking_def taken)
  next
    case False
    then obtain n where n: "d' = d @ [n]" "matched names (d @ [n]) = None" "n \<in> set found"
      using d' by (auto simp: moved(2) os_def)
    then show ?thesis using d child by (auto simp: clean_snoc taken rs_def dest: append_prefixD)
  qed
  moreover have "sorted_wrt apart queue'"
  proof -
    have "sorted_wrt apart (rev (map (\<lambda>n. d @ [n]) ns))" if "distinct ns" for ns
      using that by (induction ns) (auto simp: sorted_wrt_append apart_def)
    then show ?thesis
      using found_folders(1) [OF wf found] at queue apart_child
      by (auto simp: moved(2) sorted_wrt_append os_def walking_def)
  qed
  moreover have "seen_at q t' = seen_at q t0" if "\<forall>p \<in> taken r'. \<not> prefix p q" for q
    using that at plain.others_kept [of rs q home t] by (auto simp: taken moved(3) walking_def)
  ultimately show ?thesis using gone tops unfolding walking_def by blast
qed

lemma walking_queue:
  "walking names t0 queue r t \<Longrightarrow> relocate_queue names home queue r t = (Inr r', t') \<Longrightarrow> walking names t0 [] r' t'"
proof (induction names home queue r t rule: relocate_queue.induct)
  case (2 names home d queue r t)
  then show ?case
    by (auto split: sum.splits prod.splits intro: 2(1) walking_step)
qed simp

lemma queue_takes:
  "\<exists>ps. snd (relocate_queue names home queue r t) = snd (removals (remove_plain home) ps t)
     \<and> (\<forall>p \<in> set ps. p \<noteq> [] \<and> matched names p \<noteq> None)"
proof (induction names home queue r t rule: relocate_queue.induct)
  case (1 names home r t)
  then show ?case by (intro exI [of _ "[]"]) simp
next
  case (2 names home d queue r t)
  show ?case
  proof (cases "directories_in home d t")
    case (Inl e)
    then show ?thesis by (intro exI [of _ "[]"]) simp
  next
    case (Inr found)
    obtain ps where ps: "snd (relocate_names names home d found (r, queue) t) = snd (removals (remove_plain home) ps t)"
      "\<forall>p \<in> set ps. p \<noteq> [] \<and> matched names p \<noteq> None" using relocate_names_takes by blast
    obtain a t1 where step: "relocate_names names home d found (r, queue) t = (a, t1)" by fastforce
    show ?thesis
    proof (cases a)
      case (Inl e)
      then show ?thesis using ps step Inr by auto
    next
      case (Inr pair)
      obtain r1 queue1 where pair: "pair = (r1, queue1)" by fastforce
      obtain ps' where "snd (relocate_queue names home queue1 r1 t1) = snd (removals (remove_plain home) ps' t1)"
        "\<forall>p \<in> set ps'. p \<noteq> [] \<and> matched names p \<noteq> None"
        using 2 \<open>directories_in home d t = Inr found\<close> step Inr pair by metis
      moreover have "snd (removals rm (ps @ ps') t) = snd (removals rm ps' (snd (removals rm ps t)))" for rm
        by (induction ps arbitrary: t) simp_all
      ultimately show ?thesis
        using ps step Inr pair \<open>directories_in home d t = Inr found\<close>
        by (intro exI [of _ "ps @ ps'"]) auto
    qed
  qed
qed

lemma highest_match:
  "q \<noteq> [] \<Longrightarrow> matched names q \<noteq> None \<Longrightarrow>
     \<exists>p. prefix p q \<and> p \<noteq> [] \<and> matched names p \<noteq> None \<and> clean names (butlast p)"
proof (induction q rule: length_induct)
  case (1 q)
  show ?case
  proof (cases "clean names (butlast q)")
    case False
    then obtain a where a: "a \<noteq> []" "prefix a (butlast q)" "matched names a \<noteq> None" by (auto simp: clean_def)
    then have "length a < length q" using prefix_length_le [OF a(2)] 1(2) by (cases "length q") auto
    then show ?thesis using 1(1) a by (meson prefix_order.trans prefixeq_butlast)
  qed (use 1 in auto)
qed

lemma walking_done:
  assumes "walking names t0 [] r t"
  shows "(\<forall>p. p \<in> taken r \<longleftrightarrow> top_match names t0 p)
    \<and> (\<forall>q. (\<forall>p \<in> taken r. \<not> prefix p q) \<longrightarrow> seen_at q t = seen_at q t0)"
  using assms unfolding walking_def by (simp only: list.set ball_empty bex_empty simp_thms) blast

lemma relocate_spec:
  assumes "wf_item t" and "is_folder t"
  shows "(\<forall>q. clean names q \<longrightarrow> seen_at q (snd (relocate names home src dst t)) = seen_at q t)
    \<and> (\<forall>r. fst (relocate names home src dst t) = Inr r \<longrightarrow>
         (\<forall>p. p \<in> taken r \<longleftrightarrow> top_match names t p)
         \<and> (\<forall>q. (\<forall>p \<in> taken r. \<not> prefix p q)
              \<longrightarrow> seen_at q (snd (relocate names home src dst t)) = seen_at q t)
         \<and> (\<forall>q. q \<noteq> [] \<longrightarrow> folder_at q (snd (relocate names home src dst t)) \<longrightarrow> matched names q = None))"
proof -
  let ?t = "snd (relocate names home src dst t)"
  obtain ps where ps: "?t = snd (removals (remove_plain home) ps t)"
    "\<forall>p \<in> set ps. p \<noteq> [] \<and> matched names p \<noteq> None" unfolding relocate_def using queue_takes by blast
  have clean: "seen_at q ?t = seen_at q t" if "clean names q" for q
    unfolding ps(1) using ps(2) that by (intro plain.others_kept) (auto simp: clean_def)
  have reported: "(\<forall>p. p \<in> taken r \<longleftrightarrow> top_match names t p)
      \<and> (\<forall>q. (\<forall>p \<in> taken r. \<not> prefix p q) \<longrightarrow> seen_at q ?t = seen_at q t)
      \<and> (\<forall>q. q \<noteq> [] \<longrightarrow> folder_at q ?t \<longrightarrow> matched names q = None)"
    if r: "fst (relocate names home src dst t) = Inr r" for r
  proof -
    have walked: "walking names t [] r ?t"
      using walking_queue [OF walking_start [OF assms]] r by (simp add: relocate_def prod_eq_iff)
    have gone: "\<not> folder_at p ?t" if "p \<in> taken r" for p
      using that walked by (auto simp: walking_def folder_at_def)
    have "matched names q = None" if q: "q \<noteq> []" "folder_at q ?t" for q
    proof (rule ccontr)
      assume "matched names q \<noteq> None"
      then obtain p where p: "prefix p q" "p \<noteq> []" "matched names p \<noteq> None" "clean names (butlast p)"
        using highest_match [OF q(1)] by blast
      have here: "folder_at p ?t" using folder_above [OF q(2) p(1)] .
      then have "\<forall>p' \<in> taken r. \<not> prefix p' p" using folder_above gone by blast
      then have "seen_at p ?t = seen_at p t" using walking_done [OF walked] by blast
      from folder_at_seen [OF this] here have "folder_at p t" by blast
      with p have "top_match names t p" by (simp add: top_match_def)
      then have "p \<in> taken r" using walking_done [OF walked] by blast
      then show False using gone here by blast
    qed
    then have "\<forall>q. q \<noteq> [] \<longrightarrow> folder_at q ?t \<longrightarrow> matched names q = None" by (intro allI impI)
    with walking_done [OF walked] show ?thesis by (elim conjE) (intro conjI)
  qed
  show ?thesis
    by (rule conjI) (intro allI impI, erule clean, intro allI impI, erule reported)
qed

lemma relocation_repeats:
  assumes "wf_item t" and "is_folder t" and "relocate names home src dst t = (Inr r, t')"
    and "relocate names home src dst t' = (Inr r', t'')"
  shows "changed_nothing r'"
proof -
  have t': "wf_item t'" "is_folder t'"
  proof -
    obtain ps where ps: "t' = snd (removals (remove_plain home) ps t)" "\<forall>p \<in> set ps. p \<noteq> [] \<and> matched names p \<noteq> None"
      using queue_takes assms(3) unfolding relocate_def by (metis snd_conv)
    show "wf_item t'" using plain.removals_wf [OF assms(1)] by (simp add: ps(1) within_item_def)
    have "seen_at [] t' = seen_at [] t" unfolding ps(1) using ps(2) by (intro plain.others_kept) auto
    then show "is_folder t'" using assms(2) by (simp add: is_folder_iff)
  qed
  have "\<not> top_match names t' p" for p
    using relocate_spec [OF assms(1,2), of names home src dst] assms(3) by (auto simp: top_match_def)
  moreover have "p \<in> taken r' \<longleftrightarrow> top_match names t' p" for p
    using relocate_spec [OF t', of names home src dst] assms(4) by simp
  ultimately have "taken r' = {}" by blast
  then show ?thesis by (simp add: taken_def changed_nothing_def)
qed

text \<open>A relocation of a home whose folders can all be read, written and entered is never refused.\<close>

lemma open_names:
  "open_item t \<Longrightarrow> distinct ns \<Longrightarrow> \<forall>n \<in> set ns. folder_at (d @ [n]) t \<Longrightarrow>
     \<exists>r' queue' t'. relocate_names names home d ns (r, queue) t = (Inr (r', queue'), t') \<and> open_item t'"
proof (induction ns arbitrary: r queue t)
  case (Cons n ns)
  show ?case
  proof (cases "matched names (d @ [n])")
    case None
    then show ?thesis using Cons by (auto simp: Let_def)
  next
    case (Some why)
    obtain t1 where t1: "remove_dir_all (d @ [n]) t = (Gone, t1)" "open_item t1"
      using open_removed [of t "d @ [n]"] Cons.prems by auto
    have "folder_at (d @ [k]) t1" if k: "k \<in> set ns" for k
    proof -
      have "\<not> prefix (d @ [n]) (d @ [k])" using k Cons.prems(2) by auto
      then have "seen_at (d @ [k]) t1 = seen_at (d @ [k]) t"
        using remove_dir_all_other [of "d @ [n]" "d @ [k]" t] t1(1) by simp
      from folder_at_seen [OF this] k Cons.prems(3) show ?thesis by simp
    qed
    then show ?thesis using Some t1 Cons by (auto simp: Let_def remove_plain_def)
  qed
qed simp

lemma open_queue:
  "walking names t0 queue r t \<Longrightarrow> open_item t \<Longrightarrow> \<exists>r'. fst (relocate_queue names home queue r t) = Inr r'"
proof (induction names home queue r t rule: relocate_queue.induct)
  case (2 names home d queue r t)
  have "\<not> prefix p d" if "p \<in> taken r" for p
    using 2(2) that by (auto simp: walking_def top_match_def clean_def)
  then have "seen_at d t = seen_at d t0" "folder_at d t0" using 2(2) by (auto simp: walking_def)
  then have "folder_at d t" using folder_at_seen by blast
  then obtain m es where d: "item_at d t = Some (Folder m es)"
    by (auto simp: folder_at_Some)
  obtain found where found: "directories_in home d t = Inr found"
    using open_lstat [OF 2(3) d] by (auto simp: directories_in_def)
  have wf: "wf_item t" using 2(2) by (simp add: walking_def)
  obtain r' queue' t' where step: "relocate_names names home d found (r, queue) t = (Inr (r', queue'), t')" "open_item t'"
    using open_names [OF 2(3) found_folders(1) [OF wf found]] found_folders(2) [OF wf found] by blast
  from walking_step [OF 2(2) found step(1)] show ?case
    using 2(1) [OF found step(1) [symmetric] refl refl] step found by simp
qed simp

lemma relocation_succeeds:
  "wf_item t \<Longrightarrow> is_folder t \<Longrightarrow> open_item t \<Longrightarrow> \<exists>r. fst (relocate names home src dst t) = Inr r"
  unfolding relocate_def by (rule open_queue [OF walking_start]) simp_all

text \<open>
  C35. A home keeps no cache that records the path it was made at, and loses nothing else. However the
  relocation ends, what no name matches at or above is as it was. When it reports, what it reports removed is
  exactly the highest matching folders, everything beside them is as it was, no folder of the
  home matches any more and a second sweep removes nothing; and over folders that can be
  read, written and entered it always reports.
\<close>

theorem relocation_takes_stale_caches:
  assumes "wf_item t" and "is_folder t"
  shows "(\<forall>q. clean names q \<longrightarrow> seen_at q (snd (relocate names home src dst t)) = seen_at q t)
    \<and> (\<forall>r. fst (relocate names home src dst t) = Inr r \<longrightarrow>
         (\<forall>p. p \<in> taken r \<longleftrightarrow> top_match names t p)
         \<and> (\<forall>q. (\<forall>p \<in> taken r. \<not> prefix p q)
              \<longrightarrow> seen_at q (snd (relocate names home src dst t)) = seen_at q t)
         \<and> (\<forall>q. q \<noteq> [] \<longrightarrow> folder_at q (snd (relocate names home src dst t)) \<longrightarrow> matched names q = None))
    \<and> (\<forall>r t' r' t''. relocate names home src dst t = (Inr r, t') \<longrightarrow>
         relocate names home src dst t' = (Inr r', t'') \<longrightarrow> changed_nothing r')
    \<and> (open_item t \<longrightarrow> (\<exists>r. fst (relocate names home src dst t) = Inr r))"
  using relocate_spec [OF assms, of names home src dst] relocation_repeats [OF assms]
    relocation_succeeds [OF assms, of names home src dst]
  by (elim conjE) (intro conjI allI impI; blast)

text \<open>A home with a cache two folders down and a link that is named like one.\<close>

definition ex_meta :: meta where
  "ex_meta = \<lparr>me_mode = 0x1ED, me_mine = True, me_len = 40, me_modified = 7, me_accessed = 7,
     me_dev = 1, me_ino = 12, me_nlink = 1\<rparr>"

definition ex_stale :: item where
  "ex_stale = Folder ex_meta
     [(''src'', Folder ex_meta [(''__pycache__'', Folder ex_meta [(''a.pyc'', Leaf RegularFile ex_meta)]),
                              (''a.py'', Leaf RegularFile ex_meta)]),
      (''__pycache__'', Leaf (SymLink ''elsewhere'') ex_meta)]"

lemma ex_relocated:
  "relocate default_names [] [''base''] [''home''] ex_stale =
     (Inr \<lparr>rl_relocator = INVALIDATE, rl_from = [''base''], rl_to = [''home''],
        rl_removed = [\<lparr>cr_path = [''src'', ''__pycache__''], cr_reason = ''compiled modules that record their own path''\<rparr>],
        rl_examined = 2\<rparr>,
      Folder ex_meta
       [(''src'', Folder ex_meta [(''a.py'', Leaf RegularFile ex_meta)]),
        (''__pycache__'', Leaf (SymLink ''elsewhere'') ex_meta)])"
  by code_simp

theorem relocation_takes_stale_caches_witness:
  "top_match default_names ex_stale [''src'', ''__pycache__''] \<and> \<not> top_match default_names ex_stale [''__pycache__'']"
proof -
  have "wf_item ex_stale" "is_folder ex_stale" by code_simp+
  from relocation_takes_stale_caches [OF this, of default_names "[]" "[''base'']" "[''home'']"]
  have "\<forall>p. p \<in> taken \<lparr>rl_relocator = INVALIDATE, rl_from = [''base''], rl_to = [''home''],
        rl_removed = [\<lparr>cr_path = [''src'', ''__pycache__''], cr_reason = ''compiled modules that record their own path''\<rparr>],
        rl_examined = 2\<rparr> \<longleftrightarrow> top_match default_names ex_stale p"
    unfolding ex_relocated fst_conv by blast
  then show ?thesis by (simp add: taken_def) blast
qed

end
