(* ===== verification/Scalars.thy ===== *)
theory Scalars
  imports Text
begin

text \<open>
  \<open>model/scalar.rs\<close>: the shapes of the string-like values. Each shape is stated twice in the
  source, as a regular expression that is published in the JSON schema and as a function the
  program runs; the test \<open>shapes_agree_with_their_patterns\<close> compares the two on a generated
  corpus. Here the two are compared on every string.

  A string is a list of code points from 0 to 255. What the source does byte by byte is done
  on the UTF-8 encoding, where a code point from 128 on is two bytes.
\<close>

subsection \<open>Characters and bytes\<close>

abbreviation code :: "char \<Rightarrow> nat" where "code \<equiv> of_char"

definition utf8_char :: "char \<Rightarrow> nat list" where
  "utf8_char c = (if code c < 128 then [code c] else [192 + code c div 64, 128 + code c mod 64])"

definition utf8 :: "string \<Rightarrow> nat list" where
  "utf8 s = concat (map utf8_char s)"

definition is_ascii_digit :: "nat \<Rightarrow> bool" where "is_ascii_digit b \<longleftrightarrow> 48 \<le> b \<and> b \<le> 57"
definition is_ascii_uppercase :: "nat \<Rightarrow> bool" where "is_ascii_uppercase b \<longleftrightarrow> 65 \<le> b \<and> b \<le> 90"
definition is_ascii_lowercase :: "nat \<Rightarrow> bool" where "is_ascii_lowercase b \<longleftrightarrow> 97 \<le> b \<and> b \<le> 122"
definition is_ascii_alphanumeric :: "nat \<Rightarrow> bool" where
  "is_ascii_alphanumeric b \<longleftrightarrow> is_ascii_digit b \<or> is_ascii_uppercase b \<or> is_ascii_lowercase b"

text \<open>\<open>char::is_control\<close> and \<open>char::is_whitespace\<close> on those code points.\<close>

definition is_control :: "nat \<Rightarrow> bool" where
  "is_control b \<longleftrightarrow> b < 32 \<or> 127 \<le> b \<and> b \<le> 159"

definition is_whitespace :: "nat \<Rightarrow> bool" where
  "is_whitespace b \<longleftrightarrow> 9 \<le> b \<and> b \<le> 13 \<or> b = 32 \<or> b = 133 \<or> b = 160"

lemmas byte_defs = is_ascii_digit_def is_ascii_uppercase_def is_ascii_lowercase_def
  is_ascii_alphanumeric_def is_control_def is_whitespace_def

subsection \<open>The validators\<close>

definition is_crockford_upper :: "nat \<Rightarrow> bool" where
  "is_crockford_upper b \<longleftrightarrow> is_ascii_digit b
     \<or> is_ascii_uppercase b \<and> b \<notin> {code (CHR ''I''), code (CHR ''L''), code (CHR ''O''), code (CHR ''U'')}"

definition is_canonical_ulid :: "string \<Rightarrow> bool" where
  "is_canonical_ulid value = (let bytes = utf8 value in
     length bytes = 26 \<and> 48 \<le> bytes ! 0 \<and> bytes ! 0 \<le> 55 \<and> list_all is_crockford_upper bytes)"

definition sound_group :: "string \<Rightarrow> bool" where
  "sound_group g \<longleftrightarrow> 1 \<le> length (utf8 g) \<and> length (utf8 g) \<le> 9 \<and> list_all is_ascii_digit (utf8 g)"

definition is_version :: "string \<Rightarrow> bool" where
  "is_version value =
     (let head = takeWhile (\<lambda>c. c \<notin> {CHR ''-'', CHR ''+''}) value;
          tail = dropWhile (\<lambda>c. c \<notin> {CHR ''-'', CHR ''+''}) value;
          numbers = split_char (CHR ''.'') head
      in 1 \<le> length numbers \<and> length numbers \<le> 4 \<and> list_all sound_group numbers
       \<and> (tail = [] \<or> 1 < length (utf8 tail)
          \<and> list_all (\<lambda>b. is_ascii_alphanumeric b \<or> b = code (CHR ''.'') \<or> b = code (CHR ''-'')) (tl (utf8 tail))))"

definition is_hex_digest :: "string \<Rightarrow> bool" where
  "is_hex_digest value = list_all (\<lambda>b. is_ascii_digit b \<or> 97 \<le> b \<and> b \<le> 102) (utf8 value)"

definition is_object_id :: "string \<Rightarrow> bool" where
  "is_object_id value \<longleftrightarrow> length (utf8 value) \<in> {40, 64} \<and> is_hex_digest value"

definition is_slug :: "string \<Rightarrow> bool" where
  "is_slug value \<longleftrightarrow> \<not> prefix ''-'' value \<and> \<not> suffix ''-'' value \<and> \<not> sublist ''--'' value
     \<and> list_all (\<lambda>b. is_ascii_lowercase b \<or> is_ascii_digit b \<or> b = code (CHR ''-'')) (utf8 value)"

definition is_sql_identifier :: "string \<Rightarrow> bool" where
  "is_sql_identifier value = (case utf8 value of [] \<Rightarrow> False | b # bytes \<Rightarrow>
     (is_ascii_lowercase b \<or> b = code (CHR ''_''))
     \<and> list_all (\<lambda>b. is_ascii_lowercase b \<or> is_ascii_digit b \<or> b = code (CHR ''_'')) bytes)"

definition is_env_name :: "string \<Rightarrow> bool" where
  "is_env_name value = (case utf8 value of [] \<Rightarrow> False | b # bytes \<Rightarrow>
     (is_ascii_uppercase b \<or> b = code (CHR ''_''))
     \<and> list_all (\<lambda>b. is_ascii_uppercase b \<or> is_ascii_digit b \<or> b = code (CHR ''_'')) bytes)"

definition FORBIDDEN :: string where
  "FORBIDDEN = [CHR ''~'', CHR ''^'', CHR '':'', CHR ''?'', CHR ''*'', CHR ''['', CHR 0x5C]"

definition is_branch_name :: "string \<Rightarrow> bool" where
  "is_branch_name value \<longleftrightarrow>
     \<not> (prefix ''-'' value \<or> prefix ''/'' value)
   \<and> \<not> (suffix ''/'' value \<or> suffix ''.'' value)
   \<and> \<not> sublist ''..'' value \<and> \<not> sublist ''//'' value \<and> \<not> sublist [CHR ''@'', CHR ''{''] value
   \<and> \<not> (case rsplit_once (CHR ''.'') value of Some (_, b) \<Rightarrow> b = ''lock'' | None \<Rightarrow> False)
   \<and> \<not> list_ex (\<lambda>c. is_whitespace (code c) \<or> is_control (code c) \<or> c \<in> set FORBIDDEN) value"

definition is_token :: "string \<Rightarrow> bool" where
  "is_token value = list_all (\<lambda>b. 33 \<le> b \<and> b \<le> 126) (utf8 value)"

definition is_line :: "string \<Rightarrow> bool" where
  "is_line value \<longleftrightarrow> \<not> list_ex (\<lambda>c. is_control (code c)) value"

subsection \<open>The patterns\<close>

text \<open>
  The regular expressions the patterns are written in: character classes as ranges of code
  points, their complements, sequence, choice and bounded repetition.
\<close>

datatype rexp =
    Eps
  | Cls "(nat \<times> nat) list"
  | NotCls "(nat \<times> nat) list"
  | Seq rexp rexp
  | Alt rexp rexp
  | Rep nat "nat option" rexp

definition in_ranges :: "(nat \<times> nat) list \<Rightarrow> char \<Rightarrow> bool" where
  "in_ranges rs c = list_ex (\<lambda>(lo, hi). lo \<le> code c \<and> code c \<le> hi) rs"

primrec lang :: "rexp \<Rightarrow> string set" where
  "lang Eps = {[]}"
| "lang (Cls rs) = {[c] |c. in_ranges rs c}"
| "lang (NotCls rs) = {[c] |c. \<not> in_ranges rs c}"
| "lang (Seq r q) = {x @ y |x y. x \<in> lang r \<and> y \<in> lang q}"
| "lang (Alt r q) = lang r \<union> lang q"
| "lang (Rep lo hi r) = {concat ws |ws. ws \<in> lists (lang r) \<and> lo \<le> length ws
     \<and> (case hi of None \<Rightarrow> True | Some h \<Rightarrow> length ws \<le> h)}"

definition chr :: "char \<Rightarrow> rexp" where "chr c = Cls [(code c, code c)]"

definition lit :: "string \<Rightarrow> rexp" where "lit s = foldr (\<lambda>c. Seq (chr c)) s Eps"

text \<open>
  An anchored pattern: the expression the whole text matches, and the ones its negative
  lookaheads refuse. A lookahead that does not say \<open>$\<close> is written with \<open>anything\<close> after it.
\<close>

record pattern =
  refuses :: "rexp list"
  body :: rexp

definition matches :: "pattern \<Rightarrow> string \<Rightarrow> bool" where
  "matches p s \<longleftrightarrow> s \<in> lang (body p) \<and> list_all (\<lambda>r. s \<notin> lang r) (refuses p)"

definition plain_pattern :: "rexp \<Rightarrow> pattern" where
  "plain_pattern r = \<lparr>refuses = [], body = r\<rparr>"

definition anything :: rexp where "anything = Rep 0 None (Cls [(0, 255)])"
definition dots :: rexp where "dots = Rep 0 None (NotCls [(10, 10)])"

record shape =
  sh_name :: string
  sh_pattern :: pattern
  max_len :: nat
  sh_structure :: "string \<Rightarrow> bool"

definition accepts :: "shape \<Rightarrow> string \<Rightarrow> bool" where
  "accepts sh value \<longleftrightarrow> value \<noteq> [] \<and> length value \<le> max_len sh \<and> sh_structure sh value"

definition parse_newtype :: "string \<Rightarrow> shape \<Rightarrow> string \<Rightarrow> error + string" where
  "parse_newtype kind sh value = (if accepts sh value then Inr value else Inl (InvalidValue kind value))"

definition digits :: "nat \<times> nat" where "digits = (48, 57)"
definition uppers :: "nat \<times> nat" where "uppers = (65, 90)"
definition lowers :: "nat \<times> nat" where "lowers = (97, 122)"
definition under :: "nat \<times> nat" where "under = (95, 95)"
definition dash :: "nat \<times> nat" where "dash = (45, 45)"

lemmas range_defs = digits_def uppers_def lowers_def under_def dash_def

definition ULID :: shape where
  "ULID = \<lparr>sh_name = ''ulid'',
     sh_pattern = plain_pattern (Seq (Cls [(48, 55)])
       (Rep 25 (Some 25) (Cls [digits, (65, 72), (74, 75), (77, 78), (80, 84), (86, 90)]))),
     max_len = 26, sh_structure = is_canonical_ulid\<rparr>"

definition DIGEST :: shape where
  "DIGEST = \<lparr>sh_name = ''digest'', sh_pattern = plain_pattern (Rep 1 None (Cls [digits, (97, 102)])),
     max_len = 128, sh_structure = is_hex_digest\<rparr>"

definition OBJECT_ID :: shape where
  "OBJECT_ID = \<lparr>sh_name = ''object id'',
     sh_pattern = plain_pattern (Alt (Rep 40 (Some 40) (Cls [digits, (97, 102)])) (Rep 64 (Some 64) (Cls [digits, (97, 102)]))),
     max_len = 64, sh_structure = is_object_id\<rparr>"

definition SLUG :: shape where
  "SLUG = \<lparr>sh_name = ''slug'',
     sh_pattern = plain_pattern (Seq (Rep 1 None (Cls [lowers, digits]))
       (Rep 0 None (Seq (chr (CHR ''-'')) (Rep 1 None (Cls [lowers, digits]))))),
     max_len = 64, sh_structure = is_slug\<rparr>"

definition SQL_IDENTIFIER :: shape where
  "SQL_IDENTIFIER = \<lparr>sh_name = ''sql identifier'',
     sh_pattern = plain_pattern (Seq (Cls [lowers, under]) (Rep 0 None (Cls [lowers, digits, under]))),
     max_len = 63, sh_structure = is_sql_identifier\<rparr>"

definition BRANCH :: shape where
  "BRANCH = \<lparr>sh_name = ''branch name'',
     sh_pattern = \<lparr>refuses =
        [Seq (Cls [dash, (47, 47)]) anything,
         Seq dots (Seq (Alt (lit ''..'') (Alt (lit ''//'') (lit [CHR ''@'', CHR ''{'']))) anything),
         Seq dots (Cls [(47, 47), (46, 46)]),
         Seq dots (lit ''.lock'')],
       body = Rep 1 None (NotCls
        ([(9, 13), (32, 32), (133, 133), (160, 160)] @ map (\<lambda>c. (code c, code c)) FORBIDDEN @ [(0, 31), (127, 127), (128, 159)]))\<rparr>,
     max_len = 255, sh_structure = is_branch_name\<rparr>"

definition ENV_NAME :: shape where
  "ENV_NAME = \<lparr>sh_name = ''environment variable name'',
     sh_pattern = plain_pattern (Seq (Cls [uppers, under]) (Rep 0 None (Cls [uppers, digits, under]))),
     max_len = 255, sh_structure = is_env_name\<rparr>"

definition TOKEN :: shape where
  "TOKEN = \<lparr>sh_name = ''token'', sh_pattern = plain_pattern (Rep 1 None (Cls [(33, 126)])),
     max_len = 255, sh_structure = is_token\<rparr>"

definition VERSION :: shape where
  "VERSION = \<lparr>sh_name = ''version'',
     sh_pattern = plain_pattern (Seq (Rep 1 (Some 9) (Cls [digits]))
       (Seq (Rep 0 (Some 3) (Seq (chr (CHR ''.'')) (Rep 1 (Some 9) (Cls [digits]))))
         (Rep 0 (Some 1) (Seq (Cls [dash, (43, 43)]) (Rep 1 None (Cls [digits, uppers, lowers, (46, 46), dash])))))),
     max_len = 64, sh_structure = is_version\<rparr>"

definition LINE :: shape where
  "LINE = \<lparr>sh_name = ''line'', sh_pattern = plain_pattern (Rep 1 None (NotCls [(0, 31), (127, 127), (128, 159)])),
     max_len = 255, sh_structure = is_line\<rparr>"

definition SHAPES :: "shape list" where
  "SHAPES = [ULID, DIGEST, OBJECT_ID, SLUG, SQL_IDENTIFIER, ENV_NAME, BRANCH, TOKEN, LINE, VERSION]"

subsection \<open>A byte-wise check of ASCII is a check of the characters\<close>

lemma code_less [simp]: "code c < 256"
  by (metis atLeastLessThan_iff rangeI range_nat_of_char)

lemma utf8_simps [simp]: "utf8 [] = []" "utf8 (c # s) = utf8_char c @ utf8 s"
  by (simp_all add: utf8_def)

lemma utf8_all:
  "(\<And>b. P b \<Longrightarrow> b < 128) \<Longrightarrow> list_all P (utf8 s) \<longleftrightarrow> list_all (\<lambda>c. P (code c)) s"
proof (induction s)
  case (Cons c s)
  have "list_all P (utf8_char c) \<longleftrightarrow> P (code c)"
    using Cons.prems [of "192 + code c div 64"] Cons.prems [of "code c"] by (auto simp: utf8_char_def)
  with Cons show ?case by simp
qed simp

lemma utf8_ascii: "list_all (\<lambda>c. code c < 128) s \<Longrightarrow> utf8 s = map code s"
  by (induction s) (auto simp: utf8_char_def)

lemma utf8_length_all:
  "(\<And>b. P b \<Longrightarrow> b < 128) \<Longrightarrow> list_all P (utf8 s) \<Longrightarrow> utf8 s = map code s"
  using utf8_all [of P s] utf8_ascii [of s] by (auto simp: list_all_iff)

lemma utf8_Nil [simp]: "utf8 s = [] \<longleftrightarrow> s = []"
  by (cases s) (auto simp: utf8_char_def)

text \<open>A first byte of one kind and the others of another, as the identifiers ask.\<close>

lemma utf8_first_rest:
  assumes "\<And>b. P b \<Longrightarrow> b < 128" and "\<And>b. Q b \<Longrightarrow> b < 128"
  shows "(case utf8 s of [] \<Rightarrow> False | b # bs \<Rightarrow> P b \<and> list_all Q bs)
     \<longleftrightarrow> (case s of [] \<Rightarrow> False | c # cs \<Rightarrow> P (code c) \<and> list_all (\<lambda>c. Q (code c)) cs)"
proof (cases s)
  case (Cons c cs)
  with assms(1) [of "192 + code c div 64"] assms(1) [of "code c"] utf8_all [of Q cs, OF assms(2)] show ?thesis
    by (auto simp: utf8_char_def)
qed simp

subsection \<open>What the patterns match\<close>

definition within :: "nat \<Rightarrow> nat option \<Rightarrow> nat \<Rightarrow> bool" where
  "within lo hi n \<longleftrightarrow> lo \<le> n \<and> (case hi of None \<Rightarrow> True | Some h \<Rightarrow> n \<le> h)"

lemma within_simps [simp]: "within lo None n \<longleftrightarrow> lo \<le> n" "within lo (Some h) n \<longleftrightarrow> lo \<le> n \<and> n \<le> h"
  by (simp_all add: within_def)

lemma in_lang_Rep: "s \<in> lang (Rep lo hi r) \<longleftrightarrow> (\<exists>ws. s = concat ws \<and> list_all (\<lambda>w. w \<in> lang r) ws \<and> within lo hi (length ws))"
  by (auto simp: within_def list_all_iff in_lists_conv_set)

lemma lists_singletons:
  "list_all (\<lambda>w. \<exists>c. w = [c] \<and> P c) ws \<longleftrightarrow> (\<exists>s. ws = map (\<lambda>c. [c]) s \<and> list_all P s)"
proof (induction ws)
  case (Cons w ws)
  show ?case
  proof
    assume "list_all (\<lambda>w. \<exists>c. w = [c] \<and> P c) (w # ws)"
    then obtain c s where "w = [c]" "P c" "ws = map (\<lambda>c. [c]) s" "list_all P s" using Cons by auto
    then show "\<exists>s. w # ws = map (\<lambda>c. [c]) s \<and> list_all P s"
      by (intro exI [of _ "c # s"]) simp
  qed (auto simp: list_all_iff)
qed simp

lemma concat_singletons [simp]: "concat (map (\<lambda>c. [c]) s) = s"
  by (induction s) auto

lemma in_lang_Rep_Cls [simp]:
  "s \<in> lang (Rep lo hi (Cls rs)) \<longleftrightarrow> list_all (in_ranges rs) s \<and> within lo hi (length s)"
  unfolding in_lang_Rep by (auto simp: lists_singletons intro!: exI [of _ "map (\<lambda>c. [c]) s"])

lemma in_lang_Rep_NotCls [simp]:
  "s \<in> lang (Rep lo hi (NotCls rs)) \<longleftrightarrow> list_all (\<lambda>c. \<not> in_ranges rs c) s \<and> within lo hi (length s)"
  unfolding in_lang_Rep by (auto simp: lists_singletons intro!: exI [of _ "map (\<lambda>c. [c]) s"])

lemma in_lang_Seq: "s \<in> lang (Seq r q) \<longleftrightarrow> (\<exists>x y. s = x @ y \<and> x \<in> lang r \<and> y \<in> lang q)"
  by auto

declare lang.simps(6) [simp del]

lemma in_ranges_simps [simp]:
  "in_ranges [] c = False" "in_ranges ((lo, hi) # rs) c \<longleftrightarrow> lo \<le> code c \<and> code c \<le> hi \<or> in_ranges rs c"
  "in_ranges (rs @ qs) c \<longleftrightarrow> in_ranges rs c \<or> in_ranges qs c"
  by (simp_all add: in_ranges_def)

lemma in_lang_Cls_Seq: "s \<in> lang (Seq (Cls rs) r) \<longleftrightarrow> (case s of [] \<Rightarrow> False | c # cs \<Rightarrow> in_ranges rs c \<and> cs \<in> lang r)"
proof (cases s)
  case (Cons c cs)
  have "s \<in> lang (Seq (Cls rs) r) \<longleftrightarrow> (\<exists>d y. c # cs = d # y \<and> in_ranges rs d \<and> y \<in> lang r)"
    unfolding Cons by (auto, metis append_Cons append_Nil)
  with Cons show ?thesis by simp
qed simp

lemma in_lang_chr [simp]: "s \<in> lang (chr c) \<longleftrightarrow> s = [c]"
  by (auto simp: chr_def)

lemma lang_lit [simp]: "lang (lit t) = {t}"
proof (induction t)
  case (Cons c t)
  have "s \<in> lang (lit (c # t)) \<longleftrightarrow> s = c # t" for s
  proof -
    have "s \<in> lang (lit (c # t)) \<longleftrightarrow> s \<in> lang (Seq (chr c) (lit t))" by (simp add: lit_def)
    also have "\<dots> \<longleftrightarrow> (\<exists>x y. s = x @ y \<and> x = [c] \<and> y = t)"
      unfolding in_lang_Seq by (simp only: in_lang_chr Cons singleton_iff)
    finally show ?thesis by simp
  qed
  then show ?case by blast
qed (simp add: lit_def)

lemma in_lang_anything [simp]: "s \<in> lang anything"
  by (simp add: anything_def list_all_iff less_Suc_eq_le [symmetric])

lemma in_lang_dots [simp]: "s \<in> lang dots \<longleftrightarrow> list_all (\<lambda>c. code c \<noteq> 10) s"
  by (auto simp: dots_def list_all_iff)

lemma plain_matches [simp]: "matches (plain_pattern r) s \<longleftrightarrow> s \<in> lang r"
  by (simp add: matches_def plain_pattern_def)

subsection \<open>Groups between separators\<close>

lemma split_char_Nil_iff [simp]: "split_char c s \<noteq> []"
  by (induction s) (auto split: list.split)

lemma split_char_groups:
  "list_all (\<lambda>g. c \<notin> set g) (split_char c s)
     \<and> s = hd (split_char c s) @ concat (map (Cons c) (tl (split_char c s)))"
  by (induction s) (auto split: list.split)

lemma split_char_of_groups:
  "c \<notin> set g \<Longrightarrow> list_all (\<lambda>g. c \<notin> set g) gs \<Longrightarrow> split_char c (g @ concat (map (Cons c) gs)) = g # gs"
  by (induction gs arbitrary: g) (auto simp: split_char_none split_char_append)

text \<open>A first group, then groups that each follow a separator, are the parts of a split.\<close>

lemma in_lang_groups:
  assumes r: "\<And>g. g \<in> lang r \<Longrightarrow> c \<notin> set g"
  shows "s \<in> lang (Seq r (Rep 0 hi (Seq (chr c) r)))
     \<longleftrightarrow> list_all (\<lambda>g. g \<in> lang r) (split_char c s) \<and> within 0 hi (length (split_char c s) - 1)"
proof
  have seps: "list_all (\<lambda>w. w \<in> lang (Seq (chr c) r)) ws \<longleftrightarrow> (\<exists>gs. ws = map (Cons c) gs \<and> list_all (\<lambda>g. g \<in> lang r) gs)" for ws
  proof (induction ws)
    case (Cons w ws)
    have "w \<in> lang (Seq (chr c) r) \<longleftrightarrow> (\<exists>g. w = c # g \<and> g \<in> lang r)"
      unfolding in_lang_Seq by simp
    with Cons show ?case by (auto simp: Cons_eq_map_conv simp del: lang.simps)
  qed simp
  assume "s \<in> lang (Seq r (Rep 0 hi (Seq (chr c) r)))"
  then obtain g gs where s: "s = g @ concat (map (Cons c) gs)" "g \<in> lang r" "list_all (\<lambda>g. g \<in> lang r) gs"
    and w: "within 0 hi (length gs)"
  proof -
    from \<open>s \<in> _\<close> obtain g ws where s: "s = g @ concat ws" "g \<in> lang r"
      and ws: "list_all (\<lambda>w. w \<in> lang (Seq (chr c) r)) ws" "within 0 hi (length ws)"
      unfolding in_lang_Seq [of _ r] in_lang_Rep by blast
    from ws(1) obtain gs where "ws = map (Cons c) gs" "list_all (\<lambda>g. g \<in> lang r) gs"
      unfolding seps by blast
    with s ws(2) that show thesis by simp
  qed
  with r have "split_char c s = g # gs" by (auto intro!: split_char_of_groups simp: list_all_iff)
  with s w show "list_all (\<lambda>g. g \<in> lang r) (split_char c s) \<and> within 0 hi (length (split_char c s) - 1)" by simp
next
  assume a: "list_all (\<lambda>g. g \<in> lang r) (split_char c s) \<and> within 0 hi (length (split_char c s) - 1)"
  obtain g gs where g: "split_char c s = g # gs" by (meson split_char_Nil_iff list.exhaust)
  with split_char_groups [of c s] have "s = g @ concat (map (Cons c) gs)" by simp
  moreover have "list_all (\<lambda>w. w \<in> lang (Seq (chr c) r)) (map (Cons c) gs)"
    using a g unfolding list_all_iff in_lang_Seq by auto
  ultimately show "s \<in> lang (Seq r (Rep 0 hi (Seq (chr c) r)))"
    unfolding in_lang_Seq [of _ r] in_lang_Rep using a g
    by (intro exI [of _ g] exI [of _ "concat (map (Cons c) gs)"] conjI exI [of _ "map (Cons c) gs"]) auto
qed

text \<open>No part is empty where no separator is first, last or beside another.\<close>

lemma split_char_nonempty:
  "list_all (\<lambda>g. g \<noteq> []) (split_char c s) \<longleftrightarrow> s \<noteq> [] \<and> \<not> prefix [c] s \<and> \<not> suffix [c] s \<and> \<not> sublist [c, c] s"
proof -
  have "(list_all (\<lambda>g. g \<noteq> []) (tl (split_char c s)) \<longleftrightarrow> \<not> suffix [c] s \<and> \<not> sublist [c, c] s)
      \<and> (hd (split_char c s) = [] \<longleftrightarrow> s = [] \<or> prefix [c] s)"
  proof (induction s)
    case (Cons x s)
    then show ?case
      by (cases "split_char c s") (auto simp: sublist_Cons_right suffix_Cons split: list.splits)
  qed simp
  then show ?thesis by (cases "split_char c s") auto
qed

lemma split_char_all: "\<not> P c \<Longrightarrow> list_all (list_all P) (split_char c s) \<longleftrightarrow> list_all (\<lambda>x. P x \<or> x = c) s"
  by (induction s) (auto split: list.split)

subsection \<open>Each validator and its pattern\<close>

definition agree :: "shape \<Rightarrow> bool" where
  "agree sh \<longleftrightarrow> (\<forall>v. accepts sh v \<longleftrightarrow> matches (sh_pattern sh) v \<and> length v \<le> max_len sh)"

lemma ascii_below [simp]:
  "is_ascii_digit b \<Longrightarrow> b < 128" "is_ascii_uppercase b \<Longrightarrow> b < 128" "is_ascii_lowercase b \<Longrightarrow> b < 128"
  by (simp_all add: byte_defs)

lemma agreeI:
  assumes "\<And>v. v \<noteq> [] \<Longrightarrow> length v \<le> max_len sh \<Longrightarrow> sh_structure sh v \<longleftrightarrow> matches (sh_pattern sh) v"
    and "\<not> matches (sh_pattern sh) []"
  shows "agree sh"
  unfolding agree_def accepts_def using assms by metis

lemma is_hex_digest_chars: "is_hex_digest s \<longleftrightarrow> list_all (in_ranges [digits, (97, 102)]) s"
proof -
  have "is_hex_digest s \<longleftrightarrow> list_all (\<lambda>c. is_ascii_digit (code c) \<or> 97 \<le> code c \<and> code c \<le> 102) s"
    unfolding is_hex_digest_def by (rule utf8_all) (auto simp: byte_defs)
  then show ?thesis by (simp add: byte_defs range_defs list_all_iff)
qed

lemma is_token_chars: "is_token s \<longleftrightarrow> list_all (in_ranges [(33, 126)]) s"
proof -
  have "is_token s \<longleftrightarrow> list_all (\<lambda>c. 33 \<le> code c \<and> code c \<le> 126) s"
    unfolding is_token_def by (rule utf8_all) simp
  then show ?thesis by (simp add: list_all_iff)
qed

lemma agree_DIGEST: "agree DIGEST"
  by (rule agreeI) (simp_all add: DIGEST_def is_hex_digest_chars Suc_le_eq)

lemma agree_TOKEN: "agree TOKEN"
  by (rule agreeI) (simp_all add: TOKEN_def is_token_chars Suc_le_eq)

lemma agree_LINE: "agree LINE"
  by (rule agreeI) (auto simp: LINE_def is_line_def is_control_def list_ex_iff list_all_iff Suc_le_eq)

lemma hex_utf8: "is_hex_digest s \<Longrightarrow> utf8 s = map code s"
  unfolding is_hex_digest_def by (rule utf8_length_all) (auto simp: byte_defs)

lemma agree_OBJECT_ID: "agree OBJECT_ID"
proof (rule agreeI)
  fix v :: string
  have "is_object_id v \<longleftrightarrow> is_hex_digest v \<and> length v \<in> {40, 64}"
    using hex_utf8 [of v] by (auto simp: is_object_id_def)
  then show "sh_structure OBJECT_ID v \<longleftrightarrow> matches (sh_pattern OBJECT_ID) v"
    by (auto simp: OBJECT_ID_def is_hex_digest_chars)
qed (simp add: OBJECT_ID_def)

lemma is_env_name_chars:
  "is_env_name s \<longleftrightarrow> (case s of [] \<Rightarrow> False | c # cs \<Rightarrow>
     in_ranges [uppers, under] c \<and> list_all (in_ranges [uppers, digits, under]) cs)"
proof -
  have c: "in_ranges [uppers, under] = (\<lambda>c. is_ascii_uppercase (code c) \<or> code c = code (CHR ''_''))"
    "in_ranges [uppers, digits, under]
      = (\<lambda>c. is_ascii_uppercase (code c) \<or> is_ascii_digit (code c) \<or> code c = code (CHR ''_''))"
    by (auto simp: range_defs byte_defs fun_eq_iff)
  show ?thesis
    unfolding is_env_name_def c by (rule utf8_first_rest) (auto simp: byte_defs)
qed

lemma is_sql_identifier_chars:
  "is_sql_identifier s \<longleftrightarrow> (case s of [] \<Rightarrow> False | c # cs \<Rightarrow>
     in_ranges [lowers, under] c \<and> list_all (in_ranges [lowers, digits, under]) cs)"
proof -
  have c: "in_ranges [lowers, under] = (\<lambda>c. is_ascii_lowercase (code c) \<or> code c = code (CHR ''_''))"
    "in_ranges [lowers, digits, under]
      = (\<lambda>c. is_ascii_lowercase (code c) \<or> is_ascii_digit (code c) \<or> code c = code (CHR ''_''))"
    by (auto simp: range_defs byte_defs fun_eq_iff)
  show ?thesis
    unfolding is_sql_identifier_def c by (rule utf8_first_rest) (auto simp: byte_defs)
qed

lemma agree_ENV_NAME: "agree ENV_NAME"
  by (rule agreeI)
    (simp_all add: ENV_NAME_def is_env_name_chars in_lang_Cls_Seq del: lang.simps in_ranges_simps split: list.split)

lemma agree_SQL_IDENTIFIER: "agree SQL_IDENTIFIER"
  by (rule agreeI)
    (simp_all add: SQL_IDENTIFIER_def is_sql_identifier_chars in_lang_Cls_Seq del: lang.simps in_ranges_simps split: list.split)

lemma is_canonical_ulid_chars:
  "is_canonical_ulid v \<longleftrightarrow> length v = 26 \<and> 48 \<le> code (v ! 0) \<and> code (v ! 0) \<le> 55
     \<and> list_all (\<lambda>c. is_crockford_upper (code c)) v"
proof -
  have up: "is_crockford_upper b \<Longrightarrow> b < 128" for b by (auto simp: is_crockford_upper_def)
  show ?thesis
  proof (cases "list_all is_crockford_upper (utf8 v)")
    case True
    with utf8_length_all [of is_crockford_upper v, OF up] have "utf8 v = map code v" by blast
    then show ?thesis using True by (auto simp: is_canonical_ulid_def Let_def list.pred_map comp_def)
  next
    case False
    then show ?thesis
      using utf8_all [of is_crockford_upper v, OF up] by (simp add: is_canonical_ulid_def Let_def)
  qed
qed

lemma agree_ULID: "agree ULID"
proof (rule agreeI)
  fix v :: string
  let ?cls = "[digits, (65, 72), (74, 75), (77, 78), (80, 84), (86, 90)]"
  have cls: "(\<lambda>c. is_crockford_upper (code c)) = in_ranges ?cls"
    by (auto simp: is_crockford_upper_def byte_defs range_defs fun_eq_iff)
  have first: "in_ranges ?cls c" if "48 \<le> code c" "code c \<le> 55" for c
    using that by (simp add: range_defs)
  have "is_canonical_ulid v \<longleftrightarrow> (case v of [] \<Rightarrow> False | c # cs \<Rightarrow>
      in_ranges [(48, 55)] c \<and> list_all (in_ranges ?cls) cs \<and> within 25 (Some 25) (length cs))"
    unfolding is_canonical_ulid_chars cls
    by (cases v) (auto simp del: in_ranges_simps(2) simp: in_ranges_simps(2) [of 48] intro: first)
  then show "sh_structure ULID v \<longleftrightarrow> matches (sh_pattern ULID) v"
    unfolding ULID_def shape.simps plain_matches in_lang_Cls_Seq in_lang_Rep_Cls .
qed (simp add: ULID_def)

lemma is_slug_chars:
  "is_slug s \<longleftrightarrow> \<not> prefix ''-'' s \<and> \<not> suffix ''-'' s \<and> \<not> sublist ''--'' s
     \<and> list_all (\<lambda>c. in_ranges [lowers, digits] c \<or> c = CHR ''-'') s"
proof -
  have c: "in_ranges [lowers, digits] c \<or> c = CHR ''-''
      \<longleftrightarrow> is_ascii_lowercase (code c) \<or> is_ascii_digit (code c) \<or> code c = code (CHR ''-'')" for c
    using of_char_eq_iff [where 'a = nat, of c "CHR ''-''"] by (simp add: range_defs byte_defs)
  have "list_all (\<lambda>b. is_ascii_lowercase b \<or> is_ascii_digit b \<or> b = code (CHR ''-'')) (utf8 s)
      \<longleftrightarrow> list_all (\<lambda>c. is_ascii_lowercase (code c) \<or> is_ascii_digit (code c) \<or> code c = code (CHR ''-'')) s"
    by (rule utf8_all) (auto simp: byte_defs)
  then show ?thesis unfolding is_slug_def c by simp
qed

lemma agree_SLUG: "agree SLUG"
proof (rule agreeI)
  fix v :: string
  assume "v \<noteq> []"
  let ?r = "Rep 1 None (Cls [lowers, digits])"
  have no: "CHR ''-'' \<notin> set g" if "g \<in> lang ?r" for g
    using that by (auto simp: list_all_iff range_defs)
  have lang_v: "v \<in> lang (Seq ?r (Rep 0 None (Seq (chr (CHR ''-'')) ?r)))
      \<longleftrightarrow> list_all (\<lambda>g. g \<in> lang ?r) (split_char (CHR ''-'') v)"
    using in_lang_groups [where r = ?r, OF no] by simp
  have "list_all (\<lambda>g. g \<in> lang ?r) gs
      \<longleftrightarrow> list_all (\<lambda>g. g \<noteq> []) gs \<and> list_all (list_all (in_ranges [lowers, digits])) gs" for gs
    by (induction gs) (auto simp: Suc_le_eq)
  moreover have "\<not> in_ranges [lowers, digits] (CHR ''-'')" by (simp add: range_defs)
  ultimately show "sh_structure SLUG v \<longleftrightarrow> matches (sh_pattern SLUG) v"
    using \<open>v \<noteq> []\<close> lang_v unfolding SLUG_def shape.simps plain_matches is_slug_chars
    by (simp add: split_char_nonempty split_char_all del: lang.simps)
next
  show "\<not> matches (sh_pattern SLUG) []"
    by (auto simp: SLUG_def)
qed

lemma sound_group_lang: "sound_group g \<longleftrightarrow> g \<in> lang (Rep 1 (Some 9) (Cls [digits]))"
proof -
  have "list_all is_ascii_digit (utf8 g) \<longleftrightarrow> list_all (in_ranges [digits]) g"
    using utf8_all [of is_ascii_digit g] by (simp add: byte_defs range_defs list_all_iff)
  moreover have "list_all is_ascii_digit (utf8 g) \<Longrightarrow> utf8 g = map code g"
    by (rule utf8_length_all [of is_ascii_digit]) simp_all
  ultimately show ?thesis by (auto simp: sound_group_def)
qed

definition tail_class :: "(nat \<times> nat) list" where
  "tail_class = [digits, uppers, lowers, (46, 46), dash]"

lemma tail_chars:
  "list_all (\<lambda>b. is_ascii_alphanumeric b \<or> b = code (CHR ''.'') \<or> b = code (CHR ''-'')) (utf8 s)
     \<longleftrightarrow> list_all (in_ranges tail_class) s"
proof -
  have c: "in_ranges tail_class
      = (\<lambda>c. is_ascii_alphanumeric (code c) \<or> code c = code (CHR ''.'') \<or> code c = code (CHR ''-''))"
    by (auto simp: tail_class_def range_defs byte_defs fun_eq_iff)
  show ?thesis unfolding c by (rule utf8_all) (auto simp: byte_defs)
qed

text \<open>The cut of a version: where the first part holds no mark and the rest is empty or begins with one.\<close>

lemma cut_at_mark:
  "list_all (\<lambda>c. \<not> P c) x \<Longrightarrow> y = [] \<or> P (hd y) \<Longrightarrow> takeWhile (\<lambda>c. \<not> P c) (x @ y) = x \<and> dropWhile (\<lambda>c. \<not> P c) (x @ y) = y"
proof (induction x)
  case Nil
  then show ?case by (cases y) auto
qed auto

lemma agree_VERSION: "agree VERSION"
proof (rule agreeI)
  fix v :: string
  let ?g = "Rep 1 (Some 9) (Cls [digits])"
  let ?head = "Seq ?g (Rep 0 (Some 3) (Seq (chr (CHR ''.'')) ?g))"
  let ?mark = "\<lambda>c. c \<in> {CHR ''-'', CHR ''+''}"
  let ?tail = "Rep 0 (Some 1) (Seq (Cls [dash, (43, 43)]) (Rep 1 None (Cls tail_class)))"
  have no: "CHR ''.'' \<notin> set g" if "g \<in> lang ?g" for g
    using that by (auto simp: list_all_iff range_defs)
  have mark: "in_ranges [dash, (43, 43)] c \<longleftrightarrow> ?mark c" for c
    using of_char_eq_iff [where 'a = nat, of c "CHR ''-''"] of_char_eq_iff [where 'a = nat, of c "CHR ''+''"]
    by (auto simp: range_defs)
  have tail: "y \<in> lang ?tail \<longleftrightarrow> y = [] \<or> ?mark (hd y) \<and> tl y \<noteq> [] \<and> list_all (in_ranges tail_class) (tl y)" for y
  proof -
    have "y \<in> lang ?tail \<longleftrightarrow> y = [] \<or> y \<in> lang (Seq (Cls [dash, (43, 43)]) (Rep 1 None (Cls tail_class)))"
      unfolding in_lang_Rep [of _ 0]
      by (auto simp: le_Suc_eq length_Suc_conv simp del: lang.simps intro: exI [of _ "[]"] exI [of _ "[y]"])
    then show ?thesis
      by (cases y) (simp_all add: in_lang_Cls_Seq mark Suc_le_eq del: lang.simps in_ranges_simps, blast)
  qed
  have head: "x \<in> lang ?head \<longleftrightarrow> list_all sound_group (split_char (CHR ''.'') x) \<and> length (split_char (CHR ''.'') x) \<le> 4" for x
    using in_lang_groups [where r = ?g and s = x and hi = "Some 3", OF no]
    unfolding sound_group_lang by (simp only: within_simps) linarith
  have plain: "list_all (\<lambda>c. \<not> ?mark c) x" if "x \<in> lang ?head" for x
  proof -
    have "list_all (list_all (in_ranges [digits])) (split_char (CHR ''.'') x)"
      using that unfolding head by (auto simp: list_all_iff sound_group_lang)
    then have "list_all (\<lambda>c. in_ranges [digits] c \<or> c = CHR ''.'') x"
      by (subst (asm) split_char_all) (simp_all add: range_defs)
    then show ?thesis by (auto simp: list_all_iff range_defs)
  qed
  define x y where "x = takeWhile (\<lambda>c. \<not> ?mark c) v" and "y = dropWhile (\<lambda>c. \<not> ?mark c) v"
  have v: "v = x @ y" by (simp add: x_def y_def)
  have y: "y = [] \<or> ?mark (hd y)" using hd_dropWhile [of "\<lambda>c. \<not> ?mark c" v] by (auto simp: y_def)
  have len: "1 < length (utf8 y)
      \<and> list_all (\<lambda>b. is_ascii_alphanumeric b \<or> b = code (CHR ''.'') \<or> b = code (CHR ''-'')) (tl (utf8 y))
      \<longleftrightarrow> tl y \<noteq> [] \<and> list_all (in_ranges tail_class) (tl y)" if "y \<noteq> []"
    unfolding tail_chars [symmetric] using that y by (cases y) (auto simp: utf8_char_def)
  have "is_version v \<longleftrightarrow> x \<in> lang ?head \<and> y \<in> lang ?tail"
    using y unfolding is_version_def Let_def x_def [symmetric] y_def [symmetric] head tail
    using len length_greater_0_conv [of "split_char (CHR ''.'') x"]
    by (cases "y = []") (simp_all only: refl simp_thms hd_Cons_tl Suc_le_eq One_nat_def split_char_Nil_iff, blast+)
  also have "\<dots> \<longleftrightarrow> v \<in> lang (Seq ?head ?tail)"
  proof
    assume "v \<in> lang (Seq ?head ?tail)"
    then obtain a b where ab: "v = a @ b" "a \<in> lang ?head" "b \<in> lang ?tail" unfolding in_lang_Seq [of _ ?head] by blast
    then have "b = [] \<or> ?mark (hd b)" unfolding tail by blast
    with cut_at_mark [of ?mark a b] plain [OF ab(2)] ab(1) have "x = a \<and> y = b" by (simp add: x_def y_def)
    with ab show "x \<in> lang ?head \<and> y \<in> lang ?tail" by simp
  next
    assume "x \<in> lang ?head \<and> y \<in> lang ?tail"
    then show "v \<in> lang (Seq ?head ?tail)" unfolding in_lang_Seq [of _ ?head] using v by blast
  qed
  also have "\<dots> \<longleftrightarrow> v \<in> lang (body (sh_pattern VERSION))"
    by (auto simp: VERSION_def plain_pattern_def tail_class_def) (metis append_assoc)+
  finally show "sh_structure VERSION v \<longleftrightarrow> matches (sh_pattern VERSION) v"
    by (simp add: VERSION_def plain_pattern_def matches_def)
qed (auto simp: VERSION_def)

lemma rsplit_lock:
  "(case rsplit_once (CHR ''.'') v of Some (_, b) \<Rightarrow> b = ''lock'' | None \<Rightarrow> False) \<longleftrightarrow> suffix ''.lock'' v"
proof (cases "CHR ''.'' \<in> set v")
  case True
  then obtain a b where v: "v = a @ CHR ''.'' # b" "CHR ''.'' \<notin> set b" by (metis split_list_last)
  have "suffix ''.lock'' v \<Longrightarrow> b = ''lock''"
  proof -
    assume "suffix ''.lock'' v"
    then obtain u where u: "v = u @ CHR ''.'' # ''lock''" by (auto simp: suffix_def)
    then have "rsplit_once (CHR ''.'') v = Some (u, ''lock'')" by (simp only:) (rule rsplit_once_append, simp)
    with v show "b = ''lock''" by simp
  qed
  moreover have "b = ''lock'' \<Longrightarrow> suffix ''.lock'' v" unfolding v(1) by (simp add: suffix_def)
  moreover have "rsplit_once (CHR ''.'') v = Some (a, b)" unfolding v(1) using v(2) by (rule rsplit_once_append)
  ultimately show ?thesis by auto
next
  case False
  then have "\<not> suffix ''.lock'' v" by (auto simp: suffix_def)
  with False show ?thesis by simp
qed

lemma ascii_code_iff: "code c = code d \<longleftrightarrow> c = d"
  by simp

definition branch_class :: "(nat \<times> nat) list" where
  "branch_class = [(9, 13), (32, 32), (133, 133), (160, 160)] @ map (\<lambda>c. (code c, code c)) FORBIDDEN @ [(0, 31), (127, 127), (128, 159)]"

lemma in_ranges_singles [simp]: "in_ranges (map (\<lambda>c. (code c, code c)) cs) c \<longleftrightarrow> c \<in> set cs"
proof (induction cs)
  case (Cons d cs)
  have "code d \<le> code c \<and> code c \<le> code d \<longleftrightarrow> c = d" using ascii_code_iff [of c d] by linarith
  with Cons show ?case by (simp only: list.map in_ranges_simps(2)) auto
qed simp

lemma branch_class_iff:
  "in_ranges branch_class c \<longleftrightarrow> is_whitespace (code c) \<or> is_control (code c) \<or> c \<in> set FORBIDDEN"
  unfolding branch_class_def in_ranges_simps in_ranges_singles is_whitespace_def is_control_def by auto

lemma in_lang_dots_Seq:
  "list_all (\<lambda>c. code c \<noteq> 10) s \<Longrightarrow> s \<in> lang (Seq dots r) \<longleftrightarrow> (\<exists>u w. s = u @ w \<and> w \<in> lang r)"
  unfolding in_lang_Seq in_lang_dots list_all_iff by (metis Un_iff set_append)

lemma agree_BRANCH: "agree BRANCH"
proof (rule agreeI)
  fix v :: string
  assume ne: "v \<noteq> []"
  let ?plain = "\<not> list_ex (\<lambda>c. is_whitespace (code c) \<or> is_control (code c) \<or> c \<in> set FORBIDDEN) v"
  have body: "v \<in> lang (Rep 1 None (NotCls branch_class)) \<longleftrightarrow> ?plain"
    using ne by (auto simp: branch_class_iff list_all_iff list_ex_iff Suc_le_eq)
  have lit_any: "w \<in> lang (Seq (lit t) anything) \<longleftrightarrow> prefix t w" for t w
    unfolding in_lang_Seq by (auto simp: prefix_def)
  have alts: "w \<in> lang (Seq (Alt (lit ''..'') (Alt (lit ''//'') (lit [CHR ''@'', CHR ''{'']))) anything)
      \<longleftrightarrow> prefix ''..'' w \<or> prefix ''//'' w \<or> prefix [CHR ''@'', CHR ''{''] w" for w
  proof -
    have "w \<in> lang (Seq (Alt r (Alt p q)) anything)
        \<longleftrightarrow> w \<in> lang (Seq r anything) \<or> w \<in> lang (Seq p anything) \<or> w \<in> lang (Seq q anything)" for r p q
      unfolding in_lang_Seq lang.simps(5) Un_iff by blast
    then show ?thesis by (simp only: lit_any)
  qed
  have ends: "w \<in> lang (Cls [(47, 47), (46, 46)]) \<longleftrightarrow> w = ''/'' \<or> w = ''.''" for w
  proof -
    have "[(47, 47), (46, 46)] = map (\<lambda>c. (code c, code c)) ''/.''" by simp
    then have "w \<in> lang (Cls [(47, 47), (46, 46)]) \<longleftrightarrow> (\<exists>c. w = [c] \<and> c \<in> set ''/.'')"
      unfolding lang.simps(2) mem_Collect_eq by (simp only: in_ranges_singles)
    then show ?thesis by auto
  qed
  have sub: "(\<exists>u w. v = u @ w \<and> (prefix a w \<or> prefix b w \<or> prefix d w)) \<longleftrightarrow> sublist a v \<or> sublist b v \<or> sublist d v" for a b d
    unfolding sublist_def prefix_def by blast
  have "matches (sh_pattern BRANCH) v \<longleftrightarrow> ?plain
      \<and> \<not> (prefix ''-'' v \<or> prefix ''/'' v) \<and> \<not> (sublist ''..'' v \<or> sublist ''//'' v \<or> sublist [CHR ''@'', CHR ''{''] v)
      \<and> \<not> (suffix ''/'' v \<or> suffix ''.'' v) \<and> \<not> suffix ''.lock'' v" (is "?m \<longleftrightarrow> ?plain \<and> ?rest")
  proof (cases ?plain)
    case True
    then have nl: "list_all (\<lambda>c. code c \<noteq> 10) v" by (auto simp: list_all_iff list_ex_iff is_whitespace_def)
    have first: "v \<in> lang (Seq (Cls [dash, (47, 47)]) anything) \<longleftrightarrow> prefix ''-'' v \<or> prefix ''/'' v"
    proof -
      have "[dash, (47, 47)] = map (\<lambda>c. (code c, code c)) ''-/''" by (simp add: dash_def)
      then have "in_ranges [dash, (47, 47)] c \<longleftrightarrow> c \<in> set ''-/''" for c by (simp only: in_ranges_singles)
      then show ?thesis unfolding in_lang_Cls_Seq by (cases v) (simp_all del: in_ranges_simps, blast)
    qed
    have "?m \<longleftrightarrow> ?plain \<and> \<not> (prefix ''-'' v \<or> prefix ''/'' v)
      \<and> \<not> (\<exists>u w. v = u @ w \<and> (prefix ''..'' w \<or> prefix ''//'' w \<or> prefix [CHR ''@'', CHR ''{''] w))
      \<and> \<not> (\<exists>u w. v = u @ w \<and> (w = ''/'' \<or> w = ''.'')) \<and> \<not> (\<exists>u w. v = u @ w \<and> w = ''.lock'')"
      unfolding matches_def BRANCH_def shape.simps pattern.simps list.pred_inject branch_class_def [symmetric] body
        first in_lang_dots_Seq [OF nl] alts ends lang_lit singleton_iff by simp
    then show ?thesis unfolding sub by (auto simp: suffix_def)
  next
    case False
    then show ?thesis
      unfolding matches_def BRANCH_def shape.simps pattern.simps branch_class_def [symmetric] body by simp
  qed
  then show "sh_structure BRANCH v \<longleftrightarrow> matches (sh_pattern BRANCH) v"
    by (auto simp: BRANCH_def is_branch_name_def rsplit_lock)
qed (simp add: BRANCH_def matches_def)

text \<open>
  C27. The validator of every shape and the regular expression published for it accept the same
  texts, up to the published length: what the test of the source samples holds for every text.
\<close>

theorem shapes_agree_with_their_patterns:
  "list_all (\<lambda>sh. \<forall>v. accepts sh v \<longleftrightarrow> matches (sh_pattern sh) v \<and> length v \<le> max_len sh) SHAPES"
proof -
  note agree_ULID agree_DIGEST agree_OBJECT_ID agree_SLUG agree_SQL_IDENTIFIER agree_ENV_NAME agree_BRANCH
    agree_TOKEN agree_LINE agree_VERSION
  then have "list_all agree SHAPES" by (simp add: SHAPES_def)
  then show ?thesis by (simp add: agree_def [abs_def])
qed

end
