(* ===== verification/Ports.thy ===== *)
theory Ports
  imports Text
begin

text \<open>
  \<open>services/ports.rs\<close> over the tables of \<open>store/port_blocks.rs\<close>, \<open>store/port_allocations.rs\<close> and
  \<open>store/leases.rs\<close>: the block a project hands ports out from, the port an environment holds
  under a name, and the lease on a port the project pins. A port is a 16-bit word, as it is in
  the code. Each statement is a function on the rows of one connection; the keys the schema
  declares unique are what its \<open>ON CONFLICT\<close> clauses read.
\<close>

type_synonym port = "16 word"
type_synonym project_id = nat
type_synonym env_id = nat

definition RANGE_FIRST :: port where "RANGE_FIRST = 20000"
definition RANGE_LAST :: port where "RANGE_LAST = 29999"
definition BLOCK_SPAN :: port where "BLOCK_SPAN = 100"
definition HASH_FIRST :: port where "HASH_FIRST = 30000"
definition HASH_LAST :: port where "HASH_LAST = 32767"
definition RESOURCE_KIND :: string where "RESOURCE_KIND = ''port:''"
definition CLAIM_ATTEMPTS :: nat where "CLAIM_ATTEMPTS = 3"

datatype port_error =
    PortBlockRangeFull port port
  | PortBlockFull env_id port port
  | PortFixedContended port nat
  | StoreMissingRow string string
  | PortStoreConflict string
  | PortStore string
  | PortInvalid string string
  | PortPanic string

subsection \<open>The rows\<close>

record port_block =
  pb_project :: project_id
  pb_first :: port
  pb_last :: port

definition block_contains :: "port_block \<Rightarrow> port \<Rightarrow> bool" where
  "block_contains b p \<longleftrightarrow> pb_first b \<le> p \<and> p \<le> pb_last b"

definition block_ports :: "port_block \<Rightarrow> port list" where
  "block_ports b = map word_of_nat [unat (pb_first b)..<Suc (unat (pb_last b))]"

record port_allocation =
  pa_port :: port
  pa_project :: project_id
  pa_env :: env_id
  pa_name :: string

record lease =
  le_resource :: string
  le_env :: env_id
  le_expires :: timestamp

record ports_db =
  db_blocks :: "port_block list"
  db_allocations :: "port_allocation list"
  db_leases :: "lease list"
  db_unit_of :: "env_id \<Rightarrow> unit_id option"
  db_slug_of :: "unit_id \<Rightarrow> string option"

subsection \<open>\<open>store/port_blocks.rs\<close>\<close>

definition blocks_insert :: "port_block \<Rightarrow> ports_db \<Rightarrow> (port_error + unit) \<times> ports_db" where
  "blocks_insert b db =
     (if list_ex (\<lambda>x. pb_project x = pb_project b \<or> pb_first x = pb_first b) (db_blocks db)
      then (Inl (PortStoreConflict ''port_block''), db)
      else if pb_first b = 0 \<or> pb_last b < pb_first b then (Inl (PortStore ''CHECK constraint failed''), db)
      else (Inr (), db\<lparr>db_blocks := db_blocks db @ [b]\<rparr>))"

definition blocks_get :: "project_id \<Rightarrow> ports_db \<Rightarrow> port_block option" where
  "blocks_get p db = List.find (\<lambda>b. pb_project b = p) (db_blocks db)"

definition blocks_list :: "ports_db \<Rightarrow> port_block list" where
  "blocks_list db = sort_key pb_first (db_blocks db)"

subsection \<open>\<open>store/port_allocations.rs\<close>\<close>

definition alloc_claim :: "port_allocation \<Rightarrow> ports_db \<Rightarrow> (port_error + bool) \<times> ports_db" where
  "alloc_claim a db =
     (if pa_port a = 0 then (Inl (PortStore ''CHECK constraint failed''), db)
      else if list_ex (\<lambda>x. pa_port x = pa_port a \<or> pa_env x = pa_env a \<and> pa_name x = pa_name a) (db_allocations db)
      then (Inr False, db)
      else (Inr True, db\<lparr>db_allocations := db_allocations db @ [a]\<rparr>))"

definition alloc_get :: "port \<Rightarrow> ports_db \<Rightarrow> port_allocation option" where
  "alloc_get p db = List.find (\<lambda>a. pa_port a = p) (db_allocations db)"

definition alloc_of_env :: "env_id \<Rightarrow> ports_db \<Rightarrow> port_allocation list" where
  "alloc_of_env e db = sort_key pa_port (filter (\<lambda>a. pa_env a = e) (db_allocations db))"

definition alloc_in_range :: "port \<Rightarrow> port \<Rightarrow> ports_db \<Rightarrow> port_allocation list" where
  "alloc_in_range lo hi db =
     sort_key pa_port (filter (\<lambda>a. lo \<le> pa_port a \<and> pa_port a \<le> hi) (db_allocations db))"

definition alloc_by_name :: "env_id \<Rightarrow> string \<Rightarrow> ports_db \<Rightarrow> port_allocation option" where
  "alloc_by_name e name db = List.find (\<lambda>a. pa_env a = e \<and> pa_name a = name) (db_allocations db)"

definition alloc_release_all :: "env_id \<Rightarrow> ports_db \<Rightarrow> nat \<times> ports_db" where
  "alloc_release_all e db =
     (length (filter (\<lambda>a. pa_env a = e) (db_allocations db)),
      db\<lparr>db_allocations := filter (\<lambda>a. pa_env a \<noteq> e) (db_allocations db)\<rparr>)"

subsection \<open>\<open>store/leases.rs\<close>\<close>

definition lease_acquire :: "lease \<Rightarrow> timestamp \<Rightarrow> ports_db \<Rightarrow> bool \<times> ports_db" where
  "lease_acquire l now db =
     (case List.find (\<lambda>x. le_resource x = le_resource l) (db_leases db) of
        None \<Rightarrow> (True, db\<lparr>db_leases := db_leases db @ [l]\<rparr>)
      | Some x \<Rightarrow>
          if le_expires x \<le> now \<or> le_env x = le_env l
          then (True, db\<lparr>db_leases := map (\<lambda>x. if le_resource x = le_resource l then l else x) (db_leases db)\<rparr>)
          else (False, db))"

definition lease_get :: "string \<Rightarrow> ports_db \<Rightarrow> lease option" where
  "lease_get r db = List.find (\<lambda>x. le_resource x = r) (db_leases db)"

definition leases_of_env :: "env_id \<Rightarrow> ports_db \<Rightarrow> lease list" where
  "leases_of_env e db = sort_key le_resource (filter (\<lambda>x. le_env x = e) (db_leases db))"

definition leases_expired :: "timestamp \<Rightarrow> ports_db \<Rightarrow> lease list" where
  "leases_expired now db = sort_key le_resource (filter (\<lambda>x. le_expires x \<le> now) (db_leases db))"

definition lease_release :: "string \<Rightarrow> env_id \<Rightarrow> ports_db \<Rightarrow> bool \<times> ports_db" where
  "lease_release r holder db =
     (list_ex (\<lambda>x. le_resource x = r \<and> le_env x = holder) (db_leases db),
      db\<lparr>db_leases := filter (\<lambda>x. \<not> (le_resource x = r \<and> le_env x = holder)) (db_leases db)\<rparr>)"

subsection \<open>\<open>services/ports.rs\<close>: blocks\<close>

lemma unat_next_block: "unat first \<le> 29900 \<Longrightarrow> unat (first + 100 :: port) = unat first + 100"
  by (subst unat_plus_simple [THEN iffD1]) (simp_all add: word_le_nat_alt unat_word_ariths)

text \<open>The loop of \<open>free_block\<close> from one port on; the sum is taken in 32 bits and so does not wrap.\<close>

function free_from :: "port list \<Rightarrow> project_id \<Rightarrow> port \<Rightarrow> port_error + port_block" where
  "free_from starts p first =
     (if unat first + unat BLOCK_SPAN - 1 \<le> unat RANGE_LAST
      then if first \<notin> set starts then Inr \<lparr>pb_project = p, pb_first = first, pb_last = first + BLOCK_SPAN - 1\<rparr>
           else free_from starts p (first + BLOCK_SPAN)
      else Inl (PortBlockRangeFull RANGE_FIRST RANGE_LAST))"
  by pat_completeness auto

termination
  by (relation "measure (\<lambda>(_, _, first). 65536 - unat (first :: port))")
    (auto simp: unat_next_block RANGE_LAST_def BLOCK_SPAN_def)

declare free_from.simps [simp del]

lemma range_unats: "unat RANGE_FIRST = 20000" "unat RANGE_LAST = 29999" "unat BLOCK_SPAN = 100"
  by (simp_all add: RANGE_FIRST_def RANGE_LAST_def BLOCK_SPAN_def)

lemma free_from_step:
  "free_from starts p first =
     (if unat first \<le> 29900
      then if first \<notin> set starts then Inr \<lparr>pb_project = p, pb_first = first, pb_last = first + 99\<rparr>
           else free_from starts p (first + 100)
      else Inl (PortBlockRangeFull RANGE_FIRST RANGE_LAST))"
proof -
  have "first + BLOCK_SPAN - 1 = first + 99" by (simp add: BLOCK_SPAN_def)
  moreover have "unat first + unat BLOCK_SPAN - 1 \<le> unat RANGE_LAST \<longleftrightarrow> unat first \<le> 29900"
    unfolding range_unats by linarith
  ultimately show ?thesis by (subst free_from.simps) (simp add: BLOCK_SPAN_def)
qed

definition free_block :: "port_block list \<Rightarrow> project_id \<Rightarrow> port_error + port_block" where
  "free_block taken p = free_from (map pb_first taken) p RANGE_FIRST"

definition ensure_block :: "project_id \<Rightarrow> ports_db \<Rightarrow> (port_error + port_block) \<times> ports_db" where
  "ensure_block p db =
     (case blocks_get p db of
        Some b \<Rightarrow> (Inr b, db)
      | None \<Rightarrow>
          (case free_block (blocks_list db) p of
             Inl e \<Rightarrow> (Inl e, db)
           | Inr b \<Rightarrow>
               (case blocks_insert b db of
                  (Inl e, _) \<Rightarrow> (Inl e, db)
                | (Inr _, db') \<Rightarrow> (Inr b, db'))))"

subsection \<open>Ports under a name\<close>

definition port_held :: "env_id \<Rightarrow> string \<Rightarrow> ports_db \<Rightarrow> port option" where
  "port_held e name db = map_option pa_port (alloc_by_name e name db)"

fun claim_first :: "port_block \<Rightarrow> env_id \<Rightarrow> string \<Rightarrow> port list \<Rightarrow> ports_db \<Rightarrow> (port_error + port option) \<times> ports_db" where
  "claim_first b e name [] db = (Inr None, db)"
| "claim_first b e name (p # ps) db =
     (case alloc_claim \<lparr>pa_port = p, pa_project = pb_project b, pa_env = e, pa_name = name\<rparr> db of
        (Inl err, db') \<Rightarrow> (Inl err, db')
      | (Inr True, db') \<Rightarrow> (Inr (Some p), db')
      | (Inr False, db') \<Rightarrow> claim_first b e name ps db')"

definition allocate_one :: "port_block \<Rightarrow> env_id \<Rightarrow> string \<Rightarrow> ports_db \<Rightarrow> (port_error + port) \<times> ports_db" where
  "allocate_one b e name db =
     (case port_held e name db of
        Some p \<Rightarrow> (Inr p, db)
      | None \<Rightarrow>
          let taken = map pa_port (alloc_in_range (pb_first b) (pb_last b) db)
          in case claim_first b e name (filter (\<lambda>p. p \<notin> set taken) (block_ports b)) db of
               (Inl err, db') \<Rightarrow> (Inl err, db')
             | (Inr (Some p), db') \<Rightarrow> (Inr p, db')
             | (Inr None, db') \<Rightarrow>
                 (case port_held e name db' of
                    Some p \<Rightarrow> (Inr p, db')
                  | None \<Rightarrow> (Inl (PortBlockFull e (pb_first b) (pb_last b)), db')))"

text \<open>The map of granted ports is a \<open>BTreeMap\<close> by name, and an error ends the loop.\<close>

fun allocate :: "port_block \<Rightarrow> env_id \<Rightarrow> string list \<Rightarrow> (string \<Rightarrow> port option) \<Rightarrow> ports_db
    \<Rightarrow> (port_error + (string \<Rightarrow> port option)) \<times> ports_db" where
  "allocate b e [] granted db = (Inr granted, db)"
| "allocate b e (name # names) granted db =
     (case allocate_one b e name db of
        (Inl err, db') \<Rightarrow> (Inl err, db')
      | (Inr p, db') \<Rightarrow> allocate b e names (granted(name \<mapsto> p)) db')"

subsection \<open>Hashed and derived ports\<close>

text \<open>The digest of a name is \<open>fingerprint::compute_port\<close>'s, in hexadecimal.\<close>

definition hex_digit :: "char \<Rightarrow> nat option" where
  "hex_digit c =
     (let n = (of_char c :: nat)
      in if 48 \<le> n \<and> n \<le> 57 then Some (n - 48)
         else if 97 \<le> n \<and> n \<le> 102 then Some (n - 87)
         else if 65 \<le> n \<and> n \<le> 70 then Some (n - 55)
         else None)"

fun hex_value :: "nat \<Rightarrow> string \<Rightarrow> nat option" where
  "hex_value n [] = Some n"
| "hex_value n (c # cs) = (case hex_digit c of None \<Rightarrow> None | Some d \<Rightarrow> hex_value (16 * n + d) cs)"

definition offset_in :: "nat \<Rightarrow> string \<Rightarrow> port_error + port" where
  "offset_in span digest =
     (if length digest < 8 then Inl (PortPanic ''byte index 8 is out of bounds'')
      else case hex_value 0 (take 8 digest) of
             None \<Rightarrow> Inl (PortInvalid ''port digest'' digest)
           | Some read \<Rightarrow>
               if read mod span < 65536 then Inr (word_of_nat (read mod span))
               else Inl (PortInvalid ''port offset'' (dec read)))"

definition hashed :: "(string \<Rightarrow> port_error + string) \<Rightarrow> string \<Rightarrow> port_error + port" where
  "hashed compute_port name =
     (case compute_port name of
        Inl e \<Rightarrow> Inl e
      | Inr digest \<Rightarrow>
          (case offset_in (unat (HASH_LAST - HASH_FIRST) + 1) digest of
             Inl e \<Rightarrow> Inl e
           | Inr offset \<Rightarrow> Inr (HASH_FIRST + offset)))"

definition derived :: "(string \<Rightarrow> port_error + string) \<Rightarrow> port_block \<Rightarrow> string \<Rightarrow> port_error + port" where
  "derived compute_port b key =
     (case compute_port key of
        Inl e \<Rightarrow> Inl e
      | Inr digest \<Rightarrow>
          (case offset_in (unat (pb_last b - pb_first b) + 1) digest of
             Inl e \<Rightarrow> Inl e
           | Inr offset \<Rightarrow> Inr (pb_first b + offset)))"

subsection \<open>Fixed ports\<close>

record conflict =
  cf_name :: string
  cf_port :: port
  cf_unit :: unit_id
  cf_slug :: string
  cf_env :: env_id
  cf_expires :: timestamp

definition resource :: "port \<Rightarrow> string" where
  "resource p = RESOURCE_KIND @ dec (unat p)"

definition port_of :: "string \<Rightarrow> port option" where
  "port_of r =
     (case strip_prefix RESOURCE_KIND r of
        None \<Rightarrow> None
      | Some digits \<Rightarrow> map_option word_of_nat (parse_nat (2 ^ 16) digits))"

definition unit_behind :: "env_id \<Rightarrow> ports_db \<Rightarrow> port_error + (unit_id \<times> string)" where
  "unit_behind e db =
     (case db_unit_of db e of
        None \<Rightarrow> Inl (StoreMissingRow ''environment'' (dec e))
      | Some u \<Rightarrow>
          (case db_slug_of db u of
             None \<Rightarrow> Inl (StoreMissingRow ''unit'' (dec u))
           | Some slug \<Rightarrow> Inr (u, slug)))"

definition holder_of :: "env_id \<Rightarrow> string \<times> port \<Rightarrow> timestamp \<Rightarrow> ports_db \<Rightarrow> port_error + conflict option" where
  "holder_of claimant fixed now db =
     (case lease_get (resource (snd fixed)) db of
        None \<Rightarrow> Inr None
      | Some l \<Rightarrow>
          if le_env l = claimant \<or> le_expires l \<le> now then Inr None
          else case unit_behind (le_env l) db of
                 Inl e \<Rightarrow> Inl e
               | Inr (u, slug) \<Rightarrow>
                   Inr (Some \<lparr>cf_name = fst fixed, cf_port = snd fixed, cf_unit = u, cf_slug = slug,
                     cf_env = le_env l, cf_expires = le_expires l\<rparr>))"

fun check_fixed :: "env_id \<Rightarrow> (string \<times> port) list \<Rightarrow> timestamp \<Rightarrow> ports_db \<Rightarrow> port_error + conflict list" where
  "check_fixed claimant [] now db = Inr []"
| "check_fixed claimant (fixed # rest) now db =
     (case holder_of claimant fixed now db of
        Inl e \<Rightarrow> Inl e
      | Inr c \<Rightarrow> map_sum id (\<lambda>cs. (case c of Some x \<Rightarrow> [x] | None \<Rightarrow> []) @ cs) (check_fixed claimant rest now db))"

fun take_attempts ::
    "nat \<Rightarrow> env_id \<Rightarrow> string \<times> port \<Rightarrow> timestamp \<Rightarrow> timestamp \<Rightarrow> ports_db
       \<Rightarrow> (port_error + (conflict + string)) \<times> ports_db" where
  "take_attempts 0 claimant fixed now until db = (Inl (PortFixedContended (snd fixed) CLAIM_ATTEMPTS), db)"
| "take_attempts (Suc n) claimant fixed now until db =
     (case lease_acquire \<lparr>le_resource = resource (snd fixed), le_env = claimant, le_expires = until\<rparr> now db of
        (True, db') \<Rightarrow> (Inr (Inr (resource (snd fixed))), db')
      | (False, db') \<Rightarrow>
          (case holder_of claimant fixed now db' of
             Inl e \<Rightarrow> (Inl e, db')
           | Inr (Some c) \<Rightarrow> (Inr (Inl c), db')
           | Inr None \<Rightarrow> take_attempts n claimant fixed now until db'))"

definition take_one ::
    "env_id \<Rightarrow> string \<times> port \<Rightarrow> timestamp \<Rightarrow> timestamp \<Rightarrow> ports_db \<Rightarrow> (port_error + (conflict + string)) \<times> ports_db" where
  "take_one claimant fixed now until db = take_attempts CLAIM_ATTEMPTS claimant fixed now until db"

fun hold_loop ::
    "env_id \<Rightarrow> (string \<times> port) list \<Rightarrow> timestamp \<Rightarrow> timestamp \<Rightarrow> string list \<Rightarrow> ports_db
       \<Rightarrow> (port_error + conflict option) \<times> ports_db" where
  "hold_loop claimant [] now until taken db = (Inr None, db)"
| "hold_loop claimant (fixed # rest) now until taken db =
     (case take_one claimant fixed now until db of
        (Inl e, db') \<Rightarrow> (Inl e, db')
      | (Inr (Inr key), db') \<Rightarrow> hold_loop claimant rest now until (taken @ [key]) db'
      | (Inr (Inl c), db') \<Rightarrow> (Inr (Some c), fold (\<lambda>key db. snd (lease_release key claimant db)) taken db'))"

definition hold_fixed ::
    "env_id \<Rightarrow> (string \<times> port) list \<Rightarrow> timestamp \<Rightarrow> timestamp \<Rightarrow> ports_db \<Rightarrow> (port_error + conflict option) \<times> ports_db" where
  "hold_fixed claimant fixed now until db = hold_loop claimant fixed now until [] db"

text \<open>What a reclaim gives back.\<close>

record released =
  rl_allocated :: "port list"
  rl_fixed :: "port list"

fun release_leases :: "env_id \<Rightarrow> lease list \<Rightarrow> ports_db \<Rightarrow> port list \<times> ports_db" where
  "release_leases e [] db = ([], db)"
| "release_leases e (l # ls) db =
     (case port_of (le_resource l) of
        None \<Rightarrow> release_leases e ls db
      | Some p \<Rightarrow>
          (case lease_release (le_resource l) e db of
             (False, db') \<Rightarrow> release_leases e ls db'
           | (True, db') \<Rightarrow> (case release_leases e ls db' of (ps, db'') \<Rightarrow> (p # ps, db''))))"

definition release_fixed :: "env_id \<Rightarrow> ports_db \<Rightarrow> port list \<times> ports_db" where
  "release_fixed e db = (case release_leases e (leases_of_env e db) db of (ps, db') \<Rightarrow> (sort ps, db'))"

definition release :: "env_id \<Rightarrow> ports_db \<Rightarrow> released \<times> ports_db" where
  "release e db =
     (let allocated = map pa_port (alloc_of_env e db);
          (fixed, db') = release_fixed e (snd (alloc_release_all e db))
      in (\<lparr>rl_allocated = allocated, rl_fixed = fixed\<rparr>, db'))"

subsection \<open>Blocks\<close>

lemma set_block_ports: "set (block_ports b) = {p. block_contains b p}"
proof (intro set_eqI iffI)
  fix p
  assume "p \<in> set (block_ports b)"
  then obtain n where n: "p = word_of_nat n" "unat (pb_first b) \<le> n" "n \<le> unat (pb_last b)"
    by (auto simp: block_ports_def)
  then have "unat p = n" using le_unat_uoi [OF n(3)] by simp
  with n show "p \<in> {p. block_contains b p}" by (simp add: block_contains_def word_le_nat_alt)
next
  fix p
  assume "p \<in> {p. block_contains b p}"
  then have "unat p \<in> set [unat (pb_first b)..<Suc (unat (pb_last b))]"
    by (auto simp: block_contains_def word_le_nat_alt)
  then show "p \<in> set (block_ports b)" unfolding block_ports_def set_map by (rule rev_image_eqI) simp
qed

text \<open>The blocks of the table: on the grid of the range, one for a project, and no two of them one.\<close>

definition block_start :: "nat \<Rightarrow> port" where "block_start k = word_of_nat (20000 + 100 * k)"

definition block_ok :: "port_block \<Rightarrow> bool" where
  "block_ok b \<longleftrightarrow> (\<exists>k < 100. unat (pb_first b) = 20000 + 100 * k) \<and> unat (pb_last b) = unat (pb_first b) + 99"

definition blocks_ok :: "ports_db \<Rightarrow> bool" where
  "blocks_ok db \<longleftrightarrow> (\<forall>b \<in> set (db_blocks db). block_ok b)
     \<and> distinct (map pb_project (db_blocks db)) \<and> distinct (map pb_first (db_blocks db))"

lemma unat_block_last: "unat first \<le> 29900 \<Longrightarrow> unat (first + 99 :: port) = unat first + 99"
  by (subst unat_plus_simple [THEN iffD1]) (simp_all add: word_le_nat_alt unat_word_ariths)

lemma free_from_block:
  assumes "unat first = 20000 + 100 * k" and "k \<le> 100"
  shows "case free_from starts p first of
      Inr b \<Rightarrow> pb_project b = p \<and> block_ok b \<and> pb_first b \<notin> set starts
        \<and> (\<forall>i. k \<le> i \<and> 20000 + 100 * i < unat (pb_first b) \<longrightarrow> block_start i \<in> set starts)
    | Inl e \<Rightarrow> e = PortBlockRangeFull RANGE_FIRST RANGE_LAST \<and> (\<forall>i. k \<le> i \<and> i < 100 \<longrightarrow> block_start i \<in> set starts)"
  using assms
proof (induction "100 - k" arbitrary: k first)
  case 0
  then show ?case by (subst free_from_step) auto
next
  case (Suc n)
  then have k: "k < 100" by simp
  have f: "first = block_start k" unfolding block_start_def Suc.prems(1) [symmetric] by simp
  have u: "unat first \<le> 29900" using Suc.prems k by simp
  show ?case
  proof (cases "first \<in> set starts")
    case False
    then have "free_from starts p first = Inr \<lparr>pb_project = p, pb_first = first, pb_last = first + 99\<rparr>"
      using u by (subst free_from_step) simp
    with False k Suc.prems(1) unat_block_last [OF u] show ?thesis by (auto simp: block_ok_def)
  next
    case True
    have "unat (first + 100) = 20000 + 100 * Suc k"
      using unat_next_block [OF u] Suc.prems(1) by simp
    from Suc.hyps(1) [OF _ this] Suc.hyps(2) k
    have ih: "case free_from starts p (first + 100) of
        Inr b \<Rightarrow> pb_project b = p \<and> block_ok b \<and> pb_first b \<notin> set starts
          \<and> (\<forall>i. Suc k \<le> i \<and> 20000 + 100 * i < unat (pb_first b) \<longrightarrow> block_start i \<in> set starts)
      | Inl e \<Rightarrow> e = PortBlockRangeFull RANGE_FIRST RANGE_LAST
          \<and> (\<forall>i. Suc k \<le> i \<and> i < 100 \<longrightarrow> block_start i \<in> set starts)" by simp
    have s: "free_from starts p first = free_from starts p (first + 100)"
      using True u by (subst free_from_step) simp
    have "block_start i \<in> set starts" if "k \<le> i" "Suc k \<le> i \<Longrightarrow> block_start i \<in> set starts" for i
      using that True f by (cases "i = k") auto
    with ih show ?thesis unfolding s by (auto split: sum.splits)
  qed
qed

lemma free_block_spec:
  "case free_block taken p of
      Inr b \<Rightarrow> pb_project b = p \<and> block_ok b \<and> pb_first b \<notin> pb_first ` set taken
        \<and> (\<forall>i. 20000 + 100 * i < unat (pb_first b) \<longrightarrow> block_start i \<in> pb_first ` set taken)
    | Inl e \<Rightarrow> e = PortBlockRangeFull RANGE_FIRST RANGE_LAST \<and> (\<forall>i < 100. block_start i \<in> pb_first ` set taken)"
  using free_from_block [of RANGE_FIRST 0 "map pb_first taken" p]
  by (simp add: free_block_def range_unats split: sum.split_asm sum.split)

lemma blocks_apart:
  assumes "block_ok b" "block_ok c" "pb_first b \<noteq> pb_first c"
  shows "set (block_ports b) \<inter> set (block_ports c) = {}"
proof -
  obtain i j where ij: "unat (pb_first b) = 20000 + 100 * i" "unat (pb_last b) = 20000 + 100 * i + 99"
    "unat (pb_first c) = 20000 + 100 * j" "unat (pb_last c) = 20000 + 100 * j + 99"
    using assms(1,2) unfolding block_ok_def by auto
  have "unat (pb_first b) \<noteq> unat (pb_first c)" using assms(3) unsigned_word_eqI by blast
  with ij have "i \<noteq> j" by auto
  then show ?thesis using ij by (auto simp: set_block_ports block_contains_def word_le_nat_alt)
qed

lemma blocks_get_Some: "blocks_get p db = Some b \<Longrightarrow> b \<in> set (db_blocks db) \<and> pb_project b = p"
  by (auto simp: blocks_get_def find_Some_iff)

lemma blocks_get_None: "blocks_get p db = None \<longleftrightarrow> p \<notin> pb_project ` set (db_blocks db)"
  by (auto simp: blocks_get_def find_None_iff)

lemma blocks_insert_ok:
  assumes "blocks_ok db" "block_ok b" "pb_first b \<notin> pb_first ` set (db_blocks db)"
    "pb_project b \<notin> pb_project ` set (db_blocks db)"
  shows "blocks_insert b db = (Inr (), db\<lparr>db_blocks := db_blocks db @ [b]\<rparr>) \<and> blocks_ok (db\<lparr>db_blocks := db_blocks db @ [b]\<rparr>)"
proof -
  have "pb_first b \<noteq> 0 \<and> \<not> pb_last b < pb_first b"
    using assms(2) by (auto simp: block_ok_def word_less_nat_alt)
  with assms show ?thesis by (auto simp: blocks_insert_def blocks_ok_def list_ex_iff image_iff)
qed

text \<open>
  C18. A project has one block and no port has two. Asking for a project's block keeps the
  table well formed: every block has a hundred ports, starts on the grid of the range and ends
  inside it, a project has one and no two blocks share a port. The answer is the project's
  block in the table, the one it had if it had one and else the lowest one nobody holds; asking
  again answers the same and writes nothing; and it is refused only when all the hundred
  blocks of the range are taken.
\<close>

theorem one_block_per_project:
  assumes ok: "blocks_ok db" and e: "ensure_block p db = (r, db')"
  shows "blocks_ok db'
    \<and> (\<forall>b \<in> set (db_blocks db'). unat RANGE_FIRST \<le> unat (pb_first b) \<and> unat (pb_last b) \<le> unat RANGE_LAST
         \<and> length (block_ports b) = unat BLOCK_SPAN
         \<and> (\<forall>c \<in> set (db_blocks db'). b = c \<or> set (block_ports b) \<inter> set (block_ports c) = {}))
    \<and> (case r of
         Inr b \<Rightarrow> b \<in> set (db_blocks db') \<and> pb_project b = p \<and> ensure_block p db' = (Inr b, db')
           \<and> (p \<in> pb_project ` set (db_blocks db) \<longrightarrow> db' = db)
           \<and> (p \<notin> pb_project ` set (db_blocks db) \<longrightarrow>
                (\<forall>i. 20000 + 100 * i < unat (pb_first b) \<longrightarrow> block_start i \<in> pb_first ` set (db_blocks db)))
       | Inl err \<Rightarrow> err = PortBlockRangeFull RANGE_FIRST RANGE_LAST \<and> db' = db
           \<and> (\<forall>i < 100. block_start i \<in> pb_first ` set (db_blocks db)))"
proof -
  have list: "pb_first ` set (blocks_list db) = pb_first ` set (db_blocks db)" by (simp add: blocks_list_def)
  note free = free_block_spec [of "blocks_list db" p, unfolded list]
  have shape: "blocks_ok db' \<and> (case r of
         Inr b \<Rightarrow> b \<in> set (db_blocks db') \<and> pb_project b = p
           \<and> (p \<in> pb_project ` set (db_blocks db) \<longrightarrow> db' = db)
           \<and> (p \<notin> pb_project ` set (db_blocks db) \<longrightarrow>
                (\<forall>i. 20000 + 100 * i < unat (pb_first b) \<longrightarrow> block_start i \<in> pb_first ` set (db_blocks db)))
       | Inl err \<Rightarrow> err = PortBlockRangeFull RANGE_FIRST RANGE_LAST \<and> db' = db
           \<and> (\<forall>i < 100. block_start i \<in> pb_first ` set (db_blocks db)))"
  proof (cases "blocks_get p db")
    case (Some b)
    then show ?thesis using ok e blocks_get_Some [OF Some] by (auto simp: ensure_block_def)
  next
    case None
    then have p: "p \<notin> pb_project ` set (db_blocks db)" by (simp add: blocks_get_None)
    show ?thesis
    proof (cases "free_block (blocks_list db) p")
      case (Inl err)
      with e None have "r = Inl err" "db' = db" by (simp_all add: ensure_block_def)
      with Inl free ok show ?thesis by simp
    next
      case (Inr b)
      with free p blocks_insert_ok [OF ok, of b] have i:
        "blocks_insert b db = (Inr (), db\<lparr>db_blocks := db_blocks db @ [b]\<rparr>)"
        "blocks_ok (db\<lparr>db_blocks := db_blocks db @ [b]\<rparr>)" by auto
      with e None Inr have "r = Inr b" "db' = db\<lparr>db_blocks := db_blocks db @ [b]\<rparr>"
        by (simp_all add: ensure_block_def)
      with i free Inr p show ?thesis by simp
    qed
  qed
  have "ensure_block p db' = (Inr b, db')" if "r = Inr b" for b
  proof -
    have b: "b \<in> set (db_blocks db')" "pb_project b = p" "distinct (map pb_project (db_blocks db'))"
      using shape that by (auto simp: blocks_ok_def)
    then obtain c where c: "blocks_get p db' = Some c" using blocks_get_None by (metis image_eqI option.exhaust)
    with blocks_get_Some [OF c] b have "c = b" by (metis distinct_map inj_onD)
    with c show ?thesis by (simp add: ensure_block_def)
  qed
  moreover have "b = c \<or> set (block_ports b) \<inter> set (block_ports c) = {}"
    if "b \<in> set (db_blocks db')" "c \<in> set (db_blocks db')" for b c
    using shape that blocks_apart unfolding blocks_ok_def by (metis distinct_map inj_onD)
  moreover have "unat RANGE_FIRST \<le> unat (pb_first b) \<and> unat (pb_last b) \<le> unat RANGE_LAST
      \<and> length (block_ports b) = unat BLOCK_SPAN" if "b \<in> set (db_blocks db')" for b
    using shape that unfolding blocks_ok_def
    by (auto simp: block_ok_def range_unats block_ports_def)
  ultimately show ?thesis using shape by (auto split: sum.splits)
qed

subsection \<open>The abstract grants\<close>

text \<open>
  What the table of allocations is for: who holds which port under which name, a partial
  injective map. A grant answers with the port held, or gives out the first free one.
\<close>

type_synonym grants = "env_id \<times> string \<Rightarrow> port option"

definition grants_of :: "ports_db \<Rightarrow> grants" where
  "grants_of db = map_of (map (\<lambda>a. ((pa_env a, pa_name a), pa_port a)) (db_allocations db))"

definition grant :: "port list \<Rightarrow> env_id \<times> string \<Rightarrow> grants \<Rightarrow> port option \<times> grants" where
  "grant ps key s =
     (case s key of
        Some p \<Rightarrow> (Some p, s)
      | None \<Rightarrow>
          (case List.find (\<lambda>p. p \<notin> ran s) ps of
             None \<Rightarrow> (None, s)
           | Some p \<Rightarrow> (Some p, s(key \<mapsto> p))))"

fun grant_all :: "port list \<Rightarrow> env_id \<Rightarrow> string list \<Rightarrow> (string \<Rightarrow> port option) \<Rightarrow> grants
    \<Rightarrow> (string \<Rightarrow> port option) option \<times> grants" where
  "grant_all ps e [] granted s = (Some granted, s)"
| "grant_all ps e (name # names) granted s =
     (case grant ps (e, name) s of
        (None, s') \<Rightarrow> (None, s')
      | (Some p, s') \<Rightarrow> grant_all ps e names (granted(name \<mapsto> p)) s')"

text \<open>The keys the schema declares: one row for a port, one for a name of an environment.\<close>

definition alloc_ok :: "ports_db \<Rightarrow> bool" where
  "alloc_ok db \<longleftrightarrow> distinct (map pa_port (db_allocations db))
     \<and> distinct (map (\<lambda>a. (pa_env a, pa_name a)) (db_allocations db))"

lemma grants_held: "grants_of db (e, name) = port_held e name db"
proof -
  have "map_of (map (\<lambda>a. ((pa_env a, pa_name a), pa_port a)) as) (e, name)
      = map_option pa_port (List.find (\<lambda>a. pa_env a = e \<and> pa_name a = name) as)" for as
    by (induction as) auto
  then show ?thesis by (simp add: grants_of_def port_held_def alloc_by_name_def)
qed

lemma ran_grants: "alloc_ok db \<Longrightarrow> ran (grants_of db) = pa_port ` set (db_allocations db)"
  by (simp add: grants_of_def alloc_ok_def ran_distinct comp_def image_image)

lemma held_None: "port_held e name db = None \<Longrightarrow> a \<in> set (db_allocations db) \<Longrightarrow> \<not> (pa_env a = e \<and> pa_name a = name)"
  by (auto simp: port_held_def alloc_by_name_def find_None_iff)

lemma find_filter: "List.find P xs = (case filter P xs of [] \<Rightarrow> None | x # _ \<Rightarrow> Some x)"
  by (induction xs) auto

lemma claim_free:
  assumes "port_held e name db = None" "p \<notin> pa_port ` set (db_allocations db)" "p \<noteq> 0"
  shows "claim_first b e name (p # ps) db =
    (Inr (Some p), db\<lparr>db_allocations := db_allocations db
       @ [\<lparr>pa_port = p, pa_project = pb_project b, pa_env = e, pa_name = name\<rparr>]\<rparr>)"
  using assms held_None [OF assms(1)] by (auto simp: alloc_claim_def list_ex_iff image_iff)

lemma alloc_ok_add:
  assumes "alloc_ok db" "port_held e name db = None" "p \<notin> pa_port ` set (db_allocations db)"
  shows "alloc_ok (db\<lparr>db_allocations := db_allocations db @ [\<lparr>pa_port = p, pa_project = q, pa_env = e, pa_name = name\<rparr>]\<rparr>)"
  using assms(1,3) held_None [OF assms(2)] by (fastforce simp: alloc_ok_def)

lemma grants_add:
  assumes "port_held e name db = None"
  shows "grants_of (db\<lparr>db_allocations := db_allocations db @ [\<lparr>pa_port = p, pa_project = q, pa_env = e, pa_name = name\<rparr>]\<rparr>)
    = (grants_of db)((e, name) \<mapsto> p)"
proof -
  have "grants_of db (e, name) = None" using assms by (simp add: grants_held)
  then show ?thesis by (auto simp: grants_of_def map_add_def split: option.splits)
qed

lemma free_in_block:
  assumes "alloc_ok db"
  shows "filter (\<lambda>p. p \<notin> set (map pa_port (alloc_in_range (pb_first b) (pb_last b) db))) (block_ports b)
    = filter (\<lambda>p. p \<notin> ran (grants_of db)) (block_ports b)"
proof (rule filter_cong [OF refl])
  fix p assume "p \<in> set (block_ports b)"
  then have "pb_first b \<le> p \<and> p \<le> pb_last b" by (simp add: set_block_ports block_contains_def)
  then show "(p \<notin> set (map pa_port (alloc_in_range (pb_first b) (pb_last b) db))) = (p \<notin> ran (grants_of db))"
    by (auto simp: ran_grants [OF assms] alloc_in_range_def)
qed

lemma allocate_one_refines:
  assumes ok: "alloc_ok db" and b: "pb_first b \<noteq> 0" and a: "allocate_one b e name db = (r, db')"
  shows "alloc_ok db' \<and> grant (block_ports b) (e, name) (grants_of db) = (case r of Inr p \<Rightarrow> Some p | Inl _ \<Rightarrow> None, grants_of db')
    \<and> (\<forall>err. r = Inl err \<longrightarrow> err = PortBlockFull e (pb_first b) (pb_last b) \<and> db' = db)
    \<and> db'\<lparr>db_allocations := db_allocations db\<rparr> = db"
proof (cases "port_held e name db")
  case (Some p)
  then show ?thesis using ok a by (auto simp: allocate_one_def grant_def grants_held)
next
  case None
  let ?free = "filter (\<lambda>p. p \<notin> ran (grants_of db)) (block_ports b)"
  note a = a [unfolded allocate_one_def Let_def free_in_block [OF ok]]
  show ?thesis
  proof (cases ?free)
    case Nil
    then show ?thesis using None ok a
      by (auto simp: grant_def grants_held find_filter)
  next
    case (Cons p ps)
    then have "p \<in> set ?free" by simp
    then have p: "p \<in> set (block_ports b)" "p \<notin> ran (grants_of db)" by simp_all
    have "p \<noteq> 0" using p(1) b by (auto simp: set_block_ports block_contains_def)
    moreover have "p \<notin> pa_port ` set (db_allocations db)" using p(2) ran_grants [OF ok] by simp
    ultimately show ?thesis
      using a None Cons claim_free [OF None, of p b ps] alloc_ok_add [OF ok None] grants_add [OF None]
      by (auto simp: grant_def grants_held find_filter simp del: claim_first.simps)
  qed
qed

lemma same_but_allocations:
  "db'\<lparr>db_allocations := db_allocations db1\<rparr> = db1 \<Longrightarrow> db1\<lparr>db_allocations := db_allocations db\<rparr> = db
     \<Longrightarrow> db'\<lparr>db_allocations := db_allocations db\<rparr> = db"
  by (cases db; cases db1; cases db') auto

text \<open>
  C17. The allocator grants what its specification grants. On a table that keeps its keys,
  granting a list of names is the abstract grant of each: the port the environment holds under
  the name if it holds one, and else the lowest port of the block nobody holds, with no other
  holder touched; the call fails exactly where the specification has no port left, with the
  error that says so; and the keys are kept.
\<close>

theorem allocate_refines_grants:
  assumes "alloc_ok db" and "pb_first b \<noteq> 0" and "allocate b e names granted db = (r, db')"
  shows "alloc_ok db'
    \<and> grant_all (block_ports b) e names granted (grants_of db) = (case r of Inr g \<Rightarrow> Some g | Inl _ \<Rightarrow> None, grants_of db')
    \<and> (\<forall>err. r = Inl err \<longrightarrow> err = PortBlockFull e (pb_first b) (pb_last b))
    \<and> db'\<lparr>db_allocations := db_allocations db\<rparr> = db"
  using assms
proof (induction names arbitrary: granted db)
  case (Cons name names)
  obtain r1 db1 where a: "allocate_one b e name db = (r1, db1)" by fastforce
  note one = allocate_one_refines [OF Cons.prems(1,2) a]
  show ?case
  proof (cases r1)
    case (Inl err)
    with Cons.prems(3) a one show ?thesis by auto
  next
    case (Inr p)
    with Cons.prems(3) a have "allocate b e names (granted(name \<mapsto> p)) db1 = (r, db')" by simp
    note rest = Cons.IH [OF conjunct1 [OF one] Cons.prems(2) this]
    have "db'\<lparr>db_allocations := db_allocations db\<rparr> = db"
      using same_but_allocations rest one by blast
    with rest one Inr show ?thesis by (simp del: fun_upd_apply)
  qed
qed auto

subsection \<open>Leases on fixed ports\<close>

text \<open>The key the schema declares: one lease for a resource; and what is held now.\<close>

definition leases_ok :: "ports_db \<Rightarrow> bool" where
  "leases_ok db \<longleftrightarrow> distinct (map le_resource (db_leases db))"

definition holder :: "timestamp \<Rightarrow> ports_db \<Rightarrow> string \<Rightarrow> env_id option" where
  "holder now db r =
     (case lease_get r db of None \<Rightarrow> None | Some l \<Rightarrow> if le_expires l \<le> now then None else Some (le_env l))"

lemma resource_inj: "resource p = resource q \<longleftrightarrow> p = q"
proof -
  have "dec (unat p) = dec (unat q) \<Longrightarrow> p = q" using dec_digits by (metis unsigned_word_eqI)
  then show ?thesis by (auto simp: resource_def)
qed

lemma port_of_resource: "port_of (resource p) = Some p"
proof -
  have "unat p < 2 ^ 16" using unsigned_less [of p] by simp
  then show ?thesis by (simp add: port_of_def resource_def strip_prefix_append)
qed

lemma lease_get_Some: "lease_get r db = Some l \<Longrightarrow> l \<in> set (db_leases db) \<and> le_resource l = r"
  by (auto simp: lease_get_def find_Some_iff)

lemma find_map_same:
  "le_resource l = r \<Longrightarrow> List.find (\<lambda>x. le_resource x = q) (map (\<lambda>x. if le_resource x = r then l else x) ls)
    = (if q = r then map_option (\<lambda>_. l) (List.find (\<lambda>x. le_resource x = q) ls) else List.find (\<lambda>x. le_resource x = q) ls)"
  by (induction ls) auto

lemma map_resource: "le_resource l = r \<Longrightarrow> map le_resource (map (\<lambda>x. if le_resource x = r then l else x) ls) = map le_resource ls"
  by (induction ls) auto

lemma acquire_spec:
  assumes "leases_ok db" and "lease_acquire l now db = (ok, db')"
  shows "leases_ok db' \<and> db'\<lparr>db_leases := db_leases db\<rparr> = db
    \<and> ok = (holder now db (le_resource l) \<in> {None, Some (le_env l)})
    \<and> (\<forall>q. lease_get q db' = (if ok \<and> q = le_resource l then Some l else lease_get q db))"
proof (cases "lease_get (le_resource l) db")
  case None
  with assms(2) have d: "ok" "db' = db\<lparr>db_leases := db_leases db @ [l]\<rparr>"
    by (simp_all add: lease_acquire_def lease_get_def)
  have "le_resource l \<notin> set (map le_resource (db_leases db))"
    using None by (auto simp: lease_get_def find_None_iff)
  moreover have "lease_get q db' = (if q = le_resource l then Some l else lease_get q db)" for q
    using None by (auto simp: d(2) lease_get_def find_append split: option.split)
  ultimately show ?thesis using None assms(1) d by (simp add: leases_ok_def holder_def)
next
  case (Some x)
  show ?thesis
  proof (cases "le_expires x \<le> now \<or> le_env x = le_env l")
    case True
    with Some assms(2) have "ok" "db' = db\<lparr>db_leases := map (\<lambda>x. if le_resource x = le_resource l then l else x) (db_leases db)\<rparr>"
      by (simp_all add: lease_acquire_def lease_get_def)
    with Some True assms(1) show ?thesis
      by (auto simp: leases_ok_def map_resource holder_def lease_get_def find_map_same simp del: map_map)
  next
    case False
    with Some assms show ?thesis by (auto simp: lease_acquire_def lease_get_def holder_def)
  qed
qed

lemma holder_of_spec:
  "holder_of claimant fixed now db = Inr c \<Longrightarrow>
     (c = None \<longleftrightarrow> holder now db (resource (snd fixed)) \<in> {None, Some claimant})
     \<and> (\<forall>x. c = Some x \<longrightarrow> holder now db (resource (snd fixed)) = Some (cf_env x) \<and> cf_env x \<noteq> claimant
          \<and> cf_name x = fst fixed \<and> cf_port x = snd fixed)"
  by (auto simp: holder_of_def holder_def split: option.splits if_splits sum.splits prod.splits)

lemma take_one_spec:
  assumes "leases_ok db" and "take_one claimant fixed now until db = (r, db')"
  shows "leases_ok db' \<and> db'\<lparr>db_leases := db_leases db\<rparr> = db
    \<and> (case r of
         Inr (Inr key) \<Rightarrow> key = resource (snd fixed) \<and> holder now db key \<in> {None, Some claimant}
           \<and> (\<forall>q. lease_get q db' = (if q = key then Some \<lparr>le_resource = key, le_env = claimant, le_expires = until\<rparr>
                                     else lease_get q db))
       | Inr (Inl c) \<Rightarrow> db' = db \<and> holder now db (resource (snd fixed)) = Some (cf_env c) \<and> cf_env c \<noteq> claimant
           \<and> cf_name c = fst fixed \<and> cf_port c = snd fixed
       | Inl e \<Rightarrow> db' = db)"
proof -
  let ?l = "\<lparr>le_resource = resource (snd fixed), le_env = claimant, le_expires = until\<rparr>"
  obtain ok db1 where a: "lease_acquire ?l now db = (ok, db1)" by fastforce
  note acq = acquire_spec [OF assms(1) a]
  have "take_one claimant fixed now until db = (case (ok, db1) of
        (True, db') \<Rightarrow> (Inr (Inr (resource (snd fixed))), db')
      | (False, db') \<Rightarrow> (case holder_of claimant fixed now db' of
             Inl e \<Rightarrow> (Inl e, db')
           | Inr (Some c) \<Rightarrow> (Inr (Inl c), db')
           | Inr None \<Rightarrow> take_attempts (Suc (Suc 0)) claimant fixed now until db'))"
    using a by (simp add: take_one_def CLAIM_ATTEMPTS_def numeral_3_eq_3)
  note t = this [unfolded assms(2)]
  show ?thesis
  proof (cases ok)
    case True
    with t acq show ?thesis by (auto simp del: fun_upd_apply)
  next
    case False
    then have d: "db1 = db"
      using a by (auto simp: lease_acquire_def split: option.splits if_splits)
    have nh: "holder now db (resource (snd fixed)) \<notin> {None, Some claimant}" using acq False by auto
    show ?thesis
    proof (cases "holder_of claimant fixed now db")
      case (Inl e)
      with assms(1) t d False show ?thesis by auto
    next
      case (Inr c)
      from holder_of_spec [OF Inr] nh obtain x where "c = Some x" "holder now db (resource (snd fixed)) = Some (cf_env x)"
        "cf_env x \<noteq> claimant" "cf_name x = fst fixed" "cf_port x = snd fixed" by (cases c) auto
      with Inr assms(1) t d False show ?thesis by auto
    qed
  qed
qed

lemma same_but_leases:
  "db'\<lparr>db_leases := db_leases db1\<rparr> = db1 \<Longrightarrow> db1\<lparr>db_leases := db_leases db\<rparr> = db
     \<Longrightarrow> db'\<lparr>db_leases := db_leases db\<rparr> = db"
  by (cases db; cases db1; cases db') auto

lemma find_remove:
  assumes "distinct (map f xs)"
  shows "List.find (\<lambda>x. f x = q) (filter (\<lambda>x. \<not> (f x = r \<and> P x)) xs)
    = (case List.find (\<lambda>x. f x = q) xs of None \<Rightarrow> None | Some x \<Rightarrow> if q = r \<and> P x then None else Some x)"
  using assms
proof (induction xs)
  case (Cons x xs)
  have "List.find (\<lambda>x. f x = q) xs = None" if "f x = q" using Cons.prems that by (auto simp: find_None_iff image_iff)
  with Cons show ?case by (auto split: option.splits)
qed simp

lemma release_spec:
  assumes "leases_ok db"
  shows "leases_ok (snd (lease_release r e db)) \<and> (snd (lease_release r e db))\<lparr>db_leases := db_leases db\<rparr> = db
    \<and> lease_get q (snd (lease_release r e db))
       = (case lease_get q db of None \<Rightarrow> None | Some x \<Rightarrow> if q = r \<and> le_env x = e then None else Some x)"
  using assms find_remove [of le_resource "db_leases db" q r "\<lambda>x. le_env x = e"]
  by (simp add: lease_release_def leases_ok_def lease_get_def distinct_map_filter)

lemma release_all_spec:
  assumes "leases_ok db" and "\<forall>k \<in> set keys. \<forall>x. lease_get k db = Some x \<longrightarrow> le_env x = e"
  shows "leases_ok (fold (\<lambda>key db. snd (lease_release key e db)) keys db)
    \<and> (fold (\<lambda>key db. snd (lease_release key e db)) keys db)\<lparr>db_leases := db_leases db\<rparr> = db
    \<and> (\<forall>q. lease_get q (fold (\<lambda>key db. snd (lease_release key e db)) keys db)
         = (if q \<in> set keys then None else lease_get q db))"
  using assms
proof (induction keys arbitrary: db)
  case (Cons k keys)
  let ?db = "snd (lease_release k e db)"
  have r: "leases_ok ?db" "?db\<lparr>db_leases := db_leases db\<rparr> = db"
    "\<And>q. lease_get q ?db = (case lease_get q db of None \<Rightarrow> None | Some x \<Rightarrow> if q = k \<and> le_env x = e then None else Some x)"
    using release_spec [OF Cons.prems(1)] by blast+
  have "\<forall>j \<in> set keys. \<forall>x. lease_get j ?db = Some x \<longrightarrow> le_env x = e"
    using Cons.prems(2) by (auto simp: r(3) split: option.splits if_splits)
  note ih = Cons.IH [OF r(1) this]
  have "(if q \<in> set keys then None else lease_get q ?db) = (if q \<in> set (k # keys) then None else lease_get q db)" for q
    using Cons.prems(2) by (auto simp: r(3) split: option.split)
  with ih same_but_leases [OF conjunct1 [OF conjunct2 [OF ih]] r(2)] show ?case by simp
qed simp

lemma hold_loop_spec:
  assumes "leases_ok db" and "\<forall>k \<in> set taken. \<forall>x. lease_get k db = Some x \<longrightarrow> le_env x = claimant"
    and "\<forall>k \<in> set taken. lease_get k db \<noteq> None"
    and "hold_loop claimant fixed now until taken db = (Inr out, db')"
  shows "leases_ok db' \<and> db'\<lparr>db_leases := db_leases db\<rparr> = db
    \<and> (case out of
         None \<Rightarrow> (\<forall>q. lease_get q db' =
             (if q \<in> resource ` snd ` set fixed then Some \<lparr>le_resource = q, le_env = claimant, le_expires = until\<rparr>
              else lease_get q db)) \<and> (\<forall>q \<in> resource ` snd ` set fixed. holder now db q \<in> {None, Some claimant})
       | Some c \<Rightarrow> \<exists>pre post. fixed = pre @ (cf_name c, cf_port c) # post
           \<and> holder now db (resource (cf_port c)) = Some (cf_env c) \<and> cf_env c \<noteq> claimant
           \<and> (\<forall>q \<in> resource ` snd ` set pre. holder now db q \<in> {None, Some claimant})
           \<and> (\<forall>q. lease_get q db' = (if q \<in> set taken \<union> resource ` snd ` set pre then None else lease_get q db)))"
  using assms
proof (induction fixed arbitrary: taken db)
  case Nil
  then show ?case by simp
next
  case (Cons f fixed)
  obtain r1 db1 where t: "take_one claimant f now until db = (r1, db1)" by fastforce
  note one = take_one_spec [OF Cons.prems(1) t]
  have "r1 \<noteq> Inl e" for e using Cons.prems(4) t by (cases r1) auto
  then consider c where "r1 = Inr (Inl c)" | key where "r1 = Inr (Inr key)"
    by (metis sum.exhaust)
  then show ?case
  proof cases
    case 1
    with one have c: "db1 = db" "holder now db (resource (snd f)) = Some (cf_env c)" "cf_env c \<noteq> claimant"
      "f = (cf_name c, cf_port c)" by (auto simp: prod_eq_iff)
    have out: "out = Some c" "db' = fold (\<lambda>key db. snd (lease_release key claimant db)) taken db"
      using Cons.prems(4) t 1 c(1) by simp_all
    have "f # fixed = [] @ (cf_name c, cf_port c) # fixed" using c(4) by simp
    moreover have "\<forall>q. lease_get q db' = (if q \<in> set taken \<union> resource ` snd ` set [] then None else lease_get q db)"
      using release_all_spec [OF Cons.prems(1,2)] out(2) by simp
    moreover have "leases_ok db'" "db'\<lparr>db_leases := db_leases db\<rparr> = db"
      using release_all_spec [OF Cons.prems(1,2)] out(2) by simp_all
    moreover have "holder now db (resource (cf_port c)) = Some (cf_env c)" using c(2,4) by simp
    ultimately show ?thesis using c(3) unfolding out(1) option.case by (metis empty_iff image_empty list.set(1))
  next
    case 2
    with one have k: "key = resource (snd f)" "holder now db key \<in> {None, Some claimant}" "leases_ok db1"
      "db1\<lparr>db_leases := db_leases db\<rparr> = db"
      "\<And>q. lease_get q db1 = (if q = key then Some \<lparr>le_resource = key, le_env = claimant, le_expires = until\<rparr> else lease_get q db)"
      by auto
    have h: "holder now db1 q \<in> {None, Some claimant} \<longleftrightarrow> holder now db q \<in> {None, Some claimant}"
      "holder now db1 q = Some e \<Longrightarrow> e \<noteq> claimant \<Longrightarrow> holder now db q = Some e" for q e
      using k(2) by (auto simp: holder_def k(5) split: if_splits)
    have p: "\<forall>j \<in> set (taken @ [key]). \<forall>x. lease_get j db1 = Some x \<longrightarrow> le_env x = claimant"
      "\<forall>j \<in> set (taken @ [key]). lease_get j db1 \<noteq> None" using Cons.prems(2,3) by (auto simp: k(5))
    have "hold_loop claimant fixed now until (taken @ [key]) db1 = (Inr out, db')"
      using Cons.prems(4) t 2 by simp
    note ih = Cons.IH [OF k(3) p this]
    have s: "db'\<lparr>db_leases := db_leases db\<rparr> = db" using same_but_leases k(4) ih by blast
    show ?thesis
    proof (cases out)
      case None
      with ih s k(1,2) h(1) show ?thesis by (auto simp: k(5))
    next
      case (Some c)
      with ih obtain pre post where i: "fixed = pre @ (cf_name c, cf_port c) # post"
        "holder now db1 (resource (cf_port c)) = Some (cf_env c)" "cf_env c \<noteq> claimant"
        "\<forall>q \<in> resource ` snd ` set pre. holder now db1 q \<in> {None, Some claimant}"
        "\<forall>q. lease_get q db' = (if q \<in> set (taken @ [key]) \<union> resource ` snd ` set pre then None else lease_get q db1)" by auto
      have "f # fixed = (f # pre) @ (cf_name c, cf_port c) # post" using i(1) by simp
      moreover have "\<forall>q \<in> resource ` snd ` set (f # pre). holder now db q \<in> {None, Some claimant}"
        using i(4) k(1,2) h(1) by simp
      moreover have "\<forall>q. lease_get q db' = (if q \<in> set taken \<union> resource ` snd ` set (f # pre) then None else lease_get q db)"
        using i(5) k(1) by (simp add: k(5))
      ultimately show ?thesis using Some ih s h(2) [OF i(2,3)] i(3)
        by (simp only: option.case) (metis (no_types, lifting))
    qed
  qed
qed

text \<open>
  C19. Fixed ports are taken together or not at all. A call that meets no other holder leaves
  the claimant with a lease on every pinned port until the time asked. A call that meets one
  names it: an environment whose lease has not lapsed, on the first pinned port where there is
  one; and then the claimant has no lease on any of the ports before it, not even one it held
  before the call, although only what the call took is meant to be given back. What another
  environment holds now is never touched, and nor is a resource that is not pinned.
\<close>

theorem fixed_ports_all_or_none:
  assumes ok: "leases_ok db" and h: "hold_fixed claimant fixed now until db = (Inr out, db')"
  shows "leases_ok db'
    \<and> (\<forall>q. q \<notin> resource ` snd ` set fixed \<longrightarrow> lease_get q db' = lease_get q db)
    \<and> (\<forall>q e. holder now db q = Some e \<and> e \<noteq> claimant \<longrightarrow> lease_get q db' = lease_get q db)
    \<and> (case out of
         None \<Rightarrow> (\<forall>(n, p) \<in> set fixed.
             lease_get (resource p) db' = Some \<lparr>le_resource = resource p, le_env = claimant, le_expires = until\<rparr>)
       | Some c \<Rightarrow> \<exists>pre post. fixed = pre @ (cf_name c, cf_port c) # post
           \<and> holder now db (resource (cf_port c)) = Some (cf_env c) \<and> cf_env c \<noteq> claimant
           \<and> (\<forall>(n, p) \<in> set pre. holder now db (resource p) \<in> {None, Some claimant} \<and> lease_get (resource p) db' = None))"
proof -
  note spec = hold_loop_spec [OF ok _ _ h [unfolded hold_fixed_def], simplified]
  show ?thesis
  proof (cases out)
    case None
    with spec show ?thesis by (fastforce simp: image_iff)
  next
    case (Some c)
    with spec obtain pre post where s: "fixed = pre @ (cf_name c, cf_port c) # post"
      "holder now db (resource (cf_port c)) = Some (cf_env c)" "cf_env c \<noteq> claimant"
      "\<forall>q \<in> resource ` snd ` set pre. holder now db q = None \<or> holder now db q = Some claimant"
      "\<forall>q. lease_get q db' = (if q \<in> resource ` snd ` set pre then None else lease_get q db)" by auto
    have "lease_get q db' = lease_get q db" if "q \<notin> resource ` snd ` set fixed" for q
      using that s(1,5) by auto
    moreover have "lease_get q db' = lease_get q db" if "holder now db q = Some e" "e \<noteq> claimant" for q e
      using that s(4,5) by fastforce
    moreover have "\<forall>(n, p) \<in> set pre. holder now db (resource p) \<in> {None, Some claimant} \<and> lease_get (resource p) db' = None"
      using s(4,5) by (auto simp: image_iff)
    ultimately show ?thesis using Some s spec by (simp only: option.case) blast
  qed
qed

subsection \<open>The properties at one registry\<close>

text \<open>
  A registry with one project's block. Environment 4 holds the pinned port 54322 and
  environment 2 the pinned port 54323.
\<close>

definition ex_ports :: ports_db where
  "ex_ports = \<lparr>db_blocks = [\<lparr>pb_project = 3, pb_first = 20000, pb_last = 20099\<rparr>],
     db_allocations = [\<lparr>pa_port = 20000, pa_project = 3, pa_env = 2, pa_name = ''app''\<rparr>],
     db_leases = [\<lparr>le_resource = resource 54322, le_env = 4, le_expires = 100\<rparr>,
                  \<lparr>le_resource = resource 54323, le_env = 2, le_expires = 100\<rparr>],
     db_unit_of = (\<lambda>e. Some e), db_slug_of = (\<lambda>_. Some ''unit'')\<rparr>"

lemma ex_block_ports: "block_ports \<lparr>pb_project = 3, pb_first = 20000, pb_last = 20099\<rparr> = 20000 # 20001 # map word_of_nat [20002..<20100]"
  by (simp add: block_ports_def upt_conv_Cons)

lemma ex_ports_ok: "blocks_ok ex_ports" "alloc_ok ex_ports" "leases_ok ex_ports"
  by (auto simp: ex_ports_def blocks_ok_def block_ok_def alloc_ok_def leases_ok_def resource_inj intro!: exI [of _ 0])

theorem one_block_per_project_witness:
  "\<exists>r db'. ensure_block 2 ex_ports = (r, db') \<and> blocks_ok db'"
proof -
  obtain r db' where "ensure_block 2 ex_ports = (r, db')" by fastforce
  from one_block_per_project [OF ex_ports_ok(1) this] this show ?thesis by blast
qed

theorem allocate_refines_grants_witness:
  "\<exists>r db'. allocate \<lparr>pb_project = 3, pb_first = 20000, pb_last = 20099\<rparr> 4 [''app''] Map.empty ex_ports = (r, db')
     \<and> grants_of db' (4, ''app'') = Some 20001 \<and> grants_of db' (2, ''app'') = Some 20000"
proof -
  let ?b = "\<lparr>pb_project = 3, pb_first = 20000, pb_last = 20099\<rparr> :: port_block"
  have b: "pb_first ?b \<noteq> 0" by simp
  obtain r db' where a: "allocate ?b 4 [''app''] Map.empty ex_ports = (r, db')" by fastforce
  have "grants_of ex_ports = [(2, ''app'') \<mapsto> 20000]" by (simp add: grants_of_def ex_ports_def)
  then have g: "grant_all (block_ports ?b) 4 [''app''] Map.empty (grants_of ex_ports)
      = (Some [''app'' \<mapsto> 20001], [(2, ''app'') \<mapsto> 20000, (4, ''app'') \<mapsto> 20001])"
    by (simp add: grant_def ex_block_ports)
  from allocate_refines_grants [OF ex_ports_ok(2) b a]
  have "grants_of db' = [(2, ''app'') \<mapsto> 20000, (4, ''app'') \<mapsto> 20001]" unfolding g by simp
  with a show ?thesis by simp
qed

theorem fixed_ports_all_or_none_witness:
  "\<exists>out db'. hold_fixed 4 [(''api'', 54322), (''db'', 54323)] 5 50 ex_ports = (Inr out, db')
     \<and> lease_get (resource 54322) ex_ports \<noteq> None \<and> lease_get (resource 54322) db' = None"
proof -
  obtain c db' where h: "hold_fixed 4 [(''api'', 54322), (''db'', 54323)] 5 50 ex_ports = (Inr (Some c), db')"
    and c: "cf_name c = ''db''"
    by (simp add: hold_fixed_def take_one_def CLAIM_ATTEMPTS_def numeral_3_eq_3 lease_acquire_def ex_ports_def resource_inj
        holder_of_def lease_get_def unit_behind_def)
  from fixed_ports_all_or_none [OF ex_ports_ok(3) h] obtain pre post where
    p: "[(''api'', 54322), (''db'', 54323)] = pre @ (''db'', cf_port c) # post"
    "\<forall>(n, p) \<in> set pre. lease_get (resource p) db' = None" unfolding option.case c by fast
  then have "pre = [(''api'', 54322)]" by (cases pre) (auto simp: Cons_eq_append_conv)
  with p h show ?thesis by (auto simp: lease_get_def ex_ports_def)
qed

end
