(* ===== verification/Activation.thy ===== *)
theory Activation
  imports Scalars Ports
begin

text \<open>
  \<open>env/mod.rs\<close>, \<open>env/vars.rs\<close>, \<open>env/stand_in.rs\<close>, \<open>env/secrets.rs\<close> and the two renderings of
  \<open>env/files.rs\<close>: the environment a home carries. \<open>resolve_activation\<close> assembles it, \<open>dotenv\<close>
  writes what is the same for everybody, \<open>entering\<close> reads that back and adds what the person
  who enters holds. A value's text is a string; that it cannot be printed is Rust's privacy.
\<close>

datatype env_error =
    EnvError error
  | EnvPort port_error
  | SecretsPermissions path "32 word"

datatype env_origin = OIdentity | OGenerated | OMachine | OStandIn
datatype want = WantGenerated | WantSecret | WantRequiredLocal

record env_var =
  v_name :: string
  v_origin :: env_origin
  v_value :: string

record activation =
  ac_vars :: "env_var list"
  ac_missing :: "(string \<times> want) list"

definition env_name_parse :: "string \<Rightarrow> error + string" where
  "env_name_parse s = parse_newtype ''environment variable name'' ENV_NAME s"

text \<open>A \<open>BTreeMap\<close> collected from pairs, as the list its iterator gives: a later pair wins.\<close>

definition btree :: "(string \<times> 'a) list \<Rightarrow> (string \<times> 'a) list" where
  "btree ps = map (\<lambda>k. (k, the (map_of (rev ps) k))) (sort (remdups (map fst ps)))"

subsection \<open>Identity variables\<close>

record subject =
  sj_unit :: string
  sj_slug :: string
  sj_project :: string
  sj_host :: string
  sj_home :: string
  sj_environment :: string

definition VAR_ID :: string where "VAR_ID = ''NODAL_ID''"
definition VAR_UNIT :: string where "VAR_UNIT = ''NODAL_UNIT''"
definition VAR_PROJECT :: string where "VAR_PROJECT = ''NODAL_PROJECT''"
definition VAR_HOST :: string where "VAR_HOST = ''NODAL_HOST''"
definition VAR_ROOT :: string where "VAR_ROOT = ''NODAL_ROOT''"

definition ALL_VARS :: "string list" where
  "ALL_VARS = [VAR_ID, VAR_UNIT, VAR_PROJECT, VAR_HOST, VAR_ROOT]"

fun parse_names :: "(string \<times> string) list \<Rightarrow> env_error + (string \<times> string) list" where
  "parse_names [] = Inr []"
| "parse_names ((name, value) # pairs) =
     (case env_name_parse name of
        Inl e \<Rightarrow> Inl (EnvError e)
      | Inr n \<Rightarrow> (case parse_names pairs of Inl e \<Rightarrow> Inl e | Inr ps \<Rightarrow> Inr ((n, value) # ps)))"

definition identity_vars :: "subject \<Rightarrow> env_error + (string \<times> string) list" where
  "identity_vars sj = parse_names
     [(VAR_ID, sj_unit sj), (VAR_UNIT, sj_slug sj), (VAR_PROJECT, sj_project sj),
      (VAR_HOST, sj_host sj), (VAR_ROOT, sj_home sj)]"

subsection \<open>Stand-ins\<close>

record stand_ins =
  si_slug :: string
  si_block :: port_block
  si_templates :: "string \<rightharpoonup> string"

definition ROLE :: string where "ROLE = ''nodal''"
definition DATABASE :: "string list" where "DATABASE = [''DATABASE_URL'', ''DB_URL'']"
definition REDIS :: "string list" where "REDIS = [''REDIS_URL'']"
definition URL_ENDING :: string where "URL_ENDING = ''URL''"
definition PORT_ENDING :: string where "PORT_ENDING = ''PORT''"

definition ends_with :: "string \<Rightarrow> string \<Rightarrow> bool" where
  "ends_with name ending \<longleftrightarrow> name = ending
     \<or> length ending < length name \<and> suffix ending name \<and> name ! (length name - length ending - 1) = CHR ''_''"

definition ends_with_any :: "string \<Rightarrow> string list \<Rightarrow> bool" where
  "ends_with_any name endings = list_ex (ends_with name) endings"

text \<open>\<open>str::replace\<close>: every occurrence, from the left, none of them overlapping.\<close>

function replace :: "string \<Rightarrow> string \<Rightarrow> string \<Rightarrow> string" where
  "replace p r s =
     (if p \<noteq> [] \<and> prefix p s then r @ replace p r (drop (length p) s)
      else case s of [] \<Rightarrow> [] | c # cs \<Rightarrow> c # replace p r cs)"
  by pat_completeness auto

termination by (relation "measure (\<lambda>(p, r, s). length s)") (auto simp: prefix_def)

declare replace.simps [simp del]

definition fill :: "string \<Rightarrow> string \<Rightarrow> port \<Rightarrow> string" where
  "fill template slug port = replace ''{port}'' (dec (unat port)) (replace ''{slug}'' slug template)"

definition stand_in_port ::
    "(string \<Rightarrow> port_error + string) \<Rightarrow> stand_ins \<Rightarrow> string \<Rightarrow> port_error + port" where
  "stand_in_port compute_port si name = derived compute_port (si_block si) (si_slug si @ [CHR 0x00] @ name)"

definition mint ::
    "(string \<Rightarrow> port_error + string) \<Rightarrow> stand_ins \<Rightarrow> string \<Rightarrow> env_error + string option" where
  "mint compute_port si name =
     (case stand_in_port compute_port si name of
        Inl e \<Rightarrow> Inl (EnvPort e)
      | Inr port \<Rightarrow> Inr
         (case si_templates si name of
            Some template \<Rightarrow> Some (fill template (si_slug si) port)
          | None \<Rightarrow>
              if ends_with_any name DATABASE
              then Some (''postgresql://'' @ ROLE @ '':'' @ ROLE @ ''@localhost:'' @ dec (unat port) @ ''/'' @ si_slug si)
              else if ends_with_any name REDIS then Some (''redis://localhost:'' @ dec (unat port))
              else if ends_with name PORT_ENDING then None
              else if ends_with name URL_ENDING then Some (''http://localhost:'' @ dec (unat port))
              else Some (''nodal-'' @ si_slug si)))"

subsection \<open>Secret sources\<close>

text \<open>The trait \<open>SecretSource\<close>: which tier a source is, and what it answers for a name.\<close>

record secret_source =
  ss_tier :: env_origin
  ss_lookup :: "string \<Rightarrow> env_error + string option"

fun resolve_secret :: "secret_source list \<Rightarrow> string \<Rightarrow> env_error + (env_origin \<times> string) option" where
  "resolve_secret [] name = Inr None"
| "resolve_secret (s # sources) name =
     (case ss_lookup s name of
        Inl e \<Rightarrow> Inl e
      | Inr (Some value) \<Rightarrow> Inr (Some (ss_tier s, value))
      | Inr None \<Rightarrow> resolve_secret sources name)"

definition machine_source :: "(string \<rightharpoonup> string) \<Rightarrow> secret_source" where
  "machine_source values = \<lparr>ss_tier = OMachine, ss_lookup = (\<lambda>name. Inr (values name))\<rparr>"

definition unit_generated :: "(string \<rightharpoonup> string) \<Rightarrow> secret_source" where
  "unit_generated values = \<lparr>ss_tier = OGenerated, ss_lookup = (\<lambda>name. Inr (values name))\<rparr>"

text \<open>The permission bits \<open>0o077\<close>; the mode is masked with \<open>0o777\<close>.\<close>

definition SHARED_BITS :: "32 word" where "SHARED_BITS = 0x3F"

definition unquote :: "string \<Rightarrow> string" where
  "unquote v =
     (if 2 \<le> length v \<and> hd v = CHR 0x22 \<and> last v = CHR 0x22 then butlast (tl v)
      else if 2 \<le> length v \<and> hd v = CHR 0x27 \<and> last v = CHR 0x27 then butlast (tl v)
      else v)"

definition parse_secret_line :: "string \<Rightarrow> (string \<times> string) option" where
  "parse_secret_line line =
     (case split_once (CHR ''='') (case strip_prefix ''export '' line of Some rest \<Rightarrow> rest | None \<Rightarrow> line) of
        None \<Rightarrow> None
      | Some (name, value) \<Rightarrow>
          (case env_name_parse (trim name) of Inl _ \<Rightarrow> None | Inr n \<Rightarrow> Some (n, unquote (trim value))))"

definition parse_secrets :: "string \<Rightarrow> string \<rightharpoonup> string" where
  "parse_secrets text = map_of (rev (List.map_filter parse_secret_line
     (filter (\<lambda>line. line \<noteq> [] \<and> \<not> prefix ''#'' line) (map trim (text_lines text)))))"

text \<open>
  The file as the platform answers for it: its metadata, with \<open>None\<close> for a file that is not
  there, and its text. A file any other account may read is refused before it is read.
\<close>

record secrets_file =
  sf_path :: path
  sf_mode :: "error + (32 word) option"
  sf_text :: "error + string"

definition check_permissions :: "path \<Rightarrow> 32 word \<Rightarrow> env_error + unit" where
  "check_permissions p mode =
     (let m = and mode 0x1FF in if and m SHARED_BITS = 0 then Inr () else Inl (SecretsPermissions p m))"

definition machine_open :: "secrets_file \<Rightarrow> env_error + (string \<rightharpoonup> string)" where
  "machine_open f =
     (case sf_mode f of
        Inl e \<Rightarrow> Inl (EnvError e)
      | Inr None \<Rightarrow> Inr Map.empty
      | Inr (Some mode) \<Rightarrow>
          (case check_permissions (sf_path f) mode of
             Inl e \<Rightarrow> Inl e
           | Inr () \<Rightarrow> (case sf_text f of Inl e \<Rightarrow> Inl (EnvError e) | Inr text \<Rightarrow> Inr (parse_secrets text))))"

subsection \<open>Assembling an activation\<close>

record env_recipe =
  rc_required_local :: "string list"
  rc_generated :: "string list"
  rc_secrets :: "string list"
  rc_stand_in :: "string \<rightharpoonup> string"

definition new_stand_ins :: "string \<Rightarrow> port_block \<Rightarrow> env_recipe \<Rightarrow> stand_ins" where
  "new_stand_ins slug b recipe = \<lparr>si_slug = slug, si_block = b, si_templates = rc_stand_in recipe\<rparr>"

type_synonym assembled = "env_var list \<times> (string \<times> want) list"

text \<open>The loop over \<open>env.generated\<close>, and the one over the two lists a person answers.\<close>

fun fill_generated ::
    "(string \<rightharpoonup> string) \<Rightarrow> (string \<Rightarrow> env_error + string option) option \<Rightarrow> string list \<Rightarrow> assembled
     \<Rightarrow> env_error + assembled" where
  "fill_generated produced minter [] vm = Inr vm"
| "fill_generated produced minter (name # names) (vars, missing) =
     (case produced name of
        Some value \<Rightarrow> fill_generated produced minter names
          (vars @ [\<lparr>v_name = name, v_origin = OGenerated, v_value = value\<rparr>], missing)
      | None \<Rightarrow>
          (case (case minter of None \<Rightarrow> Inr None | Some m \<Rightarrow> m name) of
             Inl e \<Rightarrow> Inl e
           | Inr (Some value) \<Rightarrow> fill_generated produced minter names
               (vars @ [\<lparr>v_name = name, v_origin = OStandIn, v_value = value\<rparr>], missing)
           | Inr None \<Rightarrow> fill_generated produced minter names (vars, missing @ [(name, WantGenerated)])))"

fun fill_person ::
    "secret_source list \<Rightarrow> want \<Rightarrow> string list \<Rightarrow> assembled \<Rightarrow> env_error + assembled" where
  "fill_person sources want [] vm = Inr vm"
| "fill_person sources want (name # names) (vars, missing) =
     (case resolve_secret sources name of
        Inl e \<Rightarrow> Inl e
      | Inr (Some (tier, value)) \<Rightarrow> fill_person sources want names
          (vars @ [\<lparr>v_name = name, v_origin = tier, v_value = value\<rparr>], missing)
      | Inr None \<Rightarrow> fill_person sources want names (vars, missing @ [(name, want)]))"

text \<open>\<open>vars.retain(|var| seen.insert(name))\<close>.\<close>

fun dedupe_from :: "string set \<Rightarrow> env_var list \<Rightarrow> env_var list" where
  "dedupe_from seen [] = []"
| "dedupe_from seen (v # vs) =
     (if v_name v \<in> seen then dedupe_from seen vs else v # dedupe_from (insert (v_name v) seen) vs)"

definition dedupe :: "env_var list \<Rightarrow> env_var list" where
  "dedupe vs = dedupe_from {} vs"

definition resolve_activation ::
    "subject \<Rightarrow> env_recipe \<Rightarrow> (string \<rightharpoonup> string) \<Rightarrow> (string \<Rightarrow> env_error + string option) option
     \<Rightarrow> secret_source list \<Rightarrow> env_error + activation" where
  "resolve_activation sj recipe produced minter sources =
     (case identity_vars sj of
        Inl e \<Rightarrow> Inl e
      | Inr pairs \<Rightarrow>
          (case fill_generated produced minter (rc_generated recipe)
              (map (\<lambda>(n, v). \<lparr>v_name = n, v_origin = OIdentity, v_value = v\<rparr>) pairs, []) of
             Inl e \<Rightarrow> Inl e
           | Inr vm \<Rightarrow>
               (case fill_person sources WantRequiredLocal (rc_required_local recipe) vm of
                  Inl e \<Rightarrow> Inl e
                | Inr vm \<Rightarrow>
                    (case fill_person sources WantSecret (rc_secrets recipe) vm of
                       Inl e \<Rightarrow> Inl e
                     | Inr (vars, missing) \<Rightarrow> Inr \<lparr>ac_vars = dedupe vars, ac_missing = missing\<rparr>))))"

definition ac_stand_ins :: "activation \<Rightarrow> string list" where
  "ac_stand_ins a = map v_name (filter (\<lambda>v. v_origin v = OStandIn) (ac_vars a))"

definition ac_get :: "activation \<Rightarrow> string \<Rightarrow> env_var option" where
  "ac_get a name = List.find (\<lambda>v. v_name v = name) (ac_vars a)"

definition ac_origins :: "activation \<Rightarrow> (string \<times> env_origin) list" where
  "ac_origins a = btree (map (\<lambda>v. (v_name v, v_origin v)) (ac_vars a))"

record manifest =
  mf_subject :: subject
  mf_written :: timestamp
  mf_version :: string
  mf_env :: "(string \<times> env_origin) list"
  mf_missing :: "(string \<times> want) list"

definition make_manifest :: "timestamp \<Rightarrow> string \<Rightarrow> activation \<Rightarrow> subject \<Rightarrow> manifest" where
  "make_manifest now version a sj =
     \<lparr>mf_subject = sj, mf_written = now, mf_version = version, mf_env = ac_origins a, mf_missing = ac_missing a\<rparr>"

subsection \<open>The two renderings\<close>

definition LF :: char where "LF = CHR 0x0A"
definition BACKSLASH :: char where "BACKSLASH = CHR 0x5C"
definition QUOTE :: char where "QUOTE = CHR 0x22"
definition TICK :: char where "TICK = CHR 0x27"

definition HEADER :: string where
  "HEADER = ''# Written by nodal. Edits are lost the next time the unit is activated.'' @ [LF]
     @ ''# It holds no secret: your own values go in ~/.config/nodal/secrets.env and are resolved when you enter.'' @ [LF]"

definition escape_char :: "char \<Rightarrow> string" where
  "escape_char c = (if c \<in> {BACKSLASH, QUOTE, CHR ''$'', CHR 0x60} then [BACKSLASH, c]
     else if c = LF then [BACKSLASH, CHR ''n''] else [c])"

definition escape_dotenv :: "string \<Rightarrow> string" where
  "escape_dotenv v = concat (map escape_char v)"

definition is_a_persons_own :: "env_var \<Rightarrow> bool" where
  "is_a_persons_own v \<longleftrightarrow> v_origin v = OMachine"

definition dotenv :: "activation \<Rightarrow> string" where
  "dotenv a = HEADER @ concat (map
     (\<lambda>v. v_name v @ [CHR ''='', QUOTE] @ escape_dotenv (v_value v) @ [QUOTE, LF])
     (filter (\<lambda>v. \<not> is_a_persons_own v) (ac_vars a)))"

definition render_line :: "string \<times> string \<Rightarrow> string" where
  "render_line = (\<lambda>(name, value). ''export '' @ name @ [CHR ''='', TICK]
     @ concat (map (\<lambda>c. if c = TICK then [TICK, BACKSLASH, TICK, TICK] else [c]) value) @ [TICK, LF])"

definition render_export :: "(string \<times> string) list \<Rightarrow> string" where
  "render_export pairs = concat (map render_line pairs)"

definition export_activation :: "activation \<Rightarrow> string" where
  "export_activation a = render_export (map (\<lambda>v. (v_name v, v_value v)) (ac_vars a))"

subsection \<open>Reading the file back\<close>

fun unescape_from :: "string \<Rightarrow> string" where
  "unescape_from [] = []"
| "unescape_from (c # cs) =
     (if c \<noteq> BACKSLASH then c # unescape_from cs
      else case cs of [] \<Rightarrow> [BACKSLASH]
           | e # rest \<Rightarrow> (if e = CHR ''n'' then LF else e) # unescape_from rest)"

definition unescape :: "string \<Rightarrow> string" where
  "unescape v = unescape_from (trim_char QUOTE (trim v))"

definition parse_dotenv_line :: "string \<Rightarrow> (string \<times> string) option" where
  "parse_dotenv_line line =
     (case split_once (CHR ''='') line of
        None \<Rightarrow> None
      | Some (name, value) \<Rightarrow>
          (case env_name_parse (trim name) of Inl _ \<Rightarrow> None | Inr n \<Rightarrow> Some (n, unescape value)))"

definition parse_dotenv :: "string \<Rightarrow> (string \<times> string) list" where
  "parse_dotenv text = List.map_filter parse_dotenv_line
     (filter (\<lambda>line. \<not> prefix ''#'' (trim_start line)) (text_lines text))"

subsection \<open>Entering a home\<close>

definition wanted :: "manifest \<Rightarrow> string list" where
  "wanted m = remdups_adj
     (map fst (filter (\<lambda>(_, o1). o1 = OMachine) (mf_env m))
      @ map fst (filter (\<lambda>(_, w). w \<in> {WantSecret, WantRequiredLocal}) (mf_missing m)))"

text \<open>The loop of \<open>entering\<close>: a name the file holds, or an earlier turn added, is not replaced.\<close>

fun add_wanted :: "(string \<rightharpoonup> string) \<Rightarrow> string list \<Rightarrow> (string \<times> string) list \<Rightarrow> (string \<times> string) list" where
  "add_wanted machine [] pairs = pairs"
| "add_wanted machine (name # names) pairs =
     (if list_ex (\<lambda>(held, _). held = name) pairs then add_wanted machine names pairs
      else case machine name of
             Some value \<Rightarrow> add_wanted machine names (pairs @ [(name, value)])
           | None \<Rightarrow> add_wanted machine names pairs)"

text \<open>
  The answers of the disk: the text of \<open>.nodal/env\<close>, the manifest if it can be read, and the
  secrets file of the person who enters.
\<close>

definition entering ::
    "error + string \<Rightarrow> error + manifest \<Rightarrow> secrets_file \<Rightarrow> env_error + (string \<times> string) list" where
  "entering env_text manifest file =
     (case env_text of
        Inl e \<Rightarrow> Inl (EnvError e)
      | Inr text \<Rightarrow>
          (let pairs = parse_dotenv text
           in case manifest of
                Inl _ \<Rightarrow> Inr pairs
              | Inr m \<Rightarrow>
                  (case machine_open file of
                     Inl e \<Rightarrow> Inl e
                   | Inr machine \<Rightarrow> Inr (add_wanted machine (wanted m) pairs))))"

subsection \<open>What reading the file back gives\<close>

lemma escape_simps [simp]: "escape_dotenv [] = []" "escape_dotenv (c # v) = escape_char c @ escape_dotenv v"
  "escape_dotenv (u @ v) = escape_dotenv u @ escape_dotenv v"
  by (simp_all add: escape_dotenv_def)

lemma unescape_escape [simp]: "unescape_from (escape_dotenv v @ rest) = v @ unescape_from rest"
  by (induction v) (auto simp: escape_char_def BACKSLASH_def QUOTE_def LF_def)

lemma no_line_break [simp]: "LF \<notin> set (escape_dotenv v)"
  by (induction v) (auto simp: escape_char_def BACKSLASH_def QUOTE_def LF_def)

text \<open>
  \<open>trim_end_matches\<close> takes every quote at the end of the line, so a value whose own last
  character is a quote loses it, and the backslash that escaped it is left behind.
\<close>

definition read_back :: "string \<Rightarrow> string" where
  "read_back v = (if v \<noteq> [] \<and> last v = QUOTE then butlast v @ [BACKSLASH] else v)"

lemma escape_ends: "v \<noteq> [] \<Longrightarrow> last v \<noteq> QUOTE \<Longrightarrow> escape_dotenv v \<noteq> [] \<and> last (escape_dotenv v) \<noteq> QUOTE"
  by (cases v rule: rev_cases) (auto simp: escape_char_def BACKSLASH_def QUOTE_def LF_def)

lemma escape_begins: "v \<noteq> [] \<Longrightarrow> \<exists>c r. escape_dotenv v = c # r \<and> c \<noteq> QUOTE"
  by (cases v) (auto simp: escape_char_def BACKSLASH_def QUOTE_def LF_def)

lemma quote_not_space [simp]: "\<not> is_space QUOTE"
  by (simp add: is_space_def QUOTE_def)

lemma trim_char_quoted:
  "trim_char QUOTE (QUOTE # escape_dotenv v @ [QUOTE])
     = (if v \<noteq> [] \<and> last v = QUOTE then escape_dotenv (butlast v) @ [BACKSLASH] else escape_dotenv v)"
proof (cases v rule: rev_cases)
  case Nil
  then show ?thesis by (simp add: trim_char_def trim_end_char_def)
next
  case (snoc u q)
  obtain c r where cr: "escape_dotenv v = c # r" "c \<noteq> QUOTE" using escape_begins [of v] snoc by auto
  then have start: "trim_char QUOTE (QUOTE # escape_dotenv v @ [QUOTE]) = trim_end_char QUOTE (escape_dotenv v)"
    using trim_end_char_snoc [of QUOTE "c # r"] by (simp add: trim_char_def)
  show ?thesis
  proof (cases "q = QUOTE")
    case True
    have "escape_dotenv v = (escape_dotenv u @ [BACKSLASH]) @ [QUOTE]"
      using snoc True by (simp add: escape_char_def QUOTE_def BACKSLASH_def)
    then have "trim_end_char QUOTE (escape_dotenv v) = trim_end_char QUOTE (escape_dotenv u @ [BACKSLASH])"
      by (simp only: trim_end_char_snoc)
    also have "\<dots> = escape_dotenv u @ [BACKSLASH]"
      by (rule trim_end_char_id) (simp add: BACKSLASH_def QUOTE_def)
    finally show ?thesis using start snoc True by simp
  next
    case False
    with escape_ends [of v] snoc have "trim_end_char QUOTE (escape_dotenv v) = escape_dotenv v"
      by (intro trim_end_char_id) simp
    with start snoc False show ?thesis by simp
  qed
qed

lemma unescape_quoted: "unescape (QUOTE # escape_dotenv v @ [QUOTE]) = read_back v"
proof -
  have "trim (QUOTE # escape_dotenv v @ [QUOTE]) = QUOTE # escape_dotenv v @ [QUOTE]"
    by (rule trim_id) simp
  then show ?thesis
    using unescape_escape [of v "[]"] by (simp add: unescape_def trim_char_quoted read_back_def)
qed

definition good_name :: "string \<Rightarrow> bool" where
  "good_name n \<longleftrightarrow> accepts ENV_NAME n"

lemma good_name_char: "good_name n \<Longrightarrow> c \<in> set n \<Longrightarrow> code c = 95 \<or> 65 \<le> code c \<and> code c \<le> 90 \<or> 48 \<le> code c \<and> code c \<le> 57"
  by (cases n) (auto simp: good_name_def accepts_def ENV_NAME_def is_env_name_chars range_defs list_all_iff)

lemma good_name_plain:
  assumes "good_name n"
  shows "n \<noteq> []" "CHR ''='' \<notin> set n" "LF \<notin> set n" "\<not> prefix ''#'' n" "trim n = n" "env_name_parse n = Inr n"
    "\<not> is_space (hd n)"
proof -
  have no: "c \<in> set n \<Longrightarrow> \<not> is_space c \<and> c \<noteq> CHR ''='' \<and> c \<noteq> LF \<and> c \<noteq> CHR ''#''" for c
    using good_name_char [OF assms, of c] by (auto simp: is_space_def LF_def)
  show ne: "n \<noteq> []" using assms by (simp add: good_name_def accepts_def)
  show "CHR ''='' \<notin> set n" "LF \<notin> set n" using no by auto
  show "\<not> prefix ''#'' n" using no [of "hd n"] ne by (cases n) auto
  show "\<not> is_space (hd n)" using no [of "hd n"] ne by auto
  show "trim n = n" using no [of "hd n"] no [of "last n"] ne by (intro trim_id) auto
  show "env_name_parse n = Inr n" using assms by (simp add: good_name_def env_name_parse_def parse_newtype_def)
qed

lemma text_lines_of:
  assumes "list_all (\<lambda>l. LF \<notin> set l \<and> \<not> suffix [CHR 0x0D] l) ls"
  shows "text_lines (concat (map (\<lambda>l. l @ [LF]) ls)) = ls"
proof -
  have "split_char LF (concat (map (\<lambda>l. l @ [LF]) ls)) = ls @ [[]]"
    using assms by (induction ls) (simp_all add: split_char_append)
  moreover have "map chomp ls = ls"
    using assms by (induction ls) (auto simp: chomp_def strip_suffix_def)
  ultimately show ?thesis by (simp add: text_lines_def LF_def)
qed

definition dotenv_line :: "env_var \<Rightarrow> string" where
  "dotenv_line v = v_name v @ [CHR ''='', QUOTE] @ escape_dotenv (v_value v) @ [QUOTE]"

definition header_lines :: "string list" where
  "header_lines = [''# Written by nodal. Edits are lost the next time the unit is activated.'',
     ''# It holds no secret: your own values go in ~/.config/nodal/secrets.env and are resolved when you enter.'']"

lemma dotenv_lines:
  "dotenv a = concat (map (\<lambda>l. l @ [LF])
     (header_lines @ map dotenv_line (filter (\<lambda>v. \<not> is_a_persons_own v) (ac_vars a))))"
  by (simp add: dotenv_def HEADER_def header_lines_def dotenv_line_def comp_def)

lemma parse_line:
  assumes "good_name (v_name v)"
  shows "parse_dotenv_line (dotenv_line v) = Some (v_name v, read_back (v_value v))"
    "\<not> prefix ''#'' (trim_start (dotenv_line v))"
    "LF \<notin> set (dotenv_line v)" "\<not> suffix [CHR 0x0D] (dotenv_line v)"
proof -
  note g = good_name_plain [OF assms]
  show "parse_dotenv_line (dotenv_line v) = Some (v_name v, read_back (v_value v))"
    using g(2,5,6) unescape_quoted [of "v_value v"] by (simp add: parse_dotenv_line_def dotenv_line_def)
  from g(1,4,7) show "\<not> prefix ''#'' (trim_start (dotenv_line v))"
    by (cases "v_name v") (auto simp: trim_start_def dotenv_line_def)
  have "LF \<noteq> QUOTE" "LF \<noteq> CHR ''=''" by (simp_all add: LF_def QUOTE_def)
  with g(3) show "LF \<notin> set (dotenv_line v)" by (auto simp: dotenv_line_def)
  have "dotenv_line v = (v_name v @ [CHR ''='', QUOTE] @ escape_dotenv (v_value v)) @ [QUOTE]"
    by (simp add: dotenv_line_def)
  moreover have "\<not> suffix [CHR 0x0D] (xs @ [QUOTE])" for xs by (simp add: suffix_def QUOTE_def)
  ultimately show "\<not> suffix [CHR 0x0D] (dotenv_line v)" by (simp only: not_False_eq_True)
qed

lemma map_filter_all: "(\<And>x. x \<in> set xs \<Longrightarrow> f x = Some (g x)) \<Longrightarrow> List.map_filter f xs = map g xs"
  by (induction xs) (simp_all add: map_filter_simps)

lemma parse_dotenv_dotenv:
  assumes "\<And>v. v \<in> set (ac_vars a) \<Longrightarrow> good_name (v_name v)"
  shows "parse_dotenv (dotenv a)
    = map (\<lambda>v. (v_name v, read_back (v_value v))) (filter (\<lambda>v. \<not> is_a_persons_own v) (ac_vars a))"
proof -
  let ?vs = "filter (\<lambda>v. \<not> is_a_persons_own v) (ac_vars a)"
  have "list_all (\<lambda>l. LF \<notin> set l \<and> \<not> suffix [CHR 0x0D] l) (header_lines @ map dotenv_line ?vs)"
    using parse_line(3,4) assms by (auto simp: list_all_iff header_lines_def LF_def suffix_def append_eq_Cons_conv)
  then have "text_lines (dotenv a) = header_lines @ map dotenv_line ?vs"
    unfolding dotenv_lines by (rule text_lines_of)
  moreover have "filter (\<lambda>line. \<not> prefix ''#'' (trim_start line)) (map dotenv_line ?vs) = map dotenv_line ?vs"
    using parse_line(2) assms by (auto intro: filter_True)
  moreover have "filter (\<lambda>line. \<not> prefix ''#'' (trim_start line)) header_lines = []"
    by (simp add: header_lines_def trim_start_def is_space_def)
  moreover have "List.map_filter parse_dotenv_line (map dotenv_line ?vs) = map (\<lambda>v. (v_name v, read_back (v_value v))) ?vs"
  proof -
    have "List.map_filter parse_dotenv_line (map dotenv_line ?vs) = List.map_filter (\<lambda>v. parse_dotenv_line (dotenv_line v)) ?vs"
      by (simp add: List.map_filter_def filter_map comp_def)
    also have "\<dots> = map (\<lambda>v. (v_name v, read_back (v_value v))) ?vs"
      by (rule map_filter_all) (use parse_line(1) assms in auto)
    finally show ?thesis .
  qed
  ultimately show ?thesis by (simp add: parse_dotenv_def)
qed

subsection \<open>What a shell makes of the export form\<close>

text \<open>
  A POSIX shell reading one word: outside quotes a backslash takes the next character as it
  is, inside single quotes every character but the closing quote is itself.
\<close>

fun sh_word :: "bool \<Rightarrow> string \<Rightarrow> (string \<times> string) option" where
  "sh_word False [] = Some ([], [])"
| "sh_word True [] = None"
| "sh_word True (c # s) =
     (if c = TICK then sh_word False s else map_option (\<lambda>(w, r). (c # w, r)) (sh_word True s))"
| "sh_word False (c # s) =
     (if c = LF then Some ([], s)
      else if c = TICK then sh_word True s
      else if c = BACKSLASH then
        (case s of [] \<Rightarrow> None | d # r \<Rightarrow> map_option (\<lambda>(w, r). (d # w, r)) (sh_word False r))
      else map_option (\<lambda>(w, r). (c # w, r)) (sh_word False s))"

text \<open>The exports of a script of \<open>n\<close> lines.\<close>

fun sh_exports :: "nat \<Rightarrow> string \<Rightarrow> (string \<times> string) list option" where
  "sh_exports 0 s = (if s = [] then Some [] else None)"
| "sh_exports (Suc n) s =
     (case strip_prefix ''export '' s of
        None \<Rightarrow> None
      | Some asg \<Rightarrow>
          (case split_once (CHR ''='') asg of
             None \<Rightarrow> None
           | Some (name, word) \<Rightarrow>
               (case sh_word False word of
                  None \<Rightarrow> None
                | Some (value, rest) \<Rightarrow> map_option (Cons (name, value)) (sh_exports n rest))))"

lemma sh_word_quoted:
  "sh_word True (concat (map (\<lambda>c. if c = TICK then [TICK, BACKSLASH, TICK, TICK] else [c]) v) @ [TICK, LF] @ s) = Some (v, s)"
proof (induction v)
  case Nil
  then show ?case by (simp add: TICK_def LF_def)
next
  case (Cons c v)
  have "TICK \<noteq> LF" "TICK \<noteq> BACKSLASH" "BACKSLASH \<noteq> LF" by (simp_all add: TICK_def LF_def BACKSLASH_def)
  with Cons show ?case by simp
qed

lemma sh_exports_render:
  "list_all (\<lambda>(n, _). CHR ''='' \<notin> set n) pairs \<Longrightarrow> sh_exports (length pairs) (render_export pairs) = Some pairs"
proof (induction pairs)
  case Nil
  then show ?case by (simp add: render_export_def)
next
  case (Cons p pairs)
  obtain n v where p: "p = (n, v)" by (cases p)
  let ?q = "concat (map (\<lambda>c. if c = TICK then [TICK, BACKSLASH, TICK, TICK] else [c]) v)"
  have "TICK \<noteq> LF" by (simp add: TICK_def LF_def)
  then have word: "sh_word False (TICK # ?q @ TICK # LF # render_export pairs) = Some (v, render_export pairs)"
    using sh_word_quoted [of v "render_export pairs"] by simp
  have "render_export (p # pairs) = ''export '' @ (n @ CHR ''='' # TICK # ?q @ TICK # LF # render_export pairs)"
    by (simp add: render_export_def render_line_def p)
  moreover have "CHR ''='' \<notin> set n" using Cons.prems p by simp
  ultimately show ?case
    using Cons p word by (simp only: sh_exports.simps length_Cons strip_prefix_append split_once_append option.simps prod.simps) simp
qed

text \<open>
  C28. Reading \<open>.nodal/env\<close> back gives every variable of the home but the person's own, in order,
  each with its value unless the value ends with a double quote: such a value comes back with a
  backslash in the quote's place. The export form is exact: a shell that reads it has every
  variable with its value.
\<close>

theorem dotenv_read_back:
  assumes "\<And>v. v \<in> set (ac_vars a) \<Longrightarrow> good_name (v_name v)"
  shows "parse_dotenv (dotenv a)
      = map (\<lambda>v. (v_name v, if v_value v \<noteq> [] \<and> last (v_value v) = QUOTE then butlast (v_value v) @ [BACKSLASH] else v_value v))
          (filter (\<lambda>v. \<not> is_a_persons_own v) (ac_vars a))
    \<and> sh_exports (length (ac_vars a)) (export_activation a) = Some (map (\<lambda>v. (v_name v, v_value v)) (ac_vars a))"
proof -
  have "list_all (\<lambda>(n, _). CHR ''='' \<notin> set n) (map (\<lambda>v. (v_name v, v_value v)) (ac_vars a))"
    using assms good_name_plain(2) by (auto simp: list_all_iff)
  from sh_exports_render [OF this] parse_dotenv_dotenv [OF assms] show ?thesis
    by (simp add: export_activation_def read_back_def)
qed

definition ex_activation :: activation where
  "ex_activation = \<lparr>ac_vars = [\<lparr>v_name = ''PORT'', v_origin = OGenerated, v_value = ''3011''\<rparr>,
       \<lparr>v_name = ''GREETING'', v_origin = OGenerated, v_value = ''say '' @ [QUOTE, CHR ''a'', QUOTE]\<rparr>,
       \<lparr>v_name = ''TOKEN'', v_origin = OMachine, v_value = ''mine''\<rparr>],
     ac_missing = [(''MAIL'', WantSecret)]\<rparr>"

lemma ex_names: "v \<in> set (ac_vars ex_activation) \<Longrightarrow> good_name (v_name v)"
  by (auto simp: ex_activation_def good_name_def accepts_def ENV_NAME_def is_env_name_chars range_defs)

theorem dotenv_read_back_witness:
  "parse_dotenv (dotenv ex_activation) = [(''PORT'', ''3011''), (''GREETING'', ''say '' @ [QUOTE, CHR ''a'', BACKSLASH])]"
proof -
  have "parse_dotenv (dotenv ex_activation)
      = map (\<lambda>v. (v_name v, if v_value v \<noteq> [] \<and> last (v_value v) = QUOTE then butlast (v_value v) @ [BACKSLASH] else v_value v))
          (filter (\<lambda>v. \<not> is_a_persons_own v) (ac_vars ex_activation))"
    using dotenv_read_back [OF ex_names] by blast
  then show ?thesis by (simp add: ex_activation_def [THEN arg_cong [where f = ac_vars]] is_a_persons_own_def QUOTE_def)
qed

subsection \<open>Assembling: what is named, and who answered\<close>

text \<open>
  The first loop only adds generated values and stand-ins, the other two only what a source
  answered with, and a name nothing answered is listed with the list that declares it.
\<close>

lemma fill_generated_parts:
  "fill_generated produced minter names (vars, missing) = Inr (vars', missing')
     \<Longrightarrow> \<exists>vs ms. vars' = vars @ vs \<and> missing' = missing @ ms \<and> set names = v_name ` set vs \<union> fst ` set ms
        \<and> (\<forall>v\<in>set vs. v_origin v \<noteq> OMachine) \<and> snd ` set ms \<subseteq> {WantGenerated}"
proof (induction names arbitrary: vars missing)
  case (Cons name names)
  have put: ?case if "fill_generated produced minter names (vars @ [v], missing) = Inr (vars', missing')"
      "v_name v = name" "v_origin v \<noteq> OMachine" for v
  proof -
    from Cons.IH [OF that(1)] obtain vs ms where "vars' = (vars @ [v]) @ vs" "missing' = missing @ ms"
      "set names = v_name ` set vs \<union> fst ` set ms" "\<forall>v\<in>set vs. v_origin v \<noteq> OMachine" "snd ` set ms \<subseteq> {WantGenerated}"
      by blast
    with that(2,3) show ?thesis by (intro exI [of _ "v # vs"] exI [of _ ms]) auto
  qed
  show ?case
  proof (cases "produced name")
    case (Some val)
    with Cons.prems show ?thesis by (intro put [of "\<lparr>v_name = name, v_origin = OGenerated, v_value = val\<rparr>"]) auto
  next
    case None
    let ?m = "case minter of None \<Rightarrow> Inr None | Some m \<Rightarrow> m name"
    show ?thesis
    proof (cases "?m")
      case (Inr o1)
      show ?thesis
      proof (cases o1)
        case (Some val)
        with None Inr Cons.prems show ?thesis
          by (intro put [of "\<lparr>v_name = name, v_origin = OStandIn, v_value = val\<rparr>"]) auto
      next
        case None
        with \<open>produced name = None\<close> Inr Cons.prems Cons.IH [of vars "missing @ [(name, WantGenerated)]"]
        obtain vs ms where "vars' = vars @ vs" "missing' = (missing @ [(name, WantGenerated)]) @ ms"
          "set names = v_name ` set vs \<union> fst ` set ms" "\<forall>v\<in>set vs. v_origin v \<noteq> OMachine" "snd ` set ms \<subseteq> {WantGenerated}"
          by auto
        then show ?thesis by (intro exI [of _ vs] exI [of _ "(name, WantGenerated) # ms"]) auto
      qed
    qed (use Cons.prems None in simp)
  qed
qed simp

lemma fill_person_parts:
  "fill_person sources want names (vars, missing) = Inr (vars', missing')
     \<Longrightarrow> \<exists>vs ms. vars' = vars @ vs \<and> missing' = missing @ ms \<and> set names = v_name ` set vs \<union> fst ` set ms
        \<and> (\<forall>v\<in>set vs. resolve_secret sources (v_name v) = Inr (Some (v_origin v, v_value v)))
        \<and> (\<forall>m\<in>set ms. snd m = want \<and> resolve_secret sources (fst m) = Inr None)"
proof (induction names arbitrary: vars missing)
  case (Cons name names)
  show ?case
  proof (cases "resolve_secret sources name")
    case (Inr r)
    show ?thesis
    proof (cases r)
      case (Some tv)
      obtain tier val where tv: "tv = (tier, val)" by (cases tv)
      let ?v = "\<lparr>v_name = name, v_origin = tier, v_value = val\<rparr>"
      from Inr Some tv Cons.prems Cons.IH [of "vars @ [?v]" missing] obtain vs ms where
        "vars' = (vars @ [?v]) @ vs" "missing' = missing @ ms" "set names = v_name ` set vs \<union> fst ` set ms"
        "\<forall>v\<in>set vs. resolve_secret sources (v_name v) = Inr (Some (v_origin v, v_value v))"
        "\<forall>m\<in>set ms. snd m = want \<and> resolve_secret sources (fst m) = Inr None" by auto
      with Inr Some tv show ?thesis by (intro exI [of _ "?v # vs"] exI [of _ ms]) auto
    next
      case None
      from Inr None Cons.prems Cons.IH [of vars "missing @ [(name, want)]"] obtain vs ms where
        "vars' = vars @ vs" "missing' = (missing @ [(name, want)]) @ ms" "set names = v_name ` set vs \<union> fst ` set ms"
        "\<forall>v\<in>set vs. resolve_secret sources (v_name v) = Inr (Some (v_origin v, v_value v))"
        "\<forall>m\<in>set ms. snd m = want \<and> resolve_secret sources (fst m) = Inr None" by auto
      with Inr None show ?thesis by (intro exI [of _ vs] exI [of _ "(name, want) # ms"]) auto
    qed
  qed (use Cons.prems in simp)
qed simp

lemma dedupe_from_parts:
  "distinct (map v_name (dedupe_from seen vs)) \<and> v_name ` set (dedupe_from seen vs) = v_name ` set vs - seen
     \<and> set (dedupe_from seen vs) \<subseteq> set vs"
  by (induction vs arbitrary: seen) auto

lemma dedupe_from_first:
  "List.find (\<lambda>v. v_name v = n) (dedupe_from seen vs) = (if n \<in> seen then None else List.find (\<lambda>v. v_name v = n) vs)"
  by (induction vs arbitrary: seen) auto

lemma dedupe_parts: "distinct (map v_name (dedupe vs))" "v_name ` set (dedupe vs) = v_name ` set vs" "set (dedupe vs) \<subseteq> set vs"
  using dedupe_from_parts [of "{}" vs] by (simp_all add: dedupe_def)

text \<open>What the three loops leave, in one statement.\<close>

definition assembled_from ::
    "subject \<Rightarrow> env_recipe \<Rightarrow> secret_source list \<Rightarrow> activation \<Rightarrow> (string \<times> string) list
     \<Rightarrow> env_var list \<Rightarrow> env_var list \<Rightarrow> env_var list \<Rightarrow> (string \<times> want) list \<Rightarrow> (string \<times> want) list
     \<Rightarrow> (string \<times> want) list \<Rightarrow> bool" where
  "assembled_from sj recipe sources a ids vg vl vs mg ml ms \<longleftrightarrow>
     identity_vars sj = Inr ids
   \<and> ac_vars a = dedupe (map (\<lambda>(n, v). \<lparr>v_name = n, v_origin = OIdentity, v_value = v\<rparr>) ids @ vg @ vl @ vs)
   \<and> ac_missing a = mg @ ml @ ms
   \<and> set (rc_generated recipe) = v_name ` set vg \<union> fst ` set mg
   \<and> set (rc_required_local recipe) = v_name ` set vl \<union> fst ` set ml
   \<and> set (rc_secrets recipe) = v_name ` set vs \<union> fst ` set ms
   \<and> (\<forall>v\<in>set vg. v_origin v \<noteq> OMachine)
   \<and> (\<forall>v\<in>set vl \<union> set vs. resolve_secret sources (v_name v) = Inr (Some (v_origin v, v_value v)))
   \<and> snd ` set mg \<subseteq> {WantGenerated}
   \<and> (\<forall>m\<in>set ml. snd m = WantRequiredLocal \<and> resolve_secret sources (fst m) = Inr None)
   \<and> (\<forall>m\<in>set ms. snd m = WantSecret \<and> resolve_secret sources (fst m) = Inr None)"

lemma assembled_fromD:
  assumes "assembled_from sj recipe sources a ids vg vl vs mg ml ms"
  shows "identity_vars sj = Inr ids"
    and "ac_vars a = dedupe (map (\<lambda>(n, v). \<lparr>v_name = n, v_origin = OIdentity, v_value = v\<rparr>) ids @ vg @ vl @ vs)"
    and "ac_missing a = mg @ ml @ ms"
    and "set (rc_generated recipe) = v_name ` set vg \<union> fst ` set mg"
    and "set (rc_required_local recipe) = v_name ` set vl \<union> fst ` set ml"
    and "set (rc_secrets recipe) = v_name ` set vs \<union> fst ` set ms"
    and "\<forall>v\<in>set vg. v_origin v \<noteq> OMachine"
    and "\<forall>v\<in>set vl \<union> set vs. resolve_secret sources (v_name v) = Inr (Some (v_origin v, v_value v))"
    and "(n, w) \<in> set (mg @ ml @ ms) \<Longrightarrow> w \<noteq> WantGenerated \<Longrightarrow> resolve_secret sources n = Inr None"
    and "v \<in> set (ac_vars a) \<Longrightarrow>
       v \<in> set (map (\<lambda>(n, v). \<lparr>v_name = n, v_origin = OIdentity, v_value = v\<rparr>) ids) \<union> set vg \<union> set vl \<union> set vs"
    and "distinct (map v_name (ac_vars a))"
proof -
  note a = assms [unfolded assembled_from_def]
  show "identity_vars sj = Inr ids"
    and v: "ac_vars a = dedupe (map (\<lambda>(n, v). \<lparr>v_name = n, v_origin = OIdentity, v_value = v\<rparr>) ids @ vg @ vl @ vs)"
    and "ac_missing a = mg @ ml @ ms"
    and "set (rc_generated recipe) = v_name ` set vg \<union> fst ` set mg"
    and "set (rc_required_local recipe) = v_name ` set vl \<union> fst ` set ml"
    and "set (rc_secrets recipe) = v_name ` set vs \<union> fst ` set ms"
    and "\<forall>v\<in>set vg. v_origin v \<noteq> OMachine"
    and "\<forall>v\<in>set vl \<union> set vs. resolve_secret sources (v_name v) = Inr (Some (v_origin v, v_value v))"
    using a by simp_all
  have "snd ` set mg \<subseteq> {WantGenerated}" "\<forall>m\<in>set ml. resolve_secret sources (fst m) = Inr None"
    "\<forall>m\<in>set ms. resolve_secret sources (fst m) = Inr None" using a by simp_all
  then show "(n, w) \<in> set (mg @ ml @ ms) \<Longrightarrow> w \<noteq> WantGenerated \<Longrightarrow> resolve_secret sources n = Inr None"
    by fastforce
  show "v \<in> set (ac_vars a) \<Longrightarrow>
       v \<in> set (map (\<lambda>(n, v). \<lparr>v_name = n, v_origin = OIdentity, v_value = v\<rparr>) ids) \<union> set vg \<union> set vl \<union> set vs"
    unfolding v by (drule subsetD [OF dedupe_parts(3)]) (simp only: set_append Un_assoc)
  show "distinct (map v_name (ac_vars a))" unfolding v by (rule dedupe_parts(1))
qed

lemma resolve_activation_parts:
  assumes "resolve_activation sj recipe produced minter sources = Inr a"
  shows "\<exists>ids vg vl vs mg ml ms. assembled_from sj recipe sources a ids vg vl vs mg ml ms"
proof -
  from assms obtain ids where ids: "identity_vars sj = Inr ids"
    by (cases "identity_vars sj") (auto simp: resolve_activation_def)
  let ?ids = "map (\<lambda>(n, v). \<lparr>v_name = n, v_origin = OIdentity, v_value = v\<rparr>) ids"
  from assms ids obtain v1 m1 where f1: "fill_generated produced minter (rc_generated recipe) (?ids, []) = Inr (v1, m1)"
    by (auto simp: resolve_activation_def split: sum.splits)
  from assms ids f1 obtain v2 m2 where f2: "fill_person sources WantRequiredLocal (rc_required_local recipe) (v1, m1) = Inr (v2, m2)"
    by (auto simp: resolve_activation_def split: sum.splits)
  from assms ids f1 f2 obtain v3 m3 where f3: "fill_person sources WantSecret (rc_secrets recipe) (v2, m2) = Inr (v3, m3)"
    and a: "a = \<lparr>ac_vars = dedupe v3, ac_missing = m3\<rparr>"
    by (auto simp: resolve_activation_def split: sum.splits)
  from fill_generated_parts [OF f1] obtain vg mg where g: "v1 = ?ids @ vg" "m1 = mg"
    "set (rc_generated recipe) = v_name ` set vg \<union> fst ` set mg" "\<forall>v\<in>set vg. v_origin v \<noteq> OMachine"
    "snd ` set mg \<subseteq> {WantGenerated}" by auto
  from fill_person_parts [OF f2] obtain vl ml where l: "v2 = v1 @ vl" "m2 = m1 @ ml"
    "set (rc_required_local recipe) = v_name ` set vl \<union> fst ` set ml"
    "\<forall>v\<in>set vl. resolve_secret sources (v_name v) = Inr (Some (v_origin v, v_value v))"
    "\<forall>m\<in>set ml. snd m = WantRequiredLocal \<and> resolve_secret sources (fst m) = Inr None" by blast
  from fill_person_parts [OF f3] obtain vs ms where s: "v3 = v2 @ vs" "m3 = m2 @ ms"
    "set (rc_secrets recipe) = v_name ` set vs \<union> fst ` set ms"
    "\<forall>v\<in>set vs. resolve_secret sources (v_name v) = Inr (Some (v_origin v, v_value v))"
    "\<forall>m\<in>set ms. snd m = WantSecret \<and> resolve_secret sources (fst m) = Inr None" by blast
  have "ac_vars a = dedupe (?ids @ vg @ vl @ vs)" "ac_missing a = mg @ ml @ ms" using a g l s by simp_all
  moreover have "\<forall>v\<in>set vl \<union> set vs. resolve_secret sources (v_name v) = Inr (Some (v_origin v, v_value v))"
    using l(4) s(4) by blast
  ultimately have "assembled_from sj recipe sources a ids vg vl vs mg ml ms"
    unfolding assembled_from_def using ids g(3-5) l(3,5) s(3,5) by (intro conjI)
  then show ?thesis by blast
qed

subsection \<open>Entering a home\<close>

lemma map_of_add_wanted:
  "map_of (add_wanted machine ws pairs) n
     = (case map_of pairs n of Some v \<Rightarrow> Some v | None \<Rightarrow> if n \<in> set ws then machine n else None)"
proof (induction ws arbitrary: pairs)
  case Nil
  then show ?case by (simp split: option.split)
next
  case (Cons w ws)
  have held: "list_ex (\<lambda>(held, _). held = w) pairs \<longleftrightarrow> map_of pairs w \<noteq> None"
    by (induction pairs) auto
  show ?case
  proof (cases "map_of pairs w")
    case None
    with held have "\<not> list_ex (\<lambda>(held, _). held = w) pairs" by simp
    with None show ?thesis
      by (cases "machine w") (auto simp: Cons.IH map_add_def split: option.splits)
  next
    case (Some x)
    with held have "list_ex (\<lambda>(held, _). held = w) pairs" by simp
    with Some show ?thesis by (auto simp: Cons.IH split: option.splits)
  qed
qed

lemma map_of_kept:
  assumes "distinct (map v_name vs)"
  shows "map_of (map (\<lambda>v. (v_name v, f v)) (filter P vs)) n
     = (case List.find (\<lambda>v. v_name v = n) vs of Some v \<Rightarrow> if P v then Some (f v) else None | None \<Rightarrow> None)"
  using assms
proof (induction vs)
  case (Cons w vs)
  have "List.find (\<lambda>v. v_name v = n) vs = None" if "v_name w = n"
    using Cons.prems that unfolding find_None_iff by (metis distinct.simps(2) in_set_conv_nth length_map list.simps(9) nth_map nth_mem)
  with Cons show ?case by auto
qed simp

lemma set_btree:
  assumes "distinct (map fst ps)"
  shows "set (btree ps) = set ps"
proof -
  have dr: "distinct (map fst (rev ps))" using assms by (simp add: rev_map [symmetric])
  have "map_of (rev ps) k = Some x \<longleftrightarrow> map_of ps k = Some x" for k x
    unfolding map_of_eq_Some_iff [OF assms] map_of_eq_Some_iff [OF dr] by simp
  then have "map_of (rev ps) k = map_of ps k" for k by (metis option.exhaust)
  then have "set (btree ps) = (\<lambda>k. (k, the (map_of ps k))) ` fst ` set ps" by (simp add: btree_def)
  also have "\<dots> = (\<lambda>p. (fst p, the (map_of ps (fst p)))) ` set ps" by (simp add: image_image)
  also have "\<dots> = id ` set ps"
  proof (rule image_cong)
    fix p assume "p \<in> set ps"
    then have "map_of ps (fst p) = Some (snd p)" using map_of_eq_Some_iff [OF assms] by simp
    then show "(fst p, the (map_of ps (fst p))) = id p" by simp
  qed simp
  finally show ?thesis by simp
qed

lemma set_wanted:
  assumes "distinct (map v_name (ac_vars a))"
  shows "n \<in> set (wanted (make_manifest now version a sj)) \<longleftrightarrow>
     (\<exists>v\<in>set (ac_vars a). v_name v = n \<and> v_origin v = OMachine) \<or> (n, WantSecret) \<in> set (ac_missing a)
       \<or> (n, WantRequiredLocal) \<in> set (ac_missing a)"
proof -
  have "set (ac_origins a) = (\<lambda>v. (v_name v, v_origin v)) ` set (ac_vars a)"
    using assms by (simp add: ac_origins_def set_btree comp_def)
  then show ?thesis by (force simp: wanted_def make_manifest_def image_iff)
qed

lemma parse_names_good: "parse_names ps = Inr qs \<Longrightarrow> (n, v) \<in> set qs \<Longrightarrow> good_name n"
  by (induction ps arbitrary: qs)
    (auto simp: env_name_parse_def parse_newtype_def good_name_def split: sum.splits if_splits)

lemma activation_names:
  assumes "resolve_activation sj recipe produced minter sources = Inr a"
    and "list_all good_name (rc_generated recipe @ rc_required_local recipe @ rc_secrets recipe)"
    and "v \<in> set (ac_vars a)"
  shows "good_name (v_name v)"
proof -
  from resolve_activation_parts [OF assms(1)] obtain ids vg vl vs mg ml ms
    where "assembled_from sj recipe sources a ids vg vl vs mg ml ms" by blast
  note p = assembled_fromD [OF this]
  note p(10) [OF assms(3)]
  moreover have "good_name (v_name w)" if "w \<in> set vg \<union> set vl \<union> set vs" for w
    using assms(2) p(4-6) that by (auto simp: list_all_iff)
  moreover have "good_name m" if "(m, x) \<in> set ids" for m x
    using parse_names_good p(1) that unfolding identity_vars_def by blast
  ultimately show ?thesis by auto
qed

text \<open>The names in the shell of whoever enters, and where each value comes from.\<close>

definition entered :: "(string \<rightharpoonup> string) \<Rightarrow> activation \<Rightarrow> string \<rightharpoonup> string" where
  "entered mine a n = (case ac_get a n of
     Some v \<Rightarrow> if v_origin v = OMachine then mine n else Some (read_back (v_value v))
   | None \<Rightarrow> if (n, WantSecret) \<in> set (ac_missing a) \<or> (n, WantRequiredLocal) \<in> set (ac_missing a)
             then mine n else None)"

lemma ac_get_Some: "ac_get a n = Some v \<Longrightarrow> v \<in> set (ac_vars a) \<and> v_name v = n"
  using find_Some_in [of "\<lambda>v. v_name v = n" "ac_vars a" v] by (simp add: ac_get_def)

lemma ac_get_None: "ac_get a n = None \<Longrightarrow> v \<in> set (ac_vars a) \<Longrightarrow> v_name v \<noteq> n"
  by (auto simp: ac_get_def find_None_iff)

lemma map_of_entered:
  assumes dist: "distinct (map v_name (ac_vars a))" and names: "\<And>v. v \<in> set (ac_vars a) \<Longrightarrow> good_name (v_name v)"
  shows "map_of (add_wanted mine (wanted (make_manifest now version a sj)) (parse_dotenv (dotenv a))) = entered mine a"
proof
  fix n
  have read: "map_of (parse_dotenv (dotenv a)) n = (case ac_get a n of
      Some v \<Rightarrow> if is_a_persons_own v then None else Some (read_back (v_value v)) | None \<Rightarrow> None)"
  proof -
    have "map_of (parse_dotenv (dotenv a)) n = (case List.find (\<lambda>v. v_name v = n) (ac_vars a) of
        Some v \<Rightarrow> if \<not> is_a_persons_own v then Some (read_back (v_value v)) else None | None \<Rightarrow> None)"
      using map_of_kept [OF dist] parse_dotenv_dotenv [OF names] by simp
    then show ?thesis unfolding ac_get_def by (simp split: option.split)
  qed
  show "map_of (add_wanted mine (wanted (make_manifest now version a sj)) (parse_dotenv (dotenv a))) n = entered mine a n"
  proof (cases "ac_get a n")
    case None
    then show ?thesis
      using ac_get_None [OF None] by (auto simp: entered_def map_of_add_wanted read set_wanted [OF dist])
  next
    case (Some v)
    then show ?thesis
      using ac_get_Some [OF Some] by (auto simp: entered_def map_of_add_wanted read set_wanted [OF dist] is_a_persons_own_def)
  qed
qed

text \<open>The one source asked is the file of the person who made the home: it answers again as it did.\<close>

lemma entered_same:
  assumes made: "resolve_activation sj recipe produced minter [machine_source mine] = Inr a"
    and ends: "\<forall>v\<in>set (ac_vars a). read_back (v_value v) = v_value v"
  shows "entered mine a n = map_option v_value (ac_get a n)"
proof -
  have asked: "resolve_secret [machine_source mine] k = Inr (map_option (Pair OMachine) (mine k))" for k
    by (cases "mine k") (auto simp: machine_source_def)
  from resolve_activation_parts [OF made] obtain ids vg vl vs mg ml ms
    where "assembled_from sj recipe [machine_source mine] a ids vg vl vs mg ml ms" by blast
  note p = assembled_fromD [OF this]
  show ?thesis
  proof (cases "ac_get a n")
    case None
    have "mine n = None" if "(n, w) \<in> set (ac_missing a)" "w \<noteq> WantGenerated" for w
      using p(9) [of n w] that asked [of n] unfolding p(3) by simp
    with None show ?thesis by (auto simp: entered_def)
  next
    case (Some v)
    note v = ac_get_Some [OF Some]
    have "mine n = Some (v_value v)" if "v_origin v = OMachine"
    proof -
      from v have "v \<in> set (ac_vars a)" by simp
      from p(10) [OF this] that p(7) have "v \<in> set vl \<union> set vs" by auto
      from p(8) [rule_format, OF this] v have "resolve_secret [machine_source mine] n = Inr (Some (v_origin v, v_value v))"
        by blast
      with asked [of n] show ?thesis by (simp only:) (cases "mine n", auto)
    qed
    with Some v ends show ?thesis by (auto simp: entered_def)
  qed
qed

text \<open>What the secrets file answers is appended behind what is everybody's, so the file is the same.\<close>

lemma fill_person_appends:
  "fill_person [machine_source mine] want names (vars, missing) = Inr (vars', missing') \<Longrightarrow>
     \<exists>own. vars' = vars @ own \<and> list_all is_a_persons_own own"
proof (induction names arbitrary: vars missing)
  case (Cons n names)
  show ?case
  proof (cases "mine n")
    case None
    with Cons show ?thesis by (simp add: machine_source_def)
  next
    case (Some x)
    with Cons.prems have "fill_person [machine_source mine] want names
        (vars @ [\<lparr>v_name = n, v_origin = OMachine, v_value = x\<rparr>], missing) = Inr (vars', missing')"
      by (simp add: machine_source_def)
    from Cons.IH [OF this] show ?thesis by (auto simp: is_a_persons_own_def)
  qed
qed simp

lemma dedupe_from_everybodys:
  "list_all is_a_persons_own own \<Longrightarrow>
     filter (\<lambda>v. \<not> is_a_persons_own v) (dedupe_from seen (vs @ own)) = filter (\<lambda>v. \<not> is_a_persons_own v) (dedupe_from seen vs)"
proof (induction vs arbitrary: seen)
  case Nil
  then have "list_all is_a_persons_own (dedupe_from seen own)"
    using dedupe_from_parts [of seen own] by (auto simp: list_all_iff)
  then show ?case by (simp add: list_all_iff filter_empty_conv)
qed simp

lemma dotenv_whoever_made_it:
  assumes "resolve_activation sj recipe produced minter [machine_source mine] = Inr a"
    and "resolve_activation sj recipe produced minter [machine_source mine'] = Inr b"
  shows "dotenv a = dotenv b"
proof -
  have shape: "filter (\<lambda>v. \<not> is_a_persons_own v) (ac_vars a)
      = filter (\<lambda>v. \<not> is_a_persons_own v) (dedupe_from {} vg)"
    if made: "resolve_activation sj recipe produced minter [machine_source m] = Inr a"
      and ids: "identity_vars sj = Inr ids"
      and gen: "fill_generated produced minter (rc_generated recipe)
        (map (\<lambda>(n, v). \<lparr>v_name = n, v_origin = OIdentity, v_value = v\<rparr>) ids, []) = Inr (vg, mg)" for m a ids vg mg
  proof -
    from made ids gen obtain v2 m2 v3 m3 where
      l: "fill_person [machine_source m] WantRequiredLocal (rc_required_local recipe) (vg, mg) = Inr (v2, m2)"
      and p: "fill_person [machine_source m] WantSecret (rc_secrets recipe) (v2, m2) = Inr (v3, m3)"
      and a: "ac_vars a = dedupe v3"
      by (auto simp: resolve_activation_def split: sum.splits prod.splits)
    from fill_person_appends [OF l] fill_person_appends [OF p] obtain own where
      "v3 = vg @ own" "list_all is_a_persons_own own" by (auto simp: list_all_append)
    then show ?thesis using dedupe_from_everybodys a by (simp add: dedupe_def)
  qed
  from assms(1) obtain ids vg mg where "identity_vars sj = Inr ids"
    "fill_generated produced minter (rc_generated recipe)
        (map (\<lambda>(n, v). \<lparr>v_name = n, v_origin = OIdentity, v_value = v\<rparr>) ids, []) = Inr (vg, mg)"
    by (auto simp: resolve_activation_def split: sum.splits prod.splits)
  from shape [OF assms(1) this] shape [OF assms(2) this] show ?thesis by (simp add: dotenv_def)
qed

text \<open>
  C29. Whoever enters a home has the identity and the generated values the file carries, as it
  reads back, and for every name a person answers, the value of their own secrets file and of
  nobody else's. Where the secrets file of the person who made the home was the only source asked
  and no value ends with a double quote, that is the activation itself for that person; and
  the file is the same text whoever makes the home, with whatever secrets.
\<close>

theorem entering_is_the_activation:
  assumes made: "resolve_activation sj recipe produced minter sources = Inr a"
    and names: "list_all good_name (rc_generated recipe @ rc_required_local recipe @ rc_secrets recipe)"
    and opens: "machine_open f = Inr mine"
  shows "(\<exists>pairs. entering (Inr (dotenv a)) (Inr (make_manifest now version a sj)) f = Inr pairs \<and> map_of pairs = entered mine a)
    \<and> (sources = [machine_source mine] \<longrightarrow> (\<forall>v\<in>set (ac_vars a). read_back (v_value v) = v_value v)
        \<longrightarrow> (\<forall>n. entered mine a n = map_option v_value (ac_get a n)))
    \<and> (\<forall>maker other b. sources = [machine_source maker]
        \<longrightarrow> resolve_activation sj recipe produced minter [machine_source other] = Inr b \<longrightarrow> dotenv b = dotenv a)"
proof -
  have "distinct (map v_name (ac_vars a))"
    using resolve_activation_parts [OF made] assembled_fromD(11) by blast
  with activation_names [OF made names] have
    "map_of (add_wanted mine (wanted (make_manifest now version a sj)) (parse_dotenv (dotenv a))) = entered mine a"
    by (intro map_of_entered)
  with opens have "\<exists>pairs. entering (Inr (dotenv a)) (Inr (make_manifest now version a sj)) f = Inr pairs
      \<and> map_of pairs = entered mine a"
    by (simp add: entering_def Let_def)
  with entered_same made dotenv_whoever_made_it show ?thesis by blast
qed

text \<open>A home with one generated port, one secret its maker held and one nobody answered.\<close>

definition ex_subject :: subject where
  "ex_subject = \<lparr>sj_unit = ''01J8'', sj_slug = ''fix-it'', sj_project = ''app'', sj_host = ''here'',
     sj_home = ''/h/fix-it'', sj_environment = ''01J9''\<rparr>"

definition ex_recipe :: env_recipe where
  "ex_recipe = \<lparr>rc_required_local = [''MAIL''], rc_generated = [''PORT''], rc_secrets = [''TOKEN''], rc_stand_in = Map.empty\<rparr>"

definition ex_maker :: "string \<rightharpoonup> string" where "ex_maker = [''TOKEN'' \<mapsto> ''hers'']"

definition ex_file :: secrets_file where
  "ex_file = \<lparr>sf_path = [''secrets.env''], sf_mode = Inr None, sf_text = Inl (Io [] ''gone'')\<rparr>"

lemma ex_identity: "identity_vars ex_subject = Inr
  [(''NODAL_ID'', ''01J8''), (''NODAL_UNIT'', ''fix-it''), (''NODAL_PROJECT'', ''app''), (''NODAL_HOST'', ''here''),
   (''NODAL_ROOT'', ''/h/fix-it'')]"
  by (simp add: identity_vars_def ex_subject_def VAR_ID_def VAR_UNIT_def VAR_PROJECT_def VAR_HOST_def VAR_ROOT_def
      env_name_parse_def parse_newtype_def accepts_def ENV_NAME_def is_env_name_chars range_defs)

theorem entering_is_the_activation_witness:
  "\<exists>a pairs. resolve_activation ex_subject ex_recipe [''PORT'' \<mapsto> ''3011''] None [machine_source ex_maker] = Inr a
     \<and> entering (Inr (dotenv a)) (Inr (make_manifest 0 ''0.1.0'' a ex_subject)) ex_file = Inr pairs
     \<and> map_of pairs ''PORT'' = Some ''3011'' \<and> map_of pairs ''TOKEN'' = None"
proof -
  obtain a where made: "resolve_activation ex_subject ex_recipe [''PORT'' \<mapsto> ''3011''] None [machine_source ex_maker] = Inr a"
    and port: "ac_get a ''PORT'' = Some \<lparr>v_name = ''PORT'', v_origin = OGenerated, v_value = ''3011''\<rparr>"
    and token: "ac_get a ''TOKEN'' = Some \<lparr>v_name = ''TOKEN'', v_origin = OMachine, v_value = ''hers''\<rparr>"
    by (simp add: resolve_activation_def ex_identity ex_recipe_def machine_source_def ex_maker_def dedupe_def ac_get_def)
  have names: "list_all good_name (rc_generated ex_recipe @ rc_required_local ex_recipe @ rc_secrets ex_recipe)"
    by (simp add: ex_recipe_def good_name_def accepts_def ENV_NAME_def is_env_name_chars range_defs)
  have opens: "machine_open ex_file = Inr Map.empty" by (simp add: machine_open_def ex_file_def)
  obtain pairs where "entering (Inr (dotenv a)) (Inr (make_manifest 0 ''0.1.0'' a ex_subject)) ex_file = Inr pairs"
    and "map_of pairs = entered Map.empty a"
    using entering_is_the_activation [OF made names opens] by blast
  with made port token show ?thesis
    by (intro exI [of _ a] exI [of _ pairs]) (simp add: entered_def read_back_def QUOTE_def)
qed

end
