(* ===== verification/HomeFiles.thy ===== *)
theory HomeFiles
  imports Steps Activation Assess
begin

text \<open>
  \<open>env/files.rs\<close> and \<open>context/pointer.rs\<close>: the files Nodal writes into a home. The table
  \<open>WRITTEN\<close> states one rule for all of them, that a file the project tracks is not touched; the
  operations read the table. A disk is the files of one home by their path, the directories
  beside them and the paths the platform refuses to read or write; the mode a file is
  written with is not part of it.
\<close>

subsection \<open>The table\<close>

datatype kind = KActivation | KMarker | KMemory | KPointer | KClaudeSettings
datatype taken = Whole | TakenNothing | PointerLine | NodalHooks
datatype hidden = HiddenAlways | WhenNodalMadeIt

record written =
  wr_path :: string
  wr_kind :: kind
  wr_exclude :: string
  wr_hidden :: hidden
  wr_removed :: taken
  wr_own :: bool

definition DIR :: string where "DIR = ''.nodal''"
definition ENV :: string where "ENV = ''.nodal/env''"
definition ENVRC :: string where "ENVRC = ''.envrc''"
definition MANIFEST :: string where "MANIFEST = ''.nodal/manifest.toml''"
definition WORKUNIT :: string where "WORKUNIT = ''WORKUNIT.md''"
definition MARKER_FILE :: string where "MARKER_FILE = ''.nodal/id''"
definition SETTINGS_FILE :: string where "SETTINGS_FILE = ''.claude/settings.json''"
definition SETTINGS_DIR :: string where "SETTINGS_DIR = ''.claude''"
definition EXCLUDE_MARKER :: string where "EXCLUDE_MARKER = ''# nodal''"

definition ENVRC_CONTENTS :: string where
  "ENVRC_CONTENTS = ''dotenv .nodal/env'' @ [LF] @ ''eval '' @ [QUOTE] @ ''$(nodal env --export)'' @ [QUOTE, LF]"

definition WRITTEN :: "written list" where
  "WRITTEN =
    [\<lparr>wr_path = ENV, wr_kind = KActivation, wr_exclude = ''/.nodal/'', wr_hidden = HiddenAlways, wr_removed = Whole, wr_own = True\<rparr>,
     \<lparr>wr_path = ENVRC, wr_kind = KActivation, wr_exclude = ''/.envrc'', wr_hidden = HiddenAlways, wr_removed = Whole, wr_own = True\<rparr>,
     \<lparr>wr_path = MANIFEST, wr_kind = KActivation, wr_exclude = ''/.nodal/'', wr_hidden = HiddenAlways, wr_removed = Whole, wr_own = True\<rparr>,
     \<lparr>wr_path = MARKER_FILE, wr_kind = KMarker, wr_exclude = ''/.nodal/'', wr_hidden = HiddenAlways, wr_removed = TakenNothing, wr_own = True\<rparr>,
     \<lparr>wr_path = WORKUNIT, wr_kind = KMemory, wr_exclude = ''/WORKUNIT.md'', wr_hidden = HiddenAlways, wr_removed = Whole, wr_own = True\<rparr>,
     \<lparr>wr_path = ''CLAUDE.md'', wr_kind = KPointer, wr_exclude = ''/CLAUDE.md'', wr_hidden = WhenNodalMadeIt, wr_removed = PointerLine, wr_own = False\<rparr>,
     \<lparr>wr_path = ''AGENTS.md'', wr_kind = KPointer, wr_exclude = ''/AGENTS.md'', wr_hidden = WhenNodalMadeIt, wr_removed = PointerLine, wr_own = False\<rparr>,
     \<lparr>wr_path = SETTINGS_FILE, wr_kind = KClaudeSettings, wr_exclude = ''/.claude/settings.json'', wr_hidden = WhenNodalMadeIt, wr_removed = NodalHooks, wr_own = True\<rparr>]"

lemmas path_defs = DIR_def ENV_def ENVRC_def MANIFEST_def WORKUNIT_def MARKER_FILE_def SETTINGS_FILE_def SETTINGS_DIR_def

definition written_row :: "string \<Rightarrow> written option" where
  "written_row p = List.find (\<lambda>w. wr_path w = p) WRITTEN"

definition of_kind :: "kind \<Rightarrow> written list" where
  "of_kind k = filter (\<lambda>w. wr_kind w = k) WRITTEN"

text \<open>The list the assessment reads is the column \<open>own\<close> of the table.\<close>

lemma own_files_are_the_column: "map wr_path (filter wr_own WRITTEN) = OWN_FILES"
  by (simp add: WRITTEN_def OWN_FILES_def path_defs)

subsection \<open>What the project tracks\<close>

datatype tracks = Known "string list" | Unknown string

text \<open>Git's answer is the paths of the table it tracks, or the text of its error.\<close>

definition tracked_of :: "bool \<Rightarrow> string + string list \<Rightarrow> tracks" where
  "tracked_of has_git answer =
     (if \<not> has_git then Known []
      else case answer of Inr tracked \<Rightarrow> Known tracked
           | Inl e \<Rightarrow> Unknown (''git could not be asked what it tracks: '' @ e))"

fun may_write :: "tracks \<Rightarrow> string \<Rightarrow> bool" where
  "may_write (Known tracked) p \<longleftrightarrow> \<not> list_ex (\<lambda>held. comps held = comps p) tracked"
| "may_write (Unknown _) p \<longleftrightarrow> False"

fun tracks_path :: "tracks \<Rightarrow> string \<Rightarrow> bool" where
  "tracks_path (Known tracked) p \<longleftrightarrow> list_ex (\<lambda>held. comps held = comps p) tracked"
| "tracks_path (Unknown _) p \<longleftrightarrow> False"

fun tracks_cause :: "tracks \<Rightarrow> string option" where
  "tracks_cause (Known _) = None"
| "tracks_cause (Unknown cause) = Some cause"

definition left_alone :: "tracks \<Rightarrow> string \<Rightarrow> string" where
  "left_alone t p =
     (case tracks_cause t of
        Some cause \<Rightarrow> p @ '': '' @ cause @ '', so nodal did not write in it''
      | None \<Rightarrow> ''the project tracks '' @ p @ '', so nodal did not write in it'')"

subsection \<open>The disk of one home\<close>

record disk =
  dk_texts :: "(string \<times> string) list"
  dk_dirs :: "string list"
  dk_stuck :: "string list"

type_synonym 'a on_disk = "disk \<Rightarrow> (error + 'a) \<times> disk"

definition text_of :: "disk \<Rightarrow> string \<Rightarrow> string option" where
  "text_of d p = map_of (dk_texts d) p"

definition refused :: "string \<Rightarrow> error" where "refused p = Io [p] ''permission denied''"

definition make_dir :: "string \<Rightarrow> unit on_disk" where
  "make_dir p d = (if p \<in> set (dk_dirs d) then (Inr (), d)
     else if p \<in> set (dk_stuck d) then (Inl (refused p), d)
     else (Inr (), d\<lparr>dk_dirs := dk_dirs d @ [p]\<rparr>))"

definition write_text :: "string \<Rightarrow> string \<Rightarrow> unit on_disk" where
  "write_text p t d = (if p \<in> set (dk_stuck d) then (Inl (refused p), d)
     else (Inr (), d\<lparr>dk_texts := AList.update p t (dk_texts d)\<rparr>))"

definition read_if_there :: "string \<Rightarrow> string option on_disk" where
  "read_if_there p d = (if p \<in> set (dk_stuck d) then (Inl (refused p), d) else (Inr (text_of d p), d))"

definition delete_file :: "string \<Rightarrow> unit on_disk" where
  "delete_file p d = (case text_of d p of
       None \<Rightarrow> (Inr (), d)
     | Some _ \<Rightarrow> if p \<in> set (dk_stuck d) then (Inl (refused p), d)
                 else (Inr (), d\<lparr>dk_texts := AList.delete p (dk_texts d)\<rparr>))"

definition holds_anything :: "disk \<Rightarrow> string \<Rightarrow> bool" where
  "holds_anything d p \<longleftrightarrow> list_ex (\<lambda>(q, _). prefix (p @ ''/'') q) (dk_texts d) \<or> list_ex (prefix (p @ ''/'')) (dk_dirs d)"

definition tidy :: "string \<Rightarrow> unit on_disk" where
  "tidy p d = (if p \<in> set (dk_dirs d) \<and> \<not> holds_anything d p
     then if p \<in> set (dk_stuck d) then (Inl (refused p), d)
          else (Inr (), d\<lparr>dk_dirs := removeAll p (dk_dirs d)\<rparr>)
     else (Inr (), d))"

subsection \<open>Writing and taking back\<close>

text \<open>\<open>rendered\<close> is the manifest as TOML, which the encoder of a crate writes.\<close>

fun write_rows :: "tracks \<Rightarrow> activation \<Rightarrow> error + string \<Rightarrow> written list \<Rightarrow> string list \<Rightarrow> string list on_disk" where
  "write_rows t a rendered [] notes d = (Inr notes, d)"
| "write_rows t a rendered (w # ws) notes d =
     (if \<not> may_write t (wr_path w) then write_rows t a rendered ws (notes @ [left_alone t (wr_path w)]) d
      else let wrote =
             (if wr_path w = ENV then write_text (wr_path w) (dotenv a) d
              else if wr_path w = ENVRC then write_text (wr_path w) ENVRC_CONTENTS d
              else case rendered of Inl e \<Rightarrow> (Inl e, d) | Inr toml \<Rightarrow> write_text (wr_path w) toml d)
           in case wrote of
                (Inl e, d') \<Rightarrow> (Inl e, d')
              | (Inr (), d') \<Rightarrow> write_rows t a rendered ws notes d')"

definition write_files :: "tracks \<Rightarrow> activation \<Rightarrow> error + string \<Rightarrow> string list on_disk" where
  "write_files t a rendered d =
     (case make_dir DIR d of
        (Inl e, d') \<Rightarrow> (Inl e, d')
      | (Inr (), d') \<Rightarrow> write_rows t a rendered (of_kind KActivation) [] d')"

definition MARK :: string where "MARK = ''<!-- nodal -->''"

definition is_pointer_line :: "string \<Rightarrow> bool" where
  "is_pointer_line line \<longleftrightarrow> prefix MARK (trim_start line)"

definition unpoint :: "string \<Rightarrow> unit on_disk" where
  "unpoint p d =
     (case read_if_there p d of
        (Inl e, d') \<Rightarrow> (Inl e, d')
      | (Inr None, d') \<Rightarrow> (Inr (), d')
      | (Inr (Some t), d') \<Rightarrow>
          (let kept = filter (\<lambda>line. \<not> is_pointer_line line) (text_lines t)
           in if length kept = length (text_lines t) then (Inr (), d')
              else if list_all (\<lambda>line. trim line = []) kept then delete_file p d'
              else write_text p (join [LF] kept @ [LF]) d'))"

text \<open>\<open>adapters/settings.rs\<close> is read through two of its functions: the text without Nodal's hooks
  if it holds any, and whether a document holds nothing.\<close>

record settings_reader =
  without_hooks :: "string \<Rightarrow> string option"
  is_empty_settings :: "string \<Rightarrow> bool"

definition unhook :: "settings_reader \<Rightarrow> string \<Rightarrow> unit on_disk" where
  "unhook r p d =
     (case read_if_there p d of
        (Inl e, d') \<Rightarrow> (Inl e, d')
      | (Inr None, d') \<Rightarrow> (Inr (), d')
      | (Inr (Some t), d') \<Rightarrow>
          (case without_hooks r t of
             None \<Rightarrow> (Inr (), d')
           | Some left \<Rightarrow> if is_empty_settings r left then delete_file p d' else write_text p left d'))"

fun remove_rows :: "settings_reader \<Rightarrow> tracks \<Rightarrow> written list \<Rightarrow> unit on_disk" where
  "remove_rows r t [] d = (Inr (), d)"
| "remove_rows r t (w # ws) d =
     (case (if \<not> may_write t (wr_path w) then (Inr (), d)
            else case wr_removed w of
                   Whole \<Rightarrow> delete_file (wr_path w) d
                 | PointerLine \<Rightarrow> unpoint (wr_path w) d
                 | NodalHooks \<Rightarrow> unhook r (wr_path w) d
                 | TakenNothing \<Rightarrow> (Inr (), d)) of
        (Inl e, d') \<Rightarrow> (Inl e, d')
      | (Inr (), d') \<Rightarrow> remove_rows r t ws d')"

definition remove_files :: "settings_reader \<Rightarrow> tracks \<Rightarrow> unit on_disk" where
  "remove_files r t d =
     (case remove_rows r t WRITTEN d of
        (Inl e, d') \<Rightarrow> (Inl e, d')
      | (Inr (), d') \<Rightarrow>
          (case tidy DIR d' of
             (Inl e, d') \<Rightarrow> (Inl e, d')
           | (Inr (), d') \<Rightarrow> tidy SETTINGS_DIR d'))"

subsection \<open>The exclude file\<close>

definition trim_end :: "string \<Rightarrow> string" where
  "trim_end s = rev (dropWhile is_space (rev s))"

text \<open>The lines of the rows hidden one way, each named once.\<close>

definition hidden_lines :: "hidden \<Rightarrow> string list" where
  "hidden_lines h = fold (\<lambda>w found. if wr_exclude w \<in> set found then found else found @ [wr_exclude w])
     (filter (\<lambda>w. wr_hidden w = h) WRITTEN) []"

record exclude_file =
  xf_text :: "string option"
  xf_stuck :: bool

definition existing_text :: "exclude_file \<Rightarrow> string" where
  "existing_text x = (case xf_text x of Some t \<Rightarrow> t | None \<Rightarrow> [])"

definition present_lines :: "exclude_file \<Rightarrow> string list" where
  "present_lines x = map trim_end (text_lines (existing_text x))"

definition ended :: "string \<Rightarrow> string" where
  "ended t = (if t \<noteq> [] \<and> last t \<noteq> LF then t @ [LF] else t)"

definition exclude :: "string list \<Rightarrow> exclude_file \<Rightarrow> (error + string list) \<times> exclude_file" where
  "exclude ls x =
     (if xf_stuck x then (Inl (refused ''info/exclude''), x)
      else let present = present_lines x;
               adding = filter (\<lambda>line. line \<notin> set present) ls;
               text = ended (existing_text x)
                 @ (if EXCLUDE_MARKER \<in> set present then [] else EXCLUDE_MARKER @ [LF])
                 @ concat (map (\<lambda>line. line @ [LF]) adding)
           in if adding = [] then (Inr adding, x) else (Inr adding, x\<lparr>xf_text := Some text\<rparr>))"

definition hide :: "exclude_file \<Rightarrow> (error + bool) \<times> exclude_file" where
  "hide x = (case exclude (hidden_lines HiddenAlways) x of
     (Inl e, x') \<Rightarrow> (Inl e, x') | (Inr added, x') \<Rightarrow> (Inr (added \<noteq> []), x'))"

definition nodals_line :: "string \<Rightarrow> bool" where
  "nodals_line line \<longleftrightarrow> trim_end line = EXCLUDE_MARKER \<or> list_ex (\<lambda>w. wr_exclude w = trim_end line) WRITTEN"

definition unhide :: "exclude_file \<Rightarrow> (error + bool) \<times> exclude_file" where
  "unhide x =
     (if xf_stuck x then (Inl (refused ''info/exclude''), x)
      else case xf_text x of
        None \<Rightarrow> (Inr False, x)
      | Some existing \<Rightarrow>
          (let kept = filter (\<lambda>line. \<not> nodals_line line) (text_lines existing);
               text = join [LF] kept
           in if length kept = length (text_lines existing) then (Inr False, x)
              else (Inr True, x\<lparr>xf_text := Some (if text \<noteq> [] then text @ [LF] else text)\<rparr>)))"

text \<open>
  The step \<open>Hide\<close>: \<open>dir\<close> is Git's answer for the directory, which \<open>exclude_dir\<close> asks. A process
  killed in it has either written the file or not, which \<open>wrote\<close> says.
\<close>

definition hide_step :: "error + unit \<Rightarrow> bool \<Rightarrow> exclude_file step" where
  "hide_step dir wrote = \<lparr>step_key = ''git.hide'',
     step_apply = (\<lambda>x. case dir of Inl e \<Rightarrow> (Inl e, x) | Inr _ \<Rightarrow>
       (case hide x of (Inl e, x') \<Rightarrow> (Inl e, x') | (Inr _, x') \<Rightarrow> (Inr nothing, x'))),
     step_undo = (\<lambda>x. case dir of Inl e \<Rightarrow> (Some e, x) | Inr _ \<Rightarrow>
       (case unhide x of (Inl e, x') \<Rightarrow> (Some e, x') | (Inr _, x') \<Rightarrow> (None, x'))),
     step_torn = (\<lambda>x. if wrote \<and> \<not> isl dir then snd (hide x) else x),
     undo_torn = (\<lambda>x. if wrote \<and> \<not> isl dir then snd (unhide x) else x)\<rparr>"

subsection \<open>The pointer files\<close>

definition POINTER_LINE :: string where
  "POINTER_LINE = MARK @ '' Read `WORKUNIT.md` first: nodal writes this unit's objective, branch, changed files and every other open unit into it, and writes it again on every command.''"

definition with_final_newline :: "string \<Rightarrow> string" where
  "with_final_newline t = (if suffix [LF] t then t else t @ [LF])"

definition amended :: "string option \<Rightarrow> string" where
  "amended existing =
     (case existing of
        None \<Rightarrow> POINTER_LINE @ [LF]
      | Some t \<Rightarrow>
          (if list_ex is_pointer_line (text_lines t)
           then with_final_newline (join [LF] (map (\<lambda>line. if is_pointer_line line then POINTER_LINE else line) (text_lines t)))
           else let t1 = with_final_newline t;
                    t2 = (if trim t1 \<noteq> [] then t1 @ [LF] else t1)
                in t2 @ POINTER_LINE @ [LF]))"

record pointed =
  pt_written :: "string list"
  pt_notes :: "string list"

fun point_at :: "tracks \<Rightarrow> string list \<Rightarrow> string list \<Rightarrow> pointed \<Rightarrow> (string list \<times> pointed) on_disk" where
  "point_at t [] created pt d = (Inr (created, pt), d)"
| "point_at t (name # names) created pt d =
     (if \<not> may_write t name then point_at t names created (pt\<lparr>pt_notes := pt_notes pt @ [left_alone t name]\<rparr>) d
      else case read_if_there name d of
        (Inl e, d') \<Rightarrow> (Inl e, d')
      | (Inr existing, d') \<Rightarrow>
          (let created' = (if existing = None then created @ [name] else created);
               text = amended existing
           in case (if existing \<noteq> Some text then write_text name text d' else (Inr (), d')) of
                (Inl e, d'') \<Rightarrow> (Inl e, d'')
              | (Inr (), d'') \<Rightarrow> point_at t names created' (pt\<lparr>pt_written := pt_written pt @ [name]\<rparr>) d''))"

text \<open>\<open>layout\<close> is Git's answer for the common directory, \<open>shown\<close> the text of an error.\<close>

definition hide_created ::
    "(error \<Rightarrow> string) \<Rightarrow> error + unit \<Rightarrow> string list \<Rightarrow> pointed \<Rightarrow> exclude_file \<Rightarrow> pointed \<times> exclude_file" where
  "hide_created shown layout created pt x =
     (let ls = (case written_row WORKUNIT of None \<Rightarrow> ''/WORKUNIT.md'' | Some w \<Rightarrow> wr_exclude w)
            # List.map_filter (\<lambda>name. map_option wr_exclude (written_row name)) created
      in case layout of
           Inl e \<Rightarrow> (pt\<lparr>pt_notes := pt_notes pt @ [''info/exclude: '' @ shown e]\<rparr>, x)
         | Inr () \<Rightarrow>
             (case exclude ls x of
                (Inl e, x') \<Rightarrow> (pt\<lparr>pt_notes := pt_notes pt @ [''info/exclude: '' @ shown e]\<rparr>, x')
              | (Inr _, x') \<Rightarrow> (pt, x')))"

definition pointer_write ::
    "(error \<Rightarrow> string) \<Rightarrow> error + unit \<Rightarrow> tracks \<Rightarrow> disk \<times> exclude_file \<Rightarrow> (error + pointed) \<times> disk \<times> exclude_file" where
  "pointer_write shown layout t dx =
     (case point_at t (map wr_path (of_kind KPointer)) [] \<lparr>pt_written = [], pt_notes = []\<rparr> (fst dx) of
        (Inl e, d) \<Rightarrow> (Inl e, d, snd dx)
      | (Inr (created, pt), d) \<Rightarrow>
          (let (pt', x) = hide_created shown layout created pt (snd dx) in (Inr pt', d, x)))"

subsection \<open>Lines and text\<close>

definition CR :: char where "CR = CHR 0x0D"

definition of_lines :: "string list \<Rightarrow> string" where
  "of_lines ls = concat (map (\<lambda>line. line @ [LF]) ls)"

lemma of_lines_simps [simp]: "of_lines [] = []" "of_lines (l # ls) = l @ LF # of_lines ls"
  "of_lines (ls @ ms) = of_lines ls @ of_lines ms"
  by (simp_all add: of_lines_def)

lemma of_lines_Nil [simp]: "of_lines ls = [] \<longleftrightarrow> ls = []"
  by (cases ls) auto

lemma of_lines_last [simp]: "ls \<noteq> [] \<Longrightarrow> last (of_lines ls) = LF"
  by (cases ls rule: rev_cases) auto

lemma join_lines: "ls \<noteq> [] \<Longrightarrow> join [LF] ls @ [LF] = of_lines ls"
  by (induction "[LF]" ls rule: join.induct) auto

lemma join_Nil_iff: "join [LF] ls = [] \<longleftrightarrow> ls = [] \<or> ls = [[]]"
  by (induction "[LF]" ls rule: join.induct) auto

definition flat_line :: "string \<Rightarrow> bool" where
  "flat_line l \<longleftrightarrow> LF \<notin> set l \<and> CR \<notin> set l"

lemma text_lines_of_lines [simp]: "list_all flat_line ls \<Longrightarrow> text_lines (of_lines ls) = ls"
  unfolding of_lines_def by (rule text_lines_of) (auto simp: list_all_iff flat_line_def CR_def suffix_def)

text \<open>A text with no carriage return is its lines, but for a line break at its end.\<close>

lemma ended_lines:
  assumes "CR \<notin> set t"
  shows "ended t = of_lines (text_lines t) \<and> list_all flat_line (text_lines t)"
proof -
  define ps where "ps = split_char LF t"
  have ps: "ps \<noteq> []" "list_all (\<lambda>g. LF \<notin> set g) ps" "t = hd ps @ concat (map (Cons LF) (tl ps))"
    using split_char_groups [of LF t] by (simp_all add: ps_def)
  have sub: "g \<in> set ps \<Longrightarrow> set g \<subseteq> set t" for g
    unfolding ps(3) using ps(1) by (cases ps) auto
  have flat: "list_all flat_line ps" using ps(2) sub assms by (auto simp: list_all_iff flat_line_def)
  have shift: "g @ concat (map (Cons LF) gs) @ [LF] = of_lines (g # gs)" for g gs
    by (induction gs arbitrary: g) auto
  have whole: "t @ [LF] = of_lines ps" using ps(1,3) shift [of "hd ps" "tl ps"] by (cases ps) auto
  have chomp: "map chomp gs = gs" if "list_all flat_line gs" for gs
    using that by (induction gs) (auto simp: flat_line_def chomp_def strip_suffix_def suffix_def CR_def)
  show ?thesis
  proof (cases "last ps = []")
    case True
    obtain qs where qs: "ps = qs @ [[]]" using ps(1) True by (cases ps rule: rev_cases) auto
    with whole have "t = of_lines qs" by simp
    moreover have lines: "text_lines t = qs"
      using qs flat chomp [of qs] by (simp add: text_lines_def flip: ps_def LF_def)
    ultimately show ?thesis using qs flat by (cases "qs = []") (auto simp: ended_def)
  next
    case False
    obtain qs q where qs: "ps = qs @ [q]" "q \<noteq> []" using ps(1) False by (cases ps rule: rev_cases) auto
    with whole have t: "t = of_lines qs @ q" by simp
    have "LF \<notin> set q" "last q \<in> set q" using qs flat by (simp_all add: flat_line_def)
    with qs t have "last t \<noteq> LF" by (metis last_appendR)
    moreover have "text_lines t = ps" using False flat chomp by (simp add: text_lines_def flip: ps_def LF_def)
    moreover have "t \<noteq> []" using qs t by simp
    ultimately show ?thesis using whole flat by (simp add: ended_def)
  qed
qed

lemma existing_lines: "CR \<notin> set t \<Longrightarrow> text_lines (ended t) = text_lines t"
  using ended_lines [of t] by simp

subsection \<open>Hiding and unhiding\<close>

lemma hidden_always: "hidden_lines HiddenAlways = [''/.nodal/'', ''/.envrc'', ''/WORKUNIT.md'']"
  by (simp add: hidden_lines_def WRITTEN_def path_defs)

lemma hidden_plain:
  "l \<in> set (EXCLUDE_MARKER # hidden_lines HiddenAlways) \<Longrightarrow> trim_end l = l \<and> flat_line l \<and> nodals_line l"
  by (auto simp: hidden_always EXCLUDE_MARKER_def trim_end_def is_space_def flat_line_def LF_def CR_def nodals_line_def WRITTEN_def path_defs)

text \<open>The file of a repository that was never told about Nodal.\<close>

definition theirs :: "exclude_file \<Rightarrow> bool" where
  "theirs x \<longleftrightarrow> \<not> xf_stuck x \<and> CR \<notin> set (existing_text x)
     \<and> list_all (\<lambda>l. \<not> nodals_line l) (text_lines (existing_text x)) \<and> text_lines (existing_text x) \<noteq> [[]]"

definition hidden_block :: "string list" where
  "hidden_block = EXCLUDE_MARKER # hidden_lines HiddenAlways"

lemma not_present:
  "theirs x \<Longrightarrow> l \<in> set hidden_block \<Longrightarrow> l \<notin> set (present_lines x)"
proof
  assume t: "theirs x" and l: "l \<in> set hidden_block" and "l \<in> set (present_lines x)"
  then obtain k where k: "k \<in> set (text_lines (existing_text x))" "l = trim_end k" by (auto simp: present_lines_def)
  from l hidden_plain [of l] have "nodals_line l" "trim_end l = l" by (simp_all add: hidden_block_def)
  with k(2) have "nodals_line k" by (simp add: nodals_line_def)
  with t k(1) show False by (auto simp: theirs_def list_all_iff)
qed

lemma hide_theirs:
  assumes "theirs x"
  shows "hide x = (Inr True, x\<lparr>xf_text := Some (ended (existing_text x) @ of_lines hidden_block)\<rparr>)"
proof -
  have adding: "filter (\<lambda>line. line \<notin> set (present_lines x)) (hidden_lines HiddenAlways) = hidden_lines HiddenAlways"
    using not_present [OF assms] by (intro filter_True) (simp add: hidden_block_def)
  have mark: "EXCLUDE_MARKER \<notin> set (present_lines x)" using not_present [OF assms] by (simp add: hidden_block_def)
  have some: "hidden_lines HiddenAlways \<noteq> []" by (simp add: hidden_always)
  show ?thesis
    unfolding hide_def exclude_def Let_def adding
    using assms mark some by (simp add: theirs_def hidden_block_def of_lines_def)
qed

lemma lines_hidden:
  assumes "theirs x"
  shows "text_lines (ended (existing_text x) @ of_lines hidden_block) = text_lines (existing_text x) @ hidden_block"
    and "CR \<notin> set (ended (existing_text x) @ of_lines hidden_block)"
proof -
  have cr: "CR \<notin> set (existing_text x)" using assms by (simp add: theirs_def)
  have block: "list_all flat_line hidden_block" using hidden_plain by (auto simp: list_all_iff hidden_block_def)
  have e: "ended (existing_text x) @ of_lines hidden_block = of_lines (text_lines (existing_text x) @ hidden_block)"
    using ended_lines [OF cr] by simp
  show "text_lines (ended (existing_text x) @ of_lines hidden_block) = text_lines (existing_text x) @ hidden_block"
    unfolding e using ended_lines [OF cr] block by (intro text_lines_of_lines) simp
  have "CR \<notin> set (of_lines ls)" if "list_all flat_line ls" for ls
    using that by (induction ls) (auto simp: flat_line_def CR_def LF_def)
  then show "CR \<notin> set (ended (existing_text x) @ of_lines hidden_block)"
    unfolding e using ended_lines [OF cr] block by simp
qed

text \<open>A file that holds the block after lines of somebody's own.\<close>

definition told :: "exclude_file \<Rightarrow> string list \<Rightarrow> bool" where
  "told x ls \<longleftrightarrow> \<not> xf_stuck x \<and> xf_text x \<noteq> None \<and> text_lines (existing_text x) = ls @ hidden_block
     \<and> list_all (\<lambda>l. \<not> nodals_line l) ls \<and> ls \<noteq> [[]]"

lemma hide_told: "theirs x \<Longrightarrow> told (snd (hide x)) (text_lines (existing_text x))"
  using lines_hidden(1) [of x] by (simp add: hide_theirs told_def theirs_def existing_text_def)

lemma told_hide:
  assumes "told x ls"
  shows "hide x = (Inr False, x)"
proof -
  have "map trim_end hidden_block = hidden_block"
    using hidden_plain by (intro map_idI) (auto simp: hidden_block_def)
  then have "set hidden_block \<subseteq> set (present_lines x)" using assms by (simp add: told_def present_lines_def)
  then have "filter (\<lambda>line. line \<notin> set (present_lines x)) (hidden_lines HiddenAlways) = []"
    by (auto simp: hidden_block_def filter_empty_conv)
  with assms show ?thesis by (simp add: hide_def exclude_def Let_def told_def)
qed

lemma told_unhide:
  assumes "told x ls"
  shows "unhide x = (Inr True, x\<lparr>xf_text := Some (of_lines ls)\<rparr>)"
proof -
  obtain t where t: "xf_text x = Some t" "text_lines t = ls @ hidden_block" "\<not> xf_stuck x"
    using assms by (auto simp: told_def existing_text_def)
  have kept: "filter (\<lambda>line. \<not> nodals_line line) (ls @ hidden_block) = ls"
    using assms hidden_plain by (auto simp: told_def list_all_iff hidden_block_def filter_id_conv filter_empty_conv)
  have "length hidden_block = 4" by (simp add: hidden_block_def hidden_always)
  moreover have "(if join [LF] ls \<noteq> [] then join [LF] ls @ [LF] else join [LF] ls) = of_lines ls"
    using join_lines [of ls] join_Nil_iff [of ls] assms by (auto simp: told_def)
  ultimately show ?thesis using t kept by (simp add: unhide_def Let_def)
qed

lemma unhide_theirs: "theirs x \<Longrightarrow> unhide x = (Inr False, x)"
  by (auto simp: unhide_def theirs_def existing_text_def list_all_iff filter_id_conv split: option.splits)

text \<open>
  C31. Hiding leaves no trace in an exclude file Nodal was never in: one with no carriage return in
  it, no line Nodal would write, and more in it than one blank line. Hiding adds the block once
  behind what is there, every always-hidden line is there afterwards and hiding again changes
  nothing, and unhiding gives the file back but for a line break after its last line; a file
  that was not there comes back as an empty one.
\<close>

theorem hiding_leaves_no_trace:
  assumes "theirs x" and "hide x = (r, y)"
  shows "r = Inr True \<and> hide y = (Inr False, y) \<and> set (hidden_lines HiddenAlways) \<subseteq> set (text_lines (existing_text y))
    \<and> prefix (existing_text x) (existing_text y)
    \<and> unhide y = (Inr True, x\<lparr>xf_text := Some (ended (existing_text x))\<rparr>)"
proof -
  have y: "r = Inr True" "y = x\<lparr>xf_text := Some (ended (existing_text x) @ of_lines hidden_block)\<rparr>"
    using hide_theirs [OF assms(1)] assms(2) by simp_all
  have "text_lines (existing_text y) = text_lines (existing_text x) @ hidden_block"
    using lines_hidden(1) [OF assms(1)] y by (simp add: existing_text_def)
  moreover have "prefix (existing_text x) (existing_text y)" by (simp add: y existing_text_def ended_def)
  ultimately show ?thesis
    using y(1) hide_told [OF assms(1)] told_hide [of y] told_unhide [of y] ended_lines [of "existing_text x"] assms
    by (auto simp: hidden_block_def theirs_def y(2))
qed

text \<open>The lines of the file are what an observer sees.\<close>

definition same_lines :: "exclude_file \<Rightarrow> exclude_file \<Rightarrow> bool" where
  "same_lines x y \<longleftrightarrow> xf_stuck x = xf_stuck y \<and> ended (existing_text x) = ended (existing_text y)"

lemma same_lines_refl [simp]: "same_lines x x"
  by (simp add: same_lines_def)

lemma same_lines_cr: "ended s = ended t \<Longrightarrow> CR \<notin> set t \<Longrightarrow> CR \<notin> set s"
  by (auto simp: ended_def CR_def LF_def split: if_splits)

lemma same_theirs: "same_lines v w \<Longrightarrow> theirs w \<Longrightarrow> theirs v"
  using same_lines_cr [of "existing_text v" "existing_text w"] existing_lines [of "existing_text v"]
    existing_lines [of "existing_text w"] by (simp add: same_lines_def theirs_def)

lemma same_hidden:
  assumes "theirs w" and "same_lines v (snd (hide w))"
  shows "told v (text_lines (existing_text w))"
proof -
  have t: "told (snd (hide w)) (text_lines (existing_text w))" by (rule hide_told [OF assms(1)])
  have cr: "CR \<notin> set (existing_text (snd (hide w)))"
    using lines_hidden(2) [OF assms(1)] by (simp add: hide_theirs [OF assms(1)] existing_text_def)
  have e: "ended (existing_text v) = ended (existing_text (snd (hide w)))" using assms(2) by (simp add: same_lines_def)
  with cr same_lines_cr have "CR \<notin> set (existing_text v)" by blast
  with cr e existing_lines have l: "text_lines (existing_text v) = text_lines (existing_text (snd (hide w)))" by metis
  with t have "existing_text v \<noteq> []" by (auto simp: told_def hidden_block_def text_lines_def)
  then have "xf_text v \<noteq> None" by (cases "xf_text v") (simp_all add: existing_text_def)
  with t l assms(2) show ?thesis by (simp add: told_def same_lines_def)
qed

text \<open>What an attempt at the step leaves: the file untouched, or with the block in it.\<close>

lemma hide_step_simps:
  "step_torn (hide_step dir wrote) x = (if wrote \<and> \<not> isl dir then snd (hide x) else x)"
  "undo_torn (hide_step dir wrote) x = (if wrote \<and> \<not> isl dir then snd (unhide x) else x)"
  "hide x = (Inr b, y) \<Longrightarrow> step_apply (hide_step dir wrote) x = (case dir of Inl e \<Rightarrow> (Inl e, x) | Inr _ \<Rightarrow> (Inr nothing, y))"
  "unhide x = (Inr b, y) \<Longrightarrow> step_undo (hide_step dir wrote) x = (case dir of Inl e \<Rightarrow> (Some e, x) | Inr _ \<Rightarrow> (None, y))"
  by (simp_all add: hide_step_def split: sum.split)

lemma hide_touched:
  assumes "theirs w"
  shows "touched same_lines (hide_step dir wrote) w v
     \<longleftrightarrow> same_lines v w \<or> \<not> isl dir \<and> same_lines v (snd (hide w))"
  using hide_theirs [OF assms] by (auto simp: touched_def hide_step_simps split: sum.splits)

lemma hide_either:
  assumes "theirs w" and "same_lines v w \<or> same_lines v (snd (hide w))"
  shows "\<exists>b y. hide v = (Inr b, y) \<and> same_lines y (snd (hide w))" and "\<exists>b y. unhide v = (Inr b, y) \<and> same_lines y w"
proof -
  have e: "ended (existing_text w) = of_lines (text_lines (existing_text w))"
    using ended_lines assms(1) by (simp add: theirs_def)
  have idem: "ended (of_lines ls) = of_lines ls" for ls by (cases "ls = []") (auto simp: ended_def)
  show "\<exists>b y. hide v = (Inr b, y) \<and> same_lines y (snd (hide w))"
  proof (cases "same_lines v w")
    case True
    with same_theirs assms(1) have "theirs v" by blast
    with True show ?thesis
      by (intro exI [of _ True])
        (simp add: hide_theirs hide_theirs [OF assms(1)] same_lines_def existing_text_def [of "xf_text_update _ _"])
  next
    case False
    with assms same_hidden have "told v (text_lines (existing_text w))" by blast
    with False assms(2) show ?thesis by (auto simp: told_hide)
  qed
  show "\<exists>b y. unhide v = (Inr b, y) \<and> same_lines y w"
  proof (cases "same_lines v w")
    case True
    with same_theirs assms(1) show ?thesis by (auto simp: unhide_theirs)
  next
    case False
    with assms same_hidden have t: "told v (text_lines (existing_text w))" by blast
    let ?y = "v\<lparr>xf_text := Some (of_lines (text_lines (existing_text w)))\<rparr>"
    have "existing_text ?y = of_lines (text_lines (existing_text w))" by (simp add: existing_text_def)
    with assms(1) t e idem have "same_lines ?y w" by (simp add: same_lines_def told_def theirs_def)
    with told_unhide [OF t] show ?thesis by blast
  qed
qed

interpretation hides: repeatable_step same_lines "hide_step dir wrote" theirs for dir wrote
proof
  fix w v v' :: exclude_file and e :: error
  assume w: "theirs w" and t: "touched same_lines (hide_step dir wrote) w v"
  then have "same_lines v w \<or> same_lines v (snd (hide w))" unfolding hide_touched [OF w] by blast
  note either = hide_either [OF w this]
  from either(2) obtain b y where u: "unhide v = (Inr b, y)" "same_lines y w" by blast
  from either(1) obtain c z where h: "hide v = (Inr c, z)" "same_lines z (snd (hide w))" by blast
  show "same_lines v' w" if "step_undo (hide_step dir wrote) v = (None, v')"
    using that u by (simp add: hide_step_simps split: sum.splits)
  show "touched same_lines (hide_step dir wrote) w v'" if "step_undo (hide_step dir wrote) v = (Some e, v')"
    using that u t by (simp add: hide_step_simps split: sum.splits)
  show "touched same_lines (hide_step dir wrote) w (undo_torn (hide_step dir wrote) v)"
    using u t by (auto simp: hide_step_simps hide_touched [OF w])
  show "\<exists>v'. step_apply (hide_step dir wrote) v = (Inr out, v') \<and> same_lines v' w'"
    if "step_apply (hide_step dir wrote) w = (Inr out, w')" for out w'
    using that h hide_theirs [OF w] by (auto simp: hide_step_simps split: sum.splits)
  show "touched same_lines (hide_step dir wrote) w (step_torn (hide_step dir wrote) v)"
    using h t by (auto simp: hide_step_simps hide_touched [OF w])
qed (auto simp: same_lines_def)

subsection \<open>The one rule\<close>

text \<open>Each primitive changes the file it names at most.\<close>

lemma text_of_write [simp]: "text_of (snd (write_text p t d)) q = (if q = p \<and> p \<notin> set (dk_stuck d) then Some t else text_of d q)"
  by (simp add: write_text_def text_of_def update_conv')

lemma text_of_delete [simp]:
  "text_of (snd (delete_file p d)) q = (if q = p \<and> p \<notin> set (dk_stuck d) then None else text_of d q)"
  by (auto simp: delete_file_def text_of_def delete_conv' split: option.split)

lemma text_of_other:
  "text_of (snd (make_dir p d)) q = text_of d q" "text_of (snd (tidy p d)) q = text_of d q"
  "snd (read_if_there p d) = d"
  by (simp_all add: make_dir_def tidy_def text_of_def read_if_there_def)

lemma unpoint_other: "q \<noteq> p \<Longrightarrow> text_of (snd (unpoint p d)) q = text_of d q"
  by (auto simp: unpoint_def read_if_there_def Let_def split: option.split)

lemma unhook_other: "q \<noteq> p \<Longrightarrow> text_of (snd (unhook r p d)) q = text_of d q"
  by (auto simp: unhook_def read_if_there_def split: option.split)

lemma case_unit_eq [simp]: "(case u of () \<Rightarrow> f) = f"
  by (cases u) (simp only: unit.case)

text \<open>The question mark after a call: where both parts leave a file alone, so does the sequence.\<close>

lemma text_of_seq:
  assumes "text_of (snd m) q = text_of d q" and "\<And>x d'. text_of (snd (f x d')) q = text_of d' q"
  shows "text_of (snd (case m of (Inl e, d') \<Rightarrow> (Inl e, d') | (Inr x, d') \<Rightarrow> f x d')) q = text_of d q"
proof (cases m)
  case (Pair r d1)
  with assms(1) have "text_of d1 q = text_of d q" by simp
  with Pair assms(2) [where d' = d1] show ?thesis by (cases r) simp_all
qed

lemma text_of_seq_unit:
  assumes "text_of (snd m) q = text_of d q" and "\<And>d'. text_of (snd (f d')) q = text_of d' q"
  shows "text_of (snd (case m of (Inl e, d') \<Rightarrow> (Inl e, d') | (Inr (), d') \<Rightarrow> f d')) q = text_of d q"
proof (cases m)
  case (Pair r d1)
  with assms(1) have "text_of d1 q = text_of d q" by simp
  with Pair assms(2) [where d' = d1] show ?thesis by (cases r) simp_all
qed

lemma write_rows_other:
  "(\<And>w. w \<in> set ws \<Longrightarrow> wr_path w = q \<Longrightarrow> \<not> may_write t q) \<Longrightarrow> text_of (snd (write_rows t a rendered ws said d)) q = text_of d q"
proof (induction ws arbitrary: said d)
  case (Cons w ws)
  have rest: "text_of (snd (write_rows t a rendered ws n d')) q = text_of d' q" for n d'
    by (rule Cons.IH) (rule Cons.prems, auto)
  show ?case
  proof (cases "may_write t (wr_path w)")
    case True
    with Cons.prems [of w] have here: "text_of (snd (write_text (wr_path w) x d)) q = text_of d q" for x by auto
    let ?m = "if wr_path w = ENV then write_text (wr_path w) (dotenv a) d
      else if wr_path w = ENVRC then write_text (wr_path w) ENVRC_CONTENTS d
      else case rendered of Inl e \<Rightarrow> (Inl e, d) | Inr toml \<Rightarrow> write_text (wr_path w) toml d"
    have "text_of (snd ?m) q = text_of d q"
      using here by (cases "wr_path w = ENV"; cases "wr_path w = ENVRC"; cases rendered) (simp_all del: text_of_write)
    then show ?thesis
      unfolding write_rows.simps Let_def using True by (simp only: not_True_eq_False if_False) (rule text_of_seq_unit [OF _ rest])
  qed (simp add: rest)
qed simp

lemma remove_rows_other:
  "(\<And>w. w \<in> set ws \<Longrightarrow> wr_path w = q \<Longrightarrow> \<not> may_write t q) \<Longrightarrow> text_of (snd (remove_rows r t ws d)) q = text_of d q"
proof (induction ws arbitrary: d)
  case (Cons w ws)
  have rest: "text_of (snd (remove_rows r t ws d')) q = text_of d' q" for d'
    by (rule Cons.IH) (rule Cons.prems, auto)
  have "text_of (snd (if \<not> may_write t (wr_path w) then (Inr (), d)
      else case wr_removed w of Whole \<Rightarrow> delete_file (wr_path w) d | PointerLine \<Rightarrow> unpoint (wr_path w) d
        | NodalHooks \<Rightarrow> unhook r (wr_path w) d | TakenNothing \<Rightarrow> (Inr (), d))) q = text_of d q"
  proof (cases "may_write t (wr_path w)")
    case True
    with Cons.prems [of w] have "q \<noteq> wr_path w" by auto
    then show ?thesis by (auto simp: unpoint_other unhook_other split: taken.split)
  qed simp
  then show ?case unfolding remove_rows.simps by (rule text_of_seq_unit [OF _ rest])
qed simp

lemma point_at_other:
  "(\<And>n. n \<in> set names \<Longrightarrow> n = q \<Longrightarrow> \<not> may_write t q) \<Longrightarrow> text_of (snd (point_at t names created pt d)) q = text_of d q"
proof (induction names arbitrary: created pt d)
  case (Cons n names)
  have rest: "text_of (snd (point_at t names c p d')) q = text_of d' q" for c p d'
    by (rule Cons.IH) (rule Cons.prems, auto)
  show ?case
  proof (cases "may_write t n")
    case True
    with Cons.prems [of n] have "q \<noteq> n" by auto
    then have "text_of (snd (if ex \<noteq> Some x then write_text n x d' else (Inr (), d'))) q = text_of d' q" for ex x d'
      by simp
    then have put: "text_of (snd (if ex \<noteq> Some x then write_text n x d' else (Inr (), d'))) q = text_of d' q" for ex x d'
      by simp
    show ?thesis
      unfolding point_at.simps Let_def using True
      by (simp only: not_True_eq_False if_False)
        (intro text_of_seq text_of_seq_unit put rest, simp add: text_of_other(3))
  qed (simp add: rest)
qed simp

text \<open>
  C30. The rule the table states: no operation on the files of a home changes a file Nodal may not
  write, which is one the project tracks and every file when Git could not be asked, or a
  file that is not in the table.
\<close>

theorem tracked_files_are_untouched:
  assumes "\<not> (may_write t p \<and> p \<in> wr_path ` set WRITTEN)"
  shows "text_of (snd (write_files t a rendered d)) p = text_of d p
    \<and> text_of (snd (remove_files r t d)) p = text_of d p
    \<and> text_of (fst (snd (pointer_write shown layout t (d, x)))) p = text_of d p"
proof -
  have no: "w \<in> set WRITTEN \<Longrightarrow> wr_path w = p \<Longrightarrow> \<not> may_write t p" for w using assms by blast
  have kinds: "set (of_kind k) \<subseteq> set WRITTEN" for k by (auto simp: of_kind_def)
  have "text_of (snd (write_files t a rendered d)) p = text_of d p"
    unfolding write_files_def using no kinds
    by (intro text_of_seq_unit text_of_other(1) write_rows_other) blast
  moreover have "text_of (snd (remove_files r t d)) p = text_of d p"
    unfolding remove_files_def using no
    by (intro text_of_seq_unit remove_rows_other text_of_other(2)) blast
  moreover have "n \<in> set (map wr_path (of_kind KPointer)) \<Longrightarrow> n = p \<Longrightarrow> \<not> may_write t p" for n
    using no kinds by fastforce
  then have "text_of (fst (snd (pointer_write shown layout t (d, x)))) p = text_of d p"
    using point_at_other [of "map wr_path (of_kind KPointer)" p t "[]" "\<lparr>pt_written = [], pt_notes = []\<rparr>" d]
    by (auto simp: pointer_write_def Let_def split: prod.split sum.split)
  ultimately show ?thesis by blast
qed

subsection \<open>What goes in comes out\<close>

definition activation_text :: "activation \<Rightarrow> string \<Rightarrow> written \<Rightarrow> string" where
  "activation_text a toml w =
     (if wr_path w = ENV then dotenv a else if wr_path w = ENVRC then ENVRC_CONTENTS else toml)"

lemma write_rows_appends:
  assumes "distinct (map wr_path ws)"
    and "\<And>w. w \<in> set ws \<Longrightarrow> may_write t (wr_path w) \<Longrightarrow> text_of d (wr_path w) = None \<and> wr_path w \<notin> set (dk_stuck d)"
  shows "\<exists>said'. write_rows t a (Inr toml) ws said d = (Inr said', d\<lparr>dk_texts := dk_texts d
     @ map (\<lambda>w. (wr_path w, activation_text a toml w)) (filter (\<lambda>w. may_write t (wr_path w)) ws)\<rparr>)"
  using assms
proof (induction ws arbitrary: said d)
  case (Cons w ws)
  show ?case
  proof (cases "may_write t (wr_path w)")
    case True
    let ?d = "d\<lparr>dk_texts := dk_texts d @ [(wr_path w, activation_text a toml w)]\<rparr>"
    have none: "map_of (dk_texts d) (wr_path w) = None" and free: "wr_path w \<notin> set (dk_stuck d)"
      using Cons.prems(2) True by (simp_all add: text_of_def)
    have wrote: "write_text (wr_path w) (activation_text a toml w) d = (Inr (), ?d)"
    proof -
      have "map_of ps k = None \<Longrightarrow> AList.update k v ps = ps @ [(k, v)]" for ps :: "(string \<times> string) list" and k v
        by (induction ps) (auto split: if_splits)
      with none free show ?thesis by (simp add: write_text_def)
    qed
    have "\<exists>said'. write_rows t a (Inr toml) ws said ?d = (Inr said', ?d\<lparr>dk_texts := dk_texts ?d
       @ map (\<lambda>w. (wr_path w, activation_text a toml w)) (filter (\<lambda>w. may_write t (wr_path w)) ws)\<rparr>)"
    proof (rule Cons.IH)
      fix v assume v: "v \<in> set ws" "may_write t (wr_path v)"
      with Cons.prems(1) have "wr_path v \<noteq> wr_path w" by (metis distinct.simps(2) image_eqI list.set_map list.simps(9))
      moreover have "text_of d (wr_path v) = None \<and> wr_path v \<notin> set (dk_stuck d)" using Cons.prems(2) [of v] v by simp
      ultimately show "text_of ?d (wr_path v) = None \<and> wr_path v \<notin> set (dk_stuck ?d)" by (simp add: text_of_def)
    qed (use Cons.prems in simp_all)
    moreover have "(if wr_path w = ENV then write_text (wr_path w) (dotenv a) d
      else if wr_path w = ENVRC then write_text (wr_path w) ENVRC_CONTENTS d
      else case Inr toml of Inl e \<Rightarrow> (Inl e, d) | Inr toml \<Rightarrow> write_text (wr_path w) toml d) = (Inr (), ?d)"
      using wrote by (cases "wr_path w = ENV"; cases "wr_path w = ENVRC") (simp_all add: activation_text_def)
    ultimately show ?thesis using True by (simp add: Let_def)
  next
    case False
    with Cons show ?thesis by simp
  qed
qed simp

text \<open>Removing the files that are not there does nothing; removing the written ones takes them all.\<close>

definition without :: "string list \<Rightarrow> disk \<Rightarrow> disk" where
  "without ps d = d\<lparr>dk_texts := filter (\<lambda>(q, _). q \<notin> set ps) (dk_texts d)\<rparr>"

lemma delete_without: "p \<notin> set (dk_stuck d) \<Longrightarrow> delete_file p d = (Inr (), without [p] d)"
proof -
  have none: "map_of ps p = None \<Longrightarrow> filter (\<lambda>(q, _). q \<noteq> p) ps = ps" for ps :: "(string \<times> string) list"
    by (induction ps) (auto split: if_splits)
  have "AList.delete p ps = filter (\<lambda>(q, _). q \<noteq> p) ps" for ps :: "(string \<times> string) list"
    unfolding AList.delete_eq by (rule filter_cong) auto
  then show "p \<notin> set (dk_stuck d) \<Longrightarrow> ?thesis"
    using none [of "dk_texts d"] by (auto simp: delete_file_def without_def text_of_def split: option.split)
qed

lemma remove_rows_without:
  assumes "\<And>w. w \<in> set ws \<Longrightarrow> may_write t (wr_path w) \<Longrightarrow> wr_path w \<notin> set (dk_stuck d)"
    and "\<And>w. w \<in> set ws \<Longrightarrow> may_write t (wr_path w) \<Longrightarrow> wr_removed w \<noteq> Whole \<Longrightarrow> text_of d (wr_path w) = None"
  shows "remove_rows r t ws d = (Inr (), without
     (map wr_path (filter (\<lambda>w. may_write t (wr_path w) \<and> wr_removed w = Whole) ws)) d)"
  using assms
proof (induction ws arbitrary: d)
  case Nil
  then show ?case by (simp add: without_def)
next
  case (Cons w ws)
  have absent: "may_write t (wr_path w) \<Longrightarrow> text_of d (wr_path w) = None \<Longrightarrow>
      unpoint (wr_path w) d = (Inr (), d) \<and> unhook r (wr_path w) d = (Inr (), d)"
    using Cons.prems(1) [of w] by (simp add: unpoint_def unhook_def read_if_there_def)
  have rest: "remove_rows r t ws d' = (Inr (), without (map wr_path (filter (\<lambda>w. may_write t (wr_path w) \<and> wr_removed w = Whole) ws)) d')"
    if "d' = d \<or> d' = without [wr_path w] d" for d'
  proof (rule Cons.IH)
    show "wr_path v \<notin> set (dk_stuck d')" if "v \<in> set ws" "may_write t (wr_path v)" for v
      using Cons.prems(1) [of v] that \<open>d' = d \<or> d' = without [wr_path w] d\<close> by (auto simp: without_def)
    fix v assume "v \<in> set ws" "may_write t (wr_path v)" "wr_removed v \<noteq> Whole"
    with Cons.prems(2) [of v] have "text_of d (wr_path v) = None" by simp
    with that show "text_of d' (wr_path v) = None" by (auto simp: text_of_def without_def map_of_eq_None_iff)
  qed
  have two: "without ps (without [p] d) = without (p # ps) d" for p ps
    by (auto simp: without_def intro!: disk.equality filter_cong)
  show ?case
  proof (cases "may_write t (wr_path w)")
    case True
    show ?thesis
    proof (cases "wr_removed w = Whole")
      case whole: True
      with True rest [of "without [wr_path w] d"] two show ?thesis
        using delete_without [of "wr_path w" d] Cons.prems(1) [of w] by simp
    next
      case False
      with absent Cons.prems(2) [of w] True have "unpoint (wr_path w) d = (Inr (), d)" "unhook r (wr_path w) d = (Inr (), d)"
        by simp_all
      with True False rest [of d] show ?thesis by (cases "wr_removed w") simp_all
    qed
  qed (use rest in auto)
qed

text \<open>
  C32. An activation that is written is taken back out whole. Take a checkout that has none of the
  files Nodal may write in it, whatever the project tracks of them, none of which the platform
  refuses, and in which a directory \<open>.nodal\<close> is there just when something is in it and a directory
  \<open>.claude\<close> is not empty. Writing an activation into it succeeds, and taking Nodal's files out
  again leaves the checkout as it was, files the project tracks under \<open>.nodal\<close> included.
\<close>

theorem written_files_come_out:
  assumes files: "\<And>w. w \<in> set WRITTEN \<Longrightarrow> may_write t (wr_path w) \<Longrightarrow>
      text_of d (wr_path w) = None \<and> wr_path w \<notin> set (dk_stuck d)"
    and dir: "DIR \<in> set (dk_dirs d) \<longleftrightarrow> holds_anything d DIR" "DIR \<notin> set (dk_stuck d)"
    and settings: "SETTINGS_DIR \<in> set (dk_dirs d) \<Longrightarrow> holds_anything d SETTINGS_DIR"
  shows "\<exists>said d'. write_files t a (Inr toml) d = (Inr said, d') \<and> remove_files r t d' = (Inr (), d)"
proof -
  let ?made = "if DIR \<in> set (dk_dirs d) then d else d\<lparr>dk_dirs := dk_dirs d @ [DIR]\<rparr>"
  let ?ws = "filter (\<lambda>w. may_write t (wr_path w)) (of_kind KActivation)"
  let ?d = "?made\<lparr>dk_texts := dk_texts d @ map (\<lambda>w. (wr_path w, activation_text a toml w)) ?ws\<rparr>"
  have kinds: "set (of_kind KActivation) \<subseteq> set WRITTEN" by (auto simp: of_kind_def)
  have dist: "distinct (map wr_path (of_kind KActivation))" by (simp add: of_kind_def WRITTEN_def path_defs)
  have same: "dk_texts ?made = dk_texts d" "dk_stuck ?made = dk_stuck d" by simp_all
  have "text_of ?made (wr_path w) = None \<and> wr_path w \<notin> set (dk_stuck ?made)"
    if "w \<in> set (of_kind KActivation)" "may_write t (wr_path w)" for w
    using files [of w] kinds that by (auto simp: text_of_def)
  from write_rows_appends [where a = a and toml = toml and said = "[]", OF dist this] obtain said
    where w: "write_rows t a (Inr toml) (of_kind KActivation) [] ?made = (Inr said, ?d)" unfolding same by blast
  have "make_dir DIR d = (Inr (), ?made)" using dir(2) by (simp add: make_dir_def)
  with w have wrote: "write_files t a (Inr toml) d = (Inr said, ?d)" by (simp only: write_files_def prod.case sum.case) simp
  let ?gone = "map wr_path (filter (\<lambda>w. may_write t (wr_path w) \<and> wr_removed w = Whole) WRITTEN)"
  have there: "text_of ?d (wr_path w) = None" if w: "w \<in> set WRITTEN" "may_write t (wr_path w)" "wr_removed w \<noteq> Whole" for w
  proof -
    have "wr_path w \<notin> wr_path ` set (of_kind KActivation)"
      using w(1,3) by (auto simp: of_kind_def WRITTEN_def path_defs)
    with files [OF w(1,2)] show ?thesis by (auto simp: text_of_def map_of_eq_None_iff map_add_def split: option.split)
  qed
  have "wr_path w \<notin> set (dk_stuck ?d)" if "w \<in> set WRITTEN" "may_write t (wr_path w)" for w
    using files [OF that] by simp
  from remove_rows_without [OF this there]
  have "remove_rows r t WRITTEN ?d = (Inr (), without ?gone ?d)" by blast
  moreover have "without ?gone ?d = ?made"
  proof -
    have "set (map wr_path ?ws) \<subseteq> set ?gone" by (auto simp: of_kind_def WRITTEN_def)
    then have "filter (\<lambda>(q, _). q \<notin> set ?gone) (map (\<lambda>w. (wr_path w, activation_text a toml w)) ?ws) = []"
      by (auto simp: filter_empty_conv)
    moreover have "filter (\<lambda>(q, _). q \<notin> set ?gone) (dk_texts d) = dk_texts d"
    proof (rule filter_True)
      show "\<forall>x\<in>set (dk_texts d). case x of (q, _) \<Rightarrow> q \<notin> set ?gone"
        using files by (force simp: text_of_def map_of_eq_None_iff)
    qed
    ultimately show ?thesis by (simp add: without_def)
  qed
  moreover have "tidy DIR ?made = (Inr (), d)"
    using dir by (auto simp: tidy_def holds_anything_def prefix_def DIR_def)
  moreover have "tidy SETTINGS_DIR d = (Inr (), d)"
    using settings by (cases "SETTINGS_DIR \<in> set (dk_dirs d)") (simp_all add: tidy_def)
  ultimately have "remove_files r t ?d = (Inr (), d)" by (simp only: remove_files_def prod.case sum.case) simp
  with wrote show ?thesis by blast
qed

subsection \<open>Examples\<close>

definition ex_exclude :: exclude_file where
  "ex_exclude = \<lparr>xf_text = Some ''/scratch'', xf_stuck = False\<rparr>"

lemma ex_lines: "text_lines ''/scratch'' = [''/scratch'']"
  by (simp add: text_lines_def chomp_def strip_suffix_def suffix_def)

lemma ex_theirs: "theirs ex_exclude"
  by (simp add: theirs_def ex_exclude_def existing_text_def ex_lines CR_def nodals_line_def trim_end_def is_space_def
      EXCLUDE_MARKER_def WRITTEN_def path_defs)

theorem hiding_leaves_no_trace_witness:
  "unhide (snd (hide ex_exclude)) = (Inr True, ex_exclude\<lparr>xf_text := Some (''/scratch'' @ [LF])\<rparr>)"
proof -
  obtain r y where y: "hide ex_exclude = (r, y)" by (cases "hide ex_exclude")
  have "ended (existing_text ex_exclude) = ''/scratch'' @ [LF]"
    by (simp add: ended_def existing_text_def ex_exclude_def LF_def)
  with hiding_leaves_no_trace [OF ex_theirs y] y show ?thesis by simp
qed

text \<open>A checkout that commits an \<open>.envrc\<close> and a \<open>.nodal/manifest.toml\<close> and has none of the other files.\<close>

definition ex_disk :: disk where
  "ex_disk = \<lparr>dk_texts = [(''README.md'', ''hello''), (''.envrc'', ''use nix''), (''.nodal/manifest.toml'', ''theirs'')],
     dk_dirs = [''src'', ''.nodal''], dk_stuck = [''.envrc'']\<rparr>"

theorem tracked_files_are_untouched_witness:
  "text_of (snd (write_files (Known [''.envrc'']) ex_activation (Inr ''toml'') ex_disk)) ''.envrc'' = Some ''use nix''"
proof -
  have t: "\<not> (may_write (Known [''.envrc'']) ''.envrc'' \<and> ''.envrc'' \<in> wr_path ` set WRITTEN)" by simp
  have "text_of ex_disk ''.envrc'' = Some ''use nix''" by (simp add: ex_disk_def text_of_def)
  with tracked_files_are_untouched [OF t, of ex_activation "Inr ''toml''" ex_disk] show ?thesis by simp
qed

theorem written_files_come_out_witness:
  "\<exists>said d'. write_files (Known [''.envrc'', ''.nodal/manifest.toml'']) ex_activation (Inr ''toml'') ex_disk = (Inr said, d')
     \<and> remove_files \<lparr>without_hooks = (\<lambda>_. None), is_empty_settings = (\<lambda>_. False)\<rparr>
         (Known [''.envrc'', ''.nodal/manifest.toml'']) d' = (Inr (), ex_disk)"
proof (rule written_files_come_out)
  show "DIR \<in> set (dk_dirs ex_disk) \<longleftrightarrow> holds_anything ex_disk DIR" "DIR \<notin> set (dk_stuck ex_disk)"
    by (simp_all add: ex_disk_def holds_anything_def DIR_def)
  show "holds_anything ex_disk SETTINGS_DIR" if "SETTINGS_DIR \<in> set (dk_dirs ex_disk)"
    using that by (simp add: ex_disk_def path_defs)
  show "text_of ex_disk (wr_path w) = None \<and> wr_path w \<notin> set (dk_stuck ex_disk)"
    if "w \<in> set WRITTEN" "may_write (Known [''.envrc'', ''.nodal/manifest.toml'']) (wr_path w)" for w
    using that by (auto simp: WRITTEN_def path_defs text_of_def ex_disk_def)
qed

text \<open>
  Writing the pointer again takes the blank lines at the end of a file away, one at a time:
  \<open>join\<close> gives a text that ends with a line break where the last line is empty, and the final
  line break is then not put back.
\<close>

lemma amended_eats_blank_lines:
  "amended (Some (POINTER_LINE @ [LF, LF, LF])) = POINTER_LINE @ [LF, LF]"
proof -
  have flat: "flat_line POINTER_LINE" "is_pointer_line POINTER_LINE"
    by (simp_all add: flat_line_def POINTER_LINE_def MARK_def LF_def CR_def is_pointer_line_def trim_start_def is_space_def)
  have "text_lines (POINTER_LINE @ [LF, LF, LF]) = [POINTER_LINE, [], []]"
    using text_lines_of_lines [of "[POINTER_LINE, [], []]"] flat by (simp add: flat_line_def)
  then show ?thesis
    using flat(2) by (simp add: amended_def with_final_newline_def suffix_def is_pointer_line_def trim_start_def MARK_def)
qed

end
