(* ===== verification/Prune.thy ===== *)
theory Prune
  imports Exclude HomeTree HomeFiles
begin

text \<open>
  \<open>workspace/prune.rs\<close> and \<open>git/ignored.rs\<close>: what a reclaimed home loses on its way into the trash. A
  directory goes when an ignore rule covers it and the table calls it regenerable; whatever
  else a rule covers is named. What Git lists is an answer of the environment, and so is what
  a link of the home leads to.
\<close>

subsection \<open>What an ignore rule covers\<close>

record ignored =
  ig_relative :: path
  ig_directory :: bool

definition ignored_entries :: "error + string list \<Rightarrow> item \<Rightarrow> error + ignored list" where
  "ignored_entries listing t = map_sum id (List.map_filter (\<lambda>text.
     let relative = segments (trim_end_char CHR ''/'' text)
     in if relative = [] then None
        else case lstat relative t of
          There c \<Rightarrow> Some \<lparr>ig_relative = relative, ig_directory = is_folder c\<rparr>
        | _ \<Rightarrow> None)) listing"

definition ignored_directories :: "error + string list \<Rightarrow> item \<Rightarrow> error + path list" where
  "ignored_directories listing t = map_sum id (\<lambda>es. map ig_relative (filter ig_directory es)) (ignored_entries listing t)"

subsection \<open>The classification\<close>

record prunable =
  pc_path :: path
  pc_bytes :: "64 word"
  pc_reason :: "string option"

record survey =
  sv_candidates :: "prunable list"
  sv_notes :: "string list"

record prune_removal =
  pr_path :: path
  pr_bytes :: "64 word"
  pr_reason :: string

record prune_kept =
  pk_path :: path
  pk_bytes :: "64 word"

record prune_report =
  pn_removed :: "prune_removal list"
  pn_kept :: "prune_kept list"
  pn_bytes :: "64 word"
  pn_kept_bytes :: "64 word"
  pn_notes :: "string list"

definition NAMED :: nat where "NAMED = 12"

definition reason_for :: "path \<Rightarrow> string option" where
  "reason_for relative =
     map_option row_reason (find (\<lambda>r. suffix (segments (row_path r)) relative) regenerable_rows)"

definition holds_another :: "ignored list \<Rightarrow> path \<Rightarrow> bool" where
  "holds_another entries relative =
     list_ex (\<lambda>e. ig_relative e \<noteq> relative \<and> prefix relative (ig_relative e)) entries"

definition is_written :: "path \<Rightarrow> bool" where
  "is_written relative = list_ex (\<lambda>w. segments (wr_path w) = relative) WRITTEN"

lemma child_smaller: "(n, c) \<in> set es \<Longrightarrow> size c < size (Folder m es)"
  by (induction es) auto

function wrote_folder :: "path \<Rightarrow> item \<Rightarrow> bool" where
  "wrote_folder relative (Leaf l m) = False"
| "wrote_folder relative (Folder m es) =
     (readable m \<and> (\<forall>(n, c) \<in> set es.
        if is_folder c then enterable m \<and> wrote_folder (relative @ [n]) c else is_written (relative @ [n])))"
  by pat_completeness auto

termination
  by (relation "measure (size \<circ> snd)") (use child_smaller in \<open>fastforce+\<close>)

text \<open>\<open>is_file\<close> and \<open>read_dir\<close> of a path follow a link; \<open>follow\<close> is what the link at a path leads to.\<close>

definition followed :: "(path \<Rightarrow> item option) \<Rightarrow> path \<Rightarrow> item \<Rightarrow> item option" where
  "followed follow relative t = (case lstat relative t of
     There c \<Rightarrow> if is_link c then follow relative else Some c
   | _ \<Rightarrow> None)"

definition nodal_wrote :: "(path \<Rightarrow> item option) \<Rightarrow> item \<Rightarrow> path \<Rightarrow> bool" where
  "nodal_wrote follow t relative = (case followed follow relative t of
     Some (Leaf RegularFile m) \<Rightarrow> is_written relative
   | Some c \<Rightarrow> wrote_folder relative c
   | None \<Rightarrow> False)"

definition survey_one ::
  "(path \<Rightarrow> item option) \<Rightarrow> item \<Rightarrow> ignored list \<Rightarrow> ignored \<Rightarrow> prunable list \<times> path list \<Rightarrow> prunable list \<times> path list" where
  "survey_one follow t entries e a = (case a of (candidates, reg) \<Rightarrow>
     if list_ex (\<lambda>whole. prefix whole (ig_relative e)) reg then (candidates, reg)
     else
       (let reason = (if ig_directory e then reason_for (ig_relative e) else None);
            one = \<lparr>pc_path = ig_relative e, pc_bytes = ms_bytes (measure_at (ig_relative e) t), pc_reason = reason\<rparr>
        in if reason \<noteq> None then (candidates @ [one], reg @ [ig_relative e])
           else if holds_another entries (ig_relative e) \<or> nodal_wrote follow t (ig_relative e)
           then (candidates, reg)
           else (candidates @ [one], reg)))"

text \<open>\<open>say\<close> is the text of an error; \<open>place\<close> is where the home is, and no item is a home that is not there.\<close>

definition survey_home ::
  "(error \<Rightarrow> string) \<Rightarrow> (path \<Rightarrow> item option) \<Rightarrow> error + string list \<Rightarrow> path \<Rightarrow> item option \<Rightarrow> survey" where
  "survey_home say follow listing place home =
     (if \<not> (case home of Some t \<Rightarrow> is_folder t | None \<Rightarrow> False) then
        \<lparr>sv_candidates = [], sv_notes = [display_path place @ '' is not there, so no ignored state was read'']\<rparr>
      else case ignored_entries listing (the home) of
        Inl why \<Rightarrow> \<lparr>sv_candidates = [], sv_notes = [say why]\<rparr>
      | Inr entries \<Rightarrow>
          \<lparr>sv_candidates = fst (fold (survey_one follow (the home) entries) entries ([], [])), sv_notes = []\<rparr>)"

subsection \<open>The sweep\<close>

definition keep_path :: "path \<Rightarrow> 64 word \<Rightarrow> prune_report \<Rightarrow> prune_report" where
  "keep_path p n r = r\<lparr>pn_kept_bytes := pn_kept_bytes r + n, pn_kept := pn_kept r @ [\<lparr>pk_path = p, pk_bytes = n\<rparr>]\<rparr>"

definition removal_of :: "prunable \<Rightarrow> prune_removal option" where
  "removal_of c = map_option (\<lambda>why. \<lparr>pr_path = pc_path c, pr_bytes = pc_bytes c, pr_reason = why\<rparr>) (pc_reason c)"

fun sweep_all :: "(error \<Rightarrow> string) \<Rightarrow> path \<Rightarrow> prunable list \<Rightarrow> prune_report \<Rightarrow> item \<Rightarrow> prune_report \<times> item" where
  "sweep_all say place [] r t = (r, t)"
| "sweep_all say place (c # cs) r t =
     (case removal_of c of
        None \<Rightarrow> sweep_all say place cs (keep_path (pc_path c) (pc_bytes c) r) t
      | Some gone \<Rightarrow>
          (case remove_tree place (pc_path c) t of
             (Some why, t') \<Rightarrow>
               sweep_all say place cs (keep_path (pc_path c) (pc_bytes c) (r\<lparr>pn_notes := pn_notes r @ [say why]\<rparr>)) t'
           | (None, t') \<Rightarrow>
               sweep_all say place cs (r\<lparr>pn_bytes := pn_bytes r + pc_bytes c, pn_removed := pn_removed r @ [gone]\<rparr>) t'))"

definition empty_report :: "string list \<Rightarrow> prune_report" where
  "empty_report notes = \<lparr>pn_removed = [], pn_kept = [], pn_bytes = 0, pn_kept_bytes = 0, pn_notes = notes\<rparr>"

definition sweep ::
  "(error \<Rightarrow> string) \<Rightarrow> (path \<Rightarrow> item option) \<Rightarrow> error + string list \<Rightarrow> path \<Rightarrow> item option \<Rightarrow> prune_report \<times> item option" where
  "sweep say follow listing place home =
     (let s = survey_home say follow listing place home
      in case home of
           None \<Rightarrow> (empty_report (sv_notes s), None)
         | Some t \<Rightarrow> map_prod id Some (sweep_all say place (sv_candidates s) (empty_report (sv_notes s)) t))"

definition would_remove ::
  "(error \<Rightarrow> string) \<Rightarrow> (path \<Rightarrow> item option) \<Rightarrow> error + string list \<Rightarrow> path \<Rightarrow> item option \<Rightarrow> prune_removal list" where
  "would_remove say follow listing place home =
     List.map_filter removal_of (sv_candidates (survey_home say follow listing place home))"

definition left_as_found :: "prune_report \<Rightarrow> bool" where
  "left_as_found r = (pn_removed r = [])"

definition describe_prune :: "prune_report \<Rightarrow> string" where
  "describe_prune r =
     (if left_as_found r then
        ''The trashed home held no build output and no installed dependencies that an ignore rule covers. Nothing was removed from it.''
      else ''Dropped '' @ dec (length (pn_removed r)) @ '' ''
        @ (if length (pn_removed r) = 1 then ''directory'' else ''directories'')
        @ '' from the trashed home: '' @ join '', '' (map (join ''/'' \<circ> pr_path) (pn_removed r))
        @ ''. Each one is generated state a tool writes again. The trash keeps everything else the home held.'')"

subsection \<open>What a sweep takes\<close>

text \<open>The candidates of a survey, in the order of the listing: none is under an earlier one that goes, and
  one that stays is no folder above another entry.\<close>

definition goes :: "prunable list \<Rightarrow> path set" where
  "goes cs = {pc_path c | c. c \<in> set cs \<and> pc_reason c \<noteq> None}"

definition reason_of :: "ignored \<Rightarrow> string option" where
  "reason_of e = (if ig_directory e then reason_for (ig_relative e) else None)"

lemma goes_simps:
  "goes [] = {}" "goes (cs @ [c]) = goes cs \<union> (if pc_reason c = None then {} else {pc_path c})"
  by (auto simp: goes_def)

text \<open>Git lists a folder before what is in it, and nothing twice.\<close>

definition parents_first :: "ignored list \<Rightarrow> bool" where
  "parents_first es \<longleftrightarrow> sorted_wrt (\<lambda>a b. \<not> prefix (ig_relative b) (ig_relative a)) es"

definition surveyed :: "ignored list \<Rightarrow> ignored list \<Rightarrow> prunable list \<times> path list \<Rightarrow> bool" where
  "surveyed entries es a \<longleftrightarrow> set (snd a) = goes (fst a)
    \<and> (\<forall>c \<in> set (fst a). \<exists>e \<in> set es. pc_path c = ig_relative e \<and> pc_reason c = reason_of e
         \<and> (pc_reason c = None \<longrightarrow> \<not> holds_another entries (ig_relative e)))
    \<and> (\<forall>c \<in> set (fst a). pc_reason c = None \<longrightarrow> (\<forall>p \<in> goes (fst a). \<not> prefix p (pc_path c)))"

lemma surveyed_fold:
  "parents_first es \<Longrightarrow> surveyed entries es (fold (survey_one follow t entries) es ([], []))"
proof (induction es rule: rev_induct)
  case Nil
  then show ?case by (simp add: surveyed_def goes_simps)
next
  case (snoc e es)
  have before: "\<forall>a \<in> set es. \<not> prefix (ig_relative e) (ig_relative a)" "parents_first es"
    using snoc.prems by (auto simp: parents_first_def sorted_wrt_append)
  obtain cs reg where f: "fold (survey_one follow t entries) es ([], []) = (cs, reg)" by fastforce
  then have ih: "surveyed entries es (cs, reg)" using snoc.IH before(2) by simp
  have late: "\<forall>c \<in> set cs. \<not> prefix (ig_relative e) (pc_path c)"
    using ih before(1) by (fastforce simp: surveyed_def)
  have stay: "surveyed entries (es @ [e]) (cs, reg)" using ih unfolding surveyed_def by simp
  show ?case
  proof (cases "list_ex (\<lambda>whole. prefix whole (ig_relative e)) reg")
    case True
    then have "fold (survey_one follow t entries) (es @ [e]) ([], []) = (cs, reg)" using f by (simp add: survey_one_def)
    with stay show ?thesis by (simp only:)
  next
    case False
    then have new: "\<forall>p \<in> goes cs. \<not> prefix p (ig_relative e)" using ih by (auto simp: surveyed_def list_ex_iff)
    let ?one = "\<lparr>pc_path = ig_relative e, pc_bytes = ms_bytes (measure_at (ig_relative e) t), pc_reason = reason_of e\<rparr>"
    have same: "fold (survey_one follow t entries) (es @ [e]) ([], []) =
       (if reason_of e \<noteq> None then (cs @ [?one], reg @ [ig_relative e])
        else if holds_another entries (ig_relative e) \<or> nodal_wrote follow t (ig_relative e) then (cs, reg)
        else (cs @ [?one], reg))"
      using False f by (simp add: survey_one_def Let_def reason_of_def [symmetric])
    have grow: "surveyed entries (es @ [e]) (cs @ [?one], if reason_of e = None then reg else reg @ [ig_relative e])"
      if "reason_of e = None \<Longrightarrow> \<not> holds_another entries (ig_relative e)"
      using ih late new that unfolding surveyed_def by (auto simp: goes_simps)
    show ?thesis using grow stay unfolding same by (auto split: if_splits)
  qed
qed

lemma surveyed_stays:
  assumes "surveyed entries es (cs, reg)" and "c \<in> set cs" and "pc_reason c = None"
  shows "\<not> holds_another entries (pc_path c)" and "p \<in> goes cs \<Longrightarrow> \<not> prefix p (pc_path c)"
proof -
  from assms(1) have "\<forall>c \<in> set cs. \<exists>e \<in> set es. pc_path c = ig_relative e \<and> pc_reason c = reason_of e
      \<and> (pc_reason c = None \<longrightarrow> \<not> holds_another entries (ig_relative e))"
    by (simp add: surveyed_def)
  from bspec [OF this assms(2)] assms(3) show "\<not> holds_another entries (pc_path c)" by auto
  show "p \<in> goes cs \<Longrightarrow> \<not> prefix p (pc_path c)" using assms by (simp add: surveyed_def)
qed

lemma keep_path_parts [simp]:
  "pn_kept (keep_path p n r) = pn_kept r @ [\<lparr>pk_path = p, pk_bytes = n\<rparr>]"
  "pn_kept_bytes (keep_path p n r) = pn_kept_bytes r + n"
  "pn_removed (keep_path p n r) = pn_removed r" "pn_bytes (keep_path p n r) = pn_bytes r"
  by (simp_all add: keep_path_def)

text \<open>The home after a sweep is the home after removals of what goes, whatever each of them answered.\<close>

lemma sweep_all_item:
  "snd (sweep_all say place cs r t) = snd (removals (remove_tree place) (map pr_path (List.map_filter removal_of cs)) t)"
  by (induction cs arbitrary: r t)
     (auto simp: map_filter_simps removal_of_def split: option.splits prod.splits)

definition swept :: "path \<Rightarrow> prunable list \<Rightarrow> item \<Rightarrow> prune_removal list \<Rightarrow> prune_kept list \<Rightarrow> bool" where
  "swept place cs t rs ks \<longleftrightarrow> subseq rs (List.map_filter removal_of cs)
    \<and> mset (map pr_path rs) + mset (map pk_path ks) = mset (map pc_path cs)
    \<and> (\<forall>x \<in> set rs. (pr_path x, None)
         \<in> set (fst (removals (remove_tree place) (map pr_path (List.map_filter removal_of cs)) t)))
    \<and> (\<forall>c \<in> set cs. pc_reason c = None \<longrightarrow> \<lparr>pk_path = pc_path c, pk_bytes = pc_bytes c\<rparr> \<in> set ks)
    \<and> (\<Sum>x\<leftarrow>rs. pr_bytes x) + (\<Sum>x\<leftarrow>ks. pk_bytes x) = (\<Sum>c\<leftarrow>cs. pc_bytes c)"

lemma swept_all:
  "\<exists>rs ks. swept place cs t rs ks
     \<and> pn_removed (fst (sweep_all say place cs r t)) = pn_removed r @ rs
     \<and> pn_kept (fst (sweep_all say place cs r t)) = pn_kept r @ ks
     \<and> pn_bytes (fst (sweep_all say place cs r t)) = pn_bytes r + (\<Sum>x\<leftarrow>rs. pr_bytes x)
     \<and> pn_kept_bytes (fst (sweep_all say place cs r t)) = pn_kept_bytes r + (\<Sum>x\<leftarrow>ks. pk_bytes x)"
proof (induction cs arbitrary: r t)
  case Nil
  show ?case by (intro exI [of _ "[]"]) (simp add: swept_def map_filter_simps)
next
  case (Cons c cs)
  let ?k = "\<lparr>pk_path = pc_path c, pk_bytes = pc_bytes c\<rparr>"
  show ?case
  proof (cases "removal_of c")
    case None
    obtain rs ks where "swept place cs t rs ks
     \<and> pn_removed (fst (sweep_all say place cs (keep_path (pc_path c) (pc_bytes c) r) t)) = pn_removed r @ rs
     \<and> pn_kept (fst (sweep_all say place cs (keep_path (pc_path c) (pc_bytes c) r) t)) = pn_kept r @ ?k # ks
     \<and> pn_bytes (fst (sweep_all say place cs (keep_path (pc_path c) (pc_bytes c) r) t)) = pn_bytes r + (\<Sum>x\<leftarrow>rs. pr_bytes x)
     \<and> pn_kept_bytes (fst (sweep_all say place cs (keep_path (pc_path c) (pc_bytes c) r) t))
         = pn_kept_bytes r + pc_bytes c + (\<Sum>x\<leftarrow>ks. pk_bytes x)"
      using Cons.IH [of t "keep_path (pc_path c) (pc_bytes c) r"] by auto
    then show ?thesis using None
      by (intro exI [of _ rs] exI [of _ "?k # ks"]) (simp add: swept_def map_filter_simps add_ac)
  next
    case (Some gone)
    then have g: "pr_path gone = pc_path c" "pr_bytes gone = pc_bytes c" "pc_reason c \<noteq> None"
      by (auto simp: removal_of_def)
    obtain e t' where rm: "remove_tree place (pc_path c) t = (e, t')" by fastforce
    show ?thesis
    proof (cases e)
      case None
      define r1 where "r1 = r\<lparr>pn_bytes := pn_bytes r + pc_bytes c, pn_removed := pn_removed r @ [gone]\<rparr>"
      obtain rs ks where "swept place cs t' rs ks
         \<and> pn_removed (fst (sweep_all say place cs r1 t')) = pn_removed r @ gone # rs
         \<and> pn_kept (fst (sweep_all say place cs r1 t')) = pn_kept r @ ks
         \<and> pn_bytes (fst (sweep_all say place cs r1 t')) = pn_bytes r + pc_bytes c + (\<Sum>x\<leftarrow>rs. pr_bytes x)
         \<and> pn_kept_bytes (fst (sweep_all say place cs r1 t')) = pn_kept_bytes r + (\<Sum>x\<leftarrow>ks. pk_bytes x)"
        using Cons.IH [of t' r1] by (auto simp: r1_def)
      then show ?thesis using None Some rm g
        by (intro exI [of _ "gone # rs"] exI [of _ ks]) (auto simp: swept_def map_filter_simps add_ac r1_def)
    next
      case e: (Some why)
      define r1 where "r1 = keep_path (pc_path c) (pc_bytes c) (r\<lparr>pn_notes := pn_notes r @ [say why]\<rparr>)"
      obtain rs ks where "swept place cs t' rs ks
         \<and> pn_removed (fst (sweep_all say place cs r1 t')) = pn_removed r @ rs
         \<and> pn_kept (fst (sweep_all say place cs r1 t')) = pn_kept r @ ?k # ks
         \<and> pn_bytes (fst (sweep_all say place cs r1 t')) = pn_bytes r + (\<Sum>x\<leftarrow>rs. pr_bytes x)
         \<and> pn_kept_bytes (fst (sweep_all say place cs r1 t')) = pn_kept_bytes r + pc_bytes c + (\<Sum>x\<leftarrow>ks. pk_bytes x)"
        using Cons.IH [of t' r1] by (auto simp: r1_def)
      then show ?thesis using e Some rm g
        by (intro exI [of _ rs] exI [of _ "?k # ks"]) (auto simp: swept_def map_filter_simps add_ac r1_def)
    qed
  qed
qed

lemma goes_removals: "goes cs = pr_path ` set (List.map_filter removal_of cs)"
  by (force simp: goes_def List.map_filter_def removal_of_def image_iff)

lemma reason_for_row:
  "reason_for p = Some why \<Longrightarrow> \<exists>r \<in> set ROWS. (row_keep r \<or> row_invalidate r) \<and> suffix (segments (row_path r)) p \<and> why = row_reason r"
  by (auto simp: reason_for_def regenerable_rows_def dest!: find_Some_in)

text \<open>
  C34. A prune takes generated state and nothing else. What it removes is among what the survey said it
  would remove, in that order, and each of those is a folder Git listed as ignored that ends in a row
  of the table a tool writes again; each one removed is gone. Removed and kept together are
  the survey's candidates, and their bytes add up. Whatever is not at or under a path the survey would
  remove is as it was; so a listed path that is kept for what it is stays whole, and nothing
  Git did not list is touched.
\<close>

theorem sweep_takes_generated_state:
  assumes "wf_item t" and "is_folder t" and "ignored_entries listing t = Inr es" and "parents_first es"
    and "sweep say follow listing place (Some t) = (report, Some t')"
  shows "subseq (pn_removed report) (would_remove say follow listing place (Some t))
    \<and> (\<forall>x \<in> set (would_remove say follow listing place (Some t)). \<lparr>ig_relative = pr_path x, ig_directory = True\<rparr> \<in> set es
         \<and> (\<exists>r \<in> set ROWS. (row_keep r \<or> row_invalidate r) \<and> suffix (segments (row_path r)) (pr_path x)))
    \<and> (\<forall>x \<in> set (pn_removed report). item_at (pr_path x) t' = None)
    \<and> mset (map pr_path (pn_removed report)) + mset (map pk_path (pn_kept report))
        = mset (map pc_path (sv_candidates (survey_home say follow listing place (Some t))))
    \<and> pn_bytes report + pn_kept_bytes report
        = (\<Sum>c\<leftarrow>sv_candidates (survey_home say follow listing place (Some t)). pc_bytes c)
    \<and> (\<forall>q. (\<forall>x \<in> set (would_remove say follow listing place (Some t)). \<not> prefix (pr_path x) q) \<longrightarrow> seen_at q t' = seen_at q t)
    \<and> (\<forall>c \<in> set (sv_candidates (survey_home say follow listing place (Some t))). pc_reason c = None \<longrightarrow>
         (\<forall>q. prefix (pc_path c) q \<longrightarrow> seen_at q t' = seen_at q t))
    \<and> (\<forall>q. (\<forall>e \<in> set es. \<not> prefix (ig_relative e) q) \<longrightarrow> seen_at q t' = seen_at q t)"
proof -
  define cs where "cs = sv_candidates (survey_home say follow listing place (Some t))"
  define ps where "ps = map pr_path (List.map_filter removal_of cs)"
  have would: "would_remove say follow listing place (Some t) = List.map_filter removal_of cs"
    by (simp add: would_remove_def cs_def)
  obtain reg where f: "fold (survey_one follow t es) es ([], []) = (cs, reg)"
    using assms(2,3) by (cases "fold (survey_one follow t es) es ([], [])") (simp add: cs_def survey_home_def)
  have seen: "surveyed es es (cs, reg)" using surveyed_fold [OF assms(4), of es follow t] f by simp
  have swept: "sweep_all say place cs (empty_report (sv_notes (survey_home say follow listing place (Some t)))) t = (report, t')"
    using assms(5) by (auto simp: sweep_def Let_def cs_def [symmetric] map_prod_def split: prod.splits)
  obtain rs ks where parts: "swept place cs t rs ks" "pn_removed report = rs" "pn_kept report = ks"
    "pn_bytes report = (\<Sum>x\<leftarrow>rs. pr_bytes x)" "pn_kept_bytes report = (\<Sum>x\<leftarrow>ks. pk_bytes x)"
    using swept_all [of place cs t say "empty_report (sv_notes (survey_home say follow listing place (Some t)))"] swept
    by (auto simp: empty_report_def)
  have t': "t' = snd (removals (remove_tree place) ps t)"
    using sweep_all_item [of say place cs _ t] swept unfolding ps_def by (metis snd_conv)
  have gone: "item_at (pr_path x) t' = None" if "x \<in> set rs" for x
    using parts(1) that unfolding t' ps_def swept_def by (intro trees.all_gone [OF assms(1)]) blast
  have rest: "seen_at q t' = seen_at q t" if "\<forall>p \<in> goes cs. \<not> prefix p q" for q
    unfolding t' by (rule trees.others_kept) (use that goes_removals [of cs] in \<open>auto simp: ps_def\<close>)
  have listed: "\<exists>e \<in> set es. ig_relative e = p \<and> reason_of e \<noteq> None" if "p \<in> goes cs" for p
    using seen that by (fastforce simp: surveyed_def goes_def)
  have dir: "\<lparr>ig_relative = p, ig_directory = True\<rparr> \<in> set es
      \<and> (\<exists>r \<in> set ROWS. (row_keep r \<or> row_invalidate r) \<and> suffix (segments (row_path r)) p)" if p: "p \<in> goes cs" for p
  proof -
    from listed [OF p] obtain e why where e: "e \<in> set es" "ig_relative e = p" "ig_directory e" "reason_for p = Some why"
      by (auto simp: reason_of_def split: if_splits)
    then have "e = \<lparr>ig_relative = p, ig_directory = True\<rparr>" by simp
    then show ?thesis using e reason_for_row by blast
  qed
  have whole: "seen_at q t' = seen_at q t" if c: "c \<in> set cs" "pc_reason c = None" and q: "prefix (pc_path c) q" for c q
  proof (rule rest, intro ballI notI)
    fix p assume p: "p \<in> goes cs" "prefix p q"
    have "\<not> prefix p (pc_path c)" using surveyed_stays(2) [OF seen c p(1)] .
    then have "prefix (pc_path c) p" "p \<noteq> pc_path c" using prefix_same_cases [OF q p(2)] by auto
    then show False using listed [OF p(1)] surveyed_stays(1) [OF seen c] by (auto simp: holds_another_def list_ex_iff)
  qed
  have unlisted: "seen_at q t' = seen_at q t" if "\<forall>e \<in> set es. \<not> prefix (ig_relative e) q" for q
    using that listed by (intro rest) blast
  show ?thesis
    unfolding would cs_def [symmetric]
    using parts gone rest whole unlisted dir
    by (auto simp: swept_def goes_removals)
qed

text \<open>A reclaimed home with build output, installed dependencies and one file a person kept.\<close>

definition ex_entry :: meta where
  "ex_entry = \<lparr>me_mode = 0x1ED, me_mine = True, me_len = 40, me_modified = 7, me_accessed = 7,
     me_dev = 1, me_ino = 12, me_nlink = 1\<rparr>"

definition ex_trashed :: item where
  "ex_trashed = Folder ex_entry
     [(''.env.local'', Leaf RegularFile ex_entry),
      (''apps'', Folder ex_entry [(''node_modules'', Folder ex_entry [(''left-pad.js'', Leaf RegularFile ex_entry)])]),
      (''main.rs'', Leaf RegularFile ex_entry),
      (''target'', Folder (ex_entry\<lparr>me_mode := 0x16D\<rparr>) [(''debug'', Leaf RegularFile ex_entry)])]"

definition ex_listing :: "string list" where
  "ex_listing = [''.env.local'', ''apps/'', ''apps/node_modules/'', ''target/'']"

definition ex_ignored :: "ignored list" where
  "ex_ignored = [\<lparr>ig_relative = [''.env.local''], ig_directory = False\<rparr>, \<lparr>ig_relative = [''apps''], ig_directory = True\<rparr>,
     \<lparr>ig_relative = [''apps'', ''node_modules''], ig_directory = True\<rparr>, \<lparr>ig_relative = [''target''], ig_directory = True\<rparr>]"

lemma ex_prune:
  "wf_item ex_trashed" "is_folder ex_trashed" "ignored_entries (Inr ex_listing) ex_trashed = Inr ex_ignored"
  "map pr_path (would_remove (\<lambda>_. '''') (\<lambda>_. None) (Inr ex_listing) [''trash''] (Some ex_trashed))
    = [[''apps'', ''node_modules''], [''target'']]"
  by code_simp+

lemma ex_swept:
  "sweep (\<lambda>_. '''') (\<lambda>_. None) (Inr ex_listing) [''trash''] (Some ex_trashed) =
     (\<lparr>pn_removed = [\<lparr>pr_path = [''apps'', ''node_modules''], pr_bytes = 40, pr_reason = ''installed dependencies, kept warm''\<rparr>,
                     \<lparr>pr_path = [''target''], pr_bytes = 40, pr_reason = ''build output, kept warm''\<rparr>],
        pn_kept = [\<lparr>pk_path = [''.env.local''], pk_bytes = 40\<rparr>],
        pn_bytes = 80, pn_kept_bytes = 40, pn_notes = []\<rparr>,
      Some (Folder ex_entry
        [(''.env.local'', Leaf RegularFile ex_entry), (''apps'', Folder ex_entry []), (''main.rs'', Leaf RegularFile ex_entry)]))"
  by code_simp

theorem sweep_takes_generated_state_witness:
  "seen_at [''.env.local''] (Folder ex_entry
        [(''.env.local'', Leaf RegularFile ex_entry), (''apps'', Folder ex_entry []), (''main.rs'', Leaf RegularFile ex_entry)])
     = seen_at [''.env.local''] ex_trashed"
proof -
  have first: "parents_first ex_ignored" by (simp add: parents_first_def ex_ignored_def)
  have "\<not> prefix (pr_path x) [''.env.local'']"
    if "x \<in> set (would_remove (\<lambda>_. '''') (\<lambda>_. None) (Inr ex_listing) [''trash''] (Some ex_trashed))" for x
  proof -
    from that have "pr_path x \<in> set [[''apps'', ''node_modules''], [''target'']]"
      unfolding ex_prune(4) [symmetric] by simp
    then show ?thesis by auto
  qed
  with sweep_takes_generated_state [OF ex_prune(1-3) first ex_swept] show ?thesis by blast
qed

end
