(* ===== verification/Walk.thy ===== *)
theory Walk
  imports Exclude HomeTree "HOL-Library.Multiset"
begin

text \<open>
  \<open>workspace/walk.rs\<close>: the filtered walk a copy is made from. Its stack of directories has its top
  first here. An entry of the tree keeps the metadata the walk read for it.
\<close>

datatype entry_kind = KDirectory | KFile | KSymlink | KOther

primrec kind_of :: "item \<Rightarrow> entry_kind" where
  "kind_of (Leaf l m) = (case l of RegularFile \<Rightarrow> KFile | SymLink _ \<Rightarrow> KSymlink | Special \<Rightarrow> KOther)"
| "kind_of (Folder m es) = KDirectory"

record walked =
  wk_relative :: path
  wk_kind :: entry_kind
  wk_meta :: meta

record skipped =
  sk_excluded :: nat
  sk_other :: nat

type_synonym walk_state = "walked list \<times> skipped \<times> path list"

definition read_sorted :: "path \<Rightarrow> path \<Rightarrow> item \<Rightarrow> error + string list" where
  "read_sorted root d t =
     (case lstat d t of
        There (Folder m es) \<Rightarrow>
          if \<not> readable m then Inl (Io (root @ d) ''permission denied'') else Inr (sort (map fst es))
      | There (Leaf l m) \<Rightarrow> Inl (Io (root @ d) ''not a directory'')
      | Absent \<Rightarrow> Inl (Io (root @ d) ''not found'')
      | Denied \<Rightarrow> Inl (Io (root @ d) ''permission denied''))"

fun walk_names :: "path \<Rightarrow> excludes \<Rightarrow> item \<Rightarrow> path \<Rightarrow> string list \<Rightarrow> walk_state \<Rightarrow> error + walk_state" where
  "walk_names root xs t d [] a = Inr a"
| "walk_names root xs t d (n # ns) (entries, skipped, queue) =
     (let relative = d @ [n]
      in if excludes_path xs relative then
           walk_names root xs t d ns (entries, skipped\<lparr>sk_excluded := sk_excluded skipped + 1\<rparr>, queue)
         else case lstat relative t of
           There c \<Rightarrow>
             if kind_of c = KOther then
               walk_names root xs t d ns (entries, skipped\<lparr>sk_other := sk_other skipped + 1\<rparr>, queue)
             else walk_names root xs t d ns
               (entries @ [\<lparr>wk_relative = relative, wk_kind = kind_of c, wk_meta = meta_of c\<rparr>], skipped,
                if kind_of c = KDirectory then relative # queue else queue)
         | _ \<Rightarrow> Inl (Io (root @ relative) ''permission denied''))"

text \<open>The folders of a folder that the list keeps, last one first: what the walk puts on its stack.\<close>

definition goes_down :: "excludes \<Rightarrow> item \<Rightarrow> path \<Rightarrow> string list \<Rightarrow> path list" where
  "goes_down xs t d ns = rev (map (\<lambda>n. d @ [n]) (filter (\<lambda>n. \<not> excludes_path xs (d @ [n]) \<and> folder_at (d @ [n]) t) ns))"

lemma kind_directory: "kind_of c = KDirectory \<longleftrightarrow> is_folder c"
  by (cases c) (auto split: leaf.splits)

text \<open>What one folder adds.\<close>

definition entry_at :: "item \<Rightarrow> path \<Rightarrow> walked option" where
  "entry_at t q = (case item_at q t of
     Some c \<Rightarrow> if kind_of c = KOther then None
       else Some \<lparr>wk_relative = q, wk_kind = kind_of c, wk_meta = meta_of c\<rparr>
   | None \<Rightarrow> None)"

lemma walk_names_Inr:
  "walk_names root xs t d ns (entries, skipped, queue) = Inr (entries', skipped', queue') \<Longrightarrow>
     entries' = entries @ List.map_filter (entry_at t) (filter (\<lambda>q. \<not> excludes_path xs q) (map (\<lambda>n. d @ [n]) ns))
     \<and> queue' = goes_down xs t d ns @ queue
     \<and> sk_excluded skipped' = sk_excluded skipped + length (filter (\<lambda>n. excludes_path xs (d @ [n])) ns)"
proof (induction ns arbitrary: entries skipped queue)
  case Nil
  then show ?case by (simp add: goes_down_def map_filter_simps)
next
  case (Cons n ns)
  show ?case
  proof (cases "excludes_path xs (d @ [n])")
    case True
    then show ?thesis using Cons by (fastforce simp: Let_def goes_down_def)
  next
    case False
    then obtain c where c: "lstat (d @ [n]) t = There c" using Cons.prems by (auto simp: Let_def split: seen.splits)
    then have at: "item_at (d @ [n]) t = Some c" by (rule lstat_There)
    note facts = False c at folder_at_def kind_directory entry_at_def map_filter_simps goes_down_def
    show ?thesis
    proof (cases "kind_of c = KOther")
      case True
      with Cons.prems facts have "walk_names root xs t d ns
          (entries, skipped\<lparr>sk_other := sk_other skipped + 1\<rparr>, queue) = Inr (entries', skipped', queue')"
        by (simp add: Let_def)
      from Cons.IH [OF this] True kind_directory [of c] show ?thesis by (simp add: facts)
    next
      case other: False
      with Cons.prems facts have "walk_names root xs t d ns
          (entries @ [\<lparr>wk_relative = d @ [n], wk_kind = kind_of c, wk_meta = meta_of c\<rparr>], skipped,
           if is_folder c then (d @ [n]) # queue else queue) = Inr (entries', skipped', queue')"
        by (simp add: Let_def)
      from Cons.IH [OF this] other show ?thesis by (simp add: facts)
    qed
  qed
qed

lemma read_sorted_Inr:
  assumes "read_sorted root d t = Inr found"
  obtains m es where "item_at d t = Some (Folder m es)" "mset found = mset (map fst es)"
  using assms by (auto simp: read_sorted_def dest!: lstat_There split: seen.splits item.splits if_splits)

lemma down_lighter:
  assumes "read_sorted root d t = Inr found"
  shows "weight t (d @ [n]) < weight t d"
  using assms by (rule read_sorted_Inr) (rule weight_child)

function walk_queue :: "path \<Rightarrow> excludes \<Rightarrow> item \<Rightarrow> path list \<Rightarrow> walked list \<Rightarrow> skipped \<Rightarrow> error + walked list \<times> skipped" where
  "walk_queue root xs t [] entries skipped = Inr (entries, skipped)"
| "walk_queue root xs t (d # queue) entries skipped =
     (case read_sorted root d t of
        Inl e \<Rightarrow> Inl e
      | Inr found \<Rightarrow>
          (case walk_names root xs t d found (entries, skipped, queue) of
             Inl e \<Rightarrow> Inl e
           | Inr (entries', skipped', queue') \<Rightarrow> walk_queue root xs t queue' entries' skipped'))"
  by pat_completeness auto

termination
proof (relation "inv_image (mult less_than) (\<lambda>(root, xs, t, queue, entries, skipped). image_mset (weight t) (mset queue))")
  fix root xs t d queue entries skipped found a entries' b skipped' queue'
  assume found: "read_sorted root d t = Inr found"
    and step: "walk_names root xs t d found (entries, skipped, queue) = Inr a"
      "(entries', b) = a" "(skipped', queue') = b"
  let ?w = "image_mset (weight t)"
  have "\<forall>k \<in># ?w (mset (goes_down xs t d found)). \<exists>j \<in># {#weight t d#}. (k, j) \<in> less_than"
    using down_lighter [OF found] by (auto simp: goes_down_def)
  then have "(?w (mset queue) + ?w (mset (goes_down xs t d found)), ?w (mset queue) + {#weight t d#}) \<in> mult less_than"
    by (intro one_step_implies_mult) auto
  moreover have "queue' = goes_down xs t d found @ queue"
    using walk_names_Inr step by auto
  ultimately show "((root, xs, t, queue', entries', skipped'), root, xs, t, d # queue, entries, skipped)
      \<in> inv_image (mult less_than) (\<lambda>(root, xs, t, queue, entries, skipped). image_mset (weight t) (mset queue))"
    by (auto simp: add.commute)
qed (auto intro!: wf_inv_image wf_mult)

definition walk :: "path \<Rightarrow> excludes \<Rightarrow> item \<Rightarrow> error + walked list \<times> skipped" where
  "walk root xs t = walk_queue root xs t [[]] [] \<lparr>sk_excluded = 0, sk_other = 0\<rparr>"

subsection \<open>What a walk answers with\<close>

text \<open>The entries of the tree the list keeps. A path under an excluded one is excluded with it.\<close>

definition kept_path :: "excludes \<Rightarrow> item \<Rightarrow> path \<Rightarrow> bool" where
  "kept_path xs t q \<longleftrightarrow> q \<noteq> [] \<and> \<not> excludes_path xs q \<and> entry_at t q \<noteq> None"

lemma excludes_under: "excludes_path xs p \<Longrightarrow> prefix p q \<Longrightarrow> excludes_path xs q"
  by (auto simp: excludes_path_def list_ex_iff intro: prefix_order.trans)

definition above_first :: "walked list \<Rightarrow> bool" where
  "above_first ws \<longleftrightarrow> sorted_wrt (\<lambda>a b. \<not> prefix (wk_relative b) (wk_relative a)) ws"

definition walked_below :: "excludes \<Rightarrow> item \<Rightarrow> path list \<Rightarrow> walked list \<Rightarrow> bool" where
  "walked_below xs t queue ws \<longleftrightarrow> above_first ws
    \<and> (\<forall>w \<in> set ws. entry_at t (wk_relative w) = Some w)
    \<and> (\<forall>q. q \<in> wk_relative ` set ws \<longleftrightarrow> kept_path xs t q \<and> (\<exists>d \<in> set queue. strict_prefix d q))"

definition to_walk :: "excludes \<Rightarrow> item \<Rightarrow> path list \<Rightarrow> bool" where
  "to_walk xs t queue \<longleftrightarrow> sorted_wrt apart queue \<and> (\<forall>d \<in> set queue. folder_at d t \<and> (d \<noteq> [] \<longrightarrow> \<not> excludes_path xs d))"

lemma entry_at_relative: "entry_at t q = Some w \<Longrightarrow> wk_relative w = q"
  by (auto simp: entry_at_def split: option.splits if_splits)

lemma entry_at_folder: "entry_at t q = Some w \<Longrightarrow> wk_kind w = KDirectory \<longleftrightarrow> folder_at q t"
  by (auto simp: entry_at_def folder_at_def kind_directory split: option.splits if_splits)

lemma found_names:
  assumes "wf_item t" and "read_sorted root d t = Inr found"
  shows "distinct found" and "n \<in> set found \<longleftrightarrow> item_at (d @ [n]) t \<noteq> None"
proof -
  from assms(2) obtain m es where d: "item_at d t = Some (Folder m es)" and found: "mset found = mset (map fst es)"
    by (rule read_sorted_Inr)
  have "wf_item c" if "item_at p t = Some c" for p c
    using assms(1) that by (induction p t rule: item_at.induct) (auto split: option.splits dest: wf_child)
  from this [OF d] have "distinct (map fst es)" by (simp add: wf_Folder)
  with found show "distinct found" by (metis mset_eq_imp_distinct_iff)
  have "set found = fst ` set es" using mset_eq_setD [OF found] by simp
  moreover have "item_at (d @ [n]) t = map_of es n" using d by (auto simp: item_at_snoc split: option.splits)
  ultimately show "n \<in> set found \<longleftrightarrow> item_at (d @ [n]) t \<noteq> None" by (simp add: map_of_eq_None_iff)
qed

text \<open>The entries of one folder.\<close>

definition entries_in :: "excludes \<Rightarrow> item \<Rightarrow> path \<Rightarrow> string list \<Rightarrow> walked list" where
  "entries_in xs t d ns = List.map_filter (entry_at t) (filter (\<lambda>q. \<not> excludes_path xs q) (map (\<lambda>n. d @ [n]) ns))"

lemma set_entries_in:
  "w \<in> set (entries_in xs t d ns) \<longleftrightarrow> (\<exists>n \<in> set ns. \<not> excludes_path xs (d @ [n]) \<and> entry_at t (d @ [n]) = Some w)"
  by (auto simp: entries_in_def List.map_filter_def image_iff)

lemma relative_entries_in:
  "wk_relative ` set (entries_in xs t d ns)
    = {d @ [n] | n. n \<in> set ns \<and> \<not> excludes_path xs (d @ [n]) \<and> entry_at t (d @ [n]) \<noteq> None}"
  by (force simp: set_entries_in image_iff dest: entry_at_relative)

lemma folder_strictly_above: "item_at q t \<noteq> None \<Longrightarrow> strict_prefix p q \<Longrightarrow> folder_at p t"
proof (induction p t arbitrary: q rule: item_at.induct)
  case (1 t)
  then show ?case by (cases t; cases q) (auto simp: folder_at_def)
next
  case (2 n ns l m)
  then show ?case by (cases q) auto
next
  case (3 n ns m es)
  from 3(3) obtain ps where "q = n # ps" "strict_prefix ns ps" by (cases q) auto
  then show ?case using 3(1) [of _ ps] 3(2) by (auto simp: folder_at_def split: option.splits)
qed

lemma entries_in_first: "distinct ns \<Longrightarrow> above_first (entries_in xs t d ns)"
proof (induction ns)
  case (Cons n ns)
  then have ih: "above_first (entries_in xs t d ns)" by simp
  have "\<not> prefix (wk_relative w) (d @ [n])" if "w \<in> set (entries_in xs t d ns)" for w
    using that Cons.prems by (auto simp: set_entries_in dest!: entry_at_relative)
  with ih show ?case
    by (auto simp: entries_in_def above_first_def map_filter_simps dest!: entry_at_relative split: option.splits)
qed (simp add: entries_in_def above_first_def map_filter_simps)

lemma to_walk_down:
  assumes "to_walk xs t (d # queue)" and "distinct ns"
  shows "to_walk xs t (goes_down xs t d ns @ queue)"
proof -
  have "sorted_wrt apart (goes_down xs t d ns)"
    using assms(2) unfolding goes_down_def by (induction ns) (auto simp: sorted_wrt_append apart_def)
  moreover have "apart a b" if "a \<in> set (goes_down xs t d ns)" "b \<in> set queue" for a b
    using that assms(1) apart_child by (auto simp: goes_down_def to_walk_def)
  ultimately show ?thesis using assms(1) by (auto simp: to_walk_def sorted_wrt_append goes_down_def)
qed

lemma walked_belowD:
  assumes "walked_below xs t queue ws" and "w \<in> set ws"
  shows "\<exists>e \<in> set queue. strict_prefix e (wk_relative w)"
proof -
  have "wk_relative w \<in> wk_relative ` set ws \<longrightarrow> (\<exists>d \<in> set queue. strict_prefix d (wk_relative w))"
    using assms(1) by (simp add: walked_below_def)
  then show ?thesis using assms(2) by simp
qed

lemma walked_children:
  assumes wf: "wf_item t" and found: "read_sorted root d t = Inr found" and tw: "to_walk xs t (d # queue)"
    and ws: "walked_below xs t (goes_down xs t d found @ queue) ws"
  shows "walked_below xs t (d # queue) (entries_in xs t d found @ ws)"
proof -
  note names = found_names [OF wf found]
  have apart: "\<forall>e \<in> set queue. apart d e" using tw by (simp add: to_walk_def)
  have later: "\<not> prefix (wk_relative w) (d @ [n])" if w: "w \<in> set ws" for w n
  proof -
    obtain e where e: "e \<in> set (goes_down xs t d found @ queue)" "strict_prefix e (wk_relative w)"
      using walked_belowD [OF ws w] by blast
    show ?thesis
    proof (cases "e \<in> set queue")
      case True
      then have "\<not> prefix e d" using apart by (auto simp: apart_def)
      moreover have "prefix e d" if "prefix (wk_relative w) (d @ [n])"
        using prefix_order.less_le_trans [OF e(2) that] by (auto simp: strict_prefix_def prefix_snoc)
      ultimately show ?thesis by blast
    next
      case False
      then have "length e = length d + 1" using e(1) by (auto simp: goes_down_def)
      then show ?thesis using prefix_length_less [OF e(2)] prefix_length_le [of "wk_relative w" "d @ [n]"] by auto
    qed
  qed
  have "above_first (entries_in xs t d found @ ws)"
    using entries_in_first [OF names(1), of xs t d] ws later
    by (auto simp: above_first_def sorted_wrt_append walked_below_def set_entries_in dest!: entry_at_relative)
  moreover have "q \<in> wk_relative ` set (entries_in xs t d found @ ws)
      \<longleftrightarrow> kept_path xs t q \<and> (\<exists>e \<in> set (d # queue). strict_prefix e q)" for q
  proof -
    have own: "q \<in> wk_relative ` set (entries_in xs t d found) \<longleftrightarrow> kept_path xs t q \<and> (\<exists>n. q = d @ [n])"
      using names(2) by (auto simp: relative_entries_in kept_path_def) (auto simp: entry_at_def split: option.splits)
    have down: "(\<exists>e \<in> set (goes_down xs t d found). strict_prefix e q) \<longleftrightarrow> strict_prefix d q \<and> (\<nexists>n. q = d @ [n])"
      if kept: "kept_path xs t q"
    proof
      assume "\<exists>e \<in> set (goes_down xs t d found). strict_prefix e q"
      then obtain n where "strict_prefix (d @ [n]) q" by (auto simp: goes_down_def)
      then show "strict_prefix d q \<and> (\<nexists>n. q = d @ [n])"
        by (auto simp: strict_prefix_def dest: append_prefixD)
    next
      assume below: "strict_prefix d q \<and> (\<nexists>n. q = d @ [n])"
      then obtain n where n: "prefix (d @ [n]) q" using strict_prefix_child by blast
      with below have strict: "strict_prefix (d @ [n]) q" by (auto simp: strict_prefix_def)
      have "item_at q t \<noteq> None" using kept by (auto simp: kept_path_def entry_at_def split: option.splits)
      then have "folder_at (d @ [n]) t" using strict folder_strictly_above by blast
      moreover have "\<not> excludes_path xs (d @ [n])" using excludes_under n kept by (auto simp: kept_path_def)
      moreover have "n \<in> set found" using calculation(1) names(2) by (auto simp: folder_at_def split: option.splits)
      ultimately show "\<exists>e \<in> set (goes_down xs t d found). strict_prefix e q"
        using strict by (auto simp: goes_down_def)
    qed
    have rest: "q \<in> wk_relative ` set ws \<longleftrightarrow> kept_path xs t q
        \<and> ((\<exists>e \<in> set (goes_down xs t d found). strict_prefix e q) \<or> (\<exists>e \<in> set queue. strict_prefix e q))"
      using ws unfolding walked_below_def by auto
    have "strict_prefix d (d @ [n])" for n by (simp add: strict_prefix_def)
    then show ?thesis unfolding set_append image_Un Un_iff own rest using down by auto
  qed
  moreover have "entry_at t (wk_relative w) = Some w" if "w \<in> set (entries_in xs t d found)" for w
    using that by (auto simp: set_entries_in entry_at_relative)
  ultimately show ?thesis
    using ws unfolding walked_below_def by auto
qed

lemma walked_queue:
  assumes "wf_item t"
  shows "walk_queue root xs t queue entries skipped = Inr (entries', skipped') \<Longrightarrow> to_walk xs t queue \<Longrightarrow>
    \<exists>ws. entries' = entries @ ws \<and> walked_below xs t queue ws"
  using assms
proof (induction root xs t queue entries skipped rule: walk_queue.induct)
  case (1 root xs t entries skipped)
  then show ?case by (auto simp: walked_below_def above_first_def)
next
  case (2 root xs t d queue entries skipped)
  from 2(2) obtain found where found: "read_sorted root d t = Inr found" by (auto split: sum.splits)
  from 2(2) found obtain es1 sk1 q1 where step: "walk_names root xs t d found (entries, skipped, queue) = Inr (es1, sk1, q1)"
    by (auto split: sum.splits)
  have parts: "es1 = entries @ entries_in xs t d found" "q1 = goes_down xs t d found @ queue"
    using walk_names_Inr [OF step] by (simp_all add: entries_in_def)
  have "walk_queue root xs t q1 es1 sk1 = Inr (entries', skipped')" using 2(2) found step by simp
  moreover have "to_walk xs t q1" unfolding parts by (rule to_walk_down [OF 2(3) found_names(1) [OF 2(4) found]])
  ultimately obtain ws where "entries' = es1 @ ws" "walked_below xs t q1 ws"
    using 2(1) [OF found step refl refl _ _ 2(4)] by blast
  then show ?case using walked_children [OF 2(4) found 2(3)] parts by auto
qed

lemma walk_entries:
  assumes "wf_item t" and "is_folder t" and "walk root xs t = Inr (ws, skipped)"
  shows "above_first ws" and "w \<in> set ws \<Longrightarrow> entry_at t (wk_relative w) = Some w"
    and "wk_relative ` set ws = {q. kept_path xs t q}"
proof -
  have "to_walk xs t [[]]" using assms(2) by (simp add: to_walk_def folder_at_def)
  then have ws: "walked_below xs t [[]] ws"
    using walked_queue [OF assms(1)] assms(3) unfolding walk_def by fastforce
  then show "above_first ws" "w \<in> set ws \<Longrightarrow> entry_at t (wk_relative w) = Some w"
    by (simp_all add: walked_below_def)
  show "wk_relative ` set ws = {q. kept_path xs t q}"
    using ws by (auto simp: walked_below_def kept_path_def strict_prefix_def)
qed

lemma above_first_distinct: "above_first ws \<Longrightarrow> distinct (map wk_relative ws)"
  by (induction ws) (auto simp: above_first_def)

text \<open>A walk of folders that can all be read and entered is never refused.\<close>

primrec legible :: "item \<Rightarrow> bool" where
  "legible (Leaf l m) = True"
| "legible (Folder m es) = (readable m \<and> enterable m \<and> list_all snd (map (map_prod id legible) es))"

lemma legible_child: "legible (Folder m es) \<Longrightarrow> map_of es n = Some c \<Longrightarrow> legible c"
  by (fastforce simp: list_all_iff dest: map_of_SomeD)

lemma legible_lstat: "legible t \<Longrightarrow> item_at p t = Some c \<Longrightarrow> lstat p t = There c \<and> legible c"
proof (induction p t rule: lstat.induct)
  case (3 n ns m es)
  then show ?case using legible_child [OF 3(2)] by (auto split: option.splits)
qed auto

lemma names_succeed:
  "legible t \<Longrightarrow> \<forall>n \<in> set ns. item_at (d @ [n]) t \<noteq> None \<Longrightarrow>
     \<exists>es sk q. walk_names root xs t d ns a = Inr (es, sk, q)"
proof (induction ns arbitrary: a)
  case (Cons n ns)
  obtain es sk q where a: "a = (es, sk, q)" by (cases a)
  obtain c where "lstat (d @ [n]) t = There c" using legible_lstat Cons.prems by fastforce
  then show ?case using Cons a by (simp add: Let_def)
qed (metis prod_cases3 walk_names.simps(1))

lemma queue_succeeds:
  "wf_item t \<Longrightarrow> legible t \<Longrightarrow> to_walk xs t queue \<Longrightarrow> \<exists>b. walk_queue root xs t queue entries skipped = Inr b"
proof (induction root xs t queue entries skipped rule: walk_queue.induct)
  case (2 root xs t d queue entries skipped)
  then obtain m es where d: "item_at d t = Some (Folder m es)"
    by (auto simp: to_walk_def folder_at_Some)
  obtain found where found: "read_sorted root d t = Inr found"
    using legible_lstat [OF 2(3) d] by (auto simp: read_sorted_def)
  obtain es1 sk1 q1 where step: "walk_names root xs t d found (entries, skipped, queue) = Inr (es1, sk1, q1)"
    using names_succeed [OF 2(3)] found_names(2) [OF 2(2) found] by blast
  have "to_walk xs t q1" using walk_names_Inr [OF step] to_walk_down [OF 2(4) found_names(1) [OF 2(2) found]] by simp
  from 2(1) [OF found step refl refl 2(2,3) this] show ?case using found step by simp
qed simp

lemma walk_succeeds:
  assumes "wf_item t" and "is_folder t" and "legible t"
  shows "\<exists>b. walk root xs t = Inr b"
  unfolding walk_def using assms by (intro queue_succeeds) (auto simp: to_walk_def folder_at_def)

end
