(* ===== verification/Workers.thy ===== *)
theory Workers
  imports Prelude "HOL-Library.Multiset"
begin

text \<open>
  The worker pool of \<open>workspace/tree.rs\<close>: \<open>run\<close>, \<open>claim\<close> and \<open>gather\<close>. The workers share a counter and a flag. One
  step of the relation is one worker taking an index, leaving its loop or finishing the
  item it holds, in any order. The flag is read relaxed, so a worker may take an index although
  another has set it; it never misses the flag it set itself.
\<close>

datatype phase = Looking | Holding nat | Left

record 'r worker =
  wo_phase :: phase
  wo_report :: 'r
  wo_failure :: "(nat \<times> error) option"

record ('w, 'r) pool =
  po_next :: nat
  po_stop :: bool
  po_world :: 'w
  po_workers :: "'r worker list"

type_synonym ('a, 'w, 'r) job = "'a \<Rightarrow> 'w \<Rightarrow> (error + 'r) \<times> 'w"

definition idle :: "'r \<Rightarrow> 'r worker" where
  "idle none = \<lparr>wo_phase = Looking, wo_report = none, wo_failure = None\<rparr>"

definition start_pool :: "nat \<Rightarrow> 'r \<Rightarrow> 'w \<Rightarrow> ('w, 'r) pool" where
  "start_pool n none w = \<lparr>po_next = 0, po_stop = False, po_world = w, po_workers = replicate n (idle none)\<rparr>"

definition count_of :: "nat \<Rightarrow> 'a list \<Rightarrow> nat" where
  "count_of workers work = max 1 (min workers (max (length work) 1))"

inductive pool_step ::
  "('r \<Rightarrow> 'r \<Rightarrow> 'r) \<Rightarrow> ('a, 'w, 'r) job \<Rightarrow> 'a list \<Rightarrow> ('w, 'r) pool \<Rightarrow> ('w, 'r) pool \<Rightarrow> bool"
  for merge each work where
  takes: "i < length (po_workers p) \<Longrightarrow> wo_phase (po_workers p ! i) = Looking \<Longrightarrow> po_next p < length work \<Longrightarrow>
    pool_step merge each work p (p\<lparr>po_next := po_next p + 1,
      po_workers := (po_workers p)[i := (po_workers p ! i)\<lparr>wo_phase := Holding (po_next p)\<rparr>]\<rparr>)"
| runs_out: "i < length (po_workers p) \<Longrightarrow> wo_phase (po_workers p ! i) = Looking \<Longrightarrow> length work \<le> po_next p \<Longrightarrow>
    pool_step merge each work p (p\<lparr>po_next := po_next p + 1,
      po_workers := (po_workers p)[i := (po_workers p ! i)\<lparr>wo_phase := Left\<rparr>]\<rparr>)"
| stops: "i < length (po_workers p) \<Longrightarrow> wo_phase (po_workers p ! i) = Looking \<Longrightarrow> po_stop p \<Longrightarrow>
    pool_step merge each work p (p\<lparr>
      po_workers := (po_workers p)[i := (po_workers p ! i)\<lparr>wo_phase := Left\<rparr>]\<rparr>)"
| works: "i < length (po_workers p) \<Longrightarrow> wo_phase (po_workers p ! i) = Holding k \<Longrightarrow>
    each (work ! k) (po_world p) = (Inr r, w) \<Longrightarrow>
    pool_step merge each work p (p\<lparr>po_world := w,
      po_workers := (po_workers p)[i := (po_workers p ! i)\<lparr>wo_phase := Looking, wo_report := merge (wo_report (po_workers p ! i)) r\<rparr>]\<rparr>)"
| fails: "i < length (po_workers p) \<Longrightarrow> wo_phase (po_workers p ! i) = Holding k \<Longrightarrow>
    each (work ! k) (po_world p) = (Inl e, w) \<Longrightarrow>
    pool_step merge each work p (p\<lparr>po_world := w, po_stop := True,
      po_workers := (po_workers p)[i := (po_workers p ! i)\<lparr>wo_phase := Left, wo_failure := Some (k, e)\<rparr>]\<rparr>)"

definition all_left :: "('w, 'r) pool \<Rightarrow> bool" where
  "all_left p \<longleftrightarrow> (\<forall>w \<in> set (po_workers p). wo_phase w = Left)"

text \<open>\<open>gather\<close>: every report added up, and the failure of the earliest item.\<close>

fun earliest :: "(nat \<times> error) option \<Rightarrow> (nat \<times> error) option \<Rightarrow> (nat \<times> error) option" where
  "earliest failure None = failure"
| "earliest None (Some f) = Some f"
| "earliest (Some first) (Some f) = (if fst f < fst first then Some f else Some first)"

definition earliest_of :: "'r worker list \<Rightarrow> (nat \<times> error) option \<Rightarrow> (nat \<times> error) option" where
  "earliest_of ws f = foldl (\<lambda>failure w. earliest failure (wo_failure w)) f ws"

definition gather :: "('r \<Rightarrow> 'r \<Rightarrow> 'r) \<Rightarrow> 'r \<Rightarrow> 'r worker list \<Rightarrow> error + 'r" where
  "gather merge none ws =
     (case earliest_of ws None of
        Some (_, e) \<Rightarrow> Inl e
      | None \<Rightarrow> Inr (foldl (\<lambda>r w. merge r (wo_report w)) none ws))"

lemma earliest_None: "earliest f g = None \<longleftrightarrow> f = None \<and> g = None"
  by (cases f; cases g) auto

lemma earliest_Some:
  "earliest f g = Some x \<Longrightarrow> Some x \<in> {f, g} \<and> (\<forall>y. Some y \<in> {f, g} \<longrightarrow> fst x \<le> fst y)"
  by (cases f; cases g) (auto split: if_splits)

lemma earliest_of_simps:
  "earliest_of [] f = f" "earliest_of (w # ws) f = earliest_of ws (earliest f (wo_failure w))"
  by (simp_all add: earliest_of_def)

lemma earliest_of_None: "earliest_of ws f = None \<longleftrightarrow> f = None \<and> (\<forall>w \<in> set ws. wo_failure w = None)"
  by (induction ws arbitrary: f) (auto simp: earliest_of_simps earliest_None)

lemma earliest_of_Some:
  "earliest_of ws f = Some x \<Longrightarrow>
     Some x \<in> insert f (wo_failure ` set ws) \<and> (\<forall>y. Some y \<in> insert f (wo_failure ` set ws) \<longrightarrow> fst x \<le> fst y)"
proof (induction ws arbitrary: f)
  case (Cons w ws)
  from Cons.prems have rest: "earliest_of ws (earliest f (wo_failure w)) = Some x" by (simp add: earliest_of_simps)
  note ih = Cons.IH [OF this]
  show ?case
  proof (cases "earliest f (wo_failure w)")
    case None
    then have "f = None" "wo_failure w = None" by (simp_all add: earliest_None)
    then show ?thesis using ih None by auto
  next
    case (Some z)
    have "fst x \<le> fst z" using ih unfolding Some by (metis insertI1)
    have least: "fst x \<le> fst y" if y: "Some y \<in> insert f (wo_failure ` set (w # ws))" for y
    proof (cases "Some y \<in> {f, wo_failure w}")
      case True
      with earliest_Some [OF Some] have "fst z \<le> fst y" by blast
      with \<open>fst x \<le> fst z\<close> show ?thesis by (rule le_trans)
    next
      case False
      then have "Some y \<in> wo_failure ` set ws" using y by auto
      with ih show ?thesis by blast
    qed
    have "Some x \<in> insert f (wo_failure ` set (w # ws))" using ih Some earliest_Some [OF Some] by auto
    with least show ?thesis by blast
  qed
qed (simp add: earliest_of_simps)

text \<open>What a run on some workers may answer, and the world it may leave.\<close>

definition may_run ::
  "('r \<Rightarrow> 'r \<Rightarrow> 'r) \<Rightarrow> 'r \<Rightarrow> ('a, 'w, 'r) job \<Rightarrow> 'a list \<Rightarrow> nat \<Rightarrow> 'w \<Rightarrow> (error + 'r) \<times> 'w \<Rightarrow> bool" where
  "may_run merge none each work workers w res \<longleftrightarrow>
     (\<exists>p. (pool_step merge each work)\<^sup>*\<^sup>* (start_pool (count_of workers work) none w) p \<and> all_left p
        \<and> res = (gather merge none (po_workers p), po_world p))"

text \<open>The same on one thread: the items in order, up to the first that fails.\<close>

fun run_alone :: "('r \<Rightarrow> 'r \<Rightarrow> 'r) \<Rightarrow> ('a, 'w, 'r) job \<Rightarrow> 'a list \<Rightarrow> 'r \<Rightarrow> 'w \<Rightarrow> (error + 'r) \<times> 'w" where
  "run_alone merge each [] r w = (Inr r, w)"
| "run_alone merge each (x # xs) r w =
     (case each x w of (Inl e, w') \<Rightarrow> (Inl e, w') | (Inr r', w') \<Rightarrow> run_alone merge each xs (merge r r') w')"

subsection \<open>Every run ends\<close>

primrec phase_weight :: "phase \<Rightarrow> nat" where
  "phase_weight Looking = 1"
| "phase_weight (Holding k) = 2"
| "phase_weight Left = 0"

definition weight_of :: "'r worker list \<Rightarrow> nat" where
  "weight_of ws = (\<Sum>w\<leftarrow>ws. phase_weight (wo_phase w))"

definition pool_weight :: "'a list \<Rightarrow> ('w, 'r) pool \<Rightarrow> nat" where
  "pool_weight work p = 2 * (length work - po_next p) + weight_of (po_workers p)"

lemma sum_update:
  fixes f :: "'b \<Rightarrow> 'c :: comm_monoid_add"
  shows "i < length ws \<Longrightarrow> (\<Sum>w\<leftarrow>ws[i := v]. f w) + f (ws ! i) = (\<Sum>w\<leftarrow>ws. f w) + f v"
  by (induction ws arbitrary: i) (auto simp: ac_simps split: nat.splits)

lemma weight_le: "i < length ws \<Longrightarrow> phase_weight (wo_phase (ws ! i)) \<le> weight_of ws"
  by (auto simp: weight_of_def intro: member_le_sum_list)

lemma weight_update:
  "i < length ws \<Longrightarrow> weight_of (ws[i := v]) = weight_of ws + phase_weight (wo_phase v) - phase_weight (wo_phase (ws ! i))"
  using sum_update [of i ws "\<lambda>w. phase_weight (wo_phase w)" v] by (simp add: weight_of_def)

lemma pool_step_lighter: "pool_step merge each work p p' \<Longrightarrow> pool_weight work p' < pool_weight work p"
  by (induction rule: pool_step.induct; frule weight_le;
      simp add: pool_weight_def weight_update)

lemma pool_progress:
  assumes "\<not> all_left p"
  shows "\<exists>p'. pool_step merge each work p p'"
proof -
  from assms obtain i where i: "i < length (po_workers p)" "wo_phase (po_workers p ! i) \<noteq> Left"
    by (auto simp: all_left_def in_set_conv_nth)
  show ?thesis
  proof (cases "wo_phase (po_workers p ! i)")
    case Looking
    then show ?thesis using i takes runs_out by (metis not_le)
  next
    case (Holding k)
    then show ?thesis
      using i works [of i p k each work] fails [of i p k each work]
      by (cases "each (work ! k) (po_world p)"; cases "fst (each (work ! k) (po_world p))") auto
  qed (use i in simp)
qed

lemma pool_ends: "\<exists>p'. (pool_step merge each work)\<^sup>*\<^sup>* p p' \<and> all_left p'"
proof (induction "pool_weight work p" arbitrary: p rule: less_induct)
  case less
  show ?case
  proof (cases "all_left p")
    case False
    then obtain p1 where step: "pool_step merge each work p p1" using pool_progress by blast
    then show ?thesis using less [OF pool_step_lighter [OF step]] by (meson converse_rtranclp_into_rtranclp)
  qed blast
qed

subsection \<open>Work whose items do not meet\<close>

text \<open>
  The contract the pool asks of its work: what an item answers does not depend on the world it is
  done in, and two items change the world in either order alike. \<open>res\<close> and \<open>eff\<close> are the answer and the
  change of the item at an index; \<open>fine\<close> is what holds of a world in which some items are done.
\<close>

definition held_by :: "'r worker \<Rightarrow> nat multiset" where
  "held_by w = (case wo_phase w of Holding k \<Rightarrow> {#k#} | _ \<Rightarrow> {#})"

locale independent_work = comm_monoid_mset merge none
  for merge :: "'r \<Rightarrow> 'r \<Rightarrow> 'r" and none :: 'r +
  fixes each :: "('a, 'w, 'r) job" and work :: "'a list"
    and res :: "nat \<Rightarrow> error + 'r" and eff :: "nat \<Rightarrow> 'w \<Rightarrow> 'w" and fine :: "nat set \<Rightarrow> 'w \<Rightarrow> bool"
  assumes each_at: "k < length work \<Longrightarrow> k \<notin> ks \<Longrightarrow> fine ks w \<Longrightarrow> each (work ! k) w = (res k, eff k w)"
    and stays_fine: "k < length work \<Longrightarrow> k \<notin> ks \<Longrightarrow> fine ks w \<Longrightarrow> fine (insert k ks) (eff k w)"
    and commutes: "j < length work \<Longrightarrow> k < length work \<Longrightarrow> j \<noteq> k \<Longrightarrow> j \<notin> ks \<Longrightarrow> k \<notin> ks \<Longrightarrow> fine ks w \<Longrightarrow>
      eff j (eff k w) = eff k (eff j w)"
begin

definition gain :: "nat \<Rightarrow> 'r" where
  "gain k = (case res k of Inr r \<Rightarrow> r | Inl _ \<Rightarrow> none)"

lemma fine_fold:
  "set ks \<subseteq> {..<length work} \<Longrightarrow> distinct ks \<Longrightarrow> set ks \<inter> ls = {} \<Longrightarrow> fine ls w \<Longrightarrow> fine (ls \<union> set ks) (fold eff ks w)"
proof (induction ks arbitrary: w ls)
  case (Cons k ks)
  then have "fine (insert k ls \<union> set ks) (fold eff ks (eff k w))" by (intro Cons.IH stays_fine) auto
  then show ?case by simp
qed simp

lemma fold_past:
  "set ks \<subseteq> {..<length work} \<Longrightarrow> distinct (k # ks) \<Longrightarrow> set (k # ks) \<inter> ls = {} \<Longrightarrow> k < length work \<Longrightarrow> fine ls w \<Longrightarrow>
     fold eff ks (eff k w) = eff k (fold eff ks w)"
proof (induction ks arbitrary: w ls)
  case (Cons j ks)
  then have "eff j (eff k w) = eff k (eff j w)" by (intro commutes [of _ _ ls]) auto
  moreover have "fold eff ks (eff k (eff j w)) = eff k (fold eff ks (eff j w))"
    using Cons.prems by (intro Cons.IH [of "insert j ls"] stays_fine) auto
  ultimately show ?case by simp
qed simp

lemma fold_reorder:
  "mset ks = mset ns \<Longrightarrow> distinct ns \<Longrightarrow> set ns \<subseteq> {..<length work} \<Longrightarrow> set ns \<inter> ls = {} \<Longrightarrow> fine ls w \<Longrightarrow>
     fold eff ks w = fold eff ns w"
proof (induction ks arbitrary: ns ls w)
  case (Cons k ks)
  have "k \<in> set ns" using Cons.prems(1) by (metis list.set_intros(1) set_mset_mset)
  then obtain as bs where ns: "ns = as @ k # bs" by (auto dest: split_list)
  have "mset ks = mset (as @ bs)" using Cons.prems(1) ns by simp
  moreover have "fold eff (as @ bs) (eff k w) = fold eff ns w"
  proof -
    have "set (k # as) \<inter> ls = {}" using Cons.prems(4) ns by auto
    then show ?thesis using Cons.prems ns fold_past [of as k ls w] by simp
  qed
  moreover have "fold eff ks (eff k w) = fold eff (as @ bs) (eff k w)"
    using Cons.prems ns calculation(1) by (intro Cons.IH [of _ "insert k ls"] stays_fine) auto
  ultimately show ?case by simp
qed simp

lemma foldl_reports: "foldl (\<lambda>r w. merge r (f w)) r ws = merge r (F (mset (map f ws)))"
  by (induction ws arbitrary: r) (simp_all add: assoc)

text \<open>Where the pool stands: \<open>ks\<close> are the items done, in the order they were.\<close>

definition standing :: "'w \<Rightarrow> nat list \<Rightarrow> ('w, 'r) pool \<Rightarrow> bool" where
  "standing w0 ks p \<longleftrightarrow>
     mset ks + (\<Sum>w\<leftarrow>po_workers p. held_by w) = mset [0..<min (po_next p) (length work)]
     \<and> po_world p = fold eff ks w0
     \<and> F (mset (map wo_report (po_workers p))) = F (mset (map gain ks))
     \<and> (\<forall>k e. Some (k, e) \<in> wo_failure ` set (po_workers p) \<longleftrightarrow> k \<in> set ks \<and> res k = Inl e)
     \<and> (\<forall>w \<in> set (po_workers p). wo_phase w \<noteq> Left \<longrightarrow> wo_failure w = None)
     \<and> (po_stop p \<longleftrightarrow> (\<exists>k \<in> set ks. isl (res k)))
     \<and> (\<forall>w \<in> set (po_workers p). wo_phase w = Left \<longrightarrow> po_stop p \<or> length work \<le> po_next p)"

lemma standing_start: "standing w0 [] (start_pool n none w0)"
proof -
  have "(\<Sum>w\<leftarrow>replicate n (idle none). held_by w) = {#}" by (induction n) (simp_all add: idle_def held_by_def)
  moreover have "F (mset (map wo_report (replicate n (idle none)))) = none" by (induction n) (simp_all add: idle_def)
  ultimately show ?thesis by (auto simp: standing_def start_pool_def idle_def)
qed

lemma counted_once:
  assumes "mset ks + held = mset [0..<n]"
  shows "distinct ks"
proof -
  have sub: "mset ks \<subseteq># mset [0..<n]" using assms by (metis mset_subset_eq_add_left)
  have "count (mset ks) k \<le> 1" for k
    using mset_subset_eq_count [OF sub, of k] distinct_count_atmost_1 [of "[0..<n]"]
    by (metis (full_types) distinct_upt le_trans order_refl zero_le_one)
  then show "distinct ks"
    unfolding distinct_count_atmost_1 by (metis count_greater_eq_one_iff count_mset_0_iff le_antisym set_mset_mset)
qed

lemma standing_done:
  assumes "standing w0 ks p"
  shows "distinct ks" and "set ks \<subseteq> {..<length work}"
proof -
  have split: "mset ks + (\<Sum>w\<leftarrow>po_workers p. held_by w) = mset [0..<min (po_next p) (length work)]"
    using assms by (simp add: standing_def)
  show "distinct ks" using counted_once [OF split] .
  have "mset ks \<subseteq># mset [0..<min (po_next p) (length work)]" unfolding split [symmetric] by simp
  from set_mset_mono [OF this] show "set ks \<subseteq> {..<length work}" by auto
qed

lemma held_update:
  "i < length ws \<Longrightarrow> (\<Sum>w\<leftarrow>ws[i := v]. held_by w) + held_by (ws ! i) = (\<Sum>w\<leftarrow>ws. held_by w) + held_by v"
  by (rule sum_update)

lemma reports_update:
  "i < length ws \<Longrightarrow> wo_report v = merge (wo_report (ws ! i)) r \<Longrightarrow>
     F (mset (map wo_report (ws[i := v]))) = merge (F (mset (map wo_report ws))) r"
  by (induction ws arbitrary: i) (auto simp: ac_simps left_commute commute split: nat.splits)

text \<open>Changing one worker, by what of it is counted.\<close>

lemma failures_update:
  assumes "i < length ws"
  shows "wo_failure ` set (ws[i := v]) \<union> {wo_failure (ws ! i)} = wo_failure ` set ws \<union> {wo_failure v}
      \<or> wo_failure ` set (ws[i := v]) \<union> {wo_failure (ws ! i)} = insert (wo_failure v) (wo_failure ` set ws)"
proof -
  have "insert (ws ! i) (set (ws[i := v])) = insert v (set ws)"
    using assms by (induction ws arbitrary: i) (auto split: nat.splits)
  then show ?thesis by (metis Un_insert_right image_insert sup_bot_right)
qed

lemma failing_update:
  assumes "i < length ws" and "wo_failure (ws ! i) = None"
  shows "Some f \<in> wo_failure ` set (ws[i := v]) \<longleftrightarrow> Some f \<in> wo_failure ` set ws \<or> wo_failure v = Some f"
proof -
  have "Some f \<in> wo_failure ` set (ws[i := v]) \<union> {wo_failure (ws ! i)} \<longleftrightarrow> Some f \<in> insert (wo_failure v) (wo_failure ` set ws)"
    using failures_update [OF assms(1), of v] by auto
  then show ?thesis using assms(2) by auto
qed

lemma all_update: "i < length ws \<Longrightarrow> \<forall>w \<in> set ws. P w \<Longrightarrow> P v \<Longrightarrow> \<forall>w \<in> set (ws[i := v]). P w"
  using set_update_subset_insert by fastforce

lemma standing_move:
  assumes at: "standing w0 ks p" and i: "i < length (po_workers p)" "wo_phase (po_workers p ! i) \<noteq> Left"
    and v: "wo_report v = wo_report (po_workers p ! i)" "wo_failure v = None"
      "wo_phase v = Left \<Longrightarrow> po_stop p \<or> length work \<le> n"
    and held: "mset [0..<min (po_next p) (length work)] + held_by v = mset [0..<min n (length work)] + held_by (po_workers p ! i)"
    and n: "po_next p \<le> n"
  shows "standing w0 ks (p\<lparr>po_next := n, po_workers := (po_workers p)[i := v]\<rparr>)"
proof -
  let ?ws = "(po_workers p)[i := v]" and ?old = "\<Sum>w\<leftarrow>po_workers p. held_by w" and ?h = "held_by (po_workers p ! i)"
  have none: "wo_failure (po_workers p ! i) = None" using at i unfolding standing_def by simp
  have "mset ks + (\<Sum>w\<leftarrow>?ws. held_by w) + ?h = mset ks + ?old + held_by v"
    using held_update [OF i(1), of v] by (simp add: add.assoc)
  also have "\<dots> = mset [0..<min n (length work)] + ?h" using at held by (simp add: standing_def)
  finally have "mset ks + (\<Sum>w\<leftarrow>?ws. held_by w) = mset [0..<min n (length work)]" by simp
  moreover have "F (mset (map wo_report ?ws)) = F (mset (map wo_report (po_workers p)))"
    using reports_update [OF i(1), of v none] v(1) by simp
  moreover have "\<forall>w \<in> set ?ws. wo_phase w \<noteq> Left \<longrightarrow> wo_failure w = None"
    using at v(2) unfolding standing_def by (intro all_update [OF i(1)]) simp_all
  moreover have "\<forall>w \<in> set ?ws. wo_phase w = Left \<longrightarrow> po_stop p \<or> length work \<le> n"
    using at v(3) n unfolding standing_def by (intro all_update [OF i(1)]) auto
  ultimately show ?thesis
    using at v(2) failing_update [OF i(1) none] by (simp add: standing_def)
qed

lemma standing_finish:
  assumes at: "standing w0 ks p" and i: "i < length (po_workers p)" and hold: "wo_phase (po_workers p ! i) = Holding k"
    and fine: "fine {} w0" and did: "each (work ! k) (po_world p) = (a, w)"
    and v: "wo_report v = merge (wo_report (po_workers p ! i)) (case a of Inr r \<Rightarrow> r | Inl _ \<Rightarrow> none)"
      "wo_failure v = (case a of Inl e \<Rightarrow> Some (k, e) | Inr _ \<Rightarrow> None)"
      "wo_phase v = (if isl a then Left else Looking)"
  shows "standing w0 (ks @ [k]) (p\<lparr>po_world := w, po_stop := po_stop p \<or> isl a, po_workers := (po_workers p)[i := v]\<rparr>)"
proof -
  let ?ws = "(po_workers p)[i := v]" and ?old = "\<Sum>w\<leftarrow>po_workers p. held_by w"
  have none: "wo_failure (po_workers p ! i) = None" using at i hold unfolding standing_def by simp
  have h: "held_by (po_workers p ! i) = {#k#}" "held_by v = {#}" using hold v(3) by (auto simp: held_by_def)
  have "(\<Sum>w\<leftarrow>?ws. held_by w) + {#k#} = ?old" using held_update [OF i, of v] h by simp
  then have "mset ks + ((\<Sum>w\<leftarrow>?ws. held_by w) + {#k#}) = mset ks + ?old" by (simp only:)
  then have "mset (ks @ [k]) + (\<Sum>w\<leftarrow>?ws. held_by w) = mset ks + ?old" by simp
  also have "\<dots> = mset [0..<min (po_next p) (length work)]" using at unfolding standing_def by blast
  finally have count: "mset (ks @ [k]) + (\<Sum>w\<leftarrow>?ws. held_by w) = mset [0..<min (po_next p) (length work)]" .
  then have "k \<in># mset [0..<min (po_next p) (length work)]"
    by (metis in_set_conv_decomp in_multiset_in_set mset_subset_eq_add_left mset_subset_eqD)
  then have k: "k < length work" by simp
  have "distinct (ks @ [k])" by (rule counted_once [OF count])
  moreover have "fine (set ks) (po_world p)"
    using at fine_fold [OF standing_done(2,1) [OF at] _ fine] by (simp add: standing_def)
  ultimately have a: "a = res k" "w = eff k (po_world p)" using each_at [OF k] did by auto
  have "F (mset (map wo_report ?ws)) = F (mset (map gain (ks @ [k])))"
    using reports_update [OF i v(1)] at a(1) by (simp add: standing_def commute gain_def)
  moreover have "\<forall>w \<in> set ?ws. wo_phase w \<noteq> Left \<longrightarrow> wo_failure w = None"
    using at v(2,3) unfolding standing_def by (intro all_update [OF i]) (auto split: sum.splits if_splits)
  moreover have "\<forall>w \<in> set ?ws. wo_phase w = Left \<longrightarrow> (po_stop p \<or> isl a) \<or> length work \<le> po_next p"
    using at v(3) unfolding standing_def by (intro all_update [OF i]) auto
  moreover have "Some (j, e) \<in> wo_failure ` set ?ws \<longleftrightarrow> j \<in> set (ks @ [k]) \<and> res j = Inl e" for j e
    using failing_update [OF i none, of "(j, e)" v] at v(2) a(1) by (auto simp: standing_def split: sum.splits)
  ultimately show ?thesis
    using at count a by (simp add: standing_def) blast
qed

lemma standing_step:
  assumes "pool_step merge each work p p'" and "standing w0 ks p" and "fine {} w0"
  shows "\<exists>ks'. standing w0 ks' p'"
  using assms
proof (induction rule: pool_step.induct)
  case (takes i p)
  then have "standing w0 ks (p\<lparr>po_next := po_next p + 1,
      po_workers := (po_workers p)[i := (po_workers p ! i)\<lparr>wo_phase := Holding (po_next p)\<rparr>]\<rparr>)"
    by (intro standing_move) (auto simp: held_by_def standing_def min_def)
  then show ?case by blast
next
  case (runs_out i p)
  then have "standing w0 ks (p\<lparr>po_next := po_next p + 1,
      po_workers := (po_workers p)[i := (po_workers p ! i)\<lparr>wo_phase := Left\<rparr>]\<rparr>)"
    by (intro standing_move) (auto simp: held_by_def standing_def min_def)
  then show ?case by blast
next
  case (stops i p)
  then have "standing w0 ks (p\<lparr>po_next := po_next p, po_workers := (po_workers p)[i := (po_workers p ! i)\<lparr>wo_phase := Left\<rparr>]\<rparr>)"
    by (intro standing_move) (auto simp: held_by_def standing_def)
  moreover have "p\<lparr>po_next := po_next p, po_workers := ws\<rparr> = p\<lparr>po_workers := ws\<rparr>" for ws by simp
  ultimately show ?case by metis
next
  case (works i p k r w)
  let ?v = "(po_workers p ! i)\<lparr>wo_phase := Looking, wo_report := merge (wo_report (po_workers p ! i)) r\<rparr>"
  have "wo_failure ?v = None" using works by (simp add: standing_def)
  then show ?case
    using standing_finish [OF works(4) works(1,2) works(5) works(3), of ?v] by auto
next
  case (fails i p k e w)
  let ?v = "(po_workers p ! i)\<lparr>wo_phase := Left, wo_failure := Some (k, e)\<rparr>"
  show ?case
    using standing_finish [OF fails(4) fails(1,2) fails(5) fails(3), of ?v] by auto
qed

definition first_failure :: nat where
  "first_failure = (LEAST k. k < length work \<and> isl (res k))"

lemma held_nothing: "(\<And>w. w \<in> set ws \<Longrightarrow> held_by w = {#}) \<Longrightarrow> (\<Sum>w\<leftarrow>ws. held_by w) = {#}"
  by (induction ws) simp_all

lemma standing_end:
  assumes at: "standing w0 ks p" and left: "all_left p" and some: "po_workers p \<noteq> []"
  shows "if \<exists>k < length work. isl (res k)
    then first_failure \<in> set ks \<and> gather merge none (po_workers p) = Inl (projl (res first_failure))
    else mset ks = mset [0..<length work] \<and> gather merge none (po_workers p) = Inr (F (mset (map gain [0..<length work])))"
proof -
  have "held_by w = {#}" if "w \<in> set (po_workers p)" for w
    using left that by (simp add: all_left_def held_by_def)
  then have "(\<Sum>w\<leftarrow>po_workers p. held_by w) = {#}" by (rule held_nothing)
  then have ks: "mset ks = mset [0..<min (po_next p) (length work)]" using at by (simp add: standing_def)
  then have set: "set ks = {..<min (po_next p) (length work)}" using mset_eq_setD by fastforce
  let ?r = "earliest_of (po_workers p) None"
  have failed: "Some (k, e) \<in> wo_failure ` set (po_workers p) \<longleftrightarrow> k \<in> set ks \<and> res k = Inl e" for k e
    using at by (simp add: standing_def)
  show ?thesis
  proof (cases "\<exists>k \<in> set ks. isl (res k)")
    case True
    then obtain k e where k: "k \<in> set ks" "res k = Inl e" by (auto simp: isl_def)
    then have ex: "\<exists>k. k < length work \<and> isl (res k)" using set by auto
    then have low: "first_failure < length work" "isl (res first_failure)"
      unfolding first_failure_def using LeastI_ex [OF ex] by auto
    have least: "first_failure \<le> j" if "j < length work" "isl (res j)" for j
      unfolding first_failure_def using that by (simp add: Least_le)
    have "first_failure \<le> k" using least k set by auto
    then have mem: "first_failure \<in> set ks" using k(1) low(1) set by auto
    have "Some (first_failure, projl (res first_failure)) \<in> wo_failure ` set (po_workers p)"
      using failed mem low(2) by (metis sum.collapse(1))
    note here = this
    then have "?r \<noteq> None" unfolding earliest_of_None by (metis (no_types, lifting) imageE option.distinct(1))
    then obtain j f where r: "?r = Some (j, f)" by auto
    have "Some (j, f) \<in> wo_failure ` set (po_workers p)" "j \<le> first_failure"
      using earliest_of_Some [OF r] here by auto
    moreover from this failed have "j \<in> set ks" "res j = Inl f" by auto
    ultimately have "j = first_failure" using least [of j] set by (simp add: isl_def)
    then have "gather merge none (po_workers p) = Inl (projl (res first_failure))"
      using r \<open>res j = Inl f\<close> by (simp add: gather_def)
    then show ?thesis using ex mem by auto
  next
    case False
    then have "\<not> po_stop p" using at by (simp add: standing_def)
    then have "length work \<le> po_next p"
      using at left some by (auto simp: standing_def all_left_def neq_Nil_conv)
    then have all: "mset ks = mset [0..<length work]" using ks by (simp add: min_def)
    then have none: "\<not> (\<exists>k < length work. isl (res k))" using False mset_eq_setD [OF all] by auto
    have "\<forall>w \<in> set (po_workers p). wo_failure w = None"
      using failed False by (metis (no_types, lifting) image_eqI isl_def not_Some_eq surj_pair)
    then have "?r = None" by (simp add: earliest_of_None)
    then have "gather merge none (po_workers p) = Inr (F (mset (map wo_report (po_workers p))))"
      by (simp add: gather_def foldl_reports left_neutral)
    also have "F (mset (map wo_report (po_workers p))) = F (mset (map gain [0..<length work]))"
      using at all by (simp add: standing_def)
    finally show ?thesis using none all by auto
  qed
qed

lemma steps_stand:
  "(pool_step merge each work)\<^sup>*\<^sup>* p p' \<Longrightarrow> standing w0 ks p \<Longrightarrow> fine {} w0 \<Longrightarrow>
     (\<exists>ks'. standing w0 ks' p') \<and> length (po_workers p') = length (po_workers p)"
proof (induction rule: rtranclp_induct)
  case (step y z)
  have "length (po_workers z) = length (po_workers y)" using step(2) by (induction rule: pool_step.induct) auto
  then show ?case using step standing_step by auto
qed auto

text \<open>The items in order on one thread.\<close>

lemma alone:
  assumes "fine {} w0"
  shows "j \<le> length work \<Longrightarrow> \<forall>k < j. \<not> isl (res k) \<Longrightarrow>
    run_alone merge each (drop j work) (F (mset (map gain [0..<j]))) (fold eff [0..<j] w0) =
      (if \<exists>k < length work. isl (res k) then (Inl (projl (res first_failure)), fold eff [0..<Suc first_failure] w0)
       else (Inr (F (mset (map gain [0..<length work]))), fold eff [0..<length work] w0))"
proof (induction rule: inc_induct)
  case base
  then show ?case by auto
next
  case (step j)
  have fine: "fine ({} \<union> set [0..<j]) (fold eff [0..<j] w0)" using step(2) assms by (intro fine_fold) auto
  have drop: "drop j work = work ! j # drop (Suc j) work" using step(2) by (simp add: Cons_nth_drop_Suc)
  note each = each_at [OF step(2) _ fine]
  show ?case
  proof (cases "res j")
    case (Inl e)
    have "first_failure = j"
      unfolding first_failure_def
      by (rule Least_equality) (use step(2,4) Inl in \<open>auto simp: not_less [symmetric]\<close>)
    then show ?thesis using step(2) Inl each by (auto simp: drop isl_def)
  next
    case (Inr r)
    then have "gain j = r" by (simp add: gain_def)
    moreover have "\<forall>k < Suc j. \<not> isl (res k)" using step(4) Inr by (auto simp: less_Suc_eq)
    ultimately show ?thesis using step(3) each Inr by (simp add: drop commute)
  qed
qed

lemma run_agrees:
  assumes run: "may_run merge none each work workers w0 (a, w)" and fine: "fine {} w0"
  shows "a = fst (run_alone merge each work none w0)" and "\<not> isl a \<Longrightarrow> w = snd (run_alone merge each work none w0)"
proof -
  from run obtain p where p: "(pool_step merge each work)\<^sup>*\<^sup>* (start_pool (count_of workers work) none w0) p" "all_left p"
    "a = gather merge none (po_workers p)" "w = po_world p" by (auto simp: may_run_def)
  from steps_stand [OF p(1) standing_start fine] obtain ks where at: "standing w0 ks p"
    and "length (po_workers p) = count_of workers work" by (auto simp: start_pool_def)
  then have "po_workers p \<noteq> []" by (auto simp: count_of_def)
  note last = standing_end [OF at p(2) this]
  have alone: "run_alone merge each work none w0 =
      (if \<exists>k < length work. isl (res k) then (Inl (projl (res first_failure)), fold eff [0..<Suc first_failure] w0)
       else (Inr (F (mset (map gain [0..<length work]))), fold eff [0..<length work] w0))"
    using alone [OF fine, of 0] by simp
  show "a = fst (run_alone merge each work none w0)" using last p(3) alone by (auto split: if_splits)
  show "w = snd (run_alone merge each work none w0)" if "\<not> isl a"
  proof -
    have none: "\<not> (\<exists>k < length work. isl (res k))" using that last p(3) by (auto split: if_splits)
    then have "fold eff ks w0 = fold eff [0..<length work] w0"
      using last fine by (intro fold_reorder [of _ _ "{}"]) (auto split: if_splits)
    then show ?thesis using at p(4) alone none by (simp add: standing_def)
  qed
qed

lemma runs: "\<exists>a w. may_run merge none each work workers w0 (a, w)"
  using pool_ends unfolding may_run_def by fast

end

end
