(* ===== verification/Materialize.thy ===== *)
theory Materialize
  imports Walk Workers
begin

text \<open>
  \<open>workspace/tree.rs\<close>: the copy of a tree every home is made by. What a copy is made of is the walk; what
  one call of the platform answers, the backend's put among them, is an environment that
  answers the same whenever it is asked. A made file is known by the path it was made at, so two
  names that hold the same file hold the same path.
\<close>

subsection \<open>The tree being made\<close>

text \<open>A directory has its extended attributes, its mode and its times; no mode is the one \<open>mkdir\<close> gives, which
  lets its maker in, and no times are those of the last write into it.\<close>

record file_node =
  fn_source :: path
  fn_attrs :: "string list"
  fn_mode :: "32 word"
  fn_times :: "(timestamp \<times> timestamp) option"

datatype made =
    MadeDir "string list" "32 word option" "(timestamp \<times> timestamp) option"
  | MadeFile path
  | MadeLink string "(timestamp \<times> timestamp) option"

record dest =
  dn_names :: "path \<Rightarrow> made option"
  dn_nodes :: "path \<Rightarrow> file_node option"

record copied =
  rp_files :: nat
  rp_directories :: nat
  rp_symlinks :: nat
  rp_hardlinks :: nat
  rp_attributes :: nat
  rp_excluded :: nat
  rp_copied :: nat
  rp_bytes :: "64 word"

definition no_report :: copied where
  "no_report = \<lparr>rp_files = 0, rp_directories = 0, rp_symlinks = 0, rp_hardlinks = 0, rp_attributes = 0,
     rp_excluded = 0, rp_copied = 0, rp_bytes = 0\<rparr>"

definition merge :: "copied \<Rightarrow> copied \<Rightarrow> copied" where
  "merge a b = \<lparr>rp_files = rp_files a + rp_files b, rp_directories = rp_directories a + rp_directories b,
     rp_symlinks = rp_symlinks a + rp_symlinks b, rp_hardlinks = rp_hardlinks a + rp_hardlinks b,
     rp_attributes = rp_attributes a + rp_attributes b, rp_excluded = rp_excluded a + rp_excluded b,
     rp_copied = rp_copied a + rp_copied b, rp_bytes = rp_bytes a + rp_bytes b\<rparr>"

interpretation reports: comm_monoid_mset merge no_report
  by unfold_locales (simp_all add: merge_def no_report_def ac_simps)

text \<open>What the platform answers: what a put moved, the extended attributes of a source, and the calls
  it refuses at a path below the copy.\<close>

record put =
  pu_bytes :: "64 word"
  pu_shared :: bool

record platform =
  pf_put :: "path \<Rightarrow> meta \<Rightarrow> error + put"
  pf_attrs :: "path \<Rightarrow> error + string list"
  pf_denied :: "string \<Rightarrow> path \<Rightarrow> error option"

record copier =
  cp_source :: path
  cp_destination :: path
  cp_tree :: item
  cp_platform :: platform
  cp_entries :: "walked list"
  cp_followers :: "(nat \<times> nat) list"

type_synonym copying = "dest \<Rightarrow> (error + copied) \<times> dest"

definition OWNER_WRITE :: "32 word" where "OWNER_WRITE = 0x80"

definition times_of :: "meta \<Rightarrow> timestamp \<times> timestamp" where
  "times_of m = (me_accessed m, me_modified m)"

text \<open>Whether a path below the copy can be reached, and whether a name can be made there. Making one is a write
  into its directory.\<close>

definition above :: "path \<Rightarrow> path list" where
  "above p = map (\<lambda>n. take n p) [0..<length p]"

definition lets_in :: "nat \<Rightarrow> made option \<Rightarrow> bool" where
  "lets_in n x = (case x of Some (MadeDir as None ts) \<Rightarrow> True | Some (MadeDir as (Some m) ts) \<Rightarrow> bit m n | _ \<Rightarrow> False)"

definition reached :: "path \<Rightarrow> dest \<Rightarrow> bool" where
  "reached p d \<longleftrightarrow> (\<forall>a \<in> set (above p). lets_in 6 (dn_names d a))"

definition may_make :: "path \<Rightarrow> dest \<Rightarrow> bool" where
  "may_make p d \<longleftrightarrow> p \<noteq> [] \<and> reached p d \<and> lets_in 7 (dn_names d (butlast p))"

definition written_into :: "made \<Rightarrow> made" where
  "written_into x = (case x of MadeDir as m ts \<Rightarrow> MadeDir as m None | _ \<Rightarrow> x)"

definition make_name :: "path \<Rightarrow> made \<Rightarrow> dest \<Rightarrow> dest" where
  "make_name p x d = d\<lparr>dn_names := (dn_names d)(butlast p := map_option written_into (dn_names d (butlast p)), p \<mapsto> x)\<rparr>"

definition io_at :: "path \<Rightarrow> path \<Rightarrow> string \<Rightarrow> error" where
  "io_at root p why = Io (root @ p) why"

subsection \<open>One file\<close>

text \<open>\<open>attributes\<close> and \<open>put_file\<close>: the attributes of a file, then the mode of its source, then its times. An
  attribute is written through the mode the file has.\<close>

definition xattr_copy :: "copier \<Rightarrow> walked \<Rightarrow> file_node \<Rightarrow> (error + nat) \<times> file_node" where
  "xattr_copy c e nd =
     (case pf_attrs (cp_platform c) (wk_relative e) of
        Inl x \<Rightarrow> (Inl x, nd)
      | Inr names \<Rightarrow>
          if names \<noteq> [] \<and> fn_mode nd AND OWNER_WRITE = 0
          then (Inl (io_at (cp_destination c) (wk_relative e) ''permission denied''), nd)
          else (Inr (length names), nd\<lparr>fn_attrs := names\<rparr>))"

definition attributes :: "copier \<Rightarrow> walked \<Rightarrow> file_node \<Rightarrow> (error + nat) \<times> file_node" where
  "attributes c e nd =
     (if me_mode (wk_meta e) AND OWNER_WRITE = 0 then
        (case pf_denied (cp_platform c) ''chmod'' (wk_relative e) of
           Some x \<Rightarrow> (Inl x, nd)
         | None \<Rightarrow> xattr_copy c e (nd\<lparr>fn_mode := me_mode (wk_meta e) OR OWNER_WRITE\<rparr>))
      else xattr_copy c e nd)"

definition dress :: "copier \<Rightarrow> walked \<Rightarrow> file_node \<Rightarrow> (error + nat) \<times> file_node" where
  "dress c e nd =
     (case attributes c e nd of
        (Inl x, nd1) \<Rightarrow> (Inl x, nd1)
      | (Inr n, nd1) \<Rightarrow>
          (case pf_denied (cp_platform c) ''chmod'' (wk_relative e) of
             Some x \<Rightarrow> (Inl x, nd1)
           | None \<Rightarrow>
               (case pf_denied (cp_platform c) ''utimensat'' (wk_relative e) of
                  Some x \<Rightarrow> (Inl x, nd1\<lparr>fn_mode := me_mode (wk_meta e)\<rparr>)
                | None \<Rightarrow> (Inr n, nd1\<lparr>fn_mode := me_mode (wk_meta e), fn_times := Some (times_of (wk_meta e))\<rparr>))))"

definition put_file :: "copier \<Rightarrow> walked \<Rightarrow> copying" where
  "put_file c e d =
     (case pf_put (cp_platform c) (wk_relative e) (wk_meta e) of
        Inl x \<Rightarrow> (Inl x, d)
      | Inr put \<Rightarrow>
          if \<not> may_make (wk_relative e) d then (Inl (io_at (cp_destination c) (wk_relative e) ''permission denied''), d)
          else case dress c e \<lparr>fn_source = wk_relative e, fn_attrs = [], fn_mode = me_mode (wk_meta e), fn_times = None\<rparr> of
            (r, nd) \<Rightarrow>
              (map_sum id (\<lambda>n. no_report\<lparr>rp_files := 1, rp_bytes := pu_bytes put,
                  rp_copied := (if pu_shared put then 0 else 1), rp_attributes := n\<rparr>) r,
               (make_name (wk_relative e) (MadeFile (wk_relative e)) d)\<lparr>dn_nodes := (dn_nodes d)(wk_relative e \<mapsto> nd)\<rparr>))"

definition target_of :: "item \<Rightarrow> path \<Rightarrow> string option" where
  "target_of t p = (case item_at p t of Some (Leaf (SymLink to) _) \<Rightarrow> Some to | _ \<Rightarrow> None)"

definition put_symlink :: "copier \<Rightarrow> walked \<Rightarrow> copying" where
  "put_symlink c e d =
     (case target_of (cp_tree c) (wk_relative e) of
        None \<Rightarrow> (Inl (io_at (cp_source c) (wk_relative e) ''invalid argument''), d)
      | Some to \<Rightarrow>
          (case pf_denied (cp_platform c) ''symlink'' (wk_relative e) of
             Some x \<Rightarrow> (Inl x, d)
           | None \<Rightarrow>
               if \<not> may_make (wk_relative e) d then (Inl (io_at (cp_destination c) (wk_relative e) ''permission denied''), d)
               else if dn_names d (wk_relative e) \<noteq> None then (Inl (io_at (cp_destination c) (wk_relative e) ''file exists''), d)
               else case pf_denied (cp_platform c) ''utimensat'' (wk_relative e) of
                 Some x \<Rightarrow> (Inl x, make_name (wk_relative e) (MadeLink to None) d)
               | None \<Rightarrow> (Inr (no_report\<lparr>rp_symlinks := 1\<rparr>),
                          make_name (wk_relative e) (MadeLink to (Some (times_of (wk_meta e)))) d)))"

subsection \<open>Names that are one file\<close>

definition inode_of :: "walked \<Rightarrow> 64 word \<times> 64 word" where
  "inode_of e = (me_dev (wk_meta e), me_ino (wk_meta e))"

text \<open>Each later name of a file with several, and the first name of it.\<close>

fun followers_from :: "nat \<Rightarrow> walked list \<Rightarrow> ((64 word \<times> 64 word) \<times> nat) list \<Rightarrow> (nat \<times> nat) list" where
  "followers_from i [] firsts = []"
| "followers_from i (e # es) firsts =
     (if wk_kind e \<noteq> KFile \<or> me_nlink (wk_meta e) < 2 then followers_from (i + 1) es firsts
      else case map_of firsts (inode_of e) of
        Some made \<Rightarrow> (i, made) # followers_from (i + 1) es firsts
      | None \<Rightarrow> followers_from (i + 1) es ((inode_of e, i) # firsts))"

definition followers :: "walked list \<Rightarrow> (nat \<times> nat) list" where
  "followers es = followers_from 0 es []"

definition new_copier :: "path \<Rightarrow> path \<Rightarrow> item \<Rightarrow> platform \<Rightarrow> walked list \<Rightarrow> copier" where
  "new_copier source destination t pf es = \<lparr>cp_source = source, cp_destination = destination, cp_tree = t,
     cp_platform = pf, cp_entries = es, cp_followers = followers es\<rparr>"

text \<open>The walk cut into one range per directory.\<close>

fun groups_from :: "nat \<Rightarrow> walked list \<Rightarrow> (nat \<times> nat) option \<Rightarrow> path option \<Rightarrow> (nat \<times> nat) list" where
  "groups_from i [] open parent = (case open of None \<Rightarrow> [] | Some g \<Rightarrow> [g])"
| "groups_from i (e # es) open parent =
     (let holder = butlast (wk_relative e)
      in case open of
        Some (a, b) \<Rightarrow>
          if parent = Some holder then groups_from (i + 1) es (Some (a, i + 1)) parent
          else (a, b) # groups_from (i + 1) es (Some (i, i + 1)) (Some holder)
      | None \<Rightarrow> groups_from (i + 1) es (Some (i, i + 1)) (Some holder))"

definition groups :: "walked list \<Rightarrow> (nat \<times> nat) list" where
  "groups es = groups_from 0 es None None"

fun indices :: "nat \<times> nat \<Rightarrow> nat list" where
  "indices (a, b) = [a..<b]"

definition holds_a_link :: "copier \<Rightarrow> nat \<times> nat \<Rightarrow> bool" where
  "holds_a_link c g = list_ex (\<lambda>i. map_of (cp_followers c) i \<noteq> None) (indices g)"

subsection \<open>One directory\<close>

text \<open>A loop of the copier is the one \<open>run_alone\<close> writes out: it adds up what each item put across and
  stops at the first that fails.\<close>

definition copy_one :: "copier \<Rightarrow> nat \<Rightarrow> copying" where
  "copy_one c i d =
     (if length (cp_entries c) \<le> i \<or> map_of (cp_followers c) i \<noteq> None then (Inr no_report, d)
      else case wk_kind (cp_entries c ! i) of
        KSymlink \<Rightarrow> put_symlink c (cp_entries c ! i) d
      | KFile \<Rightarrow> put_file c (cp_entries c ! i) d
      | _ \<Rightarrow> (Inr no_report, d))"

definition copies :: "copier \<Rightarrow> nat \<times> nat \<Rightarrow> copying" where
  "copies c g d = run_alone merge (copy_one c) (indices g) no_report d"

definition link_one :: "copier \<Rightarrow> nat \<Rightarrow> copying" where
  "link_one c i d =
     (case map_of (cp_followers c) i of
        None \<Rightarrow> (Inr no_report, d)
      | Some first \<Rightarrow>
          if length (cp_entries c) \<le> i \<or> length (cp_entries c) \<le> first then (Inr no_report, d)
          else
            (let from = wk_relative (cp_entries c ! first); at = wk_relative (cp_entries c ! i);
                 refused = (\<lambda>why. (Inl (io_at (cp_destination c) at why), d))
             in case pf_denied (cp_platform c) ''link'' at of
               Some x \<Rightarrow> (Inl x, d)
             | None \<Rightarrow>
                 if \<not> reached from d \<or> \<not> may_make at d then refused ''permission denied''
                 else if dn_names d at \<noteq> None then refused ''file exists''
                 else case dn_names d from of
                   None \<Rightarrow> refused ''not found''
                 | Some (MadeDir _ _ _) \<Rightarrow> refused ''operation not permitted''
                 | Some x \<Rightarrow> (Inr (no_report\<lparr>rp_hardlinks := 1\<rparr>), make_name at x d)))"

definition links :: "copier \<Rightarrow> nat \<times> nat \<Rightarrow> copying" where
  "links c g d = run_alone merge (link_one c) (indices g) no_report d"

subsection \<open>The directories\<close>

text \<open>\<open>std::fs::create_dir_all\<close>: every directory missing on the way to the path, outermost first.\<close>

fun make_dirs :: "copier \<Rightarrow> path \<Rightarrow> path list \<Rightarrow> dest \<Rightarrow> error option \<times> dest" where
  "make_dirs c at [] d = (None, d)"
| "make_dirs c at (q # qs) d =
     (case dn_names d q of
        Some (MadeDir _ _ _) \<Rightarrow> make_dirs c at qs d
      | Some _ \<Rightarrow> (Some (io_at (cp_destination c) at ''file exists''), d)
      | None \<Rightarrow>
          (case pf_denied (cp_platform c) ''mkdir'' q of
             Some x \<Rightarrow> (Some x, d)
           | None \<Rightarrow>
               if \<not> may_make q d then (Some (io_at (cp_destination c) at ''permission denied''), d)
               else make_dirs c at qs (make_name q (MadeDir [] None None) d)))"

definition make_directory :: "copier \<Rightarrow> walked \<Rightarrow> copying" where
  "make_directory c e d =
     (case make_dirs c (wk_relative e) (above (wk_relative e) @ [wk_relative e]) d of
        (Some x, d') \<Rightarrow> (Inl x, d')
      | (None, d') \<Rightarrow> (Inr (no_report\<lparr>rp_directories := 1\<rparr>), d'))"

definition made_directories :: "copier \<Rightarrow> walked list" where
  "made_directories c = filter (\<lambda>e. wk_kind e = KDirectory) (cp_entries c)"

definition directories :: "copier \<Rightarrow> copying" where
  "directories c d = run_alone merge (make_directory c) (made_directories c) no_report d"

definition chmod_dir :: "copier \<Rightarrow> path \<Rightarrow> meta \<Rightarrow> dest \<Rightarrow> error option \<times> dest" where
  "chmod_dir c p m d =
     (case pf_denied (cp_platform c) ''chmod'' p of
        Some x \<Rightarrow> (Some x, d)
      | None \<Rightarrow>
          if \<not> reached p d then (Some (io_at (cp_destination c) p ''permission denied''), d)
          else case dn_names d p of
            Some (MadeDir as _ ts) \<Rightarrow> (None, d\<lparr>dn_names := (dn_names d)(p \<mapsto> MadeDir as (Some (me_mode m)) ts)\<rparr>)
          | _ \<Rightarrow> (Some (io_at (cp_destination c) p ''not found''), d))"

definition date_dir :: "copier \<Rightarrow> path \<Rightarrow> meta \<Rightarrow> dest \<Rightarrow> error option \<times> dest" where
  "date_dir c p m d =
     (case pf_denied (cp_platform c) ''utimensat'' p of
        Some x \<Rightarrow> (Some x, d)
      | None \<Rightarrow>
          if \<not> reached p d then (Some (io_at (cp_destination c) p ''permission denied''), d)
          else case dn_names d p of
            Some (MadeDir as md _) \<Rightarrow> (None, d\<lparr>dn_names := (dn_names d)(p \<mapsto> MadeDir as md (Some (times_of m)))\<rparr>)
          | _ \<Rightarrow> (Some (io_at (cp_destination c) p ''not found''), d))"

definition finish_one :: "copier \<Rightarrow> walked \<Rightarrow> copying" where
  "finish_one c e d =
     (case chmod_dir c (wk_relative e) (wk_meta e) d of
        (Some x, d1) \<Rightarrow> (Inl x, d1)
      | (None, d1) \<Rightarrow>
          (case date_dir c (wk_relative e) (wk_meta e) d1 of
             (Some x, d2) \<Rightarrow> (Inl x, d2)
           | (None, d2) \<Rightarrow> (Inr no_report, d2)))"

definition finish_root :: "copier \<Rightarrow> copying" where
  "finish_root c d =
     (case pf_attrs (cp_platform c) [] of
        Inl x \<Rightarrow> (Inl x, d)
      | Inr names \<Rightarrow>
          (case dn_names d [] of
             Some (MadeDir _ md ts) \<Rightarrow>
               (case chmod_dir c [] (meta_of (cp_tree c)) (d\<lparr>dn_names := (dn_names d)([] \<mapsto> MadeDir names md ts)\<rparr>) of
                  (Some x, d1) \<Rightarrow> (Inl x, d1)
                | (None, d1) \<Rightarrow> (Inr no_report, d1))
           | _ \<Rightarrow> (Inl (io_at (cp_destination c) [] ''not found''), d)))"

definition finish :: "copier \<Rightarrow> copying" where
  "finish c d =
     (case run_alone merge (finish_one c) (rev (made_directories c)) no_report d of
        (Inl x, d1) \<Rightarrow> (Inl x, d1)
      | (Inr _, d1) \<Rightarrow> finish_root c d1)"

subsection \<open>A whole copy\<close>

definition check :: "path \<Rightarrow> path \<Rightarrow> bool \<Rightarrow> error option" where
  "check source destination there =
     (if there then Some (MaterializeDestination destination ''it is already there'')
      else if prefix source destination then Some (MaterializeDestination destination ''it is inside the tree being cloned'')
      else if prefix destination source then Some (MaterializeDestination destination ''it holds the tree being cloned'')
      else None)"

definition nothing_made :: dest where
  "nothing_made = \<lparr>dn_names = (\<lambda>_. None), dn_nodes = (\<lambda>_. None)\<rparr>"

definition bare :: dest where
  "bare = \<lparr>dn_names = [[] \<mapsto> MadeDir [] None None], dn_nodes = (\<lambda>_. None)\<rparr>"

text \<open>Everything before the first directory is made below the copy.\<close>

definition prepare :: "platform \<Rightarrow> path \<Rightarrow> path \<Rightarrow> excludes \<Rightarrow> item \<Rightarrow> bool \<Rightarrow> error + copier \<times> copied" where
  "prepare pf source destination xs t there =
     (case check source destination there of
        Some e \<Rightarrow> Inl e
      | None \<Rightarrow>
          (case walk source xs t of
             Inl e \<Rightarrow> Inl e
           | Inr (es, sk) \<Rightarrow>
               (case pf_denied pf ''mkdir'' [] of
                  Some e \<Rightarrow> Inl e
                | None \<Rightarrow> Inr (new_copier source destination t pf es, no_report\<lparr>rp_excluded := sk_excluded sk\<rparr>))))"

text \<open>What follows a call: the next one with the report so far, or the error.\<close>

fun then_do :: "(error + copied) \<times> dest \<Rightarrow> (copied \<Rightarrow> copying) \<Rightarrow> (error + copied) \<times> dest" where
  "then_do (Inl e, d) f = (Inl e, d)"
| "then_do (Inr r, d) f = f r d"

definition adding :: "copied \<Rightarrow> (error + copied) \<times> dest \<Rightarrow> (error + copied) \<times> dest" where
  "adding r res = map_prod (map_sum id (merge r)) id res"

definition linking :: "copier \<Rightarrow> (nat \<times> nat) list" where
  "linking c = filter (holds_a_link c) (groups (cp_entries c))"

text \<open>\<open>contents\<close> on one thread, and what it may answer on several.\<close>

definition contents_alone :: "copier \<Rightarrow> copying" where
  "contents_alone c d =
     then_do (run_alone merge (copies c) (groups (cp_entries c)) no_report d)
       (\<lambda>r d1. if cp_followers c = [] then (Inr r, d1)
          else adding r (run_alone merge (links c) (linking c) no_report d1))"

definition may_contents :: "copier \<Rightarrow> nat \<Rightarrow> dest \<Rightarrow> (error + copied) \<times> dest \<Rightarrow> bool" where
  "may_contents c workers d res \<longleftrightarrow>
     (\<exists>first. may_run merge no_report (copies c) (groups (cp_entries c)) workers d first
        \<and> (if isl (fst first) \<or> cp_followers c = [] then res = first
           else \<exists>second. may_run merge no_report (links c) (linking c) workers (snd first) second
             \<and> res = adding (projr (fst first)) second))"

definition ended :: "copier \<Rightarrow> copied \<Rightarrow> (error + copied) \<times> dest \<Rightarrow> (error + copied) \<times> dest" where
  "ended c r res = then_do res (\<lambda>r2 d2. then_do (finish c d2) (\<lambda>_ d3. (Inr (merge r r2), d3)))"

definition materialize_alone :: "platform \<Rightarrow> path \<Rightarrow> path \<Rightarrow> excludes \<Rightarrow> item \<Rightarrow> bool \<Rightarrow> (error + copied) \<times> dest" where
  "materialize_alone pf source destination xs t there =
     (case prepare pf source destination xs t there of
        Inl e \<Rightarrow> (Inl e, nothing_made)
      | Inr (c, r) \<Rightarrow>
          then_do (directories c bare) (\<lambda>r1 d1. ended c (merge r r1) (contents_alone c d1)))"

definition may_materialize ::
  "platform \<Rightarrow> path \<Rightarrow> path \<Rightarrow> excludes \<Rightarrow> item \<Rightarrow> bool \<Rightarrow> nat \<Rightarrow> (error + copied) \<times> dest \<Rightarrow> bool" where
  "may_materialize pf source destination xs t there workers res \<longleftrightarrow>
     (case prepare pf source destination xs t there of
        Inl e \<Rightarrow> res = (Inl e, nothing_made)
      | Inr (c, r) \<Rightarrow>
          (case directories c bare of
             (Inl e, d1) \<Rightarrow> res = (Inl e, d1)
           | (Inr r1, d1) \<Rightarrow> \<exists>res2. may_contents c (max 1 workers) d1 res2 \<and> res = ended c (merge r r1) res2))"

subsection \<open>How many workers\<close>

definition WORKER_CEILING :: nat where "WORKER_CEILING = 8"

definition requested :: "string option \<Rightarrow> nat option" where
  "requested var = (case var of
       None \<Rightarrow> None
     | Some asked \<Rightarrow> (case parse_nat (2 ^ 64) (trim asked) of Some n \<Rightarrow> if 0 < n then Some n else None | None \<Rightarrow> None))"

definition worker_count :: "string option \<Rightarrow> nat option \<Rightarrow> nat" where
  "worker_count var cores =
     (case requested var of Some n \<Rightarrow> n
      | None \<Rightarrow> (case cores of None \<Rightarrow> 1 | Some n \<Rightarrow> min n WORKER_CEILING))"

lemma workers_positive: "cores \<noteq> Some 0 \<Longrightarrow> 0 < worker_count var cores"
  by (auto simp: worker_count_def requested_def WORKER_CEILING_def split: option.splits if_splits)

subsection \<open>What a step reads and writes\<close>

definition agree :: "path set \<Rightarrow> dest \<Rightarrow> dest \<Rightarrow> bool" where
  "agree A d d' \<longleftrightarrow> (\<forall>q \<in> A. dn_names d q = dn_names d' q \<and> dn_nodes d q = dn_nodes d' q)"

definition undated :: "dest \<Rightarrow> bool" where
  "undated d \<longleftrightarrow> (\<forall>q as m ts. dn_names d q = Some (MadeDir as m ts) \<longrightarrow> ts = None)"

text \<open>A step that looks at some paths only and changes fewer of them. In a tree whose directories have no times
  yet, a write into a directory leaves it as it was.\<close>

definition local_to :: "path set \<Rightarrow> path set \<Rightarrow> copying \<Rightarrow> bool" where
  "local_to R W f \<longleftrightarrow> W \<subseteq> R
    \<and> (\<forall>d. undated d \<longrightarrow> undated (snd (f d)) \<and> agree (- W) (snd (f d)) d)
    \<and> (\<forall>d d'. undated d \<longrightarrow> undated d' \<longrightarrow> agree R d d' \<longrightarrow> fst (f d) = fst (f d') \<and> agree W (snd (f d)) (snd (f d')))"

definition overlay :: "path set \<Rightarrow> dest \<Rightarrow> dest \<Rightarrow> dest" where
  "overlay W x d = \<lparr>dn_names = (\<lambda>q. if q \<in> W then dn_names x q else dn_names d q),
     dn_nodes = (\<lambda>q. if q \<in> W then dn_nodes x q else dn_nodes d q)\<rparr>"

lemma agree_refl [simp]: "agree A d d"
  by (simp add: agree_def)

lemma agree_sym: "agree A d d' \<Longrightarrow> agree A d' d"
  by (simp add: agree_def)

lemma agree_trans: "agree A a b \<Longrightarrow> agree A b c \<Longrightarrow> agree A a c"
  by (simp add: agree_def)

lemma agree_mono: "agree B d d' \<Longrightarrow> A \<subseteq> B \<Longrightarrow> agree A d d'"
  by (auto simp: agree_def)

lemma agree_Un: "agree (A \<union> B) d d' \<longleftrightarrow> agree A d d' \<and> agree B d d'"
  by (auto simp: agree_def)

lemma agree_all: "agree UNIV d d' \<longleftrightarrow> d = d'"
  by (cases d; cases d') (auto simp: agree_def)

lemma overlay_commute: "W \<inter> V = {} \<Longrightarrow> overlay W x (overlay V y d) = overlay V y (overlay W x d)"
  by (auto simp: overlay_def intro!: ext)

lemma overlay_out: "agree (- W) (overlay W x d) d"
  by (simp add: agree_def overlay_def)

lemma undated_overlay: "undated x \<Longrightarrow> undated d \<Longrightarrow> undated (overlay W x d)"
  by (auto simp: undated_def overlay_def)

lemma local_toD:
  assumes "local_to R W f" and "undated d"
  shows "undated (snd (f d))" and "agree (- W) (snd (f d)) d"
    and "undated d' \<Longrightarrow> agree R d d' \<Longrightarrow> fst (f d) = fst (f d') \<and> agree W (snd (f d)) (snd (f d'))"
  using assms unfolding local_to_def by blast+

lemma local_subset: "local_to R W f \<Longrightarrow> W \<subseteq> R"
  by (simp add: local_to_def)

lemma local_overlay:
  assumes f: "local_to R W f" and "undated d" "undated d'" "agree R d d'"
  shows "f d = (fst (f d'), overlay W (snd (f d')) d)"
proof -
  have "agree W (snd (f d)) (overlay W (snd (f d')) d)"
    using local_toD(3) [OF f assms(2-4)] by (simp add: agree_def overlay_def)
  moreover have "agree (- W) (snd (f d)) (overlay W (snd (f d')) d)"
    using local_toD(2) [OF f assms(2)] overlay_out agree_sym agree_trans by blast
  ultimately have "snd (f d) = overlay W (snd (f d')) d"
    using agree_Un [of W "- W"] by (metis Compl_partition agree_all)
  then show ?thesis using local_toD(3) [OF f assms(2-4)] by (metis prod.collapse)
qed

lemma local_wider:
  assumes f: "local_to R W f" and sub: "R \<subseteq> R'" "W \<subseteq> W'" "W' \<subseteq> R'"
  shows "local_to R' W' f"
  unfolding local_to_def
proof (intro conjI allI impI)
  fix d assume d: "undated d"
  show "undated (snd (f d))" "agree (- W') (snd (f d)) d"
    using local_toD(1,2) [OF f d] sub by (auto elim: agree_mono)
  fix d' assume d': "undated d'" "agree R' d d'"
  note same = local_toD(3) [OF f d d'(1) agree_mono [OF d'(2) sub(1)]]
  then show "fst (f d) = fst (f d')" ..
  have "agree (W' - W) (snd (f d)) d" "agree (W' - W) (snd (f d')) d'" "agree (W' - W) d d'"
    using local_toD(2) [OF f d] local_toD(2) [OF f d'(1)] d'(2) sub by (auto elim: agree_mono)
  then have "agree (W' - W) (snd (f d)) (snd (f d'))" by (meson agree_sym agree_trans)
  then show "agree W' (snd (f d)) (snd (f d'))"
    using same sub(2) agree_Un [of W "W' - W"] by (metis Diff_partition)
qed (use sub in simp)

lemma local_skip: "local_to R {} (\<lambda>d. (x, d))"
  by (simp add: local_to_def agree_def)

lemma local_run: "W \<subseteq> R \<Longrightarrow> \<forall>x \<in> set xs. local_to R W (f x) \<Longrightarrow> local_to R W (run_alone merge f xs r)"
proof (induction xs arbitrary: r)
  case Nil
  then show ?case using local_wider [OF local_skip, of R R W] by simp
next
  case (Cons x xs)
  then have f: "local_to R W (f x)" and rest: "local_to R W (run_alone merge f xs r)" for r by simp_all
  have step: "run_alone merge f (x # xs) r d =
      (case fst (f x d) of Inl e \<Rightarrow> (Inl e, snd (f x d)) | Inr s \<Rightarrow> run_alone merge f xs (merge r s) (snd (f x d)))" for d
    by (cases "f x d"; cases "fst (f x d)") auto
  show ?case
    unfolding local_to_def
  proof (intro conjI allI impI)
    fix d assume d: "undated d"
    note one = local_toD(1,2) [OF f d]
    have "undated (snd (run_alone merge f (x # xs) r d)) \<and> agree (- W) (snd (run_alone merge f (x # xs) r d)) d"
      using one local_toD(1,2) [OF rest one(1)] agree_trans unfolding step by (auto split: sum.splits) blast
    then show "undated (snd (run_alone merge f (x # xs) r d))" "agree (- W) (snd (run_alone merge f (x # xs) r d)) d"
      by blast+
    fix d' assume d': "undated d'" "agree R d d'"
    note same = local_toD(3) [OF f d d'(1) d'(2)]
    have "snd (f x d) = overlay W (snd (f x d')) d" using local_overlay [OF f d d'] by simp
    moreover have "snd (f x d') = overlay W (snd (f x d')) d'"
      using local_overlay [OF f d'(1,1) agree_refl] by (metis snd_conv)
    ultimately have "agree R (snd (f x d)) (snd (f x d'))"
      using d'(2) unfolding agree_def overlay_def by (metis (no_types, lifting) dest.select_convs)
    note more = local_toD(3) [OF rest one(1) local_toD(1) [OF f d'(1)] this]
    show "fst (run_alone merge f (x # xs) r d) = fst (run_alone merge f (x # xs) r d')"
      "agree W (snd (run_alone merge f (x # xs) r d)) (snd (run_alone merge f (x # xs) r d'))"
      unfolding step using same more by (auto split: sum.splits)
  qed (use Cons in simp)
qed

lemma local_parts:
  assumes "W \<subseteq> R"
    and "\<And>d. undated d \<Longrightarrow> undated (snd (f d)) \<and> (\<forall>q. q \<notin> W \<longrightarrow> dn_names (snd (f d)) q = dn_names d q \<and> dn_nodes (snd (f d)) q = dn_nodes d q)"
    and "\<And>d d'. undated d \<Longrightarrow> undated d' \<Longrightarrow> (\<And>q. q \<in> R \<Longrightarrow> dn_names d q = dn_names d' q) \<Longrightarrow> (\<And>q. q \<in> R \<Longrightarrow> dn_nodes d q = dn_nodes d' q) \<Longrightarrow>
      fst (f d) = fst (f d') \<and> (\<forall>q \<in> W. dn_names (snd (f d)) q = dn_names (snd (f d')) q \<and> dn_nodes (snd (f d)) q = dn_nodes (snd (f d')) q)"
  shows "local_to R W f"
  unfolding local_to_def agree_def
proof (intro conjI allI impI)
  fix d assume "undated d"
  from assms(2) [OF this] show "undated (snd (f d))"
    "\<forall>q \<in> - W. dn_names (snd (f d)) q = dn_names d q \<and> dn_nodes (snd (f d)) q = dn_nodes d q" by simp_all
next
  fix d d' assume "undated d" "undated d'" "\<forall>q \<in> R. dn_names d q = dn_names d' q \<and> dn_nodes d q = dn_nodes d' q"
  from assms(3) [OF this(1,2)] this(3) show "fst (f d) = fst (f d')"
    "\<forall>q \<in> W. dn_names (snd (f d)) q = dn_names (snd (f d')) q \<and> dn_nodes (snd (f d)) q = dn_nodes (snd (f d')) q"
    by simp_all
qed (rule assms(1))

lemma written_into_undated: "undated d \<Longrightarrow> map_option written_into (dn_names d q) = dn_names d q"
  by (cases "dn_names d q") (auto simp: undated_def written_into_def split: made.splits)

lemma make_name_undated: "undated d \<Longrightarrow> make_name p x d = d\<lparr>dn_names := (dn_names d)(p \<mapsto> x)\<rparr>"
  by (simp add: make_name_def written_into_undated)

lemma above_butlast: "p \<noteq> [] \<Longrightarrow> butlast p \<in> set (above p)"
  by (auto simp: above_def butlast_conv_take image_iff intro: bexI [of _ "length p - 1"])

lemma set_above: "a \<in> set (above p) \<longleftrightarrow> strict_prefix a p"
proof
  assume "a \<in> set (above p)"
  then obtain n where n: "n < length p" "a = take n p" by (auto simp: above_def)
  then have "length a < length p" by simp
  then show "strict_prefix a p" using n(2) take_is_prefix [of n p] by (auto simp: strict_prefix_def)
next
  assume a: "strict_prefix a p"
  then have "a = take (length a) p" by (metis append_eq_conv_conj prefix_def strict_prefix_def)
  with prefix_length_less [OF a] show "a \<in> set (above p)" by (auto simp: above_def)
qed

lemma reached_agree: "(\<And>q. q \<in> set (above p) \<Longrightarrow> dn_names d q = dn_names d' q) \<Longrightarrow> reached p d = reached p d'"
  by (simp add: reached_def)

lemma may_make_agree: "(\<And>q. q \<in> set (above p) \<Longrightarrow> dn_names d q = dn_names d' q) \<Longrightarrow> may_make p d = may_make p d'"
  using above_butlast [of p] reached_agree [of p d d'] by (auto simp: may_make_def)

lemma undated_new: "undated d \<Longrightarrow> (\<forall>as m ts. x \<noteq> MadeDir as m ts) \<Longrightarrow> undated (d\<lparr>dn_names := (dn_names d)(p \<mapsto> x)\<rparr>)"
  by (simp add: undated_def)

lemma undated_nodes [simp]: "undated (d\<lparr>dn_nodes := ns\<rparr>) = undated d"
  by (simp add: undated_def)

lemma local_put_file: "local_to (insert (wk_relative e) (set (above (wk_relative e)))) {wk_relative e} (put_file c e)"
proof (rule local_parts)
  fix d assume "undated d"
  then show "undated (snd (put_file c e d)) \<and> (\<forall>q. q \<notin> {wk_relative e} \<longrightarrow>
      dn_names (snd (put_file c e d)) q = dn_names d q \<and> dn_nodes (snd (put_file c e d)) q = dn_nodes d q)"
    by (auto simp: put_file_def make_name_undated undated_new split: sum.splits prod.splits)
next
  fix d d' assume d: "undated d" "undated d'"
    and same: "\<And>q. q \<in> insert (wk_relative e) (set (above (wk_relative e))) \<Longrightarrow> dn_names d q = dn_names d' q"
      "\<And>q. q \<in> insert (wk_relative e) (set (above (wk_relative e))) \<Longrightarrow> dn_nodes d q = dn_nodes d' q"
  then have "may_make (wk_relative e) d = may_make (wk_relative e) d'" by (intro may_make_agree) simp
  then show "fst (put_file c e d) = fst (put_file c e d') \<and> (\<forall>q \<in> {wk_relative e}.
      dn_names (snd (put_file c e d)) q = dn_names (snd (put_file c e d')) q
      \<and> dn_nodes (snd (put_file c e d)) q = dn_nodes (snd (put_file c e d')) q)"
    using d same by (auto simp: put_file_def make_name_undated split: sum.splits prod.splits)
qed simp

lemma local_put_symlink: "local_to (insert (wk_relative e) (set (above (wk_relative e)))) {wk_relative e} (put_symlink c e)"
proof (rule local_parts)
  fix d assume "undated d"
  then show "undated (snd (put_symlink c e d)) \<and> (\<forall>q. q \<notin> {wk_relative e} \<longrightarrow>
      dn_names (snd (put_symlink c e d)) q = dn_names d q \<and> dn_nodes (snd (put_symlink c e d)) q = dn_nodes d q)"
    by (auto simp: put_symlink_def make_name_undated undated_new split: option.splits)
next
  fix d d' assume d: "undated d" "undated d'"
    and same: "\<And>q. q \<in> insert (wk_relative e) (set (above (wk_relative e))) \<Longrightarrow> dn_names d q = dn_names d' q"
      "\<And>q. q \<in> insert (wk_relative e) (set (above (wk_relative e))) \<Longrightarrow> dn_nodes d q = dn_nodes d' q"
  then have "may_make (wk_relative e) d = may_make (wk_relative e) d'" by (intro may_make_agree) simp
  then show "fst (put_symlink c e d) = fst (put_symlink c e d') \<and> (\<forall>q \<in> {wk_relative e}.
      dn_names (snd (put_symlink c e d)) q = dn_names (snd (put_symlink c e d')) q
      \<and> dn_nodes (snd (put_symlink c e d)) q = dn_nodes (snd (put_symlink c e d')) q)"
    using d same by (auto simp: put_symlink_def make_name_undated split: option.splits)
qed simp

lemma local_link_one:
  assumes "map_of (cp_followers c) i = Some first"
  shows "local_to (insert (wk_relative (cp_entries c ! i)) (set (above (wk_relative (cp_entries c ! i))))
      \<union> insert (wk_relative (cp_entries c ! first)) (set (above (wk_relative (cp_entries c ! first)))))
    {wk_relative (cp_entries c ! i)} (link_one c i)"
proof (rule local_parts)
  fix d assume "undated d"
  then show "undated (snd (link_one c i d)) \<and> (\<forall>q. q \<notin> {wk_relative (cp_entries c ! i)} \<longrightarrow>
      dn_names (snd (link_one c i d)) q = dn_names d q \<and> dn_nodes (snd (link_one c i d)) q = dn_nodes d q)"
    by (auto simp: link_one_def Let_def assms make_name_undated undated_new split: option.splits made.splits)
next
  let ?p = "wk_relative (cp_entries c ! i)" and ?q = "wk_relative (cp_entries c ! first)"
  let ?R = "insert ?p (set (above ?p)) \<union> insert ?q (set (above ?q))"
  fix d d' assume d: "undated d" "undated d'" and same: "\<And>q. q \<in> ?R \<Longrightarrow> dn_names d q = dn_names d' q"
    "\<And>q. q \<in> ?R \<Longrightarrow> dn_nodes d q = dn_nodes d' q"
  have "may_make ?p d = may_make ?p d'" "reached ?q d = reached ?q d'" "dn_names d ?p = dn_names d' ?p" "dn_names d ?q = dn_names d' ?q"
    using same(1) by (auto intro!: may_make_agree reached_agree)
  then show "fst (link_one c i d) = fst (link_one c i d') \<and> (\<forall>q \<in> {?p}.
      dn_names (snd (link_one c i d)) q = dn_names (snd (link_one c i d')) q
      \<and> dn_nodes (snd (link_one c i d)) q = dn_nodes (snd (link_one c i d')) q)"
    using d same(2) by (auto simp: link_one_def Let_def assms make_name_undated split: option.splits made.splits)
qed simp

subsection \<open>The directories of a copy do not meet\<close>

text \<open>Jobs on directories apart: none writes what another looks at.\<close>

definition jobs_apart :: "(nat \<Rightarrow> path set) \<Rightarrow> (nat \<Rightarrow> path set) \<Rightarrow> nat \<Rightarrow> (nat \<Rightarrow> copying) \<Rightarrow> bool" where
  "jobs_apart R W n f \<longleftrightarrow> (\<forall>k < n. local_to (R k) (W k) (f k) \<and> (\<forall>j < n. j \<noteq> k \<longrightarrow> W j \<inter> R k = {}))"

definition after_jobs :: "(nat \<Rightarrow> path set) \<Rightarrow> (nat \<Rightarrow> path set) \<Rightarrow> nat \<Rightarrow> (nat \<Rightarrow> copying) \<Rightarrow> dest \<Rightarrow> nat set \<Rightarrow> dest \<Rightarrow> bool" where
  "after_jobs R W n f d0 ks d \<longleftrightarrow> jobs_apart R W n f \<and> ks \<subseteq> {..<n} \<and> undated d0 \<and> undated d \<and> agree (- (\<Union>k \<in> ks. W k)) d d0"

lemma jobs_independent:
  fixes each :: "('a, dest, copied) job"
  shows "independent_work merge no_report each work (\<lambda>k. fst (each (work ! k) d0))
    (\<lambda>k d. overlay (W k) (snd (each (work ! k) d0)) d) (after_jobs R W (length work) (\<lambda>k. each (work ! k)) d0)"
proof (unfold_locales)
  fix k ks d
  assume k: "k < length work" "k \<notin> ks" and at: "after_jobs R W (length work) (\<lambda>k. each (work ! k)) d0 ks d"
  then have apart: "jobs_apart R W (length work) (\<lambda>k. each (work ! k))" and ks: "ks \<subseteq> {..<length work}"
    and d: "undated d0" "undated d" "agree (- (\<Union>k \<in> ks. W k)) d d0" by (simp_all add: after_jobs_def)
  from apart k(1) have f: "local_to (R k) (W k) (each (work ! k))" by (simp add: jobs_apart_def)
  have "R k \<subseteq> - (\<Union>k \<in> ks. W k)" using apart k ks unfolding jobs_apart_def by blast
  then have same: "agree (R k) d d0" by (rule agree_mono [OF d(3)])
  show "each (work ! k) d = (fst (each (work ! k) d0), overlay (W k) (snd (each (work ! k) d0)) d)"
    by (rule local_overlay [OF f d(2,1) same])
  have "agree (- (\<Union>k \<in> insert k ks. W k)) (overlay (W k) (snd (each (work ! k) d0)) d) d0"
    using d(3) by (auto simp: agree_def overlay_def)
  then show "after_jobs R W (length work) (\<lambda>k. each (work ! k)) d0 (insert k ks) (overlay (W k) (snd (each (work ! k) d0)) d)"
    using apart ks k(1) d undated_overlay local_toD(1) [OF f d(1)] by (simp add: after_jobs_def)
next
  fix j k ks d
  assume jk: "j < length work" "k < length work" "j \<noteq> k" and at: "after_jobs R W (length work) (\<lambda>k. each (work ! k)) d0 ks d"
  then have "W j \<inter> R k = {}" "W k \<subseteq> R k" by (auto simp: after_jobs_def jobs_apart_def dest: local_subset)
  then have "W j \<inter> W k = {}" by auto
  then show "overlay (W j) (snd (each (work ! j) d0)) (overlay (W k) (snd (each (work ! k) d0)) d)
      = overlay (W k) (snd (each (work ! k) d0)) (overlay (W j) (snd (each (work ! j) d0)) d)"
    by (rule overlay_commute)
qed

text \<open>What the copier's two passes look at and write, by index and by directory.\<close>

definition path_of :: "copier \<Rightarrow> nat \<Rightarrow> path" where
  "path_of c i = wk_relative (cp_entries c ! i)"

definition followed :: "copier \<Rightarrow> nat \<Rightarrow> bool" where
  "followed c i \<longleftrightarrow> i < length (cp_entries c) \<and> map_of (cp_followers c) i \<noteq> None"

definition copied_at :: "copier \<Rightarrow> nat \<Rightarrow> bool" where
  "copied_at c i \<longleftrightarrow> i < length (cp_entries c) \<and> map_of (cp_followers c) i = None \<and> wk_kind (cp_entries c ! i) \<in> {KFile, KSymlink}"

definition looked_at :: "copier \<Rightarrow> nat set \<Rightarrow> path set" where
  "looked_at c I = (\<Union>i \<in> I. insert (path_of c i) (set (above (path_of c i))))"

definition copy_reads :: "copier \<Rightarrow> nat \<times> nat \<Rightarrow> path set" where
  "copy_reads c g = looked_at c {i \<in> set (indices g). copied_at c i}"

definition copy_writes :: "copier \<Rightarrow> nat \<times> nat \<Rightarrow> path set" where
  "copy_writes c g = path_of c ` {i \<in> set (indices g). copied_at c i}"

definition link_reads :: "copier \<Rightarrow> nat \<times> nat \<Rightarrow> path set" where
  "link_reads c g = looked_at c ({i \<in> set (indices g). followed c i} \<union> (\<lambda>i. the (map_of (cp_followers c) i)) ` {i \<in> set (indices g). followed c i})"

definition link_writes :: "copier \<Rightarrow> nat \<times> nat \<Rightarrow> path set" where
  "link_writes c g = path_of c ` {i \<in> set (indices g). followed c i}"

interpretation copying: independent_work merge no_report "copies c" "groups (cp_entries c)"
  "\<lambda>k. fst (copies c (groups (cp_entries c) ! k) d0)"
  "\<lambda>k d. overlay (copy_writes c (groups (cp_entries c) ! k)) (snd (copies c (groups (cp_entries c) ! k) d0)) d"
  "after_jobs (\<lambda>k. copy_reads c (groups (cp_entries c) ! k)) (\<lambda>k. copy_writes c (groups (cp_entries c) ! k))
     (length (groups (cp_entries c))) (\<lambda>k. copies c (groups (cp_entries c) ! k)) d0"
  for c d0 by (rule jobs_independent)

interpretation second_pass: independent_work merge no_report "links c" "linking c"
  "\<lambda>k. fst (links c (linking c ! k) d0)"
  "\<lambda>k d. overlay (link_writes c (linking c ! k)) (snd (links c (linking c ! k) d0)) d"
  "after_jobs (\<lambda>k. link_reads c (linking c ! k)) (\<lambda>k. link_writes c (linking c ! k))
     (length (linking c)) (\<lambda>k. links c (linking c ! k)) d0"
  for c d0 by (rule jobs_independent)

lemma local_copies: "local_to (copy_reads c g) (copy_writes c g) (copies c g)"
proof -
  have "local_to (copy_reads c g) (copy_writes c g) (copy_one c i)" if i: "i \<in> set (indices g)" for i
  proof (cases "copied_at c i")
    case True
    then have "insert (path_of c i) (set (above (path_of c i))) \<subseteq> copy_reads c g" "{path_of c i} \<subseteq> copy_writes c g"
      "copy_writes c g \<subseteq> copy_reads c g"
      using i by (auto simp: copy_reads_def copy_writes_def looked_at_def)
    moreover have "copy_one c i = put_file c (cp_entries c ! i) \<or> copy_one c i = put_symlink c (cp_entries c ! i)"
      using True by (auto simp: copied_at_def copy_one_def split: entry_kind.splits intro!: ext)
    ultimately show ?thesis
      using local_put_file [of "cp_entries c ! i" c] local_put_symlink [of "cp_entries c ! i" c] local_wider
      unfolding path_of_def by metis
  next
    case False
    then have "copy_one c i = (\<lambda>d. (Inr no_report, d))"
      by (auto simp: copied_at_def copy_one_def split: entry_kind.splits intro!: ext)
    then show ?thesis using local_wider [OF local_skip, of "copy_reads c g" "copy_reads c g" "copy_writes c g"]
      by (auto simp: copy_reads_def copy_writes_def looked_at_def)
  qed
  then have "local_to (copy_reads c g) (copy_writes c g) (run_alone merge (copy_one c) (indices g) no_report)"
    by (intro local_run) (auto simp: copy_reads_def copy_writes_def looked_at_def)
  then show ?thesis by (simp add: copies_def [abs_def])
qed

lemma local_links: "local_to (link_reads c g) (link_writes c g) (links c g)"
proof -
  have "local_to (link_reads c g) (link_writes c g) (link_one c i)" if i: "i \<in> set (indices g)" for i
  proof (cases "followed c i")
    case True
    then obtain first where first: "map_of (cp_followers c) i = Some first" by (auto simp: followed_def)
    have "first \<in> (\<lambda>i. the (map_of (cp_followers c) i)) ` {i \<in> set (indices g). followed c i}"
      using True i first by (auto simp: image_iff intro!: exI [of _ i])
    then have "insert (path_of c i) (set (above (path_of c i))) \<union> insert (path_of c first) (set (above (path_of c first))) \<subseteq> link_reads c g"
      using i True by (auto simp: link_reads_def looked_at_def)
    moreover have "{path_of c i} \<subseteq> link_writes c g" "link_writes c g \<subseteq> link_reads c g"
      using i True by (auto simp: link_reads_def link_writes_def looked_at_def)
    ultimately show ?thesis using local_wider [OF local_link_one [OF first]] unfolding path_of_def by blast
  next
    case False
    then have "link_one c i = (\<lambda>d. (Inr no_report, d))"
      by (auto simp: followed_def link_one_def split: option.splits intro!: ext)
    then show ?thesis using local_wider [OF local_skip, of "link_reads c g" "link_reads c g" "link_writes c g"]
      by (auto simp: link_reads_def link_writes_def looked_at_def)
  qed
  then have "local_to (link_reads c g) (link_writes c g) (run_alone merge (link_one c) (indices g) no_report)"
    by (intro local_run) (auto simp: link_reads_def link_writes_def looked_at_def)
  then show ?thesis by (simp add: links_def [abs_def])
qed

subsection \<open>The order of the walk\<close>

lemma groups_from_indices:
  "(\<forall>a b. g = Some (a, b) \<longrightarrow> b = i \<and> a \<le> b) \<Longrightarrow>
     concat (map indices (groups_from i es g parent)) = (case g of None \<Rightarrow> [] | Some x \<Rightarrow> indices x) @ [i..<i + length es]"
proof (induction i es g parent rule: groups_from.induct)
  case (1 i g parent)
  then show ?case by (cases g) auto
next
  case (2 i e es g parent)
  show ?case
  proof (cases g)
    case None
    have "concat (map indices (groups_from (i + 1) es (Some (i, i + 1)) (Some (butlast (wk_relative e)))))
        = [i..<i + 1] @ [i + 1..<i + 1 + length es]"
      using 2(1) [OF refl None] by simp
    also have "\<dots> = [i..<i + length (e # es)]" by (simp add: upt_conv_Cons del: upt_Suc)
    finally show ?thesis using None by (simp only: groups_from.simps Let_def option.case append_Nil)
  next
    case (Some x)
    then obtain a where x: "x = (a, i)" "a \<le> i" using 2(4) by (cases x) auto
    have "[a..<Suc i] = [a..<i] @ [i]" using x(2) by simp
    moreover have "[i..<i + length (e # es)] = i # [Suc i..<Suc i + length es]" by (simp add: upt_conv_Cons del: upt_Suc)
    ultimately have a: "[a..<Suc i] @ [Suc i..<Suc i + length es] = [a..<i] @ [i..<i + length (e # es)]"
      and i: "[i..<Suc i] @ [Suc i..<Suc i + length es] = [i..<i + length (e # es)]" by simp_all
    show ?thesis
      using 2(2,3) [OF refl Some x(1) [symmetric]] x(2) a i by (simp add: Let_def Some x(1) del: upt_Suc)
  qed
qed

lemma groups_indices: "concat (map indices (groups es)) = [0..<length es]"
  unfolding groups_def using groups_from_indices [of None 0 es None] by simp

lemma concat_filter_subseq: "distinct (concat (map f xs)) \<Longrightarrow> distinct (concat (map f (filter P xs)))"
  by (induction xs) auto

lemma concat_apart:
  "distinct (concat xss) \<Longrightarrow> j < length xss \<Longrightarrow> k < length xss \<Longrightarrow> j \<noteq> k \<Longrightarrow> set (xss ! j) \<inter> set (xss ! k) = {}"
proof (induction xss arbitrary: j k)
  case (Cons xs xss)
  have away: "set xs \<inter> set (xss ! m) = {}" if "m < length xss" for m
  proof -
    have "set xs \<inter> \<Union> (set ` set xss) = {}" using Cons.prems(1) by simp
    then show ?thesis using nth_mem [OF that] by blast
  qed
  show ?case
    using Cons away [of "j - 1"] away [of "k - 1"] by (cases j; cases k) auto
qed simp

definition several :: "walked \<Rightarrow> bool" where
  "several e \<longleftrightarrow> wk_kind e = KFile \<and> 2 \<le> me_nlink (wk_meta e)"

definition name_before :: "walked list \<Rightarrow> nat \<Rightarrow> 64 word \<times> 64 word \<Rightarrow> nat option" where
  "name_before es n x = find (\<lambda>j. several (es ! j) \<and> inode_of (es ! j) = x) [0..<n]"

lemma find_snoc: "find P (xs @ [x]) = (case find P xs of Some y \<Rightarrow> Some y | None \<Rightarrow> if P x then Some x else None)"
  by (induction xs) auto

lemma name_before_Suc:
  "name_before es (Suc n) x = (case name_before es n x of Some j \<Rightarrow> Some j
     | None \<Rightarrow> if several (es ! n) \<and> inode_of (es ! n) = x then Some n else None)"
  by (simp add: name_before_def find_snoc)

lemma followers_from:
  "(\<And>x. map_of firsts x = name_before (pre @ es) (length pre) x) \<Longrightarrow>
     map_of (followers_from (length pre) es firsts) i =
       (if length pre \<le> i \<and> i < length (pre @ es) \<and> several ((pre @ es) ! i)
        then name_before (pre @ es) i (inode_of ((pre @ es) ! i)) else None)"
proof (induction es arbitrary: pre firsts)
  case (Cons e es)
  have here: "(pre @ e # es) ! length pre = e" by simp
  note step = name_before_Suc [of "pre @ e # es" "length pre", unfolded here]
  have sev: "(wk_kind e \<noteq> KFile \<or> me_nlink (wk_meta e) < 2) = (\<not> several e)" by (auto simp: several_def not_less)
  have tail: "map_of (followers_from (Suc (length pre)) es fs) i =
       (if Suc (length pre) \<le> i \<and> i < length (pre @ e # es) \<and> several ((pre @ e # es) ! i)
        then name_before (pre @ e # es) i (inode_of ((pre @ e # es) ! i)) else None)"
    if "\<And>x. map_of fs x = name_before (pre @ e # es) (Suc (length pre)) x" for fs
    using Cons.IH [of fs "pre @ [e]"] that by simp
  have i: "length pre \<le> i \<longleftrightarrow> i = length pre \<or> Suc (length pre) \<le> i" by auto
  show ?case
  proof (cases "several e \<and> map_of firsts (inode_of e) = None")
    case True
    then have "map_of ((inode_of e, length pre) # firsts) x = name_before (pre @ e # es) (Suc (length pre)) x" for x
      using Cons.prems step [of x] by (auto split: option.splits)
    note tail = tail [OF this]
    show ?thesis using True tail Cons.prems i unfolding followers_from.simps sev by auto
  next
    case False
    then have "map_of firsts x = name_before (pre @ e # es) (Suc (length pre)) x" for x
      using Cons.prems step [of x] by (auto split: option.splits)
    note tail = tail [OF this]
    show ?thesis using False tail Cons.prems [of "inode_of e"] i unfolding followers_from.simps sev
      by (auto split: option.splits)
  qed
qed auto

lemma followers_at:
  "map_of (followers es) i = (if i < length es \<and> several (es ! i) then name_before es i (inode_of (es ! i)) else None)"
  using followers_from [of "[]" "[]" es i] by (simp add: followers_def name_before_def)

lemma name_before_Some:
  "name_before es n x = Some j \<longleftrightarrow> j < n \<and> several (es ! j) \<and> inode_of (es ! j) = x
     \<and> (\<forall>k < j. \<not> (several (es ! k) \<and> inode_of (es ! k) = x))"
  unfolding name_before_def find_Some_iff
  by (auto simp: less_imp_le dest: less_trans)

lemma name_before_None:
  "name_before es n x = None \<longleftrightarrow> (\<forall>k < n. \<not> (several (es ! k) \<and> inode_of (es ! k) = x))"
  by (auto simp: name_before_def find_None_iff)

lemma followersD:
  assumes "map_of (followers es) i = Some first"
  shows "i < length es" "first < i" "several (es ! i)" "several (es ! first)" "inode_of (es ! first) = inode_of (es ! i)"
    and "map_of (followers es) first = None"
proof -
  have "i < length es \<and> several (es ! i) \<and> name_before es i (inode_of (es ! i)) = Some first"
    using assms by (auto simp: followers_at split: if_splits)
  then have all: "i < length es" "first < i" "several (es ! i)" "several (es ! first)" "inode_of (es ! first) = inode_of (es ! i)"
    "\<forall>k < first. \<not> (several (es ! k) \<and> inode_of (es ! k) = inode_of (es ! i))"
    by (simp_all add: name_before_Some)
  then show "i < length es" "first < i" "several (es ! i)" "several (es ! first)" "inode_of (es ! first) = inode_of (es ! i)"
    by simp_all
  have "name_before es first (inode_of (es ! first)) = None" using all by (simp add: name_before_None)
  then show "map_of (followers es) first = None" by (simp add: followers_at)
qed

end
