(* ===== verification/Copies.thy ===== *)
theory Copies
  imports Materialize
begin

text \<open>
  What a copy holds. The two passes of \<open>workspace/tree.rs\<close> answer alike on any number of workers, because no directory's
  share of the work writes what another's looks at; so the copy is the one a single thread makes,
  and that one holds the entries the exclusion list keeps.
\<close>

subsection \<open>Any number of workers\<close>

definition tidy :: "walked list \<Rightarrow> bool" where
  "tidy es \<longleftrightarrow> distinct (map wk_relative es)
    \<and> (\<forall>e \<in> set es. \<forall>f \<in> set es. strict_prefix (wk_relative e) (wk_relative f) \<longrightarrow> wk_kind e = KDirectory)"

lemma walk_tidy:
  assumes "wf_item t" and "is_folder t" and "walk root xs t = Inr (es, sk)"
  shows "tidy es"
proof -
  note es = walk_entries [OF assms]
  have "wk_kind e = KDirectory" if e: "e \<in> set es" and f: "f \<in> set es" and below: "strict_prefix (wk_relative e) (wk_relative f)" for e f
  proof -
    have "item_at (wk_relative f) t \<noteq> None" using es(2) [OF f] by (auto simp: entry_at_def split: option.splits)
    then have "folder_at (wk_relative e) t" using below by (rule folder_strictly_above)
    with entry_at_folder [OF es(2) [OF e]] show ?thesis by simp
  qed
  with above_first_distinct [OF es(1)] show ?thesis by (simp add: tidy_def)
qed

lemma path_of_eq:
  "tidy (cp_entries c) \<Longrightarrow> i < length (cp_entries c) \<Longrightarrow> j < length (cp_entries c) \<Longrightarrow> path_of c i = path_of c j \<longleftrightarrow> i = j"
  using nth_eq_iff_index_eq [of "map wk_relative (cp_entries c)" i j] by (simp add: tidy_def path_of_def)

lemma not_looked_at:
  assumes "tidy (cp_entries c)" and "i < length (cp_entries c)" and "wk_kind (cp_entries c ! i) \<noteq> KDirectory"
    and "I \<subseteq> {..<length (cp_entries c)}" and "i \<notin> I"
  shows "path_of c i \<notin> looked_at c I"
proof
  assume "path_of c i \<in> looked_at c I"
  then obtain j where j: "j \<in> I" "path_of c i = path_of c j \<or> strict_prefix (path_of c i) (path_of c j)"
    by (auto simp: looked_at_def set_above)
  then have len: "j < length (cp_entries c)" and "i \<noteq> j" using assms(4,5) by auto
  then have below: "strict_prefix (path_of c i) (path_of c j)" using path_of_eq [OF assms(1,2) len] j(2) by simp
  have "cp_entries c ! i \<in> set (cp_entries c)" "cp_entries c ! j \<in> set (cp_entries c)" using assms(2) len by simp_all
  with below assms(1,3) show False unfolding tidy_def path_of_def by blast
qed

lemma apart_indices:
  assumes "distinct (concat (map indices gs))" and "j < length gs" and "k < length gs" and "j \<noteq> k"
  shows "set (indices (gs ! j)) \<inter> set (indices (gs ! k)) = {}"
  using concat_apart [OF assms(1), of j k] assms(2-4) by simp

lemma copies_apart:
  assumes "tidy (cp_entries c)"
  shows "jobs_apart (\<lambda>k. copy_reads c (groups (cp_entries c) ! k)) (\<lambda>k. copy_writes c (groups (cp_entries c) ! k))
     (length (groups (cp_entries c))) (\<lambda>k. copies c (groups (cp_entries c) ! k))"
proof -
  let ?gs = "groups (cp_entries c)"
  have "copy_writes c (?gs ! j) \<inter> copy_reads c (?gs ! k) = {}" if jk: "j < length ?gs" "k < length ?gs" "j \<noteq> k" for j k
  proof -
    have "distinct (concat (map indices ?gs))" by (simp add: groups_indices)
    note away = apart_indices [OF this jk]
    have "path_of c i \<notin> copy_reads c (?gs ! k)" if i: "i \<in> set (indices (?gs ! j))" "copied_at c i" for i
      unfolding copy_reads_def by (rule not_looked_at [OF assms]) (use i away in \<open>auto simp: copied_at_def\<close>)
    then show ?thesis by (auto simp: copy_writes_def)
  qed
  then show ?thesis by (simp add: jobs_apart_def local_copies)
qed

lemma links_apart:
  assumes "tidy (cp_entries c)" and "cp_followers c = followers (cp_entries c)"
  shows "jobs_apart (\<lambda>k. link_reads c (linking c ! k)) (\<lambda>k. link_writes c (linking c ! k))
     (length (linking c)) (\<lambda>k. links c (linking c ! k))"
proof -
  let ?gs = "linking c"
  have "link_writes c (?gs ! j) \<inter> link_reads c (?gs ! k) = {}" if jk: "j < length ?gs" "k < length ?gs" "j \<noteq> k" for j k
  proof -
    have "distinct (concat (map indices ?gs))"
      unfolding linking_def by (rule concat_filter_subseq) (simp add: groups_indices)
    note away = apart_indices [OF this jk]
    have "path_of c i \<notin> link_reads c (?gs ! k)" if i: "i \<in> set (indices (?gs ! j))" "followed c i" for i
      unfolding link_reads_def
    proof (rule not_looked_at [OF assms(1)])
      let ?later = "{i \<in> set (indices (?gs ! k)). followed c i}"
      obtain made where made: "map_of (followers (cp_entries c)) i = Some made"
        using i(2) assms(2) by (auto simp: followed_def)
      note here = followersD [OF made]
      show "i < length (cp_entries c)" "wk_kind (cp_entries c ! i) \<noteq> KDirectory" using here by (simp_all add: several_def)
      have firsts: "m < length (cp_entries c) \<and> m \<noteq> i" if m: "m \<in> (\<lambda>i. the (map_of (cp_followers c) i)) ` ?later" for m
      proof -
        from m obtain l where "map_of (followers (cp_entries c)) l = Some m" using assms(2) by (auto simp: followed_def)
        note first = followersD [OF this]
        then show ?thesis using made by auto
      qed
      have "?later \<subseteq> {..<length (cp_entries c)}" by (auto simp: followed_def)
      then show "?later \<union> (\<lambda>i. the (map_of (cp_followers c) i)) ` ?later \<subseteq> {..<length (cp_entries c)}"
        using firsts by blast
      show "i \<notin> ?later \<union> (\<lambda>i. the (map_of (cp_followers c) i)) ` ?later" using firsts i(1) away by blast
    qed
    then show ?thesis by (auto simp: link_writes_def)
  qed
  then show ?thesis by (simp add: jobs_apart_def local_links)
qed

text \<open>Two results are the same as far as a caller can tell: the same report, or the same error.\<close>

definition agrees :: "(error + copied) \<times> dest \<Rightarrow> (error + copied) \<times> dest \<Rightarrow> bool" where
  "agrees x y \<longleftrightarrow> fst x = fst y \<and> (\<not> isl (fst x) \<longrightarrow> snd x = snd y)"

lemma agrees_then_do: "agrees x y \<Longrightarrow> agrees (then_do x f) (then_do y f)"
  by (cases x; cases y; cases "fst x") (auto simp: agrees_def)

lemma agrees_adding: "agrees x y \<Longrightarrow> agrees (adding r x) (adding r y)"
  by (cases x; cases y) (auto simp: agrees_def adding_def isl_map_sum)

lemma first_pass_agrees:
  assumes "may_run merge no_report (copies c) (groups (cp_entries c)) workers d res" and "tidy (cp_entries c)" and "undated d"
  shows "agrees res (run_alone merge (copies c) (groups (cp_entries c)) no_report d)"
proof -
  obtain a w where res: "res = (a, w)" by (cases res)
  have "after_jobs (\<lambda>k. copy_reads c (groups (cp_entries c) ! k)) (\<lambda>k. copy_writes c (groups (cp_entries c) ! k))
     (length (groups (cp_entries c))) (\<lambda>k. copies c (groups (cp_entries c) ! k)) d {} d"
    using copies_apart assms by (simp add: after_jobs_def)
  from copying.run_agrees [OF assms(1) [unfolded res] this] show ?thesis by (simp add: res agrees_def)
qed

lemma second_pass_agrees:
  assumes "may_run merge no_report (links c) (linking c) workers d res" and "tidy (cp_entries c)"
    and "cp_followers c = followers (cp_entries c)" and "undated d"
  shows "agrees res (run_alone merge (links c) (linking c) no_report d)"
proof -
  obtain a w where res: "res = (a, w)" by (cases res)
  have "after_jobs (\<lambda>k. link_reads c (linking c ! k)) (\<lambda>k. link_writes c (linking c ! k))
     (length (linking c)) (\<lambda>k. links c (linking c ! k)) d {} d"
    using links_apart assms by (simp add: after_jobs_def)
  from second_pass.run_agrees [OF assms(1) [unfolded res] this] show ?thesis by (simp add: res agrees_def)
qed

lemma copies_undated:
  assumes "undated d"
  shows "undated (snd (run_alone merge (copies c) gs r d))"
proof -
  have "local_to UNIV UNIV (copies c g)" for g using local_copies by (rule local_wider) simp_all
  then have "local_to UNIV UNIV (run_alone merge (copies c) gs r)" by (intro local_run) simp_all
  from local_toD(1) [OF this assms] show ?thesis .
qed

lemma contents_agree:
  assumes run: "may_contents c workers d res" and c: "tidy (cp_entries c)" "cp_followers c = followers (cp_entries c)"
    and d: "undated d"
  shows "agrees res (contents_alone c d)"
proof -
  let ?alone = "run_alone merge (copies c) (groups (cp_entries c)) no_report d"
  from run obtain first where first: "may_run merge no_report (copies c) (groups (cp_entries c)) workers d first"
    and rest: "if isl (fst first) \<or> cp_followers c = [] then res = first
           else \<exists>second. may_run merge no_report (links c) (linking c) workers (snd first) second
             \<and> res = adding (projr (fst first)) second" by (auto simp: may_contents_def)
  note same = first_pass_agrees [OF first c(1) d]
  show ?thesis
  proof (cases "isl (fst first) \<or> cp_followers c = []")
    case True
    with rest have "res = first" by simp
    with same True show ?thesis
      unfolding contents_alone_def by (cases ?alone; cases "fst ?alone") (auto simp: agrees_def)
  next
    case False
    then have alone: "?alone = first" using same by (simp add: agrees_def prod_eq_iff)
    from False rest obtain second where second: "may_run merge no_report (links c) (linking c) workers (snd first) second"
      "res = adding (projr (fst first)) second" by auto
    have "undated (snd first)" using copies_undated [OF d] unfolding alone [symmetric] .
    from agrees_adding [OF second_pass_agrees [OF second(1) c this]] show ?thesis
      using second(2) False by (cases first; cases "fst first") (auto simp: contents_alone_def alone)
  qed
qed

lemma contents_may: "\<exists>res. may_contents c workers d res"
proof -
  obtain first where first: "may_run merge no_report (copies c) (groups (cp_entries c)) workers d first"
    using copying.runs by fast
  obtain second where "may_run merge no_report (links c) (linking c) workers (snd first) second"
    using second_pass.runs by fast
  with first show ?thesis unfolding may_contents_def by metis
qed

subsection \<open>A loop that ends well\<close>

lemma run_alone_start:
  fixes f :: "'a \<Rightarrow> copying"
  shows "run_alone merge f xs (merge r s) d = adding r (run_alone merge f xs s d)"
proof (induction xs arbitrary: s d)
  case (Cons x xs)
  show ?case
    using Cons by (cases "f x d"; cases "fst (f x d)") (auto simp: adding_def reports.assoc)
qed (simp add: adding_def)

lemma run_alone_none: "run_alone merge f xs r d = adding r (run_alone merge f xs no_report d)"
  using run_alone_start [of f xs r no_report d] by simp

lemma run_alone_append:
  "run_alone merge f (xs @ ys) r d = then_do (run_alone merge f xs r d) (run_alone merge f ys)"
  by (induction xs arbitrary: r d) (auto split: prod.splits sum.splits)

lemma run_alone_concat:
  fixes f :: "'a \<Rightarrow> copying"
  shows "run_alone merge (\<lambda>g. run_alone merge f (ix g) no_report) gs r d = run_alone merge f (concat (map ix gs)) r d"
proof (induction gs arbitrary: r d)
  case (Cons g gs)
  then show ?case
    by (cases "run_alone merge f (ix g) no_report d"; cases "fst (run_alone merge f (ix g) no_report d)")
      (auto simp: run_alone_append run_alone_none [of f "ix g" r d] adding_def)
qed simp

lemma run_alone_skip:
  "(\<And>x d. x \<in> set xs \<Longrightarrow> \<not> P x \<Longrightarrow> f x d = (Inr no_report, d)) \<Longrightarrow>
     run_alone merge f (filter P xs) r d = run_alone merge f xs r d"
  by (induction xs arbitrary: r d) (auto split: prod.splits sum.splits)

lemma run_alone_Inr:
  assumes "run_alone merge f xs r d = (Inr r', d')" and "I [] r d"
    and "\<And>ys x r1 d1 s d2. prefix (ys @ [x]) xs \<Longrightarrow> I ys r1 d1 \<Longrightarrow> f x d1 = (Inr s, d2) \<Longrightarrow> I (ys @ [x]) (merge r1 s) d2"
  shows "I xs r' d'"
proof -
  have "run_alone merge f zs r1 d1 = (Inr r', d') \<Longrightarrow> ys @ zs = xs \<Longrightarrow> I ys r1 d1 \<Longrightarrow> I xs r' d'" for ys zs r1 d1
  proof (induction zs arbitrary: ys r1 d1)
    case (Cons z zs)
    obtain s d2 where z: "f z d1 = (Inr s, d2)" using Cons.prems(1) by (cases "f z d1"; cases "fst (f z d1)") auto
    have "prefix (ys @ [z]) xs" using Cons.prems(2) by (auto simp: prefix_def)
    from assms(3) [OF this Cons.prems(3) z] Cons.prems(1,2) z show ?case
      by (intro Cons.IH [of _ _ "ys @ [z]"]) simp_all
  qed simp
  from this [of xs r d "[]"] assms(1,2) show ?thesis by simp
qed

lemma run_alone_succeeds:
  assumes "I [] r d"
    and "\<And>ys x r1 d1. prefix (ys @ [x]) xs \<Longrightarrow> I ys r1 d1 \<Longrightarrow> \<exists>s d2. f x d1 = (Inr s, d2) \<and> I (ys @ [x]) (merge r1 s) d2"
  shows "\<exists>r' d'. run_alone merge f xs r d = (Inr r', d') \<and> I xs r' d'"
proof -
  have "ys @ zs = xs \<Longrightarrow> I ys r1 d1 \<Longrightarrow> \<exists>r' d'. run_alone merge f zs r1 d1 = (Inr r', d') \<and> I xs r' d'" for ys zs r1 d1
  proof (induction zs arbitrary: ys r1 d1)
    case (Cons z zs)
    have "prefix (ys @ [z]) xs" using Cons.prems(1) by (auto simp: prefix_def)
    from assms(2) [OF this Cons.prems(2)] obtain s d2 where "f z d1 = (Inr s, d2)" "I (ys @ [z]) (merge r1 s) d2" by blast
    with Cons.IH [of "ys @ [z]"] Cons.prems(1) show ?case by simp
  qed simp
  from this [of "[]" xs] assms(1) show ?thesis by simp
qed

lemma copies_flat: "run_alone merge (copies c) gs r d = run_alone merge (copy_one c) (concat (map indices gs)) r d"
  using run_alone_concat [of "copy_one c" indices gs r d] by (simp add: copies_def [abs_def])

lemma links_flat: "run_alone merge (links c) (linking c) r d = run_alone merge (link_one c) [0..<length (cp_entries c)] r d"
proof -
  have none: "links c g d = (Inr no_report, d)" if "\<not> holds_a_link c g" for g d
  proof -
    have "\<forall>i \<in> set (indices g). map_of (cp_followers c) i = None"
      using that by (auto simp: holds_a_link_def list_ex_iff)
    moreover have "\<forall>i \<in> set ks. map_of (cp_followers c) i = None \<Longrightarrow>
        run_alone merge (link_one c) ks no_report d = (Inr no_report, d)" for ks
      by (induction ks) (simp_all add: link_one_def)
    ultimately have "run_alone merge (link_one c) (indices g) no_report d = (Inr no_report, d)" by blast
    then show ?thesis by (simp add: links_def)
  qed
  have "run_alone merge (links c) (linking c) r d = run_alone merge (links c) (groups (cp_entries c)) r d"
    unfolding linking_def by (rule run_alone_skip) (rule none)
  then show ?thesis
    using run_alone_concat [of "link_one c" indices "groups (cp_entries c)" r d]
    by (simp add: links_def [abs_def] groups_indices)
qed

lemma contents_flat:
  "contents_alone c d = then_do (run_alone merge (copy_one c) [0..<length (cp_entries c)] no_report d)
     (\<lambda>r d1. adding r (run_alone merge (link_one c) [0..<length (cp_entries c)] no_report d1))"
proof -
  have "(\<lambda>r d1. if cp_followers c = [] then (Inr r, d1) else adding r (run_alone merge (links c) (linking c) no_report d1))
      = (\<lambda>r d1. adding r (run_alone merge (link_one c) [0..<length (cp_entries c)] no_report d1))"
  proof (intro ext)
    fix r d1
    have "run_alone merge (link_one c) xs no_report d1 = (Inr no_report, d1)" if "cp_followers c = []" for xs
      using that by (induction xs) (simp_all add: link_one_def)
    then show "(if cp_followers c = [] then (Inr r, d1) else adding r (run_alone merge (links c) (linking c) no_report d1))
        = adding r (run_alone merge (link_one c) [0..<length (cp_entries c)] no_report d1)"
      by (simp add: links_flat adding_def)
  qed
  then show ?thesis by (simp add: contents_alone_def copies_flat groups_indices)
qed

subsection \<open>What each phase leaves\<close>

text \<open>The directories.\<close>

definition fresh :: made where "fresh = MadeDir [] None None"

definition all_fresh :: "dest \<Rightarrow> bool" where
  "all_fresh d \<longleftrightarrow> (\<forall>q. dn_names d q \<in> {None, Some fresh})"

lemma all_fresh_undated: "all_fresh d \<Longrightarrow> undated d"
  unfolding all_fresh_def undated_def fresh_def by (metis made.inject(1) empty_iff insert_iff option.distinct(1) option.inject)

lemma made_dirs:
  "make_dirs c at qs d = (None, d') \<Longrightarrow> all_fresh d \<Longrightarrow>
     dn_nodes d' = dn_nodes d \<and> dn_names d' = (\<lambda>q. if q \<in> set qs then Some fresh else dn_names d q)"
proof (induction c at qs d arbitrary: d' rule: make_dirs.induct)
  case (2 c at q qs d)
  show ?case
  proof (cases "dn_names d q")
    case None
    have fresh: "all_fresh (d\<lparr>dn_names := (dn_names d)(q \<mapsto> fresh)\<rparr>)" using 2(4) by (simp add: all_fresh_def)
    from None 2(3) have free: "pf_denied (cp_platform c) ''mkdir'' q = None" "may_make q d"
      and rest: "make_dirs c at qs (make_name q (MadeDir [] None None) d) = (None, d')"
      by (auto split: option.splits if_splits)
    have "make_name q (MadeDir [] None None) d = d\<lparr>dn_names := (dn_names d)(q \<mapsto> fresh)\<rparr>"
      using make_name_undated [OF all_fresh_undated [OF 2(4)]] by (simp add: fresh_def)
    then have "make_dirs c at qs (d\<lparr>dn_names := (dn_names d)(q \<mapsto> fresh)\<rparr>) = (None, d')" using rest by simp
    then have "dn_nodes d' = dn_nodes d \<and> dn_names d' = (\<lambda>x. if x \<in> set qs then Some fresh else ((dn_names d)(q \<mapsto> fresh)) x)"
      using 2(1) [OF None free(1)] free(2) fresh
      by (simp add: fresh_def make_name_undated [OF all_fresh_undated [OF 2(4)]] cong: if_cong)
    then show ?thesis by (simp add: fun_eq_iff)
  next
    case (Some x)
    then have "x = fresh" using 2(4) unfolding all_fresh_def by (metis empty_iff insert_iff option.distinct(1) option.inject)
    then show ?thesis using 2(2) [OF Some] 2(3,4) Some by (auto simp: fresh_def intro!: ext)
  qed
qed (auto intro!: ext)

lemma set_above_self: "set (above p @ [p]) = {a. prefix a p}"
  by (auto simp: set_above strict_prefix_def)

lemma directories_done:
  assumes "directories c bare = (Inr r, d)"
  shows "all_fresh d" and "dn_nodes d q = None"
    and "dn_names d q \<noteq> None \<longleftrightarrow> q = [] \<or> (\<exists>e \<in> set (made_directories c). prefix q (wk_relative e))"
    and "r = no_report\<lparr>rp_directories := length (made_directories c)\<rparr>"
proof -
  define I where "I ys r1 d1 \<longleftrightarrow> r1 = no_report\<lparr>rp_directories := length ys\<rparr> \<and> all_fresh d1 \<and> dn_nodes d1 = (\<lambda>_. None)
      \<and> (\<forall>q. dn_names d1 q \<noteq> None \<longleftrightarrow> q = [] \<or> (\<exists>e \<in> set ys. prefix q (wk_relative e)))"
    for ys :: "walked list" and r1 d1
  have "I (made_directories c) r d"
  proof (rule run_alone_Inr [where f = "make_directory c" and I = I])
    show "run_alone merge (make_directory c) (made_directories c) no_report bare = (Inr r, d)"
      using assms by (simp add: directories_def)
    show "I [] no_report bare" by (simp add: I_def bare_def all_fresh_def fresh_def no_report_def)
    fix ys e r1 d1 s d2
    assume at: "I ys r1 d1" and step: "make_directory c e d1 = (Inr s, d2)"
    from step have made: "make_dirs c (wk_relative e) (above (wk_relative e) @ [wk_relative e]) d1 = (None, d2)"
      and s: "s = no_report\<lparr>rp_directories := 1\<rparr>"
      by (auto simp: make_directory_def split: prod.splits option.splits)
    have "dn_nodes d2 = dn_nodes d1 \<and> dn_names d2 = (\<lambda>q. if prefix q (wk_relative e) then Some fresh else dn_names d1 q)"
      using made_dirs [OF made] at unfolding set_above_self I_def by simp
    then show "I (ys @ [e]) (merge r1 s) d2"
      using at s by (auto simp: I_def all_fresh_def merge_def no_report_def)
  qed
  then show "all_fresh d" "dn_nodes d q = None"
    "dn_names d q \<noteq> None \<longleftrightarrow> q = [] \<or> (\<exists>e \<in> set (made_directories c). prefix q (wk_relative e))"
    "r = no_report\<lparr>rp_directories := length (made_directories c)\<rparr>" by (simp_all add: I_def)
qed

text \<open>The copies.\<close>

definition lands :: "copier \<Rightarrow> walked \<Rightarrow> made" where
  "lands c e = (if wk_kind e = KFile then MadeFile (wk_relative e)
     else MadeLink (the (target_of (cp_tree c) (wk_relative e))) (Some (times_of (wk_meta e))))"

definition dressed :: "copier \<Rightarrow> walked \<Rightarrow> file_node" where
  "dressed c e = \<lparr>fn_source = wk_relative e, fn_attrs = projr (pf_attrs (cp_platform c) (wk_relative e)),
     fn_mode = me_mode (wk_meta e), fn_times = Some (times_of (wk_meta e))\<rparr>"

definition is_copied :: "copier \<Rightarrow> nat \<Rightarrow> dest \<Rightarrow> bool" where
  "is_copied c i d \<longleftrightarrow> (let e = cp_entries c ! i in dn_names d (wk_relative e) = Some (lands c e)
     \<and> (wk_kind e = KFile \<longrightarrow> dn_nodes d (wk_relative e) = Some (dressed c e) \<and> \<not> isl (pf_attrs (cp_platform c) (wk_relative e)))
     \<and> (wk_kind e = KSymlink \<longrightarrow> target_of (cp_tree c) (wk_relative e) \<noteq> None))"

lemma xattr_copy_Inr:
  "xattr_copy c e nd = (Inr n, nd') \<Longrightarrow>
     \<exists>names. pf_attrs (cp_platform c) (wk_relative e) = Inr names \<and> nd' = nd\<lparr>fn_attrs := names\<rparr>"
  by (auto simp: xattr_copy_def split: sum.splits if_splits)

lemma attributes_Inr:
  "attributes c e nd = (Inr n, nd') \<Longrightarrow>
     \<exists>names m. pf_attrs (cp_platform c) (wk_relative e) = Inr names \<and> nd' = nd\<lparr>fn_attrs := names, fn_mode := m\<rparr>"
  by (cases nd) (fastforce simp: attributes_def dest: xattr_copy_Inr split: option.splits if_splits)

lemma dress_Inr:
  assumes "dress c e \<lparr>fn_source = wk_relative e, fn_attrs = [], fn_mode = m, fn_times = None\<rparr> = (Inr n, nd)"
  shows "nd = dressed c e" and "\<not> isl (pf_attrs (cp_platform c) (wk_relative e))"
  using assms by (auto simp: dress_def dressed_def dest!: attributes_Inr split: prod.splits sum.splits option.splits)

lemma copy_one_Inr:
  assumes step: "copy_one c i d = (Inr s, d')" and at: "copied_at c i" and d: "undated d"
  shows "is_copied c i d'" and "undated d'" and "q \<noteq> path_of c i \<Longrightarrow> dn_names d' q = dn_names d q \<and> dn_nodes d' q = dn_nodes d q"
    and "rp_files s = (if wk_kind (cp_entries c ! i) = KFile then 1 else 0)"
    and "rp_symlinks s = (if wk_kind (cp_entries c ! i) = KFile then 0 else 1)"
    and "rp_hardlinks s = 0" "rp_directories s = 0" "rp_excluded s = 0"
proof -
  let ?e = "cp_entries c ! i"
  have fact: "is_copied c i d' \<and> undated d' \<and> (\<forall>q. q \<noteq> path_of c i \<longrightarrow> dn_names d' q = dn_names d q \<and> dn_nodes d' q = dn_nodes d q)
      \<and> rp_files s = (if wk_kind ?e = KFile then 1 else 0) \<and> rp_symlinks s = (if wk_kind ?e = KFile then 0 else 1)
      \<and> rp_hardlinks s = 0 \<and> rp_directories s = 0 \<and> rp_excluded s = 0"
  proof (cases "wk_kind ?e")
    case KFile
    then have "put_file c ?e d = (Inr s, d')" using step at by (simp add: copy_one_def copied_at_def)
    then obtain put where moved: "pf_put (cp_platform c) (wk_relative ?e) (wk_meta ?e) = Inr put" "may_make (wk_relative ?e) d"
      by (auto simp: put_file_def split: sum.splits if_splits)
    obtain a nd where put: "dress c ?e \<lparr>fn_source = wk_relative ?e, fn_attrs = [], fn_mode = me_mode (wk_meta ?e), fn_times = None\<rparr> = (a, nd)"
      by fastforce
    from \<open>put_file c ?e d = (Inr s, d')\<close> obtain r where a: "a = Inr r"
      and d': "d' = (make_name (wk_relative ?e) (MadeFile (wk_relative ?e)) d)\<lparr>dn_nodes := (dn_nodes d)(wk_relative ?e \<mapsto> nd)\<rparr>"
      and s: "s = no_report\<lparr>rp_files := 1, rp_bytes := pu_bytes put, rp_copied := (if pu_shared put then 0 else 1), rp_attributes := r\<rparr>"
      by (cases a) (simp_all add: put_file_def moved put)
    note put = put [unfolded a]
    show ?thesis
      using dress_Inr [OF put] KFile d undated_new
      by (auto simp: s d' is_copied_def Let_def lands_def make_name_undated path_of_def no_report_def)
  next
    case KSymlink
    then have "put_symlink c ?e d = (Inr s, d')" using step at by (simp add: copy_one_def copied_at_def)
    then show ?thesis
      using KSymlink d undated_new
      by (auto simp: put_symlink_def is_copied_def Let_def lands_def make_name_undated path_of_def no_report_def
          split: option.splits if_splits)
  qed (use at in \<open>simp_all add: copied_at_def\<close>)
  then show "is_copied c i d'" "undated d'" "q \<noteq> path_of c i \<Longrightarrow> dn_names d' q = dn_names d q \<and> dn_nodes d' q = dn_nodes d q"
    "rp_files s = (if wk_kind ?e = KFile then 1 else 0)" "rp_symlinks s = (if wk_kind ?e = KFile then 0 else 1)"
    "rp_hardlinks s = 0" "rp_directories s = 0" "rp_excluded s = 0" by simp_all
qed

lemma copy_one_other: "\<not> copied_at c i \<Longrightarrow> copy_one c i d = (Inr no_report, d)"
  by (auto simp: copied_at_def copy_one_def split: entry_kind.splits)

definition indexes :: "copier \<Rightarrow> nat list" where
  "indexes c = [0..<length (cp_entries c)]"

lemma prefix_indexes: "prefix (ys @ [i]) (indexes c) \<Longrightarrow> i < length (cp_entries c) \<and> i \<notin> set ys \<and> set ys \<subseteq> {..<length (cp_entries c)}"
proof -
  assume "prefix (ys @ [i]) (indexes c)"
  then obtain zs where zs: "indexes c = (ys @ [i]) @ zs" by (auto simp: prefix_def)
  have "distinct (indexes c)" "set (indexes c) = {..<length (cp_entries c)}" by (auto simp: indexes_def)
  with zs show ?thesis by auto
qed

lemma merge_parts:
  "rp_files (merge a b) = rp_files a + rp_files b" "rp_directories (merge a b) = rp_directories a + rp_directories b"
  "rp_symlinks (merge a b) = rp_symlinks a + rp_symlinks b" "rp_hardlinks (merge a b) = rp_hardlinks a + rp_hardlinks b"
  "rp_excluded (merge a b) = rp_excluded a + rp_excluded b"
  by (simp_all add: merge_def)

lemma no_report_parts:
  "rp_files no_report = 0" "rp_directories no_report = 0" "rp_symlinks no_report = 0" "rp_hardlinks no_report = 0" "rp_excluded no_report = 0"
  by (simp_all add: no_report_def)

lemma is_copied_same:
  "is_copied c i d \<Longrightarrow> dn_names d' (path_of c i) = dn_names d (path_of c i) \<Longrightarrow> dn_nodes d' (path_of c i) = dn_nodes d (path_of c i) \<Longrightarrow>
     is_copied c i d'"
  by (simp add: is_copied_def Let_def path_of_def)

lemma copies_done:
  assumes run: "run_alone merge (copy_one c) (indexes c) no_report d = (Inr r, d')" and c: "tidy (cp_entries c)" and d: "undated d"
  shows "undated d'" and "copied_at c i \<Longrightarrow> is_copied c i d'"
    and "q \<notin> path_of c ` Collect (copied_at c) \<Longrightarrow> dn_names d' q = dn_names d q \<and> dn_nodes d' q = dn_nodes d q"
    and "rp_files r = length (filter (\<lambda>i. copied_at c i \<and> wk_kind (cp_entries c ! i) = KFile) (indexes c))"
    and "rp_symlinks r = length (filter (\<lambda>i. copied_at c i \<and> wk_kind (cp_entries c ! i) \<noteq> KFile) (indexes c))"
    and "rp_hardlinks r = 0" "rp_directories r = 0" "rp_excluded r = 0"
proof -
  define I where "I ys r1 d1 \<longleftrightarrow> undated d1 \<and> (\<forall>i \<in> set ys. copied_at c i \<longrightarrow> is_copied c i d1)
      \<and> (\<forall>q. q \<notin> path_of c ` Collect (copied_at c) \<longrightarrow> dn_names d1 q = dn_names d q \<and> dn_nodes d1 q = dn_nodes d q)
      \<and> rp_files r1 = length (filter (\<lambda>i. copied_at c i \<and> wk_kind (cp_entries c ! i) = KFile) ys)
      \<and> rp_symlinks r1 = length (filter (\<lambda>i. copied_at c i \<and> wk_kind (cp_entries c ! i) \<noteq> KFile) ys)
      \<and> rp_hardlinks r1 = 0 \<and> rp_directories r1 = 0 \<and> rp_excluded r1 = 0" for ys and r1 :: copied and d1
  have "I (indexes c) r d'"
  proof (rule run_alone_Inr [where I = I, OF run])
    show "I [] no_report d" using d by (simp add: I_def no_report_parts)
    fix ys i r1 d1 s d2
    assume pre: "prefix (ys @ [i]) (indexes c)" and at: "I ys r1 d1" and step: "copy_one c i d1 = (Inr s, d2)"
    note i = prefix_indexes [OF pre]
    show "I (ys @ [i]) (merge r1 s) d2"
    proof (cases "copied_at c i")
      case True
      have "undated d1" using at by (simp add: I_def)
      note one = copy_one_Inr [OF step True this]
      have "is_copied c j d2" if j: "j \<in> set ys" "copied_at c j" for j
      proof -
        have "path_of c j \<noteq> path_of c i" using path_of_eq [OF c, of j i] i j by auto
        from one(3) [OF this] show ?thesis using is_copied_same [of c j d1 d2] at j by (simp add: I_def)
      qed
      moreover have "dn_names d2 q = dn_names d q \<and> dn_nodes d2 q = dn_nodes d q" if q: "q \<notin> path_of c ` Collect (copied_at c)" for q
        using one(3) [of q] q True at by (auto simp: I_def)
      ultimately show ?thesis using at one(1,2,4-8) True by (simp add: I_def merge_parts)
    next
      case False
      with step have "s = no_report" "d2 = d1" by (simp_all add: copy_one_other)
      with at False show ?thesis by (simp add: I_def)
    qed
  qed
  then show "undated d'" "q \<notin> path_of c ` Collect (copied_at c) \<Longrightarrow> dn_names d' q = dn_names d q \<and> dn_nodes d' q = dn_nodes d q"
    "rp_files r = length (filter (\<lambda>i. copied_at c i \<and> wk_kind (cp_entries c ! i) = KFile) (indexes c))"
    "rp_symlinks r = length (filter (\<lambda>i. copied_at c i \<and> wk_kind (cp_entries c ! i) \<noteq> KFile) (indexes c))"
    "rp_hardlinks r = 0" "rp_directories r = 0" "rp_excluded r = 0"
    unfolding I_def by blast+
  show "is_copied c i d'" if "copied_at c i"
    using \<open>I (indexes c) r d'\<close> that by (simp add: I_def indexes_def copied_at_def)
qed

text \<open>The links.\<close>

definition first_of :: "copier \<Rightarrow> nat \<Rightarrow> nat" where
  "first_of c i = the (map_of (cp_followers c) i)"

lemma link_one_other: "\<not> followed c i \<Longrightarrow> link_one c i d = (Inr no_report, d)"
  by (auto simp: followed_def link_one_def split: option.splits)

lemma link_one_Inr:
  assumes step: "link_one c i d = (Inr s, d')" and at: "followed c i" and d: "undated d"
    and first: "first_of c i < length (cp_entries c)"
  shows "s = no_report\<lparr>rp_hardlinks := 1\<rparr>" and "undated d'" and "dn_nodes d' = dn_nodes d"
    and "dn_names d' = (dn_names d)(path_of c i := dn_names d (path_of c (first_of c i)))"
proof -
  obtain m where m: "map_of (cp_followers c) i = Some m" "m = first_of c i" "i < length (cp_entries c)"
    using at by (auto simp: followed_def first_of_def)
  have fact: "s = no_report\<lparr>rp_hardlinks := 1\<rparr> \<and> undated d' \<and> dn_nodes d' = dn_nodes d
      \<and> dn_names d' = (dn_names d)(path_of c i := dn_names d (path_of c (first_of c i)))"
    using step m first d undated_new [OF d]
    by (auto simp: link_one_def Let_def path_of_def make_name_undated split: option.splits if_splits made.splits)
  then show "s = no_report\<lparr>rp_hardlinks := 1\<rparr>" "undated d'" "dn_nodes d' = dn_nodes d"
    "dn_names d' = (dn_names d)(path_of c i := dn_names d (path_of c (first_of c i)))" by simp_all
qed

lemma first_facts:
  assumes "cp_followers c = followers (cp_entries c)" and "followed c i"
  shows "first_of c i < length (cp_entries c)" "\<not> followed c (first_of c i)" "several (cp_entries c ! i)"
    "several (cp_entries c ! first_of c i)" "inode_of (cp_entries c ! first_of c i) = inode_of (cp_entries c ! i)"
    "first_of c i \<noteq> i" "copied_at c (first_of c i)"
proof -
  obtain m where "map_of (followers (cp_entries c)) i = Some m" "m = first_of c i"
    using assms by (auto simp: followed_def first_of_def)
  with followersD [of "cp_entries c" i m] assms
  show "first_of c i < length (cp_entries c)" "\<not> followed c (first_of c i)" "several (cp_entries c ! i)"
    "several (cp_entries c ! first_of c i)" "inode_of (cp_entries c ! first_of c i) = inode_of (cp_entries c ! i)"
    "first_of c i \<noteq> i" "copied_at c (first_of c i)"
    by (auto simp: followed_def copied_at_def several_def)
qed

lemma unlinked:
  assumes "tidy (cp_entries c)" and "i < length (cp_entries c)" and "\<not> followed c i"
  shows "path_of c i \<notin> path_of c ` Collect (followed c)"
proof
  assume "path_of c i \<in> path_of c ` Collect (followed c)"
  then obtain j where j: "followed c j" "path_of c i = path_of c j" by blast
  then have "i = j" using path_of_eq [OF assms(1,2), of j] by (simp add: followed_def)
  with j(1) assms(3) show False by simp
qed

lemma links_done:
  assumes run: "run_alone merge (link_one c) (indexes c) no_report d = (Inr r, d')" and c: "tidy (cp_entries c)"
    and fs: "cp_followers c = followers (cp_entries c)" and d: "undated d"
  shows "undated d'" and "dn_nodes d' = dn_nodes d"
    and "followed c i \<Longrightarrow> dn_names d' (path_of c i) = dn_names d (path_of c (first_of c i))"
    and "q \<notin> path_of c ` Collect (followed c) \<Longrightarrow> dn_names d' q = dn_names d q"
    and "r = no_report\<lparr>rp_hardlinks := length (filter (followed c) (indexes c))\<rparr>"
proof -
  define I where "I ys r1 d1 \<longleftrightarrow> undated d1 \<and> dn_nodes d1 = dn_nodes d
      \<and> (\<forall>i \<in> set ys. followed c i \<longrightarrow> dn_names d1 (path_of c i) = dn_names d (path_of c (first_of c i)))
      \<and> (\<forall>q. q \<notin> path_of c ` Collect (followed c) \<longrightarrow> dn_names d1 q = dn_names d q)
      \<and> r1 = no_report\<lparr>rp_hardlinks := length (filter (followed c) ys)\<rparr>" for ys r1 d1
  have "I (indexes c) r d'"
  proof (rule run_alone_Inr [where I = I, OF run])
    show "I [] no_report d" using d by (simp add: I_def no_report_def)
    fix ys i r1 d1 s d2
    assume pre: "prefix (ys @ [i]) (indexes c)" and at: "I ys r1 d1" and step: "link_one c i d1 = (Inr s, d2)"
    note i = prefix_indexes [OF pre]
    show "I (ys @ [i]) (merge r1 s) d2"
    proof (cases "followed c i")
      case True
      note first = first_facts [OF fs True]
      have "undated d1" using at by (simp add: I_def)
      note one = link_one_Inr [OF step True this first(1)]
      have "path_of c (first_of c i) \<notin> path_of c ` Collect (followed c)" by (rule unlinked [OF c first(1,2)])
      then have from_first: "dn_names d1 (path_of c (first_of c i)) = dn_names d (path_of c (first_of c i))"
        using at by (simp add: I_def)
      have "path_of c j \<noteq> path_of c i" if "j \<in> set ys" for j
        using path_of_eq [OF c, of j i] i that by auto
      then show ?thesis using at one from_first True by (auto simp: I_def merge_def no_report_def)
    next
      case False
      with step have "s = no_report" "d2 = d1" by (simp_all add: link_one_other)
      with at False show ?thesis by (simp add: I_def)
    qed
  qed
  then show "undated d'" "dn_nodes d' = dn_nodes d" "q \<notin> path_of c ` Collect (followed c) \<Longrightarrow> dn_names d' q = dn_names d q"
    "r = no_report\<lparr>rp_hardlinks := length (filter (followed c) (indexes c))\<rparr>"
    unfolding I_def by blast+
  show "dn_names d' (path_of c i) = dn_names d (path_of c (first_of c i))" if "followed c i"
    using \<open>I (indexes c) r d'\<close> that by (simp add: I_def indexes_def followed_def)
qed

text \<open>The directories again, once all is in them.\<close>

definition finished :: "string list \<Rightarrow> meta \<Rightarrow> made" where
  "finished as m = MadeDir as (Some (me_mode m)) (Some (times_of m))"

lemma finish_one_Inr:
  assumes "finish_one c e d = (Inr s, d')" and "dn_names d (wk_relative e) = Some (MadeDir as md ts)"
  shows "s = no_report" and "d' = d\<lparr>dn_names := (dn_names d)(wk_relative e \<mapsto> finished as (wk_meta e))\<rparr>"
  using assms by (auto simp: finish_one_def chmod_dir_def date_dir_def finished_def split: option.splits if_splits)

lemma finish_done:
  assumes run: "finish c d = (Inr r, d')" and c: "tidy (cp_entries c)" "\<forall>e \<in> set (cp_entries c). wk_relative e \<noteq> []"
    and dirs: "\<forall>e \<in> set (made_directories c). \<exists>md ts. dn_names d (wk_relative e) = Some (MadeDir [] md ts)"
    and root: "dn_names d [] = Some (MadeDir [] md None)"
  shows "dn_nodes d' = dn_nodes d"
    and "e \<in> set (made_directories c) \<Longrightarrow> dn_names d' (wk_relative e) = Some (finished [] (wk_meta e))"
    and "\<exists>names. pf_attrs (cp_platform c) [] = Inr names
      \<and> dn_names d' [] = Some (MadeDir names (Some (me_mode (meta_of (cp_tree c)))) None)"
    and "q \<noteq> [] \<Longrightarrow> q \<notin> wk_relative ` set (made_directories c) \<Longrightarrow> dn_names d' q = dn_names d q"
proof -
  let ?es = "rev (made_directories c)"
  from run obtain r1 d1 where loop: "run_alone merge (finish_one c) ?es no_report d = (Inr r1, d1)" and last: "finish_root c d1 = (Inr r, d')"
    by (auto simp: finish_def split: prod.splits sum.splits)
  have distinct: "distinct (map wk_relative ?es)"
    using c(1) by (simp add: tidy_def made_directories_def distinct_map_filter rev_map [symmetric])
  define I where "I ys r2 d2 \<longleftrightarrow> dn_nodes d2 = dn_nodes d
      \<and> (\<forall>e \<in> set ys. dn_names d2 (wk_relative e) = Some (finished [] (wk_meta e)))
      \<and> (\<forall>q. q \<notin> wk_relative ` set ys \<longrightarrow> dn_names d2 q = dn_names d q)" for ys :: "walked list" and r2 :: copied and d2 :: dest
  have at: "I ?es r1 d1"
  proof (rule run_alone_Inr [where I = I, OF loop])
    show "I [] no_report d" by (simp add: I_def)
    fix ys e r2 d2 s d3
    assume pre: "prefix (ys @ [e]) ?es" and at: "I ys r2 d2" and step: "finish_one c e d2 = (Inr s, d3)"
    from pre obtain zs where zs: "?es = (ys @ [e]) @ zs" by (auto simp: prefix_def)
    have new: "wk_relative e \<notin> wk_relative ` set ys" using distinct unfolding zs by auto
    have "e \<in> set ?es" unfolding zs by simp
    then obtain md ts where "dn_names d2 (wk_relative e) = Some (MadeDir [] md ts)" using at new dirs by (auto simp: I_def)
    note d3 = finish_one_Inr(2) [OF step this]
    have "\<forall>f \<in> set ys. wk_relative f \<noteq> wk_relative e" using new by (metis image_eqI)
    then show "I (ys @ [e]) (merge r2 s) d3" using at by (simp add: I_def d3)
  qed
  have away: "[] \<notin> wk_relative ` set ?es" using c(2) by (auto simp: made_directories_def)
  then have "dn_names d1 [] = Some (MadeDir [] md None)" using at root by (simp add: I_def)
  with last obtain names where names: "pf_attrs (cp_platform c) [] = Inr names"
    "d' = d1\<lparr>dn_names := (dn_names d1)([] \<mapsto> MadeDir names (Some (me_mode (meta_of (cp_tree c)))) None)\<rparr>"
    by (auto simp: finish_root_def chmod_dir_def split: sum.splits option.splits if_splits)
  show "dn_nodes d' = dn_nodes d" using at names(2) by (simp add: I_def)
  show "\<exists>names. pf_attrs (cp_platform c) [] = Inr names
      \<and> dn_names d' [] = Some (MadeDir names (Some (me_mode (meta_of (cp_tree c)))) None)"
    using names by simp
  show "dn_names d' (wk_relative e) = Some (finished [] (wk_meta e))" if "e \<in> set (made_directories c)"
  proof -
    have "wk_relative e \<noteq> []" using that c(2) by (simp add: made_directories_def)
    then show ?thesis using at names(2) that by (simp add: I_def)
  qed
  show "dn_names d' q = dn_names d q" if "q \<noteq> []" "q \<notin> wk_relative ` set (made_directories c)"
    using at names(2) that by (simp add: I_def)
qed

subsection \<open>The whole copy\<close>

text \<open>What \<open>prepare\<close> hands on: a walk of the tree, parents first.\<close>

definition ready :: "excludes \<Rightarrow> item \<Rightarrow> copier \<Rightarrow> bool" where
  "ready xs t c \<longleftrightarrow> tidy (cp_entries c) \<and> cp_followers c = followers (cp_entries c) \<and> cp_tree c = t
    \<and> above_first (cp_entries c)
    \<and> (\<forall>e \<in> set (cp_entries c). entry_at t (wk_relative e) = Some e \<and> wk_relative e \<noteq> [])
    \<and> wk_relative ` set (cp_entries c) = {q. kept_path xs t q}"

lemma prepare_ready:
  assumes "prepare pf src dst xs t there = Inr (c, r)" and "wf_item t" and "is_folder t"
  shows "ready xs t c" and "cp_platform c = pf"
proof -
  from assms(1) obtain es sk where es: "walk src xs t = Inr (es, sk)" "c = new_copier src dst t pf es"
    by (auto simp: prepare_def split: option.splits sum.splits)
  note walked = walk_entries [OF assms(2,3) es(1)]
  have "wk_relative e \<noteq> []" if "e \<in> set es" for e
  proof -
    have "wk_relative e \<in> {q. kept_path xs t q}" using that walked(3) by blast
    then show ?thesis by (simp add: kept_path_def)
  qed
  then show "ready xs t c" "cp_platform c = pf"
    using walk_tidy [OF assms(2,3) es(1)] walked by (simp_all add: ready_def es(2) new_copier_def)
qed

lemma ready_above:
  assumes "ready xs t c" and "e \<in> set (cp_entries c)" and "strict_prefix q (wk_relative e)" and "q \<noteq> []"
  shows "q \<in> wk_relative ` set (made_directories c)"
proof -
  have e: "entry_at t (wk_relative e) = Some e" "wk_relative e \<in> {q. kept_path xs t q}"
    using assms(1,2) unfolding ready_def by blast+
  then have "item_at (wk_relative e) t \<noteq> None" by (auto simp: entry_at_def split: option.splits)
  then have folder: "folder_at q t" using assms(3) by (rule folder_strictly_above)
  have "\<not> excludes_path xs q" using e(2) excludes_under [of xs q] assms(3) by (auto simp: kept_path_def strict_prefix_def)
  moreover have "entry_at t q \<noteq> None" using folder by (auto simp: folder_at_Some entry_at_def)
  ultimately have "kept_path xs t q" using assms(4) by (simp add: kept_path_def)
  then obtain f where f: "f \<in> set (cp_entries c)" "wk_relative f = q"
    using assms(1) unfolding ready_def by (metis (no_types, lifting) imageE mem_Collect_eq)
  have "entry_at t q = Some f" using assms(1) f unfolding ready_def by blast
  then have "wk_kind f = KDirectory" using folder entry_at_folder by blast
  with f show ?thesis by (auto simp: made_directories_def)
qed

lemma entry_at_kind: "entry_at t q = Some e \<Longrightarrow> wk_kind e \<noteq> KOther"
  by (auto simp: entry_at_def split: option.splits if_splits)

lemma directories_at:
  assumes "ready xs t c" and "directories c bare = (Inr r, d)"
  shows "dn_names d q = (if q = [] \<or> q \<in> wk_relative ` set (made_directories c) then Some fresh else None)"
proof -
  have "(\<exists>e \<in> set (made_directories c). prefix q (wk_relative e)) \<longleftrightarrow> q \<in> wk_relative ` set (made_directories c)" if "q \<noteq> []"
    using ready_above [OF assms(1) _ _ that] by (force simp: made_directories_def strict_prefix_def)
  then have "dn_names d q \<noteq> None \<longleftrightarrow> q = [] \<or> q \<in> wk_relative ` set (made_directories c)"
    using directories_done(3) [OF assms(2), of q] by blast
  moreover have "dn_names d q \<in> {None, Some fresh}" using directories_done(1) [OF assms(2)] by (simp add: all_fresh_def)
  ultimately show ?thesis by auto
qed

text \<open>The file a kept name holds: the first name the walk met of it, where it has several.\<close>

definition holder :: "copier \<Rightarrow> nat \<Rightarrow> nat" where
  "holder c i = (if followed c i then first_of c i else i)"

definition in_copy :: "copier \<Rightarrow> nat \<Rightarrow> dest \<Rightarrow> bool" where
  "in_copy c i d \<longleftrightarrow> (let e = cp_entries c ! i; x = dn_names d (wk_relative e) in
     case wk_kind e of
       KDirectory \<Rightarrow> x = Some (finished [] (wk_meta e))
     | KSymlink \<Rightarrow> (\<exists>to. target_of (cp_tree c) (wk_relative e) = Some to \<and> x = Some (MadeLink to (Some (times_of (wk_meta e)))))
     | KFile \<Rightarrow> x = Some (MadeFile (path_of c (holder c i)))
         \<and> dn_nodes d (path_of c (holder c i)) = Some (dressed c (cp_entries c ! holder c i))
         \<and> \<not> isl (pf_attrs (cp_platform c) (path_of c (holder c i)))
     | KOther \<Rightarrow> False)"

lemma copy_at:
  assumes c: "ready xs t c" and dirs: "directories c bare = (Inr r1, d1)" and mid: "contents_alone c d1 = (Inr r2, d2)"
    and fin: "finish c d2 = (Inr r3, d3)"
  shows "i < length (cp_entries c) \<Longrightarrow> in_copy c i d3"
    and "q \<noteq> [] \<Longrightarrow> \<not> kept_path xs t q \<Longrightarrow> dn_names d3 q = None"
    and "\<exists>names. pf_attrs (cp_platform c) [] = Inr names \<and> dn_names d3 [] = Some (MadeDir names (Some (me_mode (meta_of t))) None)"
    and "rp_files r2 + rp_hardlinks r2 = length (filter (\<lambda>e. wk_kind e = KFile) (cp_entries c))"
    and "rp_symlinks r2 = length (filter (\<lambda>e. wk_kind e = KSymlink) (cp_entries c))"
    and "rp_hardlinks r2 = length (filter (followed c) (indexes c))"
    and "rp_directories r2 = 0" "rp_excluded r2 = 0"
    and "rp_files r2 = length (filter (\<lambda>i. wk_kind (cp_entries c ! i) = KFile \<and> \<not> followed c i) (indexes c))"
proof -
  let ?es = "cp_entries c" and ?dirs = "wk_relative ` set (made_directories c)"
  have tidy: "tidy ?es" and fs: "cp_followers c = followers ?es" and ne: "\<forall>e \<in> set ?es. wk_relative e \<noteq> []"
    and paths: "wk_relative ` set ?es = {q. kept_path xs t q}" and tree: "cp_tree c = t"
    using c by (simp_all add: ready_def)
  have others: "wk_kind e \<noteq> KOther" if "e \<in> set ?es" for e
    using c that entry_at_kind unfolding ready_def by blast
  note at1 = directories_at [OF c dirs] and undated1 = all_fresh_undated [OF directories_done(1) [OF dirs]]
  from mid obtain ra da rb where copies: "run_alone merge (copy_one c) (indexes c) no_report d1 = (Inr ra, da)"
    and links: "run_alone merge (link_one c) (indexes c) no_report da = (Inr rb, d2)" and r2: "r2 = merge ra rb"
  proof -
    obtain a da where a: "run_alone merge (copy_one c) (indexes c) no_report d1 = (a, da)" by fastforce
    obtain b db where b: "run_alone merge (link_one c) (indexes c) no_report da = (b, db)" by fastforce
    show thesis
      using mid a b that unfolding contents_flat indexes_def by (cases a; cases b) (auto simp: adding_def)
  qed
  note cop = copies_done [OF copies tidy undated1]
  note linked = links_done [OF links tidy fs cop(1)]
  have not_dir: "path_of c i \<notin> ?dirs" if "i < length ?es" "wk_kind (?es ! i) \<noteq> KDirectory" for i
  proof
    assume "path_of c i \<in> ?dirs"
    then obtain j where j: "j < length ?es" "wk_kind (?es ! j) = KDirectory" "path_of c i = path_of c j"
      by (auto simp: made_directories_def path_of_def in_set_conv_nth)
    with path_of_eq [OF tidy that(1) j(1)] that(2) show False by simp
  qed
  have kind_file: "wk_kind (?es ! i) = KFile" if "followed c i" for i
    using first_facts(3) [OF fs that] by (simp add: several_def)
  have copied: "copied_at c i \<longleftrightarrow> i < length ?es \<and> \<not> followed c i \<and> wk_kind (?es ! i) \<noteq> KDirectory" for i
    using others [of "?es ! i"] by (cases "wk_kind (?es ! i)") (auto simp: copied_at_def followed_def)
  have untouched: "dn_names d2 q = dn_names d1 q" if "\<And>i. i < length ?es \<Longrightarrow> wk_kind (?es ! i) \<noteq> KDirectory \<Longrightarrow> q \<noteq> path_of c i" for q
  proof -
    have "q \<notin> path_of c ` Collect (copied_at c)" using that copied by blast
    moreover have "q \<noteq> path_of c i" if "followed c i" for i
      using \<open>\<And>i. i < length ?es \<Longrightarrow> wk_kind (?es ! i) \<noteq> KDirectory \<Longrightarrow> q \<noteq> path_of c i\<close> [of i] that kind_file [OF that]
      by (simp add: followed_def)
    then have "q \<notin> path_of c ` Collect (followed c)" by blast
    with calculation show ?thesis using cop(3) linked(4) by metis
  qed
  have dir2: "dn_names d2 q = Some fresh" if "q = [] \<or> q \<in> ?dirs" for q
  proof -
    have "q \<noteq> path_of c i" if i: "i < length ?es" "wk_kind (?es ! i) \<noteq> KDirectory" for i
      using not_dir [OF i] \<open>q = [] \<or> q \<in> ?dirs\<close> ne nth_mem [OF i(1)] by (metis path_of_def)
    then show ?thesis using untouched [of q] at1 [of q] that by simp
  qed
  have fin_dirs: "\<forall>e \<in> set (made_directories c). \<exists>md ts. dn_names d2 (wk_relative e) = Some (MadeDir [] md ts)"
    using dir2 by (auto simp: fresh_def)
  have fin_root: "dn_names d2 [] = Some (MadeDir [] None None)" using dir2 [of "[]"] by (simp add: fresh_def)
  note ended = finish_done [OF fin tidy ne fin_dirs fin_root]
  show "\<exists>names. pf_attrs (cp_platform c) [] = Inr names \<and> dn_names d3 [] = Some (MadeDir names (Some (me_mode (meta_of t))) None)"
    using ended(3) tree by simp
  show "dn_names d3 q = None" if q: "q \<noteq> []" "\<not> kept_path xs t q"
  proof -
    have no: "q \<notin> wk_relative ` set ?es" using q(2) paths by simp
    then have "q \<notin> ?dirs" by (auto simp: made_directories_def)
    moreover have "q \<noteq> path_of c i" if "i < length ?es" for i using no that by (auto simp: path_of_def)
    ultimately show ?thesis using ended(4) [OF q(1)] untouched at1 [of q] q(1) by simp
  qed
  show "in_copy c i d3" if i: "i < length ?es"
  proof (cases "wk_kind (?es ! i) = KDirectory")
    case True
    then have "?es ! i \<in> set (made_directories c)" using i by (simp add: made_directories_def)
    from ended(2) [OF this] True show ?thesis by (simp add: in_copy_def Let_def)
  next
    case leaf: False
    have kept: "dn_names d3 (path_of c i) = dn_names d2 (path_of c i)"
      using ended(4) not_dir [OF i leaf] ne i by (simp add: path_of_def)
    show ?thesis
    proof (cases "followed c i")
      case True
      note first = first_facts [OF fs True]
      have "is_copied c (first_of c i) da" by (rule cop(2)) (rule first(7))
      then show ?thesis
        using True kept linked(2,3) ended(1) kind_file [OF True] kind_file first(4)
        by (simp add: in_copy_def Let_def holder_def is_copied_def lands_def path_of_def several_def)
    next
      case False
      have "is_copied c i da" using i False leaf copied by (intro cop(2)) simp
      then show ?thesis
        using False leaf kept linked(2) linked(4) [OF unlinked [OF tidy i False]] ended(1) others [of "?es ! i"] i
        by (cases "wk_kind (?es ! i)")
          (auto simp: in_copy_def Let_def holder_def is_copied_def lands_def path_of_def)
    qed
  qed
  show "rp_hardlinks r2 = length (filter (followed c) (indexes c))" "rp_directories r2 = 0" "rp_excluded r2 = 0"
    using cop(6-8) linked(5) by (simp_all add: r2 merge_def no_report_def)
  have by_index: "length (filter P ?es) = length (filter (\<lambda>i. P (?es ! i)) (indexes c))" for P
    using arg_cong [OF map_nth [of ?es], of "\<lambda>ys. length (filter P ys)"] by (simp add: filter_map comp_def indexes_def)
  have pick: "filter P (indexes c) = filter Q (indexes c)" if "\<And>i. i < length ?es \<Longrightarrow> P i = Q i" for P Q
    using that by (intro filter_cong) (simp_all add: indexes_def)
  show "rp_symlinks r2 = length (filter (\<lambda>e. wk_kind e = KSymlink) ?es)"
  proof -
    have "copied_at c i \<and> wk_kind (?es ! i) \<noteq> KFile \<longleftrightarrow> wk_kind (?es ! i) = KSymlink" if "i < length ?es" for i
      using that others [of "?es ! i"] kind_file [of i] copied [of i] by (cases "wk_kind (?es ! i)") auto
    from pick [OF this] show ?thesis using cop(5) linked(5) by (simp add: r2 merge_def no_report_def by_index)
  qed
  let ?k = "\<lambda>i. wk_kind (?es ! i) = KFile"
  have files: "filter (\<lambda>i. copied_at c i \<and> ?k i) (indexes c) = filter (\<lambda>i. ?k i \<and> \<not> followed c i) (indexes c)"
    by (rule pick) (auto simp: copied)
  then show "rp_files r2 = length (filter (\<lambda>i. ?k i \<and> \<not> followed c i) (indexes c))"
    using cop(4) linked(5) by (simp add: r2 merge_def no_report_def)
  show "rp_files r2 + rp_hardlinks r2 = length (filter (\<lambda>e. wk_kind e = KFile) ?es)"
  proof -
    have "length (filter ?k (indexes c)) = length (filter (\<lambda>i. ?k i \<and> \<not> followed c i) (indexes c)) + length (filter (\<lambda>i. ?k i \<and> followed c i) (indexes c))"
      using sum_length_filter_compl [of "followed c" "filter ?k (indexes c)"] by (simp add: conj_commute)
    moreover have "filter (followed c) (indexes c) = filter (\<lambda>i. ?k i \<and> followed c i) (indexes c)"
      by (rule pick) (use kind_file in blast)
    ultimately show ?thesis using files cop(4,6) linked(5) by (simp add: r2 merge_def no_report_def by_index)
  qed
qed

lemma materialize_agrees:
  assumes "may_materialize pf src dst xs t there workers res" and "wf_item t" and "is_folder t"
  shows "agrees res (materialize_alone pf src dst xs t there)"
proof (cases "prepare pf src dst xs t there")
  case (Inl e)
  then show ?thesis using assms(1) by (simp add: may_materialize_def materialize_alone_def agrees_def)
next
  case (Inr a)
  obtain c r where a: "a = (c, r)" by fastforce
  note ready = prepare_ready [OF Inr [unfolded a] assms(2,3)]
  obtain b d1 where dirs: "directories c bare = (b, d1)" by fastforce
  show ?thesis
  proof (cases b)
    case (Inl e)
    then show ?thesis using assms(1) Inr a dirs by (simp add: may_materialize_def materialize_alone_def agrees_def)
  next
    case (Inr r1)
    from assms(1) \<open>prepare pf src dst xs t there = Inr a\<close> obtain res2
      where res2: "may_contents c (max 1 workers) d1 res2" "res = ended c (merge r r1) res2"
      by (auto simp: may_materialize_def a dirs Inr)
    have "undated d1" using all_fresh_undated directories_done(1) dirs Inr by blast
    with contents_agree [OF res2(1)] ready(1) have "agrees res2 (contents_alone c d1)" by (simp add: ready_def)
    then have "agrees res (ended c (merge r r1) (contents_alone c d1))"
      unfolding res2(2) ended_def by (rule agrees_then_do)
    then show ?thesis
      using \<open>prepare pf src dst xs t there = Inr a\<close> by (simp add: materialize_alone_def a dirs Inr)
  qed
qed

lemma may_materialize_some: "\<exists>res. may_materialize pf src dst xs t there workers res"
proof (cases "prepare pf src dst xs t there")
  case (Inr a)
  obtain c r b d1 where parts: "a = (c, r)" "directories c bare = (b, d1)" by (metis surj_pair)
  show ?thesis
  proof (cases b)
    case Inl
    then show ?thesis using \<open>prepare pf src dst xs t there = Inr a\<close> parts by (simp add: may_materialize_def)
  next
    case (Inr r1)
    obtain res2 where "may_contents c (max 1 workers) d1 res2" using contents_may by blast
    then have "may_materialize pf src dst xs t there workers (ended c (merge r r1) res2)"
      using \<open>prepare pf src dst xs t there = Inr a\<close> parts Inr
      by (simp only: may_materialize_def sum.case prod.case) blast
    then show ?thesis ..
  qed
qed (simp add: may_materialize_def)

text \<open>
  C36. A copy does not depend on how many workers made it, nor on how they took turns: every run of the pool ends,
  and each answers with the report, or the error of the earliest directory, that one thread answers
  with; where it is a report, the tree made is the same one too.\<close>

theorem workers_make_one_tree:
  assumes "wf_item t" and "is_folder t"
  shows "(\<exists>res. may_materialize pf src dst xs t there workers res)
    \<and> (\<forall>a d. may_materialize pf src dst xs t there workers (a, d) \<longrightarrow>
        a = fst (materialize_alone pf src dst xs t there)
        \<and> (\<not> isl a \<longrightarrow> d = snd (materialize_alone pf src dst xs t there)))"
  using may_materialize_some materialize_agrees [OF _ assms] by (fastforce simp: agrees_def)

lemma materialize_parts:
  assumes "may_materialize pf src dst xs t there workers (Inr r, d)" and "wf_item t" and "is_folder t"
  obtains c d1 d2 r1 r2 r3 r4 where "ready xs t c" "cp_platform c = pf" "directories c bare = (Inr r1, d1)"
    "contents_alone c d1 = (Inr r2, d2)" "finish c d2 = (Inr r3, d)" "r = merge (merge r4 r1) r2"
    "prepare pf src dst xs t there = Inr (c, r4)"
proof -
  have alone: "materialize_alone pf src dst xs t there = (Inr r, d)"
    using materialize_agrees [OF assms] by (simp add: agrees_def prod_eq_iff)
  then obtain c r4 where c: "prepare pf src dst xs t there = Inr (c, r4)"
    by (auto simp: materialize_alone_def split: sum.splits)
  obtain b d1 where dirs: "directories c bare = (b, d1)" by fastforce
  obtain b2 d2 where mid: "contents_alone c d1 = (b2, d2)" by fastforce
  obtain b3 d3 where fin: "finish c d2 = (b3, d3)" by fastforce
  show thesis
    using alone c dirs mid fin prepare_ready [OF c assms(2,3)] that
    by (cases b; cases b2; cases b3) (auto simp: materialize_alone_def ended_def)
qed

lemma ready_index:
  assumes "ready xs t c" and "kept_path xs t q" and "entry_at t q = Some e"
  obtains i where "i < length (cp_entries c)" "cp_entries c ! i = e" "path_of c i = q"
proof -
  have "q \<in> wk_relative ` set (cp_entries c)" using assms(1,2) by (simp add: ready_def)
  then obtain f where f: "f \<in> set (cp_entries c)" "wk_relative f = q" by blast
  then have "entry_at t q = Some f" using assms(1) unfolding ready_def by blast
  with f assms(3) that show thesis by (metis in_set_conv_nth option.inject path_of_def)
qed

lemma ready_entry:
  assumes "ready xs t c" and "i < length (cp_entries c)"
  shows "kept_path xs t (path_of c i)" and "entry_at t (path_of c i) = Some (cp_entries c ! i)"
proof -
  have "cp_entries c ! i \<in> set (cp_entries c)" using assms(2) by simp
  then have "entry_at t (path_of c i) = Some (cp_entries c ! i) \<and> path_of c i \<in> {q. kept_path xs t q}"
    using assms(1) unfolding ready_def path_of_def by blast
  then show "kept_path xs t (path_of c i)" "entry_at t (path_of c i) = Some (cp_entries c ! i)" by simp_all
qed

lemma followed_iff:
  assumes "ready xs t c"
  shows "followed c i \<longleftrightarrow> i < length (cp_entries c) \<and> several (cp_entries c ! i)
      \<and> name_before (cp_entries c) i (inode_of (cp_entries c ! i)) \<noteq> None"
    and "followed c i \<Longrightarrow> name_before (cp_entries c) i (inode_of (cp_entries c ! i)) = Some (first_of c i)"
  using assms by (auto simp: followed_def ready_def followers_at first_of_def)

lemma holder_first:
  assumes "ready xs t c" and "i < length (cp_entries c)" and "several (cp_entries c ! i)"
  shows "name_before (cp_entries c) (Suc i) (inode_of (cp_entries c ! i)) = Some (holder c i)"
  using followed_iff [OF assms(1)] assms(2,3) by (cases "followed c i") (auto simp: holder_def name_before_Suc)

lemma name_before_later: "name_before es n x = Some k \<Longrightarrow> n \<le> m \<Longrightarrow> name_before es m x = Some k"
  by (simp add: name_before_Some)

lemma holder_alone: "ready xs t c \<Longrightarrow> \<not> several (cp_entries c ! i) \<Longrightarrow> holder c i = i"
  using followed_iff(1) by (simp add: holder_def)

lemma holder_file:
  assumes "ready xs t c" and "i < length (cp_entries c)" and "wk_kind (cp_entries c ! i) = KFile"
  shows "holder c i < length (cp_entries c)" and "wk_kind (cp_entries c ! holder c i) = KFile"
    and "holder c i = i \<or> inode_of (cp_entries c ! holder c i) = inode_of (cp_entries c ! i)"
    and "\<not> followed c (holder c i)"
  using assms first_facts [of c i] by (auto simp: holder_def ready_def several_def)

lemma holder_eq:
  assumes c: "ready xs t c" and i: "i < length (cp_entries c)" and j: "j < length (cp_entries c)"
  shows "holder c i = holder c j \<longleftrightarrow>
    i = j \<or> several (cp_entries c ! i) \<and> several (cp_entries c ! j) \<and> inode_of (cp_entries c ! i) = inode_of (cp_entries c ! j)"
proof -
  let ?several = "\<lambda>i. several (cp_entries c ! i)" and ?inode = "\<lambda>i. inode_of (cp_entries c ! i)"
  have low: "?several (holder c i) \<and> ?inode (holder c i) = ?inode i" if "i < length (cp_entries c)" "?several i" for i
    using holder_first [OF c that] by (simp add: name_before_Some)
  have same: "holder c i = holder c j" if "i \<le> j" "j < length (cp_entries c)" "?several i" "?several j" "?inode i = ?inode j" for i j
  proof -
    have "name_before (cp_entries c) (Suc i) (?inode i) = Some (holder c i)" using that by (intro holder_first [OF c]) simp_all
    then have "name_before (cp_entries c) (Suc j) (?inode i) = Some (holder c i)" by (rule name_before_later) (use that in simp)
    with holder_first [OF c that(2,4)] that(5) show ?thesis by simp
  qed
  show ?thesis
  proof (cases "?several i \<and> ?several j")
    case True
    then show ?thesis using low [OF i] low [OF j] same [of i j] same [of j i] i j by (metis nat_le_linear)
  next
    case False
    then show ?thesis
      using low [OF i] low [OF j] holder_alone [OF c, of i] holder_alone [OF c, of j] by metis
  qed
qed

definition kept_kinds :: "excludes \<Rightarrow> item \<Rightarrow> entry_kind \<Rightarrow> path set" where
  "kept_kinds xs t k = {q. kept_path xs t q \<and> map_option wk_kind (entry_at t q) = Some k}"

lemma ready_count:
  assumes "ready xs t c"
  shows "length (filter (\<lambda>e. wk_kind e = k) (cp_entries c)) = card (kept_kinds xs t k)"
proof -
  have "kept_kinds xs t k = wk_relative ` set (filter (\<lambda>e. wk_kind e = k) (cp_entries c))"
  proof (intro set_eqI iffI)
    fix q assume "q \<in> kept_kinds xs t k"
    then obtain e where e: "kept_path xs t q" "entry_at t q = Some e" "wk_kind e = k" by (auto simp: kept_kinds_def)
    from ready_index [OF assms e(1,2)] obtain i where "i < length (cp_entries c)" "cp_entries c ! i = e" "path_of c i = q" .
    then have "e \<in> set (filter (\<lambda>e. wk_kind e = k) (cp_entries c))" "q = wk_relative e"
      using e(3) by (auto simp: path_of_def)
    then show "q \<in> wk_relative ` set (filter (\<lambda>e. wk_kind e = k) (cp_entries c))" by blast
  next
    fix q assume "q \<in> wk_relative ` set (filter (\<lambda>e. wk_kind e = k) (cp_entries c))"
    then obtain i where "i < length (cp_entries c)" "wk_kind (cp_entries c ! i) = k" "q = path_of c i"
      by (auto simp: in_set_conv_nth path_of_def)
    then show "q \<in> kept_kinds xs t k" using ready_entry [OF assms] by (simp add: kept_kinds_def)
  qed
  moreover have "distinct (map wk_relative (filter (\<lambda>e. wk_kind e = k) (cp_entries c)))"
    using assms by (simp add: ready_def tidy_def distinct_map_filter)
  ultimately show ?thesis using distinct_card by fastforce
qed

text \<open>What the copy holds of one entry of the source.\<close>

definition holds_entry :: "platform \<Rightarrow> excludes \<Rightarrow> item \<Rightarrow> dest \<Rightarrow> path \<Rightarrow> walked \<Rightarrow> bool" where
  "holds_entry pf xs t d q e \<longleftrightarrow>
     (case wk_kind e of
        KDirectory \<Rightarrow> dn_names d q = Some (MadeDir [] (Some (me_mode (wk_meta e))) (Some (times_of (wk_meta e))))
      | KSymlink \<Rightarrow> \<exists>to. target_of t q = Some to \<and> dn_names d q = Some (MadeLink to (Some (times_of (wk_meta e))))
      | KFile \<Rightarrow> \<exists>k f names. dn_names d q = Some (MadeFile k) \<and> kept_path xs t k \<and> entry_at t k = Some f
          \<and> wk_kind f = KFile \<and> (k = q \<or> inode_of f = inode_of e) \<and> pf_attrs pf k = Inr names
          \<and> dn_nodes d k = Some \<lparr>fn_source = k, fn_attrs = names, fn_mode = me_mode (wk_meta f), fn_times = Some (times_of (wk_meta f))\<rparr>
      | KOther \<Rightarrow> False)"

lemma copy_each:
  assumes "may_materialize pf src dst xs t there workers (Inr r, d)" and "wf_item t" and "is_folder t"
    and q: "kept_path xs t q" "entry_at t q = Some e"
  shows "holds_entry pf xs t d q e"
proof -
  from assms(1-3) obtain c d1 d2 r1 r2 r3 r4 where c: "ready xs t c" "cp_platform c = pf" and parts: "directories c bare = (Inr r1, d1)"
    "contents_alone c d1 = (Inr r2, d2)" "finish c d2 = (Inr r3, d)" by (rule materialize_parts)
  note at = copy_at [OF c(1) parts]
  have tree: "cp_tree c = t" using c(1) by (simp add: ready_def)
  from ready_index [OF c(1) q] obtain i where i: "i < length (cp_entries c)" "cp_entries c ! i = e" "path_of c i = q" .
  note here = at(1) [OF i(1)]
  show ?thesis
  proof (cases "wk_kind e")
    case KFile
    note h = holder_file [OF c(1) i(1)]
    have "holder c i < length (cp_entries c)" using h(1) KFile i(2) by simp
    note hold = ready_entry [OF c(1) this]
    have "\<not> isl (pf_attrs pf (path_of c (holder c i)))" using here KFile i c(2) by (simp add: in_copy_def Let_def)
    then obtain names where "pf_attrs pf (path_of c (holder c i)) = Inr names" by (metis isl_def sum.exhaust)
    then show ?thesis
      using here KFile i c(2) hold h by (auto simp: holds_entry_def in_copy_def Let_def dressed_def path_of_def)
  qed (use here i tree in \<open>simp_all add: holds_entry_def in_copy_def Let_def path_of_def finished_def\<close>)
qed

text \<open>
  C37. A copy that comes back with a report holds the entries the exclusion list keeps and nothing else: the directories
  with the mode and the times of their source, the links with their target and times, each file
  with the attributes, mode and times of a file of the source that is the same one. The root has
  the mode and the attributes of its source, and no times of it.\<close>

theorem copy_holds_what_is_kept:
  assumes "may_materialize pf src dst xs t there workers (Inr r, d)" and "wf_item t" and "is_folder t"
  shows "(\<exists>names. pf_attrs pf [] = Inr names \<and> dn_names d [] = Some (MadeDir names (Some (me_mode (meta_of t))) None))
    \<and> (\<forall>q. q \<noteq> [] \<longrightarrow> (dn_names d q \<noteq> None \<longleftrightarrow> kept_path xs t q))
    \<and> (\<forall>q e. kept_path xs t q \<longrightarrow> entry_at t q = Some e \<longrightarrow>
        holds_entry pf xs t d q e)"
proof -
  from assms obtain c d1 d2 r1 r2 r3 r4 where c: "ready xs t c" "cp_platform c = pf" and parts: "directories c bare = (Inr r1, d1)"
    "contents_alone c d1 = (Inr r2, d2)" "finish c d2 = (Inr r3, d)" by (rule materialize_parts)
  note at = copy_at [OF c(1) parts]
  have tree: "cp_tree c = t" using c(1) by (simp add: ready_def)
  note each = copy_each [OF assms]
  have "dn_names d q \<noteq> None" if q: "kept_path xs t q" for q
  proof -
    from q obtain e where "entry_at t q = Some e" by (auto simp: kept_path_def)
    from each [OF q this] show ?thesis by (cases "wk_kind e") (auto simp: holds_entry_def)
  qed
  then have "q \<noteq> [] \<Longrightarrow> dn_names d q \<noteq> None \<longleftrightarrow> kept_path xs t q" for q using at(2) by (cases "kept_path xs t q") simp_all
  moreover have "\<exists>names. pf_attrs pf [] = Inr names \<and> dn_names d [] = Some (MadeDir names (Some (me_mode (meta_of t))) None)"
    using at(3) c(2) by simp
  ultimately show ?thesis using each by simp
qed

text \<open>
  C38. Two kept files are one file in the copy exactly when they are one in the source: the same inode of a file with several
  names. The report counts what was made: a copy for each file there is, a link for each
  further name, the directories, the links and what the list left out.\<close>

theorem copy_keeps_hard_links:
  assumes "may_materialize pf src dst xs t there workers (Inr r, d)" and "wf_item t" and "is_folder t"
  shows "(\<forall>p q e f. kept_path xs t p \<longrightarrow> kept_path xs t q \<longrightarrow> entry_at t p = Some e \<longrightarrow> entry_at t q = Some f \<longrightarrow>
        wk_kind e = KFile \<longrightarrow> wk_kind f = KFile \<longrightarrow>
        (dn_names d p = dn_names d q \<longleftrightarrow> p = q \<or> several e \<and> several f \<and> inode_of e = inode_of f))
    \<and> rp_files r = card {k. \<exists>q. dn_names d q = Some (MadeFile k)}
    \<and> rp_files r + rp_hardlinks r = card (kept_kinds xs t KFile)
    \<and> rp_directories r = card (kept_kinds xs t KDirectory)
    \<and> rp_symlinks r = card (kept_kinds xs t KSymlink)
    \<and> (\<exists>es sk. walk src xs t = Inr (es, sk) \<and> rp_excluded r = sk_excluded sk)"
proof -
  from assms obtain c d1 d2 r1 r2 r3 r4 where c: "ready xs t c" "cp_platform c = pf" and parts: "directories c bare = (Inr r1, d1)"
    "contents_alone c d1 = (Inr r2, d2)" "finish c d2 = (Inr r3, d)" and r: "r = merge (merge r4 r1) r2"
    and prep: "prepare pf src dst xs t there = Inr (c, r4)" by (rule materialize_parts)
  note at = copy_at [OF c(1) parts]
  let ?es = "cp_entries c"
  have tidy: "tidy ?es" using c(1) by (simp add: ready_def)
  have name: "dn_names d (path_of c i) = Some (MadeFile (path_of c (holder c i)))" if "i < length ?es" "wk_kind (?es ! i) = KFile" for i
    using at(1) [OF that(1)] that(2) by (simp add: in_copy_def Let_def path_of_def)
  have pair: "dn_names d p = dn_names d q \<longleftrightarrow> p = q \<or> several e \<and> several f \<and> inode_of e = inode_of f"
    if p: "kept_path xs t p" "entry_at t p = Some e" "wk_kind e = KFile" and q: "kept_path xs t q" "entry_at t q = Some f" "wk_kind f = KFile"
    for p q e f
  proof -
    from ready_index [OF c(1) p(1,2)] obtain i where i: "i < length ?es" "?es ! i = e" "path_of c i = p" .
    from ready_index [OF c(1) q(1,2)] obtain j where j: "j < length ?es" "?es ! j = f" "path_of c j = q" .
    have "dn_names d p = dn_names d q \<longleftrightarrow> path_of c (holder c i) = path_of c (holder c j)"
      using name [OF i(1)] name [OF j(1)] i j p(3) q(3) by simp
    also have "\<dots> \<longleftrightarrow> holder c i = holder c j"
      using path_of_eq [OF tidy] holder_file(1) [OF c(1)] i j p(3) q(3) by simp
    also have "\<dots> \<longleftrightarrow> i = j \<or> several e \<and> several f \<and> inode_of e = inode_of f"
      using holder_eq [OF c(1) i(1) j(1)] i j by simp
    finally show ?thesis using path_of_eq [OF tidy i(1) j(1)] i j by simp
  qed
  have once: "{k. \<exists>q. dn_names d q = Some (MadeFile k)} = path_of c ` {i. i < length ?es \<and> wk_kind (?es ! i) = KFile \<and> \<not> followed c i}"
  proof (intro set_eqI iffI)
    fix k assume "k \<in> {k. \<exists>q. dn_names d q = Some (MadeFile k)}"
    then obtain q where q: "dn_names d q = Some (MadeFile k)" by blast
    have ne: "q \<noteq> []" using q at(3) by auto
    then have kept: "kept_path xs t q" using at(2) q by fastforce
    then obtain e where "entry_at t q = Some e" by (auto simp: kept_path_def)
    from ready_index [OF c(1) kept this] obtain i where i: "i < length ?es" "path_of c i = q" .
    have is_file: "wk_kind (?es ! i) = KFile"
      using at(1) [OF i(1)] q i(2) by (auto simp: in_copy_def Let_def path_of_def finished_def split: entry_kind.splits)
    then have "k = path_of c (holder c i)" using name [OF i(1) is_file] i(2) q by simp
    then show "k \<in> path_of c ` {i. i < length ?es \<and> wk_kind (?es ! i) = KFile \<and> \<not> followed c i}"
      using holder_file(1,2,4) [OF c(1) i(1) is_file] by simp
  next
    fix k assume "k \<in> path_of c ` {i. i < length ?es \<and> wk_kind (?es ! i) = KFile \<and> \<not> followed c i}"
    then obtain i where "i < length ?es" "wk_kind (?es ! i) = KFile" "\<not> followed c i" "k = path_of c i" by blast
    with name [of i] show "k \<in> {k. \<exists>q. dn_names d q = Some (MadeFile k)}" by (auto simp: holder_def)
  qed
  have r4: "r4 = no_report\<lparr>rp_excluded := rp_excluded r4\<rparr>" and walked: "\<exists>es sk. walk src xs t = Inr (es, sk) \<and> rp_excluded r4 = sk_excluded sk"
    using prep by (auto simp: prepare_def no_report_def split: option.splits sum.splits)
  have "rp_files r4 = 0" "rp_hardlinks r4 = 0" "rp_symlinks r4 = 0" "rp_directories r4 = 0"
    by (subst r4, simp add: no_report_def)+
  then have sums: "rp_files r = rp_files r2" "rp_hardlinks r = rp_hardlinks r2" "rp_symlinks r = rp_symlinks r2"
    "rp_directories r = length (made_directories c)" "rp_excluded r = rp_excluded r4"
    using at(7,8) by (simp_all add: r merge_parts directories_done(4) [OF parts(1)] no_report_parts)
  have "inj_on (path_of c) {i. i < length ?es \<and> wk_kind (?es ! i) = KFile \<and> \<not> followed c i}"
    using path_of_eq [OF tidy] by (auto simp: inj_on_def)
  then have "card {k. \<exists>q. dn_names d q = Some (MadeFile k)} = card {i. i < length ?es \<and> wk_kind (?es ! i) = KFile \<and> \<not> followed c i}"
    unfolding once by (rule card_image)
  also have "\<dots> = length (filter (\<lambda>i. wk_kind (?es ! i) = KFile \<and> \<not> followed c i) (indexes c))"
    by (subst distinct_card [symmetric]) (auto simp: indexes_def intro!: arg_cong [of _ _ card])
  finally have count: "card {k. \<exists>q. dn_names d q = Some (MadeFile k)} = rp_files r" using at(9) sums(1) by simp
  show ?thesis
    using pair count sums at(4,5) ready_count [OF c(1)] walked by (simp add: made_directories_def)
qed

end
