(* ===== verification/CopySucceeds.thy ===== *)
theory CopySucceeds
  imports Copies
begin

text \<open>
  That the copier of \<open>workspace/tree.rs\<close> is never in its own way, and a tree with its copy on which what the copy
  holds can be seen.
\<close>

subsection \<open>A copy nothing refuses\<close>

definition dirs_fresh :: "copier \<Rightarrow> dest \<Rightarrow> bool" where
  "dirs_fresh c d \<longleftrightarrow> (\<forall>q. q = [] \<or> q \<in> wk_relative ` set (made_directories c) \<longrightarrow> dn_names d q = Some fresh)"

definition willing :: "platform \<Rightarrow> bool" where
  "willing pf \<longleftrightarrow> (\<forall>call p. pf_denied pf call p = None) \<and> (\<forall>p m. \<exists>x. pf_put pf p m = Inr x) \<and> (\<forall>p. \<exists>x. pf_attrs pf p = Inr x)"

lemma willingD:
  assumes "willing pf"
  shows "pf_denied pf call p = None" "\<exists>x. pf_put pf p m = Inr x" "\<exists>x. pf_attrs pf p = Inr x"
  using assms by (simp_all add: willing_def)

lemma lets_in_fresh: "lets_in n (Some fresh)"
  by (simp add: lets_in_def fresh_def)

lemma may_make_ready:
  assumes c: "ready xs t c" and d: "dirs_fresh c d" and e: "e \<in> set (cp_entries c)"
  shows "reached (wk_relative e) d" and "may_make (wk_relative e) d"
proof -
  have above: "dn_names d a = Some fresh" if "a \<in> set (above (wk_relative e))" for a
    using d ready_above [OF c e, of a] that by (auto simp: dirs_fresh_def set_above)
  then show reached: "reached (wk_relative e) d" by (simp add: reached_def lets_in_fresh)
  have "wk_relative e \<noteq> []" using c e by (simp add: ready_def)
  then show "may_make (wk_relative e) d" using reached above [OF above_butlast] by (simp add: may_make_def lets_in_fresh)
qed

lemma dirs_in_order:
  assumes c: "ready xs t c" and at: "made_directories c = ys @ e # zs" and below: "strict_prefix q (wk_relative e)" and q: "q \<noteq> []"
  shows "q \<in> wk_relative ` set ys"
proof -
  have e: "e \<in> set (cp_entries c)" using at by (metis made_directories_def filter_is_subset in_set_conv_decomp subsetD)
  have sorted: "sorted_wrt (\<lambda>a b. \<not> prefix (wk_relative b) (wk_relative a)) (made_directories c)"
    using c unfolding ready_def above_first_def made_directories_def by (intro sorted_wrt_filter) simp
  obtain f where f: "f \<in> set (made_directories c)" "wk_relative f = q" using ready_above [OF c e below q] by blast
  have "f \<notin> set zs" using sorted f(2) below unfolding at by (auto simp: sorted_wrt_append strict_prefix_def)
  moreover have "f \<noteq> e" using f(2) below by (auto simp: strict_prefix_def)
  ultimately show ?thesis using f unfolding at by auto
qed

lemma make_dirs_skip: "\<forall>a \<in> set qs. dn_names d a = Some fresh \<Longrightarrow> make_dirs c at (qs @ rs) d = make_dirs c at rs d"
  by (induction qs) (simp_all add: fresh_def)

lemma directories_succeed:
  assumes c: "ready xs t c" and pf: "willing (cp_platform c)"
  shows "\<exists>r d. directories c bare = (Inr r, d)"
proof -
  define I where "I ys r1 d1 \<longleftrightarrow> all_fresh d1 \<and> (\<forall>q. q = [] \<or> q \<in> wk_relative ` set ys \<longrightarrow> dn_names d1 q = Some fresh)"
    for ys :: "walked list" and r1 :: copied and d1
  have "\<exists>r d. run_alone merge (make_directory c) (made_directories c) no_report bare = (Inr r, d) \<and> I (made_directories c) r d"
  proof (rule run_alone_succeeds [where I = I])
    show "I [] no_report bare" by (simp add: I_def bare_def all_fresh_def fresh_def)
    fix ys e r1 d1
    assume pre: "prefix (ys @ [e]) (made_directories c)" and at: "I ys r1 d1"
    from pre obtain zs where zs: "made_directories c = ys @ e # zs" by (auto simp: prefix_def)
    let ?p = "wk_relative e"
    have "dn_names d1 a = Some fresh" if "strict_prefix a ?p" for a
      using dirs_in_order [OF c zs that] at unfolding I_def by (cases "a = []") simp_all
    then have above: "\<forall>a \<in> set (above ?p). dn_names d1 a = Some fresh" by (simp add: set_above)
    then have reached: "reached ?p d1" by (simp add: reached_def lets_in_fresh)
    have "e \<in> set (made_directories c)" using zs by simp
    then have ne: "?p \<noteq> []" using c by (simp add: ready_def made_directories_def)
    then have make: "may_make ?p d1" using reached above above_butlast by (simp add: may_make_def lets_in_fresh)
    have "dn_names d1 ?p = None \<or> dn_names d1 ?p = Some fresh" using at by (simp add: I_def all_fresh_def)
    then have "\<exists>d2. make_dirs c ?p [?p] d1 = (None, d2)"
      using make by (auto simp: fresh_def willingD(1) [OF pf])
    then obtain d2 where made: "make_dirs c ?p (above ?p @ [?p]) d1 = (None, d2)" using make_dirs_skip [OF above] by metis
    have "all_fresh d1" using at by (simp add: I_def)
    note names = made_dirs [OF made this, unfolded set_above_self, THEN conjunct2]
    have "make_directory c e d1 = (Inr (no_report\<lparr>rp_directories := 1\<rparr>), d2)" by (simp add: make_directory_def made)
    moreover have "I (ys @ [e]) (merge r1 (no_report\<lparr>rp_directories := 1\<rparr>)) d2"
      using at by (auto simp: I_def names all_fresh_def)
    ultimately show "\<exists>s d2. make_directory c e d1 = (Inr s, d2) \<and> I (ys @ [e]) (merge r1 s) d2" by blast
  qed
  then show ?thesis by (auto simp: directories_def)
qed

lemma owner_may_write: "(m OR OWNER_WRITE) AND OWNER_WRITE \<noteq> (0 :: 32 word)"
proof -
  have "(m OR OWNER_WRITE) AND OWNER_WRITE = OWNER_WRITE" by (rule bit_word_eqI) (auto simp: bit_simps)
  then show ?thesis by (simp add: OWNER_WRITE_def)
qed

lemma dress_succeeds:
  assumes "willing (cp_platform c)"
  shows "\<exists>n nd. dress c e \<lparr>fn_source = p, fn_attrs = [], fn_mode = me_mode (wk_meta e), fn_times = None\<rparr> = (Inr n, nd)"
proof -
  obtain names where names: "pf_attrs (cp_platform c) (wk_relative e) = Inr names" using willingD(3) [OF assms] by blast
  show ?thesis
    using owner_may_write [of "me_mode (wk_meta e)"]
    by (simp add: dress_def attributes_def xattr_copy_def names willingD(1) [OF assms])
qed

lemma entry_at_symlink:
  assumes "entry_at t q = Some e" and "wk_kind e = KSymlink"
  shows "target_of t q \<noteq> None"
proof -
  obtain x where "item_at q t = Some x" "kind_of x = KSymlink"
    using assms by (auto simp: entry_at_def split: option.splits if_splits)
  then show ?thesis by (cases x) (auto simp: target_of_def split: leaf.splits)
qed

lemma ready_copied:
  assumes "ready xs t c" and "copied_at c i" and "wk_kind (cp_entries c ! i) = KSymlink"
  shows "target_of (cp_tree c) (path_of c i) \<noteq> None"
  using entry_at_symlink [OF ready_entry(2) [OF assms(1)] assms(3)] assms(1,2) by (simp add: copied_at_def ready_def)

lemma copied_not_directory: "copied_at c i \<Longrightarrow> i < length (cp_entries c) \<and> wk_kind (cp_entries c ! i) \<noteq> KDirectory"
  by (auto simp: copied_at_def)

lemma copy_one_succeeds:
  assumes c: "ready xs t c" and pf: "willing (cp_platform c)" and d: "dirs_fresh c d"
    and i: "copied_at c i" "dn_names d (path_of c i) = None"
  shows "\<exists>s d'. copy_one c i d = (Inr s, d')"
proof -
  let ?e = "cp_entries c ! i"
  have e: "?e \<in> set (cp_entries c)" using i(1) by (simp add: copied_at_def)
  note make = may_make_ready(2) [OF c d e]
  note free = willingD(1) [OF pf]
  show ?thesis
  proof (cases "wk_kind ?e")
    case KFile
    obtain put where "pf_put (cp_platform c) (wk_relative ?e) (wk_meta ?e) = Inr put" using willingD(2) [OF pf] by blast
    moreover obtain n nd where "dress c ?e \<lparr>fn_source = wk_relative ?e, fn_attrs = [], fn_mode = me_mode (wk_meta ?e), fn_times = None\<rparr> = (Inr n, nd)"
      using dress_succeeds [OF pf] by blast
    ultimately show ?thesis using KFile i(1) make by (simp add: copy_one_def copied_at_def put_file_def)
  next
    case KSymlink
    then obtain to where "target_of (cp_tree c) (wk_relative ?e) = Some to"
      using ready_copied [OF c i(1)] by (auto simp: path_of_def)
    then show ?thesis using KSymlink i make by (simp add: copy_one_def copied_at_def put_symlink_def free path_of_def)
  qed (use i in \<open>simp_all add: copied_at_def\<close>)
qed

lemma not_directory:
  assumes "ready xs t c" and "i < length (cp_entries c)" and "wk_kind (cp_entries c ! i) \<noteq> KDirectory"
  shows "path_of c i \<notin> wk_relative ` set (made_directories c)" and "path_of c i \<noteq> []"
proof -
  show "path_of c i \<notin> wk_relative ` set (made_directories c)"
  proof
    assume "path_of c i \<in> wk_relative ` set (made_directories c)"
    then obtain j where j: "j < length (cp_entries c)" "wk_kind (cp_entries c ! j) = KDirectory" "path_of c i = path_of c j"
      by (auto simp: made_directories_def path_of_def in_set_conv_nth)
    have "tidy (cp_entries c)" using assms(1) by (simp add: ready_def)
    from path_of_eq [OF this assms(2) j(1)] j(2,3) assms(3) show False by simp
  qed
  show "path_of c i \<noteq> []" using assms(1,2) by (simp add: ready_def path_of_def)
qed

lemma copies_succeed:
  assumes c: "ready xs t c" and pf: "willing (cp_platform c)" and d: "dirs_fresh c d" "undated d"
    and new: "\<And>i. i < length (cp_entries c) \<Longrightarrow> wk_kind (cp_entries c ! i) \<noteq> KDirectory \<Longrightarrow> dn_names d (path_of c i) = None"
  shows "\<exists>r d'. run_alone merge (copy_one c) (indexes c) no_report d = (Inr r, d')"
proof -
  have tidy: "tidy (cp_entries c)" using c by (simp add: ready_def)
  define I where "I ys r1 d1 \<longleftrightarrow> undated d1 \<and> (\<forall>q. q \<notin> path_of c ` {i \<in> set ys. copied_at c i} \<longrightarrow> dn_names d1 q = dn_names d q)"
    for ys and r1 :: copied and d1
  have "\<exists>r d'. run_alone merge (copy_one c) (indexes c) no_report d = (Inr r, d') \<and> I (indexes c) r d'"
  proof (rule run_alone_succeeds [where I = I])
    show "I [] no_report d" using d(2) by (simp add: I_def)
    fix ys i r1 d1
    assume pre: "prefix (ys @ [i]) (indexes c)" and at: "I ys r1 d1"
    note i = prefix_indexes [OF pre]
    show "\<exists>s d2. copy_one c i d1 = (Inr s, d2) \<and> I (ys @ [i]) (merge r1 s) d2"
    proof (cases "copied_at c i")
      case True
      have away: "q \<notin> path_of c ` {i \<in> set ys. copied_at c i}" if "q = [] \<or> q \<in> wk_relative ` set (made_directories c)" for q
        using that not_directory [OF c] copied_not_directory by blast
      have "dirs_fresh c d1" using d(1) at away unfolding dirs_fresh_def I_def by simp
      moreover have "path_of c i \<notin> path_of c ` {i \<in> set ys. copied_at c i}"
      proof
        assume "path_of c i \<in> path_of c ` {i \<in> set ys. copied_at c i}"
        then obtain j where "j \<in> set ys" "copied_at c j" "path_of c i = path_of c j" by blast
        with path_of_eq [OF tidy, of i j] i show False by (auto simp: copied_at_def)
      qed
      then have "dn_names d1 (path_of c i) = None" using new [of i] True at by (auto simp: I_def copied_at_def)
      ultimately obtain s d2 where step: "copy_one c i d1 = (Inr s, d2)" using copy_one_succeeds [OF c pf _ True] by blast
      have "undated d1" using at by (simp add: I_def)
      note one = copy_one_Inr(2,3) [OF step True this]
      have "dn_names d2 q = dn_names d q" if "q \<notin> path_of c ` {j \<in> set (ys @ [i]). copied_at c j}" for q
      proof -
        have "q \<noteq> path_of c i" "q \<notin> path_of c ` {j \<in> set ys. copied_at c j}" using that True by auto
        then show ?thesis using one(2) [of q] at by (simp add: I_def)
      qed
      with one(1) step show ?thesis by (simp add: I_def)
    next
      case False
      have "path_of c ` {j \<in> set (ys @ [i]). copied_at c j} = path_of c ` {j \<in> set ys. copied_at c j}" using False by auto
      then show ?thesis using at copy_one_other [OF False] by (simp add: I_def)
    qed
  qed
  then show ?thesis by blast
qed

lemma link_one_succeeds:
  assumes c: "ready xs t c" and pf: "willing (cp_platform c)" and d: "dirs_fresh c d" and i: "followed c i"
    and at: "dn_names d (path_of c i) = None" "dn_names d (path_of c (first_of c i)) = Some (MadeFile k)"
  shows "\<exists>s d'. link_one c i d = (Inr s, d')"
proof -
  have fs: "cp_followers c = followers (cp_entries c)" using c by (simp add: ready_def)
  note first = first_facts [OF fs i]
  have len: "i < length (cp_entries c)" and m: "map_of (cp_followers c) i = Some (first_of c i)"
    using i by (auto simp: followed_def first_of_def)
  have "reached (path_of c (first_of c i)) d" "may_make (path_of c i) d"
    using may_make_ready [OF c d] len first(1) by (simp_all add: path_of_def)
  then show ?thesis
    using at m len first(1) by (simp add: link_one_def Let_def path_of_def willingD(1) [OF pf])
qed

lemma followed_not_directory:
  assumes "ready xs t c" and "followed c i"
  shows "i < length (cp_entries c) \<and> wk_kind (cp_entries c ! i) \<noteq> KDirectory"
  using followed_iff(1) [OF assms(1), of i] assms(2) by (simp add: several_def)

lemma links_succeed:
  assumes c: "ready xs t c" and pf: "willing (cp_platform c)" and d: "dirs_fresh c d" "undated d"
    and new: "\<And>i. followed c i \<Longrightarrow> dn_names d (path_of c i) = None"
    and firsts: "\<And>i. followed c i \<Longrightarrow> \<exists>k. dn_names d (path_of c (first_of c i)) = Some (MadeFile k)"
  shows "\<exists>r d'. run_alone merge (link_one c) (indexes c) no_report d = (Inr r, d')"
proof -
  have tidy: "tidy (cp_entries c)" and fs: "cp_followers c = followers (cp_entries c)" using c by (simp_all add: ready_def)
  note leaf = followed_not_directory [OF c]
  define I where "I ys r1 d1 \<longleftrightarrow> undated d1 \<and> (\<forall>q. q \<notin> path_of c ` {i \<in> set ys. followed c i} \<longrightarrow> dn_names d1 q = dn_names d q)"
    for ys and r1 :: copied and d1
  have "\<exists>r d'. run_alone merge (link_one c) (indexes c) no_report d = (Inr r, d') \<and> I (indexes c) r d'"
  proof (rule run_alone_succeeds [where I = I])
    show "I [] no_report d" using d(2) by (simp add: I_def)
    fix ys i r1 d1
    assume pre: "prefix (ys @ [i]) (indexes c)" and at: "I ys r1 d1"
    note i = prefix_indexes [OF pre]
    show "\<exists>s d2. link_one c i d1 = (Inr s, d2) \<and> I (ys @ [i]) (merge r1 s) d2"
    proof (cases "followed c i")
      case True
      note first = first_facts [OF fs True]
      have kept: "dn_names d1 q = dn_names d q" if "q \<notin> path_of c ` Collect (followed c)" for q
        using at that by (auto simp: I_def)
      have "q \<notin> path_of c ` Collect (followed c)" if "q = [] \<or> q \<in> wk_relative ` set (made_directories c)" for q
        using that not_directory [OF c] leaf by blast
      then have "dirs_fresh c d1" using d(1) kept by (simp add: dirs_fresh_def)
      moreover have "path_of c i \<notin> path_of c ` {i \<in> set ys. followed c i}"
      proof
        assume "path_of c i \<in> path_of c ` {i \<in> set ys. followed c i}"
        then obtain j where "j \<in> set ys" "followed c j" "path_of c i = path_of c j" by blast
        with path_of_eq [OF tidy, of i j] i show False by (auto simp: followed_def)
      qed
      then have "dn_names d1 (path_of c i) = None" using new [OF True] at by (simp add: I_def)
      moreover obtain k where "dn_names d1 (path_of c (first_of c i)) = Some (MadeFile k)"
        using firsts [OF True] kept [OF unlinked [OF tidy first(1,2)]] by auto
      ultimately obtain s d2 where step: "link_one c i d1 = (Inr s, d2)" using link_one_succeeds [OF c pf _ True] by blast
      have "undated d1" using at by (simp add: I_def)
      note one = link_one_Inr(2,4) [OF step True this first(1)]
      have "dn_names d2 q = dn_names d q" if "q \<notin> path_of c ` {j \<in> set (ys @ [i]). followed c j}" for q
      proof -
        have "q \<noteq> path_of c i" "q \<notin> path_of c ` {j \<in> set ys. followed c j}" using that True by auto
        then show ?thesis using one(2) at by (simp add: I_def)
      qed
      with one(1) step show ?thesis by (simp add: I_def)
    next
      case False
      have "path_of c ` {j \<in> set (ys @ [i]). followed c j} = path_of c ` {j \<in> set ys. followed c j}" using False by auto
      then show ?thesis using at link_one_other [OF False] by (simp add: I_def)
    qed
  qed
  then show ?thesis by blast
qed

lemma finish_succeeds:
  assumes c: "ready xs t c" and pf: "willing (cp_platform c)" and d: "dirs_fresh c d"
  shows "\<exists>r d'. finish c d = (Inr r, d')"
proof -
  let ?es = "rev (made_directories c)"
  have distinct: "distinct (map wk_relative (made_directories c))"
    using c by (simp add: ready_def tidy_def made_directories_def distinct_map_filter)
  have ne: "wk_relative e \<noteq> []" if "e \<in> set (made_directories c)" for e
    using c that by (simp add: ready_def made_directories_def)
  define I where "I ys r1 d1 \<longleftrightarrow> (\<forall>q. q \<notin> wk_relative ` set ys \<longrightarrow> dn_names d1 q = dn_names d q)"
    for ys :: "walked list" and r1 :: copied and d1 :: dest
  have "\<exists>r d1. run_alone merge (finish_one c) ?es no_report d = (Inr r, d1) \<and> I ?es r d1"
  proof (rule run_alone_succeeds [where I = I])
    show "I [] no_report d" by (simp add: I_def)
    fix ys e r1 d1
    assume pre: "prefix (ys @ [e]) ?es" and at: "I ys r1 d1"
    then obtain zs where "?es = ys @ e # zs" by (auto simp: prefix_def)
    then have order: "made_directories c = rev zs @ e # rev ys" by (metis append.assoc append_Cons append_Nil rev.simps(2) rev_append rev_rev_ident)
    let ?p = "wk_relative e"
    have e: "?p \<notin> wk_relative ` set ys" "?p \<in> wk_relative ` set (made_directories c)" "?p \<noteq> []"
      using distinct ne [of e] unfolding order by auto
    have "dn_names d1 a = Some fresh" if "strict_prefix a ?p" for a
    proof -
      have "a = [] \<or> a \<in> wk_relative ` set (rev zs)" using dirs_in_order [OF c order that] by blast
      then have "a \<notin> wk_relative ` set ys" "a = [] \<or> a \<in> wk_relative ` set (made_directories c)"
        using distinct ne unfolding order by auto
      then have "dn_names d1 a = dn_names d a" "dn_names d a = Some fresh"
        using at d unfolding I_def dirs_fresh_def by blast+
      then show ?thesis by simp
    qed
    then have above: "\<forall>a \<in> set (above ?p). dn_names d1 a = Some fresh" by (simp add: set_above)
    have here: "dn_names d1 ?p = Some fresh" using at d e by (simp add: I_def dirs_fresh_def)
    have "reached ?p (d1\<lparr>dn_names := (dn_names d1)(?p := x)\<rparr>)" for x
      using above by (auto simp: reached_def set_above lets_in_fresh strict_prefix_def)
    moreover have "reached ?p d1" using above by (simp add: reached_def lets_in_fresh)
    ultimately have "\<exists>s d2. finish_one c e d1 = (Inr s, d2)"
      using here by (simp add: finish_one_def chmod_dir_def date_dir_def fresh_def willingD(1) [OF pf])
    then obtain s d2 where step: "finish_one c e d1 = (Inr s, d2)" by blast
    have "I (ys @ [e]) (merge r1 s) d2"
      using at finish_one_Inr(2) [OF step here [unfolded fresh_def]] by (simp add: I_def)
    with step show "\<exists>s d2. finish_one c e d1 = (Inr s, d2) \<and> I (ys @ [e]) (merge r1 s) d2" by blast
  qed
  then obtain r d1 where loop: "run_alone merge (finish_one c) ?es no_report d = (Inr r, d1)" "I ?es r d1" by blast
  have "[] \<notin> wk_relative ` set ?es" using ne by (metis imageE set_rev)
  then have "dn_names d1 [] = Some fresh" using loop(2) d by (simp add: I_def dirs_fresh_def)
  moreover obtain names where "pf_attrs (cp_platform c) [] = Inr names" using willingD(3) [OF pf] by blast
  ultimately show ?thesis
    by (simp add: finish_def loop(1) finish_root_def chmod_dir_def willingD(1) [OF pf] fresh_def reached_def above_def)
qed

lemma materialize_alone_succeeds:
  assumes "wf_item t" and "is_folder t" and "legible t" and pf: "willing pf" and "check src dst there = None"
  shows "\<exists>r d. materialize_alone pf src dst xs t there = (Inr r, d)"
proof -
  obtain es sk where "walk src xs t = Inr (es, sk)" using walk_succeeds [OF assms(1-3)] by fast
  then obtain c r0 where prep: "prepare pf src dst xs t there = Inr (c, r0)"
    by (simp add: prepare_def assms(5) willingD(1) [OF pf])
  note c = prepare_ready [OF prep assms(1,2)]
  have tidy: "tidy (cp_entries c)" and fs: "cp_followers c = followers (cp_entries c)" using c(1) by (simp_all add: ready_def)
  have ok: "willing (cp_platform c)" using c(2) pf by simp
  obtain r1 d1 where dirs: "directories c bare = (Inr r1, d1)" using directories_succeed [OF c(1) ok] by blast
  have at1: "dirs_fresh c d1" "undated d1"
    using directories_at [OF c(1) dirs] all_fresh_undated [OF directories_done(1) [OF dirs]] by (auto simp: dirs_fresh_def)
  have new: "dn_names d1 (path_of c i) = None" if "i < length (cp_entries c)" "wk_kind (cp_entries c ! i) \<noteq> KDirectory" for i
    using directories_at [OF c(1) dirs] not_directory [OF c(1) that] by simp
  obtain ra da where copies: "run_alone merge (copy_one c) (indexes c) no_report d1 = (Inr ra, da)"
    using copies_succeed [OF c(1) ok at1 new] by blast
  note cop = copies_done [OF copies tidy at1(2)]
  have same: "dn_names da q = dn_names d1 q" if "\<And>i. copied_at c i \<Longrightarrow> q \<noteq> path_of c i" for q
    using cop(3) [of q] that by blast
  have fresh_a: "dirs_fresh c da"
    using at1(1) same not_directory [OF c(1)] copied_not_directory unfolding dirs_fresh_def by metis
  have new_a: "dn_names da (path_of c i) = None" if i: "followed c i" for i
  proof -
    have len: "i < length (cp_entries c)" "wk_kind (cp_entries c ! i) \<noteq> KDirectory"
      using i first_facts(3) [OF fs i] by (auto simp: followed_def several_def)
    have "path_of c i \<noteq> path_of c j" if "copied_at c j" for j
      using path_of_eq [OF tidy len(1), of j] that i by (auto simp: copied_at_def followed_def)
    then show ?thesis using same new [OF len] by simp
  qed
  have firsts: "\<exists>k. dn_names da (path_of c (first_of c i)) = Some (MadeFile k)" if "followed c i" for i
    using cop(2) [OF first_facts(7) [OF fs that]] first_facts(4) [OF fs that]
    by (auto simp: is_copied_def Let_def path_of_def lands_def several_def)
  obtain rb db where links: "run_alone merge (link_one c) (indexes c) no_report da = (Inr rb, db)"
    using links_succeed [OF c(1) ok fresh_a cop(1) new_a firsts] by blast
  note linked = links_done [OF links tidy fs cop(1)]
  have "q \<notin> path_of c ` Collect (followed c)" if "q = [] \<or> q \<in> wk_relative ` set (made_directories c)" for q
    using that not_directory [OF c(1)] followed_not_directory [OF c(1)] by blast
  then have fresh_b: "dirs_fresh c db" using fresh_a linked(4) by (simp add: dirs_fresh_def)
  obtain r3 d3 where "finish c db = (Inr r3, d3)" using finish_succeeds [OF c(1) ok fresh_b] by blast
  moreover have "contents_alone c d1 = (Inr (merge ra rb), db)"
    using copies links by (simp add: contents_flat indexes_def [symmetric] adding_def)
  ultimately show ?thesis by (simp add: materialize_alone_def prep dirs ended_def)
qed

text \<open>
  C39. A copy of a tree whose folders can be read and entered comes back with a report wherever the platform itself refuses
  no call: no call the copier makes is one its own earlier calls have closed off, not the attributes of
  a file nobody may write, not the last directory under one that lets nobody in.\<close>

theorem copy_is_never_in_its_own_way:
  assumes "wf_item t" and "is_folder t" and "legible t" and "willing pf" and "check src dst there = None"
    and "may_materialize pf src dst xs t there workers (a, d)"
  shows "\<exists>r. a = Inr r"
proof -
  obtain r d' where "materialize_alone pf src dst xs t there = (Inr r, d')"
    using materialize_alone_succeeds [OF assms(1-5)] by blast
  with materialize_agrees [OF assms(6,1,2)] show ?thesis by (simp add: agrees_def)
qed

subsection \<open>The gate and the copy\<close>

text \<open>
  C40. What is tracked is copied. The copy of a source through the list its gate hands on holds every entry a
  commit of the source holds that is there to be copied, whatever the recipe leaves out and however many
  workers make it.\<close>

theorem tracked_paths_are_copied:
  assumes "tells (git src) held" and "enforce utf8 git src xs = (Inr notes, ys)"
    and "may_materialize pf src dst ys t there workers (Inr r, d)" and "wf_item t" and "is_folder t"
    and "q \<in> held" and "q \<noteq> []" and "entry_at t q = Some e"
  shows "holds_entry pf ys t d q e"
proof -
  have "\<not> excludes_path ys q"
    using enforce_Inr(3) [OF assms(1,2)] assms(6) by (fastforce simp: excludes_paths gate_rows_def)
  then have "kept_path ys t q" using assms(7,8) by (simp add: kept_path_def)
  then show ?thesis using assms(8) by (rule copy_each [OF assms(3-5)])
qed

subsection \<open>A tree and its copy\<close>

text \<open>A folder its owner may not write holds a file nobody may write, under two names; another holds a third name
  of it and a link.\<close>

definition ex_at :: "32 word \<Rightarrow> 64 word \<Rightarrow> 64 word \<Rightarrow> meta" where
  "ex_at mode ino nlink = \<lparr>me_mode = mode, me_mine = True, me_len = 40, me_modified = 7, me_accessed = 8,
     me_dev = 1, me_ino = ino, me_nlink = nlink\<rparr>"

definition ex_tree :: item where
  "ex_tree = Folder (ex_at 0x1ED 1 2)
     [(''objects'', Folder (ex_at 0x16D 2 2)
        [(''pack'', Leaf RegularFile (ex_at 0x124 7 3)), (''again'', Leaf RegularFile (ex_at 0x124 7 3))]),
      (''work'', Folder (ex_at 0x1ED 3 2)
        [(''third'', Leaf RegularFile (ex_at 0x124 7 3)), (''to'', Leaf (SymLink ''third'') (ex_at 0x1FF 8 1))])]"

definition ex_platform :: platform where
  "ex_platform = \<lparr>pf_put = (\<lambda>p m. Inr \<lparr>pu_bytes = me_len m, pu_shared = True\<rparr>), pf_attrs = (\<lambda>p. Inr [''user.mark'']),
     pf_denied = (\<lambda>call p. None)\<rparr>"

lemma ex_tree_facts: "wf_item ex_tree" "is_folder ex_tree" "legible ex_tree"
  by code_simp+

lemma ex_willing: "willing ex_platform"
  by (simp add: willing_def ex_platform_def)

lemma ex_check: "check [''src''] [''home''] False = None"
  by code_simp

abbreviation ex_copies :: "nat \<Rightarrow> (error + copied) \<times> dest \<Rightarrow> bool" where
  "ex_copies \<equiv> may_materialize ex_platform [''src''] [''home''] [] ex_tree False"

lemma ex_copied: "\<exists>r d. ex_copies n (Inr r, d)"
proof -
  obtain r d where alone: "materialize_alone ex_platform [''src''] [''home''] [] ex_tree False = (Inr r, d)"
    using materialize_alone_succeeds [OF ex_tree_facts ex_willing ex_check] by blast
  obtain res where res: "ex_copies n res" using may_materialize_some by blast
  with materialize_agrees [OF res ex_tree_facts(1,2)] have "res = (Inr r, d)" by (simp add: alone agrees_def prod_eq_iff)
  with res show ?thesis by blast
qed

lemma ex_kept:
  "kept_path [] ex_tree [''objects'', ''pack'']" "kept_path [] ex_tree [''work'', ''third'']" "kept_path [] ex_tree [''work'', ''to'']"
  "\<not> kept_path [] ex_tree [''work'', ''other'']"
  by code_simp+

lemma ex_entries:
  "entry_at ex_tree [''objects'', ''pack''] = Some \<lparr>wk_relative = [''objects'', ''pack''], wk_kind = KFile, wk_meta = ex_at 0x124 7 3\<rparr>"
  "entry_at ex_tree [''work'', ''third''] = Some \<lparr>wk_relative = [''work'', ''third''], wk_kind = KFile, wk_meta = ex_at 0x124 7 3\<rparr>"
  "entry_at ex_tree [''work'', ''to''] = Some \<lparr>wk_relative = [''work'', ''to''], wk_kind = KSymlink, wk_meta = ex_at 0x1FF 8 1\<rparr>"
  by code_simp+

theorem workers_make_one_tree_witness:
  "\<exists>a d. ex_copies 8 (a, d) \<and> a = fst (materialize_alone ex_platform [''src''] [''home''] [] ex_tree False)"
proof -
  from workers_make_one_tree [OF ex_tree_facts(1,2), of ex_platform "[''src'']" "[''home'']" "[]" False 8]
  have all: "\<forall>a d. ex_copies 8 (a, d) \<longrightarrow> a = fst (materialize_alone ex_platform [''src''] [''home''] [] ex_tree False)" by blast
  obtain r d where "ex_copies 8 (Inr r, d)" using ex_copied by blast
  with all show ?thesis by blast
qed

theorem copy_holds_what_is_kept_witness:
  "\<exists>r d. ex_copies 8 (Inr r, d) \<and> dn_names d [''work'', ''other''] = None
    \<and> dn_names d [''work'', ''to''] = Some (MadeLink ''third'' (Some (8, 7)))"
proof -
  obtain r d where run: "ex_copies 8 (Inr r, d)" using ex_copied by blast
  note all = copy_holds_what_is_kept [OF run ex_tree_facts(1,2)]
  from all have "\<forall>q. q \<noteq> [] \<longrightarrow> (dn_names d q \<noteq> None \<longleftrightarrow> kept_path [] ex_tree q)" by (elim conjE)
  then have "dn_names d [''work'', ''other''] = None" using ex_kept(4) by blast
  moreover from all have "holds_entry ex_platform [] ex_tree d [''work'', ''to'']
      \<lparr>wk_relative = [''work'', ''to''], wk_kind = KSymlink, wk_meta = ex_at 0x1FF 8 1\<rparr>"
    using ex_kept(3) ex_entries(3) by blast
  moreover have "target_of ex_tree [''work'', ''to''] = Some ''third''" by code_simp
  ultimately show ?thesis using run by (auto simp: holds_entry_def times_of_def ex_at_def)
qed

theorem copy_keeps_hard_links_witness:
  "\<exists>r d. ex_copies 8 (Inr r, d) \<and> dn_names d [''objects'', ''pack''] = dn_names d [''work'', ''third'']"
proof -
  obtain r d where run: "ex_copies 8 (Inr r, d)" using ex_copied by blast
  have one: "several \<lparr>wk_relative = p, wk_kind = KFile, wk_meta = ex_at 0x124 7 3\<rparr>" for p by (simp add: several_def ex_at_def)
  from copy_keeps_hard_links [OF run ex_tree_facts(1,2)]
  have "\<forall>p q e f. kept_path [] ex_tree p \<longrightarrow> kept_path [] ex_tree q \<longrightarrow> entry_at ex_tree p = Some e \<longrightarrow> entry_at ex_tree q = Some f \<longrightarrow>
        wk_kind e = KFile \<longrightarrow> wk_kind f = KFile \<longrightarrow>
        (dn_names d p = dn_names d q \<longleftrightarrow> p = q \<or> several e \<and> several f \<and> inode_of e = inode_of f)" by (elim conjE)
  then have "dn_names d [''objects'', ''pack''] = dn_names d [''work'', ''third'']"
    using ex_kept(1,2) ex_entries(1,2) one by (simp add: inode_of_def)
  with run show ?thesis by blast
qed

theorem copy_is_never_in_its_own_way_witness: "\<exists>a r d. ex_copies 3 (a, d) \<and> a = Inr r"
proof -
  obtain a d where run: "ex_copies 3 (a, d)" using may_materialize_some by (metis surj_pair)
  from copy_is_never_in_its_own_way [OF ex_tree_facts ex_willing ex_check run] run show ?thesis by blast
qed

text \<open>A checkout that commits a file below \<open>coverage\<close>, which the table leaves out.\<close>

definition ex_covered :: item where
  "ex_covered = Folder (ex_at 0x1ED 1 2)
     [(''coverage'', Folder (ex_at 0x1ED 2 2) [(''base'', Leaf RegularFile (ex_at 0x1A4 7 1))])]"

theorem tracked_paths_are_copied_witness:
  "\<exists>r d k. may_materialize ex_platform [''src''] [''home'']
      (filter (\<lambda>x. ex_path x \<noteq> [''coverage'']) (with_recipe [[Normal ''var'']])) ex_covered False 4 (Inr r, d)
    \<and> dn_names d [''coverage'', ''base''] = Some (MadeFile k)"
proof -
  let ?ys = "filter (\<lambda>x. ex_path x \<noteq> [''coverage'']) (with_recipe [[Normal ''var'']])"
  have t: "wf_item ex_covered" "is_folder ex_covered" "legible ex_covered" by code_simp+
  obtain a d where run: "may_materialize ex_platform [''src''] [''home''] ?ys ex_covered False 4 (a, d)"
    using may_materialize_some by (metis surj_pair)
  obtain r d' where alone: "materialize_alone ex_platform [''src''] [''home''] ?ys ex_covered False = (Inr r, d')"
    using materialize_alone_succeeds [OF t ex_willing ex_check] by blast
  with materialize_agrees [OF run t(1,2)] run
  have run: "may_materialize ex_platform [''src''] [''home''] ?ys ex_covered False 4 (Inr r, d)" by (simp add: agrees_def)
  have e: "entry_at ex_covered [''coverage'', ''base'']
      = Some \<lparr>wk_relative = [''coverage'', ''base''], wk_kind = KFile, wk_meta = ex_at 0x1A4 7 1\<rparr>" by code_simp
  have "tells ((\<lambda>_ :: path. Some ex_commit) [''src'']) {[''coverage'', ''base'']}" by (rule ex_tells)
  from tracked_paths_are_copied [OF this ex_gate run t(1,2) _ _ e] run
  show ?thesis by (auto simp: holds_entry_def)
qed

end
