(* ===== verification/Spec2Isabelle.thy ===== *)
theory Spec2Isabelle
  imports Examples Safety Clones Ladder Relocate Prune CopySucceeds
begin

text \<open>
  A verification development for \<open>nodal-core\<close>, the part of Nodal that makes, judges and removes
  the homes of units of work. A home is a checkout of a project for one unit; a unit is what one
  person or agent works on. All source paths below are under \<open>src/crates/nodal-core/src/\<close>.

  The program and its parts. A command that changes something builds a \<open>plan\<close>, a list of steps
  each of which can be undone, and the runner carries it out with a journal in the registry, so
  that a process killed at any point leaves a run the next command can take back or carry on.
  Creating a home copies a base checkout through a gate that lets nothing tracked be left out,
  takes the stale caches out of the copy, gives it ports and writes its environment files.
  Before a home is removed, it is assessed: its Git status, its commits, the other stores that
  hold them, the checkout and the remote it was made from, and the processes that stand in it. A
  kernel makes the verdict from that assessment and nothing else. A reclaim stops what runs,
  moves the home into the trash in one rename and prunes what can be generated again. A survey of
  the machine judges the clones of a project by the same doctrine.

  Which theory models what.
  \<^item> \<open>Prelude\<close>: the error values of \<open>error.rs\<close> the modelled code raises; the outcome of an effectful
    operation (returned, failed, or killed where it stood) with its binding operators; lemmas on
    lists, maps and outcomes. \<open>Text\<close>: the string functions of the standard library.
  \<^item> \<open>Steps\<close> (\<open>lifecycle/step.rs\<close>): a step as a record of functions and the contract its trait
    documents as the locales \<open>step_contract\<close> and \<open>repeatable_step\<close>. \<open>Journal\<close> (\<open>lifecycle/journal.rs\<close>,
    \<open>lifecycle/owner.rs\<close>): the two tables, each statement a function on them, with the locale
    \<open>step_table\<close>. \<open>Runner\<close> (\<open>lifecycle/mod.rs\<close>): \<open>run\<close>, \<open>resume\<close>, \<open>roll_back\<close>, \<open>resolve\<close> and their
    helpers, in the code's order. \<open>Effects\<close>: what every loop of the runner keeps, through the locale
    \<open>effect_invariant\<close>. \<open>Recovery\<close> and \<open>Resumption\<close>: every ending of a run and of a recovery.
    \<open>Resolution\<close>: what a command can rely on. \<open>Examples\<close>: the properties at a reclaim.
  \<^item> \<open>Reclaim\<close> (\<open>lifecycle/ops/reclaim.rs\<close>): the step that moves a home into the trash, over a file
    system whose calls the platform may refuse.
  \<^item> \<open>Paths\<close> (\<open>paths.rs\<close>), \<open>GitStatus\<close> (\<open>git/status.rs\<close>, \<open>git/oid.rs\<close>), \<open>Needs\<close> (\<open>model/needs.rs\<close>),
    \<open>Occupancy\<close> (\<open>runtime/processes.rs\<close>, \<open>runtime/attribute/mod.rs\<close>, the table part of
    \<open>lifecycle/assess.rs\<close>), \<open>Complete\<close> (\<open>lifecycle/complete.rs\<close>, \<open>git/outside.rs\<close>), \<open>Loss\<close> and \<open>Kernel\<close>
    (\<open>lifecycle/kernel.rs\<close>, \<open>lifecycle/uniqueness.rs\<close>, \<open>model/trash.rs\<close>), \<open>Assess\<close> (\<open>lifecycle/assess.rs\<close>):
    the reading of a home and the verdict on it.
  \<^item> \<open>Remote\<close> (\<open>git/remote.rs\<close>, \<open>doctor/origin.rs\<close>), \<open>Observation\<close> (\<open>git/fetched.rs\<close>, \<open>doctor/inspect.rs\<close>),
    \<open>Trust\<close> (\<open>doctor/unique.rs\<close>, \<open>lifecycle/witness.rs\<close>), \<open>Clones\<close> (\<open>doctor/unique.rs\<close>): what this
    machine can prove of a remote it does not reach. \<open>Safety\<close> puts them with \<open>Assess\<close> and \<open>Kernel\<close>.
  \<^item> \<open>Ladder\<close> (\<open>runtime/stop.rs\<close>): stopping what runs. \<open>Ports\<close> (\<open>services/ports.rs\<close> and its three
    tables): granting ports.
  \<^item> \<open>Scalars\<close> (\<open>model/scalar.rs\<close>): the shapes of the string-like values. \<open>Activation\<close> (\<open>env/mod.rs\<close>,
    \<open>env/vars.rs\<close>, \<open>env/secrets.rs\<close>, \<open>env/stand_in.rs\<close>): the environment of a home. \<open>HomeFiles\<close>
    (\<open>env/files.rs\<close>, \<open>context/pointer.rs\<close>): the files Nodal writes into one.
  \<^item> \<open>Exclude\<close> (\<open>workspace/exclude.rs\<close>, \<open>workspace/tracked.rs\<close>), \<open>Walk\<close> (\<open>workspace/walk.rs\<close>), \<open>Workers\<close>,
    \<open>Materialize\<close>, \<open>Copies\<close>, \<open>CopySucceeds\<close> (\<open>workspace/tree.rs\<close>): the copy of a tree. \<open>HomeTree\<close>
    (\<open>workspace/remove.rs\<close>, \<open>doctor/size.rs\<close>), \<open>Relocate\<close> (\<open>workspace/relocate.rs\<close>), \<open>Prune\<close>
    (\<open>workspace/prune.rs\<close>, \<open>git/ignored.rs\<close>): removing trees.

  How state and operations correspond. A struct is a record, an enum a datatype, a table of the
  registry a list of rows with the keys its schema declares. A function that changes something
  takes the state and returns it; \<open>Result\<close> is a sum with the error on the left. The runner's state
  \<open>sys\<close> holds the world the steps act on, the rows a commit writes, the journal, a clock and
  \<open>life\<close>: how many more effects the process carries out before it is killed. A journal
  statement or a commit takes one and a step two, and with too few left the outcome is \<open>Halt\<close> in the
  state reached, or, inside a step, in a world the step may be torn at. So a theorem over all
  \<open>life\<close> is one over every moment a process can be killed at. Operations of the platform, of
  Git and of third-party code are arguments; what is relied on of them is a named hypothesis,
  as \<open>walks_everything\<close> and \<open>excludes_only_reached\<close> for \<open>git rev-list\<close> and \<open>signals_contract\<close> for the
  trait \<open>Signals\<close>.

  What the lemmas show.
  \<^item> The runner: a run ends with its rows written and the run committed, or with no row changed; a
    failed run of a plan that rolls back is taken back, or says which undo failed; a killed one
    is taken back or carried on to where an uninterrupted run ends, by any number of processes that
    are killed in turn; a clean-up leaves live runs alone; a resume that fails stops it.
  \<^item> The verdict: the kernel says safe exactly under its documented conditions; the two readings
    of an assessment give it the same reasons; the findings are the refusal; the search over other
    stores accounts for each commit; the table of processes refuses over exactly the strangers; and
    together, a home called safe holds no work that was read and is not kept elsewhere.
  \<^item> The remote: a commit counted as the remote's was observed there; a clone called clean is
    held elsewhere; Git's record of a fetch is read back; where the names of a remote agree.
  \<^item> Stopping: every stop ends and reports the truth of what it may signal; the signals climb the
    ladder; each number given to \<open>kill\<close> addresses one target; two reports that are wrong.
  \<^item> Ports: allocation refines an abstract partial injective map; blocks stay apart; fixed ports are
    granted all or not at all.
  \<^item> Values, environment and files: validators and patterns agree; the environment file and its
    readers; tracked files are untouched, and what is written or hidden comes out again.
  \<^item> Trees: the gate drops nothing tracked; a copy holds what is kept, keeps hard links, is the
    same on any number of workers and in any order of their steps, and is never in its own way;
    relocation and pruning take what they say and nothing else.

  Bounds and fuel. \<open>life\<close> is a budget and not fuel for a recursion; the lemmas \<open>costs_run\<close>,
  \<open>costs_roll_back\<close> and \<open>costs_resume\<close> bound what an operation on \<open>n\<close> steps takes (ten \<open>n\<close> and seven,
  three \<open>n\<close> and one, four \<open>n\<close> and one), and the theorems that say an operation returns ask for that
  much. The wait of the ladder is a partial function, shown to end where the clock runs. The shell
  that reads the exported environment reads as many lines as there are variables. The other
  loops are recursions on lists or carry a measure. The worker pool is a step relation; every run
  of it is shown to end and one is shown to exist.

  What is not modelled. The plans of \<open>new\<close>, \<open>adopt\<close>, \<open>merge\<close>, \<open>done\<close> and \<open>gc\<close> and the rest of
  the reclaim's steps: they call Git, shells and SQL around the parts above. The calls of Git
  themselves, the platform's scans of processes, sockets and containers, the backends that copy one
  file, digests, the parsing and rendering of TOML and JSON, and all output: system calls, third-party
  libraries and texts. The lock files of a project (\<open>runtime/lock.rs\<close>), the base substrate and the
  recipe inference have logic of their own and are left out. Texts are over the code points 0 to
  255; one connection to the registry acts at a time; what the platform refuses it refuses
  whenever it is asked, in the trees of \<open>Reclaim\<close>, \<open>Materialize\<close> and \<open>HomeTree\<close> alike; the disk of
  \<open>HomeFiles\<close> has no links and no modes.
\<close>

end
